(* ===== verification/Prelude.thy ===== *)
theory Prelude
  imports Main "HOL-Library.Char_ord" "HOL-Library.List_Lexorder"
begin

text \<open>
  Shared vocabulary of the development: the outcome of a C++ call that may throw or leave the
  defined behaviour of the language (\<open>res\<close>), checked access to a \<open>std::vector\<close>, time points of
  \<open>std::chrono\<close> read in whole seconds, and the generic locale of step relations with an
  invariant that the protocol theories interpret.
\<close>

section \<open>Outcomes of C++ code\<close>

text \<open>
  One constructor per way a call of the program can fail. The first eight are exceptions of
  \<open>extern/json/json.hpp\<close>, but that \<open>Json_Float_Conversion\<close> marks where the value of a \<open>double\<close> would be needed;
  \<open>Json_Binary_Value\<close> marks in the same way a value of the library's type for byte strings, and \<open>Json_Discarded\<close>
  the value \<open>discarded\<close>, which a reader returns when it fails without an exception. The next two are
  exceptions of \<open>std::stoi\<close>; none of them is caught anywhere under \<open>src/\<close>, so each ends the process. A failed \<open>assert\<close>, a \<open>join\<close> of a thread that cannot be
  joined and an assignment to one that still can end it too. \<open>Undefined_Behaviour\<close> marks an access the language
  does not define (a null \<open>shared_ptr\<close>, a vector index out of range, an unterminated buffer).
\<close>

datatype error =
    Json_Parse_Error
  | Json_Number_Overflow
  | Json_Missing_Key
  | Json_Type_Error
  | Json_Invalid_Utf8
  | Json_Float_Conversion
  | Json_Out_Of_Range
  | Json_Other_Error
  | Json_Binary_Value
  | Json_Discarded
  | Stoi_Invalid_Argument
  | Stoi_Out_Of_Range
  | Assertion_Failed
  | Thread_Not_Joinable
  | Thread_Terminate
  | Undefined_Behaviour

type_synonym 'a res = "error + 'a"

definition res_bind :: "'a res \<Rightarrow> ('a \<Rightarrow> 'b res) \<Rightarrow> 'b res" where
  "res_bind r f = (case r of Inl e \<Rightarrow> Inl e | Inr x \<Rightarrow> f x)"

lemma res_bind_simps [simp]:
  "res_bind (Inl e) f = Inl e"
  "res_bind (Inr x) f = f x"
  by (simp_all add: res_bind_def)

lemma res_bind_eq_Inr [simp]:
  "res_bind r f = Inr y \<longleftrightarrow> (\<exists>x. r = Inr x \<and> f x = Inr y)"
  by (cases r) auto

lemma res_bind_eq_Inl:
  "res_bind r f = Inl e \<longleftrightarrow> r = Inl e \<or> (\<exists>x. r = Inr x \<and> f x = Inl e)"
  by (cases r) auto

lemma res_bind_cong [fundef_cong]:
  "r = r' \<Longrightarrow> (\<And>x. r' = Inr x \<Longrightarrow> f x = g x) \<Longrightarrow> res_bind r f = res_bind r' g"
  by (cases r') auto

lemma res_bind_assoc: "res_bind (res_bind r f) g = res_bind r (\<lambda>x. res_bind (f x) g)"
  by (cases r) auto

lemma res_bind_Inr [simp]: "res_bind r Inr = r"
  by (cases r) auto

definition is_ok :: "'a res \<Rightarrow> bool" where
  "is_ok r = (case r of Inl _ \<Rightarrow> False | Inr _ \<Rightarrow> True)"

lemma is_ok_simps [simp]: "\<not> is_ok (Inl e)" "is_ok (Inr x)"
  by (simp_all add: is_ok_def)

lemma is_ok_iff: "is_ok r \<longleftrightarrow> (\<exists>x. r = Inr x)"
  by (cases r) auto

section \<open>Vectors and C integers\<close>

definition vec_get :: "'a list \<Rightarrow> int \<Rightarrow> 'a res" where
  "vec_get xs i = (if 0 \<le> i \<and> i < int (length xs) then Inr (xs ! nat i) else Inl Undefined_Behaviour)"

definition vec_set :: "'a list \<Rightarrow> int \<Rightarrow> 'a \<Rightarrow> 'a list res" where
  "vec_set xs i x =
     (if 0 \<le> i \<and> i < int (length xs) then Inr (xs[nat i := x]) else Inl Undefined_Behaviour)"

lemma vec_get_ok [simp]: "0 \<le> i \<Longrightarrow> i < int (length xs) \<Longrightarrow> vec_get xs i = Inr (xs ! nat i)"
  by (simp add: vec_get_def)

lemma vec_set_ok [simp]: "0 \<le> i \<Longrightarrow> i < int (length xs) \<Longrightarrow> vec_set xs i x = Inr (xs[nat i := x])"
  by (simp add: vec_set_def)

lemma vec_get_eq_Inr:
  "vec_get xs i = Inr x \<longleftrightarrow> 0 \<le> i \<and> i < int (length xs) \<and> x = xs ! nat i"
  by (auto simp: vec_get_def)

lemma vec_set_eq_Inr:
  "vec_set xs i x = Inr ys \<longleftrightarrow> 0 \<le> i \<and> i < int (length xs) \<and> ys = xs[nat i := x]"
  by (auto simp: vec_set_def)

lemma vec_set_length: "vec_set xs i x = Inr ys \<Longrightarrow> length ys = length xs"
  by (auto simp: vec_set_def split: if_splits)

text \<open>The conversion of a wider integer to a 32-bit \<open>int\<close>, modulo \<open>2 ^ 32\<close>.\<close>

definition to_int32 :: "int \<Rightarrow> int" where
  "to_int32 n = (n + 2 ^ 31) mod 2 ^ 32 - 2 ^ 31"

definition is_int32 :: "int \<Rightarrow> bool" where
  "is_int32 n \<longleftrightarrow> - (2 ^ 31) \<le> n \<and> n < 2 ^ 31"

lemma to_int32_id [simp]: "is_int32 n \<Longrightarrow> to_int32 n = n"
  by (auto simp: to_int32_def is_int32_def)

lemma is_int32_to_int32: "is_int32 (to_int32 n)"
proof -
  have "0 \<le> (n + 2 ^ 31) mod 2 ^ 32" and "(n + 2 ^ 31) mod 2 ^ 32 < (2 ^ 32 :: int)"
    by simp_all
  then show ?thesis
    unfolding to_int32_def is_int32_def by simp
qed

text \<open>The conversion of an unsigned to a signed number of 64 bits.\<close>

definition to_int64 :: "nat \<Rightarrow> int" where
  "to_int64 n = (int n + 2 ^ 63) mod 2 ^ 64 - 2 ^ 63"

section \<open>Time\<close>

text \<open>
  A time point of \<open>std::chrono::high_resolution_clock\<close> is a count of nanoseconds;
  \<open>duration_cast<seconds>(cur - start).count()\<close> truncates towards zero, also when \<open>start\<close> was
  taken after \<open>cur\<close>.
\<close>

type_synonym time_point = int

definition ns_per_second :: int where
  "ns_per_second = 1000000000"

definition elapsed_seconds :: "time_point \<Rightarrow> time_point \<Rightarrow> int" where
  "elapsed_seconds cur start =
     (let d = cur - start in if 0 \<le> d then d div ns_per_second else - ((- d) div ns_per_second))"

lemma elapsed_seconds_nonneg:
  "start \<le> cur \<Longrightarrow> elapsed_seconds cur start = (cur - start) div ns_per_second"
  by (simp add: elapsed_seconds_def)

lemma elapsed_seconds_le_iff:
  assumes "start \<le> cur"
  shows "k \<le> elapsed_seconds cur start \<longleftrightarrow> k * ns_per_second \<le> cur - start"
  using assms
  by (simp add: elapsed_seconds_nonneg ns_per_second_def) arith

section \<open>Step relations and invariants\<close>

text \<open>Runs given by their states.\<close>

lemma steps_along: "successively step (s # ss) \<Longrightarrow> step\<^sup>*\<^sup>* s (last (s # ss))"
proof (induction ss arbitrary: s)
  case (Cons t ss)
  then have "step s t" and "step\<^sup>*\<^sup>* t (last (t # ss))" by simp_all
  then show ?case using converse_rtranclp_into_rtranclp [of step s t] by simp
qed simp

text \<open>
  The interface every protocol of the development has: an initial-state predicate, a step
  relation and a predicate that holds initially and is kept by every step. The client lemma is
  that it then holds in every reachable state.
\<close>

inductive reachable :: "('s \<Rightarrow> bool) \<Rightarrow> ('s \<Rightarrow> 's \<Rightarrow> bool) \<Rightarrow> 's \<Rightarrow> bool"
  for start :: "'s \<Rightarrow> bool" and step :: "'s \<Rightarrow> 's \<Rightarrow> bool"
where
  reachable_start: "start s \<Longrightarrow> reachable start step s"
| reachable_step: "reachable start step s \<Longrightarrow> step s t \<Longrightarrow> reachable start step t"

locale step_invariant =
  fixes start :: "'s \<Rightarrow> bool"
    and step :: "'s \<Rightarrow> 's \<Rightarrow> bool"
    and holds :: "'s \<Rightarrow> bool"
  assumes holds_start: "start s \<Longrightarrow> holds s"
    and holds_step: "holds s \<Longrightarrow> step s t \<Longrightarrow> holds t"
begin

lemma reachable_holds: "reachable start step s \<Longrightarrow> holds s"
  by (induction rule: reachable.induct) (auto intro: holds_start holds_step)

lemma steps_hold: "step\<^sup>*\<^sup>* s t \<Longrightarrow> holds s \<Longrightarrow> holds t"
  by (induction rule: rtranclp_induct) (auto intro: holds_step)

end

end
