(* ===== verification/Json_Value.thy ===== *)
theory Json_Value
  imports Prelude
begin

text \<open>
  The JSON values of the vendored library \<open>extern/json/json.hpp\<close> (nlohmann json 3.10.2), as far
  as the server uses it: objects built from initialiser lists, \<open>at\<close>, \<open>value\<close> and the conversions
  to \<open>int\<close> and \<open>std::string\<close>. An object is the association list of its \<open>std::map\<close> in key order.
  The library keeps signed and unsigned numbers apart but compares them numerically; here both are
  \<open>JInt\<close>. A number that is not an integer of 64 bits keeps its text (\<open>JFloat\<close>): its conversion to
  a \<open>double\<close> is not modelled and shows up as the outcome \<open>Json_Float_Conversion\<close>.
\<close>

section \<open>Values and objects\<close>

datatype json =
    JNull
  | JBool bool
  | JInt int
  | JFloat string
  | JString string
  | JArray "json list"
  | JObject "(string \<times> json) list"

text \<open>The elements and members of a value are smaller, for functions that recurse over values.\<close>

lemma size_json_element: "x \<in> set xs \<Longrightarrow> size x < size (JArray xs)"
  by (induction xs) auto

lemma size_json_nth: "i < length xs \<Longrightarrow> size (xs ! i :: json) < Suc (size_list size xs)"
  using size_json_element [of "xs ! i" xs] by simp

lemma size_json_member: "(k, x) \<in> set xs \<Longrightarrow> size x < size (JObject xs)"
  by (induction xs) auto

text \<open>\<open>std::map::operator[]\<close> followed by an assignment, and \<open>std::map::emplace\<close>.\<close>

fun obj_assign :: "string \<Rightarrow> 'v \<Rightarrow> (string \<times> 'v) list \<Rightarrow> (string \<times> 'v) list" where
  "obj_assign k v [] = [(k, v)]"
| "obj_assign k v ((k', v') # xs) =
     (if k < k' then (k, v) # (k', v') # xs
      else if k = k' then (k, v) # xs
      else (k', v') # obj_assign k v xs)"

definition obj_emplace :: "string \<Rightarrow> 'v \<Rightarrow> (string \<times> 'v) list \<Rightarrow> (string \<times> 'v) list" where
  "obj_emplace k v xs = (case map_of xs k of None \<Rightarrow> obj_assign k v xs | Some _ \<Rightarrow> xs)"

fun obj_of_pairs :: "(string \<times> 'v) list \<Rightarrow> (string \<times> 'v) list \<Rightarrow> (string \<times> 'v) list" where
  "obj_of_pairs [] acc = acc"
| "obj_of_pairs ((k, v) # xs) acc = obj_of_pairs xs (obj_emplace k v acc)"

definition json_object :: "(string \<times> json) list \<Rightarrow> json" where
  "json_object xs = JObject (obj_of_pairs xs [])"

definition obj_wf :: "(string \<times> 'v) list \<Rightarrow> bool" where
  "obj_wf xs \<longleftrightarrow> sorted_wrt (<) (map fst xs)"

lemma obj_wf_Nil [simp]: "obj_wf []"
  by (simp add: obj_wf_def)

lemma obj_wf_Cons: "obj_wf ((k, v) # xs) \<longleftrightarrow> (\<forall>x \<in> set xs. k < fst x) \<and> obj_wf xs"
  by (simp add: obj_wf_def)

lemma set_obj_assign: "x \<in> set (obj_assign k v xs) \<Longrightarrow> x = (k, v) \<or> x \<in> set xs"
  by (induction k v xs rule: obj_assign.induct) (auto split: if_splits)

lemma obj_assign_wf: "obj_wf xs \<Longrightarrow> obj_wf (obj_assign k v xs)"
proof (induction k v xs rule: obj_assign.induct)
  case (1 k v)
  then show ?case by (simp add: obj_wf_Cons)
next
  case (2 k v k' v' xs)
  consider "k < k'" | "k = k'" | "k' < k" by (rule linorder_cases)
  then show ?case
  proof cases
    case 1
    with "2.prems" show ?thesis by (auto simp: obj_wf_Cons dest: less_trans)
  next
    case 2
    with "2.prems" show ?thesis by (simp add: obj_wf_Cons)
  next
    case 3
    then have "\<not> k < k'" and "k \<noteq> k'" by auto
    moreover from this "2.prems" have "obj_wf (obj_assign k v xs)"
      by (intro "2.IH") (auto simp: obj_wf_Cons)
    ultimately show ?thesis
      using 3 "2.prems" by (auto simp: obj_wf_Cons dest!: set_obj_assign)
  qed
qed

lemma map_of_obj_assign: "map_of (obj_assign k v xs) = (map_of xs)(k \<mapsto> v)"
  by (induction k v xs rule: obj_assign.induct) (auto simp: fun_eq_iff)

lemma obj_assign_twice [simp]: "obj_assign k v (obj_assign k w xs) = obj_assign k v xs"
  by (induction k v xs rule: obj_assign.induct) auto

lemma obj_emplace_wf: "obj_wf xs \<Longrightarrow> obj_wf (obj_emplace k v xs)"
  by (auto simp: obj_emplace_def obj_assign_wf split: option.splits)

lemma map_of_obj_emplace:
  "obj_wf xs \<Longrightarrow> map_of (obj_emplace k v xs) = [k \<mapsto> v] ++ map_of xs"
  by (auto simp: obj_emplace_def map_of_obj_assign map_add_def fun_eq_iff split: option.splits)

lemma obj_of_pairs_wf: "obj_wf acc \<Longrightarrow> obj_wf (obj_of_pairs xs acc)"
  by (induction xs acc rule: obj_of_pairs.induct) (auto simp: obj_emplace_wf)

lemma map_of_obj_of_pairs:
  "obj_wf acc \<Longrightarrow> map_of (obj_of_pairs xs acc) = map_of xs ++ map_of acc"
proof (induction xs acc rule: obj_of_pairs.induct)
  case (2 k v xs acc)
  then show ?case
    by (auto simp: obj_emplace_wf map_of_obj_emplace map_add_def fun_eq_iff split: option.splits)
qed simp

text \<open>An object is a finite map: the interface the accessors below rely on.\<close>

locale ordered_map =
  fixes assign :: "'k \<Rightarrow> 'v \<Rightarrow> 'm \<Rightarrow> 'm"
    and find :: "'m \<Rightarrow> 'k \<Rightarrow> 'v option"
    and empty :: 'm
    and wf :: "'m \<Rightarrow> bool"
  assumes wf_empty: "wf empty"
    and find_empty: "find empty k = None"
    and wf_assign: "wf m \<Longrightarrow> wf (assign k v m)"
    and find_assign: "wf m \<Longrightarrow> find (assign k v m) = (find m)(k \<mapsto> v)"
begin

lemma find_assign_same: "wf m \<Longrightarrow> find (assign k v m) k = Some v"
  by (simp add: find_assign)

lemma find_assign_other: "wf m \<Longrightarrow> k \<noteq> k' \<Longrightarrow> find (assign k v m) k' = find m k'"
  by (simp add: find_assign)

lemma find_fold_assign:
  "wf m \<Longrightarrow> find (fold (\<lambda>(k, v). assign k v) kvs m) = find m ++ map_of (rev kvs)"
  by (induction kvs arbitrary: m) (auto simp: find_assign wf_assign map_add_def fun_eq_iff
      split: option.splits)

end

interpretation json_obj: ordered_map obj_assign map_of "[]" obj_wf
  by unfold_locales (auto simp: obj_assign_wf map_of_obj_assign)

section \<open>Accessors\<close>

definition json_at :: "string \<Rightarrow> json \<Rightarrow> json res" where
  "json_at k j = (case j of
     JObject xs \<Rightarrow> (case map_of xs k of None \<Rightarrow> Inl Json_Missing_Key | Some v \<Rightarrow> Inr v)
   | _ \<Rightarrow> Inl Json_Type_Error)"

text \<open>The conversion to \<open>int\<close> narrows 64 bits to 32 and reads a boolean as 0 or 1.\<close>

definition json_get_int :: "json \<Rightarrow> int res" where
  "json_get_int j = (case j of
     JInt n \<Rightarrow> Inr (to_int32 n)
   | JFloat _ \<Rightarrow> Inl Json_Float_Conversion
   | JBool b \<Rightarrow> Inr (if b then 1 else 0)
   | _ \<Rightarrow> Inl Json_Type_Error)"

definition json_get_string :: "json \<Rightarrow> string res" where
  "json_get_string j = (case j of JString s \<Rightarrow> Inr s | _ \<Rightarrow> Inl Json_Type_Error)"

definition json_value_int :: "string \<Rightarrow> int \<Rightarrow> json \<Rightarrow> int res" where
  "json_value_int k d j = (case j of
     JObject xs \<Rightarrow> (case map_of xs k of None \<Rightarrow> Inr d | Some v \<Rightarrow> json_get_int v)
   | _ \<Rightarrow> Inl Json_Type_Error)"

definition json_value_string :: "string \<Rightarrow> string \<Rightarrow> json \<Rightarrow> string res" where
  "json_value_string k d j = (case j of
     JObject xs \<Rightarrow> (case map_of xs k of None \<Rightarrow> Inr d | Some v \<Rightarrow> json_get_string v)
   | _ \<Rightarrow> Inl Json_Type_Error)"

lemma json_get_int_JInt [simp]: "is_int32 n \<Longrightarrow> json_get_int (JInt n) = Inr n"
  by (simp add: json_get_int_def)

lemma json_get_string_JString [simp]: "json_get_string (JString s) = Inr s"
  by (simp add: json_get_string_def)

lemma json_at_object [simp]:
  "json_at k (json_object xs) =
     (case map_of xs k of None \<Rightarrow> Inl Json_Missing_Key | Some v \<Rightarrow> Inr v)"
  by (simp add: json_at_def json_object_def map_of_obj_of_pairs)

lemma json_value_int_object [simp]:
  "json_value_int k d (json_object xs) =
     (case map_of xs k of None \<Rightarrow> Inr d | Some v \<Rightarrow> json_get_int v)"
  by (simp add: json_value_int_def json_object_def map_of_obj_of_pairs)

lemma json_value_string_object [simp]:
  "json_value_string k d (json_object xs) =
     (case map_of xs k of None \<Rightarrow> Inr d | Some v \<Rightarrow> json_get_string v)"
  by (simp add: json_value_string_def json_object_def map_of_obj_of_pairs)

end
