(* ===== verification/Json_Dump.thy ===== *)
theory Json_Dump
  imports Json_Value
begin

text \<open>
  The serializer of \<open>extern/json/json.hpp\<close> as \<open>json::dump()\<close> calls it: no indentation,
  \<open>ensure_ascii\<close> off, strict error handling. Strings are checked by the table-driven UTF-8
  automaton \<open>decode\<close>, and an ill-formed string ends in the type error 316.
\<close>

abbreviation byte :: "char \<Rightarrow> nat" where
  "byte c \<equiv> of_char c"

abbreviation quote_char :: char where
  "quote_char \<equiv> CHR 0x22"

abbreviation backslash_char :: char where
  "backslash_char \<equiv> CHR 0x5C"

lemma char_of_byte [simp]: "char_of (byte c) = c"
  by simp

lemma byte_eq_iff: "c = d \<longleftrightarrow> byte c = byte d"
  by simp

section \<open>The UTF-8 automaton\<close>

text \<open>
  The array \<open>utf8d\<close>: the character class of each byte, then the transition rows of the states 0
  (accept) to 8; state 1 is the rejecting state.
\<close>

definition utf8_runs :: "(nat \<times> nat) list" where
  "utf8_runs =
     [(128, 0), (16, 1), (16, 9), (32, 7), (2, 8), (30, 2), (1, 10), (12, 3), (1, 4), (2, 3),
      (1, 11), (3, 6), (1, 5), (11, 8)]"

definition utf8_classes :: "nat list" where
  "utf8_classes = concat (map (\<lambda>(n, t). replicate n t) utf8_runs)"

definition utf8_rows :: "nat list list" where
  "utf8_rows =
    [[0, 1, 2, 3, 5, 8, 7, 1, 1, 1, 4, 6, 1, 1, 1, 1],
     [1, 1, 1, 1, 1, 1, 1, 1, 1, 1, 1, 1, 1, 1, 1, 1],
     [1, 0, 1, 1, 1, 1, 1, 0, 1, 0, 1, 1, 1, 1, 1, 1],
     [1, 2, 1, 1, 1, 1, 1, 2, 1, 2, 1, 1, 1, 1, 1, 1],
     [1, 1, 1, 1, 1, 1, 1, 2, 1, 1, 1, 1, 1, 1, 1, 1],
     [1, 2, 1, 1, 1, 1, 1, 1, 1, 2, 1, 1, 1, 1, 1, 1],
     [1, 1, 1, 1, 1, 1, 1, 3, 1, 3, 1, 1, 1, 1, 1, 1],
     [1, 3, 1, 1, 1, 1, 1, 3, 1, 3, 1, 1, 1, 1, 1, 1],
     [1, 3, 1, 1, 1, 1, 1, 1, 1, 1, 1, 1, 1, 1, 1, 1]]"

definition utf8_decode :: "nat \<Rightarrow> nat \<Rightarrow> nat \<Rightarrow> nat \<times> nat" where
  "utf8_decode state codep b =
     (let type = utf8_classes ! b;
          codep' = (if state \<noteq> 0 then b mod 64 + codep * 64 mod 2 ^ 32 else b mod 2 ^ (8 - type))
      in (utf8_rows ! state ! type, codep'))"

fun run_from :: "nat \<Rightarrow> (nat \<times> 'a) list \<Rightarrow> nat \<Rightarrow> 'a option" where
  "run_from off [] b = None"
| "run_from off ((n, t) # rs) b = (if b < off + n then Some t else run_from (off + n) rs b)"

lemma nth_runs:
  "off \<le> b \<Longrightarrow> run_from off rs b = Some t \<Longrightarrow>
   concat (map (\<lambda>(n, t). replicate n t) rs) ! (b - off) = t"
proof (induction off rs b rule: run_from.induct)
  case (2 off n t' rs b)
  show ?case
  proof (cases "b < off + n")
    case True
    then have "b - off < n" using "2.prems"(1) by linarith
    with True "2.prems" show ?thesis by (simp add: nth_append)
  next
    case False
    then have "\<not> b - off < n" and "b - off - n = b - (off + n)" by linarith+
    with False 2 show ?thesis by (simp add: nth_append)
  qed
qed simp

lemma utf8_class:
  "run_from 0 utf8_runs b = Some t \<Longrightarrow> utf8_classes ! b = t"
  using nth_runs [of 0 b utf8_runs t] by (simp add: utf8_classes_def)

lemma utf8_run:
  "run_from 0 utf8_runs b =
     (if b < 128 then Some 0 else if b < 144 then Some 1 else if b < 160 then Some 9
      else if b < 192 then Some 7 else if b < 194 then Some 8 else if b < 224 then Some 2
      else if b < 225 then Some 10 else if b < 237 then Some 3 else if b < 238 then Some 4
      else if b < 240 then Some 3 else if b < 241 then Some 11 else if b < 244 then Some 6
      else if b < 245 then Some 5 else if b < 256 then Some 8 else None)"
  unfolding utf8_runs_def by simp

lemma utf8_class_values:
  "b < 128 \<Longrightarrow> utf8_classes ! b = 0"
  "128 \<le> b \<Longrightarrow> b < 144 \<Longrightarrow> utf8_classes ! b = 1"
  "144 \<le> b \<Longrightarrow> b < 160 \<Longrightarrow> utf8_classes ! b = 9"
  "160 \<le> b \<Longrightarrow> b < 192 \<Longrightarrow> utf8_classes ! b = 7"
  "192 \<le> b \<Longrightarrow> b < 194 \<Longrightarrow> utf8_classes ! b = 8"
  "194 \<le> b \<Longrightarrow> b < 224 \<Longrightarrow> utf8_classes ! b = 2"
  "utf8_classes ! 224 = 10"
  "225 \<le> b \<Longrightarrow> b < 237 \<Longrightarrow> utf8_classes ! b = 3"
  "utf8_classes ! 237 = 4"
  "238 \<le> b \<Longrightarrow> b < 240 \<Longrightarrow> utf8_classes ! b = 3"
  "utf8_classes ! 240 = 11"
  "241 \<le> b \<Longrightarrow> b < 244 \<Longrightarrow> utf8_classes ! b = 6"
  "utf8_classes ! 244 = 5"
  "245 \<le> b \<Longrightarrow> b < 256 \<Longrightarrow> utf8_classes ! b = 8"
  by (rule utf8_class; simp add: utf8_run)+

lemma utf8_class_cases:
  assumes "b < 256"
  obtains "utf8_classes ! b = 0" "b < 128"
  | "utf8_classes ! b = 1" "128 \<le> b" "b < 144"
  | "utf8_classes ! b = 9" "144 \<le> b" "b < 160"
  | "utf8_classes ! b = 7" "160 \<le> b" "b < 192"
  | "utf8_classes ! b = 8" "192 \<le> b" "b < 194"
  | "utf8_classes ! b = 2" "194 \<le> b" "b < 224"
  | "utf8_classes ! b = 10" "b = 224"
  | "utf8_classes ! b = 3" "225 \<le> b" "b < 237"
  | "utf8_classes ! b = 4" "b = 237"
  | "utf8_classes ! b = 3" "238 \<le> b" "b < 240"
  | "utf8_classes ! b = 11" "b = 240"
  | "utf8_classes ! b = 6" "241 \<le> b" "b < 244"
  | "utf8_classes ! b = 5" "b = 244"
  | "utf8_classes ! b = 8" "245 \<le> b"
proof -
  have "b < 128 \<or> (128 \<le> b \<and> b < 144) \<or> (144 \<le> b \<and> b < 160) \<or> (160 \<le> b \<and> b < 192) \<or>
      (192 \<le> b \<and> b < 194) \<or> (194 \<le> b \<and> b < 224) \<or> b = 224 \<or> (225 \<le> b \<and> b < 237) \<or>
      b = 237 \<or> (238 \<le> b \<and> b < 240) \<or> b = 240 \<or> (241 \<le> b \<and> b < 244) \<or> b = 244 \<or> 245 \<le> b"
    by presburger
  then consider (a) "b < 128"
    | (b) "128 \<le> b" "b < 144"
    | (c) "144 \<le> b" "b < 160"
    | (d) "160 \<le> b" "b < 192"
    | (e) "192 \<le> b" "b < 194"
    | (f) "194 \<le> b" "b < 224"
    | (g) "b = 224"
    | (h) "225 \<le> b" "b < 237"
    | (i) "b = 237"
    | (j) "238 \<le> b" "b < 240"
    | (k) "b = 240"
    | (l) "241 \<le> b" "b < 244"
    | (m) "b = 244"
    | (n) "245 \<le> b"
    by blast
  then show thesis
  proof cases
    case a
    with that(1) show ?thesis by (simp add: utf8_class_values)
  next
    case b
    with that(2) show ?thesis by (simp add: utf8_class_values)
  next
    case c
    with that(3) show ?thesis by (simp add: utf8_class_values)
  next
    case d
    with that(4) show ?thesis by (simp add: utf8_class_values)
  next
    case e
    with that(5) show ?thesis by (simp add: utf8_class_values)
  next
    case f
    with that(6) show ?thesis by (simp add: utf8_class_values)
  next
    case g
    with that(7) show ?thesis by (simp add: utf8_class_values)
  next
    case h
    with that(8) show ?thesis by (simp add: utf8_class_values)
  next
    case i
    with that(9) show ?thesis by (simp add: utf8_class_values)
  next
    case j
    with that(10) show ?thesis by (simp add: utf8_class_values)
  next
    case k
    with that(11) show ?thesis by (simp add: utf8_class_values)
  next
    case l
    with that(12) show ?thesis by (simp add: utf8_class_values)
  next
    case m
    with that(13) show ?thesis by (simp add: utf8_class_values)
  next
    case n
    with that(14) assms show ?thesis by (simp add: utf8_class_values)
  qed
qed

text \<open>What the table says, one line per state.\<close>

lemma utf8_next_0:
  "b < 256 \<Longrightarrow> fst (utf8_decode 0 cp b) =
     (if b < 128 then 0 else if b < 194 then 1 else if b < 224 then 2 else if b = 224 then 4
      else if b = 237 then 5 else if b < 240 then 3 else if b = 240 then 6
      else if b < 244 then 7 else if b = 244 then 8 else 1)"
  by (erule utf8_class_cases) (simp_all add: utf8_decode_def utf8_rows_def)

lemma utf8_next_cont:
  assumes "b < 256"
  shows "fst (utf8_decode 2 cp b) = (if 128 \<le> b \<and> b < 192 then 0 else 1)"
    and "fst (utf8_decode 3 cp b) = (if 128 \<le> b \<and> b < 192 then 2 else 1)"
    and "fst (utf8_decode 4 cp b) = (if 160 \<le> b \<and> b < 192 then 2 else 1)"
    and "fst (utf8_decode 5 cp b) = (if 128 \<le> b \<and> b < 160 then 2 else 1)"
    and "fst (utf8_decode 6 cp b) = (if 144 \<le> b \<and> b < 192 then 3 else 1)"
    and "fst (utf8_decode 7 cp b) = (if 128 \<le> b \<and> b < 192 then 3 else 1)"
    and "fst (utf8_decode 8 cp b) = (if 128 \<le> b \<and> b < 144 then 3 else 1)"
  using assms by (erule_tac utf8_class_cases; simp add: utf8_decode_def utf8_rows_def)+

section \<open>Escaped strings\<close>

definition hex_digit :: "nat \<Rightarrow> char" where
  "hex_digit n = char_of (if n < 10 then n + 48 else n + 87)"

text \<open>The format \<open>%04x\<close> of a 16-bit number.\<close>

definition hex4 :: "nat \<Rightarrow> string" where
  "hex4 n = [hex_digit (n div 4096 mod 16), hex_digit (n div 256 mod 16),
             hex_digit (n div 16 mod 16), hex_digit (n mod 16)]"

text \<open>What is written for a complete code point whose last byte is \<open>c\<close>.\<close>

definition escape_codepoint :: "nat \<Rightarrow> char \<Rightarrow> string" where
  "escape_codepoint cp c =
     (if cp = 8 then [backslash_char, CHR ''b'']
      else if cp = 9 then [backslash_char, CHR ''t'']
      else if cp = 10 then [backslash_char, CHR ''n'']
      else if cp = 12 then [backslash_char, CHR ''f'']
      else if cp = 13 then [backslash_char, CHR ''r'']
      else if cp = 34 then [backslash_char, quote_char]
      else if cp = 92 then [backslash_char, backslash_char]
      else if cp \<le> 31 then [backslash_char, CHR ''u''] @ hex4 cp
      else [c])"

fun dump_escaped_from :: "nat \<Rightarrow> nat \<Rightarrow> string \<Rightarrow> string res" where
  "dump_escaped_from state codep [] =
     (if state = 0 then Inr [] else Inl Json_Invalid_Utf8)"
| "dump_escaped_from state codep (c # s) =
     (let (state', codep') = utf8_decode state codep (byte c) in
      if state' = 0 then
        res_bind (dump_escaped_from 0 codep' s) (\<lambda>t. Inr (escape_codepoint codep' c @ t))
      else if state' = 1 then Inl Json_Invalid_Utf8
      else res_bind (dump_escaped_from state' codep' s) (\<lambda>t. Inr (c # t)))"

definition dump_escaped :: "string \<Rightarrow> string res" where
  "dump_escaped s = dump_escaped_from 0 0 s"

section \<open>Integers\<close>

definition digit_char :: "nat \<Rightarrow> char" where
  "digit_char n = char_of (n + 48)"

text \<open>An entry of the table \<open>digits_to_99\<close>.\<close>

definition digits_to_99 :: "nat \<Rightarrow> string" where
  "digits_to_99 n = [digit_char (n div 10), digit_char (n mod 10)]"

function dump_abs :: "nat \<Rightarrow> string" where
  "dump_abs n =
     (if 100 \<le> n then dump_abs (n div 100) @ digits_to_99 (n mod 100)
      else if 10 \<le> n then digits_to_99 n
      else [digit_char n])"
  by pat_completeness auto
termination
  by (relation "measure id") auto

declare dump_abs.simps [simp del]

definition dump_integer :: "int \<Rightarrow> string" where
  "dump_integer x =
     (if x = 0 then ''0'' else if x < 0 then CHR ''-'' # dump_abs (nat (- x)) else dump_abs (nat x))"

section \<open>Values\<close>

fun comma_join :: "string res list \<Rightarrow> string res" where
  "comma_join [] = Inr []"
| "comma_join [r] = r"
| "comma_join (r # r' # rs) =
     res_bind r (\<lambda>t. res_bind (comma_join (r' # rs)) (\<lambda>u. Inr (t @ CHR '','' # u)))"

definition dump_string :: "string \<Rightarrow> string res" where
  "dump_string s = res_bind (dump_escaped s) (\<lambda>t. Inr (quote_char # t @ [quote_char]))"

definition dump_member :: "string \<Rightarrow> string res \<Rightarrow> string res" where
  "dump_member k r = res_bind (dump_string k) (\<lambda>t. res_bind r (\<lambda>u. Inr (t @ CHR '':'' # u)))"

fun json_dump :: "json \<Rightarrow> string res" where
  "json_dump JNull = Inr ''null''"
| "json_dump (JBool b) = Inr (if b then ''true'' else ''false'')"
| "json_dump (JInt n) = Inr (dump_integer n)"
| "json_dump (JFloat l) = Inl Json_Float_Conversion"
| "json_dump (JString s) = dump_string s"
| "json_dump (JArray xs) =
     (if xs = [] then Inr ''[]''
      else res_bind (comma_join (map json_dump xs)) (\<lambda>t. Inr (CHR ''['' # t @ '']'')))"
| "json_dump (JObject xs) =
     (if xs = [] then Inr ''{}''
      else res_bind (comma_join (map (\<lambda>(k, v). dump_member k (json_dump v)) xs))
             (\<lambda>t. Inr (CHR ''{'' # t @ ''}'')))"

end
