(* ===== verification/Json_Parse.thy ===== *)
theory Json_Parse
  imports Json_Dump
begin

text \<open>
  The lexer and the parser of \<open>extern/json/json.hpp\<close>: \<open>lexer::scan\<close> and the functions it calls, the
  state machine \<open>parser::sax_parse_internal\<close> with the DOM built by \<open>json_sax_dom_parser\<close>, and the
  entry points \<open>json::parse\<close> and \<open>json::accept\<close>. The input is the text that is left; comments are
  never skipped, since no caller asks for it.
\<close>

section \<open>Strings\<close>

definition hex_value :: "char \<Rightarrow> nat option" where
  "hex_value c =
     (let b = byte c in
      if 48 \<le> b \<and> b \<le> 57 then Some (b - 48)
      else if 65 \<le> b \<and> b \<le> 70 then Some (b - 55)
      else if 97 \<le> b \<and> b \<le> 102 then Some (b - 87)
      else None)"

fun get_codepoint_from :: "nat \<Rightarrow> nat \<Rightarrow> string \<Rightarrow> (nat \<times> string) option" where
  "get_codepoint_from 0 acc s = Some (acc, s)"
| "get_codepoint_from (Suc n) acc [] = None"
| "get_codepoint_from (Suc n) acc (c # s) =
     (case hex_value c of
        None \<Rightarrow> None
      | Some h \<Rightarrow> get_codepoint_from n (acc + h * 16 ^ n) s)"

text \<open>The four hexadecimal digits after \<open>\u\<close>.\<close>

definition get_codepoint :: "string \<Rightarrow> (nat \<times> string) option" where
  "get_codepoint s = get_codepoint_from 4 0 s"

definition utf8_encode :: "nat \<Rightarrow> string" where
  "utf8_encode cp =
     (if cp < 128 then [char_of cp]
      else if cp \<le> 2047 then [char_of (192 + cp div 64), char_of (128 + cp mod 64)]
      else if cp \<le> 65535 then
        [char_of (224 + cp div 4096), char_of (128 + cp div 64 mod 64), char_of (128 + cp mod 64)]
      else
        [char_of (240 + cp div 262144), char_of (128 + cp div 4096 mod 64),
         char_of (128 + cp div 64 mod 64), char_of (128 + cp mod 64)])"

text \<open>The case \<open>'u'\<close> of the escapes: one code point, or a pair of surrogates.\<close>

definition scan_unicode_escape :: "string \<Rightarrow> (string \<times> string) option" where
  "scan_unicode_escape s =
     (case get_codepoint s of
        None \<Rightarrow> None
      | Some (cp1, r) \<Rightarrow>
          if 55296 \<le> cp1 \<and> cp1 \<le> 56319 then
            (case r of
               c # d # r' \<Rightarrow>
                 if c = backslash_char \<and> d = CHR ''u'' then
                   (case get_codepoint r' of
                      None \<Rightarrow> None
                    | Some (cp2, r'') \<Rightarrow>
                        if 56320 \<le> cp2 \<and> cp2 \<le> 57343
                        then Some (utf8_encode (cp1 * 1024 + cp2 - 56613888), r'')
                        else None)
                 else None
             | _ \<Rightarrow> None)
          else if 56320 \<le> cp1 \<and> cp1 \<le> 57343 then None
          else Some (utf8_encode cp1, r))"

text \<open>The character after a backslash: the bytes it adds and the text that is left.\<close>

fun scan_escape :: "string \<Rightarrow> (string \<times> string) option" where
  "scan_escape [] = None"
| "scan_escape (c # s) =
     (if c = quote_char then Some ([quote_char], s)
      else if c = backslash_char then Some ([backslash_char], s)
      else if c = CHR ''/'' then Some (''/'', s)
      else if c = CHR ''b'' then Some ([CHR 0x08], s)
      else if c = CHR ''f'' then Some ([CHR 0x0C], s)
      else if c = CHR ''n'' then Some ([CHR 0x0A], s)
      else if c = CHR ''r'' then Some ([CHR 0x0D], s)
      else if c = CHR ''t'' then Some ([CHR 0x09], s)
      else if c = CHR ''u'' then scan_unicode_escape s
      else None)"

fun next_byte_in_range :: "(nat \<times> nat) list \<Rightarrow> string \<Rightarrow> (string \<times> string) option" where
  "next_byte_in_range [] s = Some ([], s)"
| "next_byte_in_range ((lo, hi) # rs) [] = None"
| "next_byte_in_range ((lo, hi) # rs) (c # s) =
     (if lo \<le> byte c \<and> byte c \<le> hi
      then map_option (\<lambda>(b, r). (c # b, r)) (next_byte_in_range rs s)
      else None)"

text \<open>The ranges of the bytes after a lead byte; \<open>None\<close> for a byte that starts no sequence.\<close>

definition utf8_tail_ranges :: "nat \<Rightarrow> (nat \<times> nat) list option" where
  "utf8_tail_ranges b =
     (if 194 \<le> b \<and> b \<le> 223 then Some [(128, 191)]
      else if b = 224 then Some [(160, 191), (128, 191)]
      else if 225 \<le> b \<and> b \<le> 236 \<or> b = 238 \<or> b = 239 then Some [(128, 191), (128, 191)]
      else if b = 237 then Some [(128, 159), (128, 191)]
      else if b = 240 then Some [(144, 191), (128, 191), (128, 191)]
      else if 241 \<le> b \<and> b \<le> 243 then Some [(128, 191), (128, 191), (128, 191)]
      else if b = 244 then Some [(128, 143), (128, 191), (128, 191)]
      else None)"

text \<open>The cases of the bytes that end in an error, and of those that are copied.\<close>

definition control_byte :: "nat \<Rightarrow> bool" where
  "control_byte b \<longleftrightarrow> b < 32"

definition ascii_byte :: "nat \<Rightarrow> bool" where
  "ascii_byte b \<longleftrightarrow> 32 \<le> b \<and> b < 128"

lemma string_byte_simps [simp]:
  "control_byte b \<longleftrightarrow> b < 32" "32 \<le> b \<Longrightarrow> ascii_byte b \<longleftrightarrow> b < 128"
  by (simp_all add: control_byte_def ascii_byte_def)

lemma get_codepoint_from_length:
  "get_codepoint_from n acc s = Some (cp, r) \<Longrightarrow> length r \<le> length s"
  by (induction n acc s rule: get_codepoint_from.induct) (auto split: option.splits)

lemma get_codepoint_length: "get_codepoint s = Some (cp, r) \<Longrightarrow> length r \<le> length s"
  by (auto simp: get_codepoint_def dest: get_codepoint_from_length)

lemma scan_unicode_escape_length:
  "scan_unicode_escape s = Some (b, r) \<Longrightarrow> length r \<le> length s"
  by (fastforce simp: scan_unicode_escape_def dest!: get_codepoint_length
      split: option.splits if_splits list.splits)

lemma scan_escape_length: "scan_escape s = Some (b, r) \<Longrightarrow> length r < length s"
  by (cases s) (auto dest: scan_unicode_escape_length split: if_splits)

lemma next_byte_in_range_length:
  "next_byte_in_range rs s = Some (b, r) \<Longrightarrow> length r \<le> length s"
  by (induction rs s arbitrary: b r rule: next_byte_in_range.induct) (fastforce split: if_splits)+

text \<open>\<open>scan_string\<close>, entered after the opening quote: the decoded bytes and what is left.\<close>

function scan_string :: "string \<Rightarrow> (string \<times> string) option" where
  "scan_string [] = None"
| "scan_string (c # s) =
     (if c = quote_char then Some ([], s)
      else if c = backslash_char then
        (case scan_escape s of
           None \<Rightarrow> None
         | Some (b, r) \<Rightarrow> map_option (\<lambda>(t, r'). (b @ t, r')) (scan_string r))
      else if control_byte (byte c) then None
      else if ascii_byte (byte c) then map_option (\<lambda>(t, r'). (c # t, r')) (scan_string s)
      else
        (case utf8_tail_ranges (byte c) of
           None \<Rightarrow> None
         | Some rs \<Rightarrow>
             (case next_byte_in_range rs s of
                None \<Rightarrow> None
              | Some (b, r) \<Rightarrow> map_option (\<lambda>(t, r'). (c # b @ t, r')) (scan_string r))))"
  by pat_completeness auto
termination
  by (relation "measure length")
    (auto dest: scan_escape_length next_byte_in_range_length)

declare scan_string.simps(2) [simp del]

lemma scan_string_cases:
  assumes "scan_string (c # s) = Some (t, r)"
  obtains "c = quote_char" "t = []" "r = s"
  | b s' t' where "c = backslash_char" "scan_escape s = Some (b, s')" "scan_string s' = Some (t', r)"
      "t = b @ t'"
  | t' where "c \<noteq> quote_char" "c \<noteq> backslash_char" "32 \<le> byte c" "byte c < 128"
      "scan_string s = Some (t', r)" "t = c # t'"
  | rs b s' t' where "128 \<le> byte c" "utf8_tail_ranges (byte c) = Some rs"
      "next_byte_in_range rs s = Some (b, s')" "scan_string s' = Some (t', r)" "t = c # b @ t'"
proof -
  note eq = assms [unfolded scan_string.simps(2)]
  consider (quote) "c = quote_char" | (esc) "c = backslash_char"
    | (plain) "c \<noteq> quote_char" "c \<noteq> backslash_char" "byte c < 128"
    | (multi) "c \<noteq> quote_char" "c \<noteq> backslash_char" "128 \<le> byte c"
    by linarith
  then show thesis
  proof cases
    case quote
    with eq that(1) show ?thesis by simp
  next
    case esc
    with eq obtain b s' t' where "scan_escape s = Some (b, s')" "scan_string s' = Some (t', r)"
      "t = b @ t'"
      by (auto split: option.splits)
    with esc that(2) show ?thesis by blast
  next
    case plain
    with eq have "32 \<le> byte c" and "\<exists>t'. scan_string s = Some (t', r) \<and> t = c # t'"
      by (auto split: if_splits)
    with plain that(3) show ?thesis by blast
  next
    case multi
    then have "\<not> byte c < 32" and "\<not> byte c < 128" by simp_all
    with multi eq obtain rs b s' t' where "utf8_tail_ranges (byte c) = Some rs"
      "next_byte_in_range rs s = Some (b, s')" "scan_string s' = Some (t', r)" "t = c # b @ t'"
      by (auto split: option.splits)
    with multi that(4) show ?thesis by blast
  qed
qed

lemma scan_string_length: "scan_string s = Some (t, r) \<Longrightarrow> length r < length s"
proof (induction "length s" arbitrary: s t r rule: less_induct)
  case less
  show ?case
  proof (cases s)
    case Nil
    with less.prems show ?thesis by simp
  next
    case (Cons c s')
    have IH: "length r < length u" if "scan_string u = Some (t', r)" "length u \<le> length s'" for u t'
      using that Cons less.hyps [of u t' r] by simp
    from less.prems [unfolded Cons] show ?thesis
    proof (cases rule: scan_string_cases)
      case (2 b u t')
      with IH [of u t'] Cons scan_escape_length [of s' b u] show ?thesis by simp
    next
      case (4 rs b u t')
      with IH [of u t'] Cons next_byte_in_range_length [of rs s' b u] show ?thesis by simp
    qed (use IH Cons in fastforce)+
  qed
qed

section \<open>Numbers\<close>

text \<open>The states of \<open>scan_number\<close> are its labels.\<close>

datatype num_state = Minus | Zero | Any1 | Decimal1 | Decimal2 | Exponent | Sign | Any2

datatype num_type = Num_Unsigned | Num_Integer | Num_Float

definition is_digit :: "char \<Rightarrow> bool" where
  "is_digit c \<longleftrightarrow> 48 \<le> byte c \<and> byte c \<le> 57"

definition is_exp_char :: "char \<Rightarrow> bool" where
  "is_exp_char c \<longleftrightarrow> c = CHR ''e'' \<or> c = CHR ''E''"

text \<open>
  The switch after each label on the next character (\<open>None\<close> is the end of the input): \<open>None\<close> where the
  code jumps to \<open>scan_number_done\<close>, and \<open>Some None\<close> where it reports an error.
\<close>

definition next_is :: "char \<Rightarrow> char option \<Rightarrow> bool" where
  "next_is c oc \<longleftrightarrow> oc = Some c"

definition next_digit :: "char option \<Rightarrow> bool" where
  "next_digit oc \<longleftrightarrow> (case oc of None \<Rightarrow> False | Some c \<Rightarrow> is_digit c)"

definition next_exp :: "char option \<Rightarrow> bool" where
  "next_exp oc \<longleftrightarrow> (case oc of None \<Rightarrow> False | Some c \<Rightarrow> is_exp_char c)"

definition scan_number_minus :: "char option \<Rightarrow> num_state option option" where
  "scan_number_minus oc =
     Some (if next_is CHR ''0'' oc then Some Zero else if next_digit oc then Some Any1 else None)"

definition scan_number_zero :: "char option \<Rightarrow> num_state option option" where
  "scan_number_zero oc =
     (if next_is CHR ''.'' oc then Some (Some Decimal1)
      else if next_exp oc then Some (Some Exponent) else None)"

definition scan_number_any1 :: "char option \<Rightarrow> num_state option option" where
  "scan_number_any1 oc =
     (if next_digit oc then Some (Some Any1)
      else if next_is CHR ''.'' oc then Some (Some Decimal1)
      else if next_exp oc then Some (Some Exponent) else None)"

definition scan_number_decimal1 :: "char option \<Rightarrow> num_state option option" where
  "scan_number_decimal1 oc = Some (if next_digit oc then Some Decimal2 else None)"

definition scan_number_decimal2 :: "char option \<Rightarrow> num_state option option" where
  "scan_number_decimal2 oc =
     (if next_digit oc then Some (Some Decimal2)
      else if next_exp oc then Some (Some Exponent) else None)"

definition scan_number_exponent :: "char option \<Rightarrow> num_state option option" where
  "scan_number_exponent oc =
     Some (if next_is CHR ''+'' oc \<or> next_is CHR ''-'' oc then Some Sign
           else if next_digit oc then Some Any2 else None)"

definition scan_number_sign :: "char option \<Rightarrow> num_state option option" where
  "scan_number_sign oc = Some (if next_digit oc then Some Any2 else None)"

definition scan_number_any2 :: "char option \<Rightarrow> num_state option option" where
  "scan_number_any2 oc = (if next_digit oc then Some (Some Any2) else None)"

definition num_next :: "num_state \<Rightarrow> char option \<Rightarrow> num_state option option" where
  "num_next st = (case st of
     Minus \<Rightarrow> scan_number_minus
   | Zero \<Rightarrow> scan_number_zero
   | Any1 \<Rightarrow> scan_number_any1
   | Decimal1 \<Rightarrow> scan_number_decimal1
   | Decimal2 \<Rightarrow> scan_number_decimal2
   | Exponent \<Rightarrow> scan_number_exponent
   | Sign \<Rightarrow> scan_number_sign
   | Any2 \<Rightarrow> scan_number_any2)"

lemmas num_next_defs = num_next_def next_is_def next_digit_def next_exp_def scan_number_minus_def
  scan_number_zero_def scan_number_any1_def scan_number_decimal1_def scan_number_decimal2_def
  scan_number_exponent_def scan_number_sign_def scan_number_any2_def

text \<open>The token type as the label sets it on entry.\<close>

definition num_enter :: "num_state \<Rightarrow> num_type \<Rightarrow> num_type" where
  "num_enter st ty =
     (if st = Minus then Num_Integer
      else if st = Decimal1 \<or> st = Exponent then Num_Float
      else ty)"

fun scan_number_from ::
  "num_state \<Rightarrow> num_type \<Rightarrow> string \<Rightarrow> (num_type \<times> string \<times> string) option" where
  "scan_number_from st ty [] =
     (case num_next st None of
        None \<Rightarrow> Some (num_enter st ty, [], [])
      | Some _ \<Rightarrow> None)"
| "scan_number_from st ty (c # s) =
     (case num_next st (Some c) of
        None \<Rightarrow> Some (num_enter st ty, [], c # s)
      | Some None \<Rightarrow> None
      | Some (Some st') \<Rightarrow>
          map_option (\<lambda>(ty', t, r). (ty', c # t, r)) (scan_number_from st' (num_enter st ty) s))"

definition num_init :: "char \<Rightarrow> num_state" where
  "num_init c = (if c = CHR ''-'' then Minus else if c = CHR ''0'' then Zero else Any1)"

definition digits_value :: "string \<Rightarrow> nat" where
  "digits_value s = foldl (\<lambda>n c. 10 * n + (byte c - 48)) 0 s"

text \<open>
  Whether the text of a number lies outside the finite doubles: with the decimal digits read as
  one integer and the exponent corrected by the digits after the point, the value rounds to
  infinity from \<open>2 ^ 1024 - 2 ^ 970\<close> on.
\<close>

definition float_mantissa :: "string \<Rightarrow> nat" where
  "float_mantissa l = digits_value (filter is_digit (takeWhile (\<lambda>c. \<not> is_exp_char c) l))"

definition float_exponent :: "string \<Rightarrow> int" where
  "float_exponent l =
     (let frac = drop 1 (dropWhile (\<lambda>c. c \<noteq> CHR ''.'') (takeWhile (\<lambda>c. \<not> is_exp_char c) l));
          ex = drop 1 (dropWhile (\<lambda>c. \<not> is_exp_char c) l);
          n = int (digits_value (filter is_digit ex))
      in (if ex \<noteq> [] \<and> hd ex = CHR ''-'' then - n else n) - int (length frac))"

definition float_overflows :: "string \<Rightarrow> bool" where
  "float_overflows l =
     (let m = float_mantissa l; e = float_exponent l; bound = 2 ^ 1024 - 2 ^ 970
      in if 0 \<le> e then bound \<le> m * 10 ^ nat e else bound * 10 ^ nat (- e) \<le> m)"

section \<open>Tokens\<close>

datatype token =
    Literal_True
  | Literal_False
  | Literal_Null
  | Value_String string
  | Value_Int int
  | Value_Float string
  | Begin_Array
  | Begin_Object
  | End_Array
  | End_Object
  | Name_Separator
  | Value_Separator
  | Parse_Error
  | End_Of_Input

definition convert_number :: "num_type \<Rightarrow> string \<Rightarrow> token" where
  "convert_number ty l =
     (case ty of
        Num_Unsigned \<Rightarrow>
          (if digits_value l < 2 ^ 64 then Value_Int (int (digits_value l)) else Value_Float l)
      | Num_Integer \<Rightarrow>
          (if digits_value (drop 1 l) \<le> 2 ^ 63 then Value_Int (- int (digits_value (drop 1 l)))
           else Value_Float l)
      | Num_Float \<Rightarrow> Value_Float l)"

definition scan_number :: "char \<Rightarrow> string \<Rightarrow> token \<times> string" where
  "scan_number c s =
     (case scan_number_from (num_init c) Num_Unsigned s of
        None \<Rightarrow> (Parse_Error, [])
      | Some (ty, l, r) \<Rightarrow> (convert_number ty (c # l), r))"

fun scan_literal :: "string \<Rightarrow> token \<Rightarrow> string \<Rightarrow> token \<times> string" where
  "scan_literal [] t s = (t, s)"
| "scan_literal (l # ls) t [] = (Parse_Error, [])"
| "scan_literal (l # ls) t (c # s) = (if c = l then scan_literal ls t s else (Parse_Error, []))"

definition is_space :: "char \<Rightarrow> bool" where
  "is_space c \<longleftrightarrow> c = CHR '' '' \<or> c = CHR 0x09 \<or> c = CHR 0x0A \<or> c = CHR 0x0D"

definition scan_token :: "char \<Rightarrow> string \<Rightarrow> token \<times> string" where
  "scan_token c s =
     (if c = CHR ''['' then (Begin_Array, s)
      else if c = CHR '']'' then (End_Array, s)
      else if c = CHR ''{'' then (Begin_Object, s)
      else if c = CHR ''}'' then (End_Object, s)
      else if c = CHR '':'' then (Name_Separator, s)
      else if c = CHR '','' then (Value_Separator, s)
      else if c = CHR ''t'' then scan_literal ''rue'' Literal_True s
      else if c = CHR ''f'' then scan_literal ''alse'' Literal_False s
      else if c = CHR ''n'' then scan_literal ''ull'' Literal_Null s
      else if c = quote_char then
        (case scan_string s of None \<Rightarrow> (Parse_Error, []) | Some (t, r) \<Rightarrow> (Value_String t, r))
      else if c = CHR ''-'' \<or> is_digit c then scan_number c s
      else if c = CHR 0x00 then (End_Of_Input, s)
      else (Parse_Error, []))"

definition json_scan :: "string \<Rightarrow> token \<times> string" where
  "json_scan s = (case dropWhile is_space s of [] \<Rightarrow> (End_Of_Input, []) | c # r \<Rightarrow> scan_token c r)"

text \<open>A leading byte order mark is skipped once; a broken one is an error.\<close>

definition skip_bom :: "string \<Rightarrow> string option" where
  "skip_bom s =
     (case s of
        c # r \<Rightarrow>
          if byte c = 239 then
            (case r of
               d # e # r' \<Rightarrow> if byte d = 187 \<and> byte e = 191 then Some r' else None
             | _ \<Rightarrow> None)
          else Some s
      | [] \<Rightarrow> Some [])"

lemma scan_number_from_length:
  "scan_number_from st ty s = Some (ty', l, r) \<Longrightarrow> length r \<le> length s"
  by (induction st ty s arbitrary: ty' l r rule: scan_number_from.induct)
    (fastforce split: option.splits)+

lemma scan_literal_length: "length (snd (scan_literal ls t s)) \<le> length s"
  by (induction ls t s rule: scan_literal.induct) auto

lemma scan_token_length: "length (snd (scan_token c s)) \<le> length s"
  using scan_literal_length [of "''rue''" Literal_True s]
    scan_literal_length [of "''alse''" Literal_False s] scan_literal_length [of "''ull''" Literal_Null s]
  by (auto simp: scan_token_def scan_number_def
      dest!: scan_string_length scan_number_from_length split: option.splits)

lemma json_scan_length: "json_scan s = (t, r) \<Longrightarrow> length r \<le> length s"
  and json_scan_shorter: "json_scan s = (t, r) \<Longrightarrow> t \<noteq> End_Of_Input \<Longrightarrow> length r < length s"
proof -
  assume scan: "json_scan s = (t, r)"
  have "length (dropWhile is_space s) \<le> length s" by (simp add: length_dropWhile_le)
  moreover have "length r < length s" if "dropWhile is_space s = c # s'" for c s'
    using scan that scan_token_length [of c s'] calculation by (simp add: json_scan_def)
  ultimately show "length r \<le> length s" and "t \<noteq> End_Of_Input \<Longrightarrow> length r < length s"
    using scan by (cases "dropWhile is_space s"; fastforce simp: json_scan_def)+
qed

lemma json_scan_bounds:
  "(t, r) = json_scan s \<Longrightarrow> length r \<le> length s \<and> (t \<noteq> End_Of_Input \<longrightarrow> length r < length s)"
  using json_scan_length [of s t r] json_scan_shorter [of s t r] by simp

section \<open>The parser\<close>

text \<open>
  An entry of the stack of open containers: the elements of an array read so far, or the members
  of an object and the key whose value is being read.
\<close>

datatype frame =
    In_Array "json list"
  | In_Object "(string \<times> json) list" string

text \<open>A key, its separator and the token that starts its value.\<close>

definition scan_key :: "token \<Rightarrow> string \<Rightarrow> (string \<times> token \<times> string) option" where
  "scan_key t s =
     (case t of
        Value_String k \<Rightarrow>
          (case json_scan s of (t', s') \<Rightarrow>
             if t' = Name_Separator then
               (case json_scan s' of (t'', s'') \<Rightarrow> Some (k, t'', s''))
             else None)
      | _ \<Rightarrow> None)"

lemma scan_key_length: "scan_key t s = Some (k, t', s') \<Longrightarrow> length s' < length s"
  by (auto simp: scan_key_def dest!: json_scan_bounds [OF sym]
      split: token.splits prod.splits if_splits)

definition scalar_value :: "token \<Rightarrow> json option" where
  "scalar_value t = (case t of
     Literal_True \<Rightarrow> Some (JBool True)
   | Literal_False \<Rightarrow> Some (JBool False)
   | Literal_Null \<Rightarrow> Some JNull
   | Value_String s \<Rightarrow> Some (JString s)
   | Value_Int n \<Rightarrow> Some (JInt n)
   | Value_Float l \<Rightarrow> Some (JFloat l)
   | _ \<Rightarrow> None)"

text \<open>
  \<open>parse_value\<close> is the loop of \<open>sax_parse_internal\<close> entered with a token that should start a
  value, \<open>parse_after\<close> the evaluation of the state after a value.
\<close>

function parse_value :: "frame list \<Rightarrow> token \<Rightarrow> string \<Rightarrow> (json \<times> string) res"
  and parse_after :: "frame list \<Rightarrow> json \<Rightarrow> string \<Rightarrow> (json \<times> string) res"
where
  "parse_value st tok s =
     (if tok = Begin_Object then
        (case json_scan s of (t, s1) \<Rightarrow>
           if t = End_Object then parse_after st (JObject []) s1
           else
             (case scan_key t s1 of
                None \<Rightarrow> Inl Json_Parse_Error
              | Some (k, t2, s2) \<Rightarrow> parse_value (In_Object [] k # st) t2 s2))
      else if tok = Begin_Array then
        (case json_scan s of (t, s1) \<Rightarrow>
           if t = End_Array then parse_after st (JArray []) s1
           else if t = End_Of_Input then Inl Json_Parse_Error
           else parse_value (In_Array [] # st) t s1)
      else
        (case scalar_value tok of
           None \<Rightarrow> Inl Json_Parse_Error
         | Some (JFloat l) \<Rightarrow>
             if float_overflows l then Inl Json_Number_Overflow else parse_after st (JFloat l) s
         | Some v \<Rightarrow> parse_after st v s))"
| "parse_after [] v s = Inr (v, s)"
| "parse_after (In_Array xs # st) v s =
     (case json_scan s of (t, s1) \<Rightarrow>
        if t = Value_Separator then
          (case json_scan s1 of (t2, s2) \<Rightarrow> parse_value (In_Array (xs @ [v]) # st) t2 s2)
        else if t = End_Array then parse_after st (JArray (xs @ [v])) s1
        else Inl Json_Parse_Error)"
| "parse_after (In_Object xs k # st) v s =
     (case json_scan s of (t, s1) \<Rightarrow>
        if t = Value_Separator then
          (case json_scan s1 of (t2, s2) \<Rightarrow>
             (case scan_key t2 s2 of
                None \<Rightarrow> Inl Json_Parse_Error
              | Some (k', t3, s3) \<Rightarrow> parse_value (In_Object (obj_assign k v xs) k' # st) t3 s3))
        else if t = End_Object then parse_after st (JObject (obj_assign k v xs)) s1
        else Inl Json_Parse_Error)"
  by pat_completeness auto
termination
proof (relation "measure (case_sum (\<lambda>(st, t, s). 2 * length s + 1) (\<lambda>(st, v, s). 2 * length s))",
    goal_cases)
qed (fastforce dest: json_scan_bounds json_scan_bounds [OF sym] scan_key_length split: prod.splits)+

declare parse_value.simps [simp del] parse_after.simps [simp del]

text \<open>A whole text.\<close>

definition parse_text :: "string \<Rightarrow> json res" where
  "parse_text s =
     (case skip_bom s of
        None \<Rightarrow> Inl Json_Parse_Error
      | Some s0 \<Rightarrow>
          (case json_scan s0 of (t, s1) \<Rightarrow>
             res_bind (parse_value [] t s1)
               (\<lambda>(v, s2). if fst (json_scan s2) = End_Of_Input then Inr v else Inl Json_Parse_Error)))"

end
