(* ===== verification/Json_Sax.thy ===== *)
theory Json_Sax
  imports Json_Parse
begin

text \<open>
  \<open>parse\<close> and \<open>accept\<close> as \<open>json.hpp\<close> has them: one loop, \<open>sax_parse_internal\<close>, that only keeps whether each
  open container is an array, and reports events to a handler. The DOM handler builds the value through
  pointers into it, the acceptor ignores everything. The locale \<open>sax_handler\<close> states what the loop needs
  from a handler to follow the parser of \<open>Json_Parse\<close>; both handlers satisfy it.
\<close>

section \<open>Events\<close>

datatype sax_event =
    Sax_Null
  | Sax_Boolean bool
  | Sax_Integer int
  | Sax_Float string
  | Sax_String string
  | Sax_Start_Object
  | Sax_Key string
  | Sax_End_Object
  | Sax_Start_Array
  | Sax_End_Array

fun scalar_event :: "token \<Rightarrow> sax_event option" where
  "scalar_event Literal_True = Some (Sax_Boolean True)"
| "scalar_event Literal_False = Some (Sax_Boolean False)"
| "scalar_event Literal_Null = Some Sax_Null"
| "scalar_event (Value_String s) = Some (Sax_String s)"
| "scalar_event (Value_Int n) = Some (Sax_Integer n)"
| "scalar_event (Value_Float l) = Some (Sax_Float l)"
| "scalar_event _ = None"

section \<open>The loop\<close>

text \<open>
  The key of a member and its separator: the handler's new state and, unless there is an error, the token
  that starts the value.
\<close>

definition sax_key ::
  "(sax_event \<Rightarrow> 'h \<Rightarrow> 'h res) \<Rightarrow> token \<Rightarrow> string \<Rightarrow> 'h \<Rightarrow> ('h \<times> (token \<times> string) option) res" where
  "sax_key handle tok s h =
     (case tok of
        Value_String k \<Rightarrow>
          res_bind (handle (Sax_Key k) h) (\<lambda>h'.
            case json_scan s of (t, s') \<Rightarrow>
              Inr (h', if t = Name_Separator then Some (json_scan s') else None))
      | _ \<Rightarrow> Inr (h, None))"

lemma sax_key_length:
  assumes "sax_key handle tok s h = Inr (h', Some (t, s'))"
  shows "length s' < length s"
proof -
  from assms obtain s1 where "json_scan s = (Name_Separator, s1)" "json_scan s1 = (t, s')"
    by (cases "json_scan s") (auto simp: sax_key_def split: token.splits if_splits)
  then show ?thesis using json_scan_shorter [of s] json_scan_length [of s1] by fastforce
qed

text \<open>
  \<open>sax_parse_internal\<close> from the switch over \<open>last_token\<close> on (\<open>sax_value\<close>) and from the evaluation of the
  state on (\<open>sax_after\<close>); \<open>states\<close> has \<open>True\<close> for an array. The outer result is an exception or failed
  assertion of the handler, the inner one the error given to \<open>parse_error\<close>, or the text that is left.
\<close>

function sax_value ::
  "(sax_event \<Rightarrow> 'h \<Rightarrow> 'h res) \<Rightarrow> bool list \<Rightarrow> token \<Rightarrow> string \<Rightarrow> 'h \<Rightarrow> ('h \<times> string res) res"
  and sax_after ::
  "(sax_event \<Rightarrow> 'h \<Rightarrow> 'h res) \<Rightarrow> bool list \<Rightarrow> string \<Rightarrow> 'h \<Rightarrow> ('h \<times> string res) res"
where
  "sax_value handle states tok s h =
     (if tok = Begin_Object then
        res_bind (handle Sax_Start_Object h) (\<lambda>h1.
          case json_scan s of (t, s1) \<Rightarrow>
            if t = End_Object then
              res_bind (handle Sax_End_Object h1) (\<lambda>h2. sax_after handle states s1 h2)
            else
              res_bind (sax_key handle t s1 h1) (\<lambda>(h2, r).
                case r of
                  None \<Rightarrow> Inr (h2, Inl Json_Parse_Error)
                | Some (t2, s2) \<Rightarrow> sax_value handle (False # states) t2 s2 h2))
      else if tok = Begin_Array then
        res_bind (handle Sax_Start_Array h) (\<lambda>h1.
          case json_scan s of (t, s1) \<Rightarrow>
            if t = End_Array then
              res_bind (handle Sax_End_Array h1) (\<lambda>h2. sax_after handle states s1 h2)
            else sax_value handle (True # states) t s1 h1)
      else
        (case scalar_event tok of
           None \<Rightarrow> Inr (h, Inl Json_Parse_Error)
         | Some e \<Rightarrow>
             if (case e of Sax_Float l \<Rightarrow> float_overflows l | _ \<Rightarrow> False)
             then Inr (h, Inl Json_Number_Overflow)
             else res_bind (handle e h) (\<lambda>h1. sax_after handle states s h1)))"
| "sax_after handle [] s h = Inr (h, Inr s)"
| "sax_after handle (True # states) s h =
     (case json_scan s of (t, s1) \<Rightarrow>
        if t = Value_Separator then
          (case json_scan s1 of (t2, s2) \<Rightarrow> sax_value handle (True # states) t2 s2 h)
        else if t = End_Array then
          res_bind (handle Sax_End_Array h) (\<lambda>h1. sax_after handle states s1 h1)
        else Inr (h, Inl Json_Parse_Error))"
| "sax_after handle (False # states) s h =
     (case json_scan s of (t, s1) \<Rightarrow>
        if t = Value_Separator then
          (case json_scan s1 of (t2, s2) \<Rightarrow>
             res_bind (sax_key handle t2 s2 h) (\<lambda>(h1, r).
               case r of
                 None \<Rightarrow> Inr (h1, Inl Json_Parse_Error)
               | Some (t3, s3) \<Rightarrow> sax_value handle (False # states) t3 s3 h1))
        else if t = End_Object then
          res_bind (handle Sax_End_Object h) (\<lambda>h1. sax_after handle states s1 h1)
        else Inr (h, Inl Json_Parse_Error))"
  by pat_completeness auto
termination
proof (relation "measure (case_sum
    (\<lambda>(handle, states, t, s, h). 2 * length s + (if t = End_Of_Input then 0 else 1))
    (\<lambda>(handle, states, s, h). 2 * length s))", goal_cases)
qed (fastforce dest: json_scan_bounds json_scan_bounds [OF sym] sax_key_length split: prod.splits)+

declare sax_value.simps [simp del] sax_after.simps [simp del]

text \<open>The parser asks for its first token when it is made; a broken byte order mark is an error of it.\<close>

definition first_token :: "string \<Rightarrow> token \<times> string" where
  "first_token s = (case skip_bom s of None \<Rightarrow> (Parse_Error, []) | Some s0 \<Rightarrow> json_scan s0)"

text \<open>\<open>sax_parse\<close> in strict mode.\<close>

definition sax_parse :: "(sax_event \<Rightarrow> 'h \<Rightarrow> 'h res) \<Rightarrow> string \<Rightarrow> 'h \<Rightarrow> ('h \<times> unit res) res" where
  "sax_parse handle s h =
     (case first_token s of (t, s1) \<Rightarrow>
       res_bind (sax_value handle [] t s1 h) (\<lambda>(h', r).
         case r of
           Inl e \<Rightarrow> Inr (h', Inl e)
         | Inr s2 \<Rightarrow>
             Inr (h', if fst (json_scan s2) = End_Of_Input then Inr () else Inl Json_Parse_Error)))"

section \<open>The acceptor\<close>

definition acceptor_handle :: "sax_event \<Rightarrow> unit \<Rightarrow> unit res" where
  "acceptor_handle e h = Inr ()"

definition json_accept :: "string \<Rightarrow> bool" where
  "json_accept s = (case sax_parse acceptor_handle s () of Inr (_, Inr _) \<Rightarrow> True | _ \<Rightarrow> False)"

section \<open>The DOM handler\<close>

text \<open>A pointer into the value that is built is the way to it from the root.\<close>

datatype selector =
    Element nat
  | Member string

fun json_get :: "selector list \<Rightarrow> json \<Rightarrow> json" where
  "json_get [] j = j"
| "json_get (Element i # p) (JArray xs) = json_get p (xs ! i)"
| "json_get (Member k # p) (JObject xs) = json_get p (the (map_of xs k))"
| "json_get _ j = j"

fun json_set :: "selector list \<Rightarrow> json \<Rightarrow> json \<Rightarrow> json" where
  "json_set [] v j = v"
| "json_set (Element i # p) v (JArray xs) = JArray (xs[i := json_set p v (xs ! i)])"
| "json_set (Member k # p) v (JObject xs) = JObject (obj_assign k (json_set p v (the (map_of xs k))) xs)"
| "json_set _ v j = j"

record dom =
  dom_root :: json
  dom_ref_stack :: "selector list list"
  dom_object_element :: "selector list option"

definition dom_init :: dom where
  "dom_init = \<lparr>dom_root = JNull, dom_ref_stack = [], dom_object_element = None\<rparr>"

text \<open>The new state and the pointer to the value.\<close>

definition dom_handle_value :: "json \<Rightarrow> dom \<Rightarrow> (dom \<times> selector list) res" where
  "dom_handle_value v d =
     (case dom_ref_stack d of
        [] \<Rightarrow> Inr (d\<lparr>dom_root := v\<rparr>, [])
      | p # _ \<Rightarrow>
          (case json_get p (dom_root d) of
             JArray xs \<Rightarrow>
               Inr (d\<lparr>dom_root := json_set p (JArray (xs @ [v])) (dom_root d)\<rparr>, p @ [Element (length xs)])
           | JObject xs \<Rightarrow>
               (case dom_object_element d of
                  None \<Rightarrow> Inl Assertion_Failed
                | Some q \<Rightarrow> Inr (d\<lparr>dom_root := json_set q v (dom_root d)\<rparr>, q))
           | _ \<Rightarrow> Inl Assertion_Failed))"

definition dom_start :: "json \<Rightarrow> dom \<Rightarrow> dom res" where
  "dom_start v d =
     res_bind (dom_handle_value v d) (\<lambda>(d', p). Inr (d'\<lparr>dom_ref_stack := p # dom_ref_stack d'\<rparr>))"

text \<open>\<open>operator[]\<close> adds a null under a new key.\<close>

definition dom_key :: "string \<Rightarrow> dom \<Rightarrow> dom res" where
  "dom_key k d =
     (case dom_ref_stack d of
        [] \<Rightarrow> Inl Undefined_Behaviour
      | p # _ \<Rightarrow>
          (case json_get p (dom_root d) of
             JObject xs \<Rightarrow>
               Inr (d\<lparr>dom_root := json_set p (JObject (obj_emplace k JNull xs)) (dom_root d),
                     dom_object_element := Some (p @ [Member k])\<rparr>)
           | _ \<Rightarrow> Inl Undefined_Behaviour))"

definition dom_end :: "dom \<Rightarrow> dom res" where
  "dom_end d =
     (case dom_ref_stack d of [] \<Rightarrow> Inl Undefined_Behaviour | _ # ps \<Rightarrow> Inr (d\<lparr>dom_ref_stack := ps\<rparr>))"

fun dom_handle :: "sax_event \<Rightarrow> dom \<Rightarrow> dom res" where
  "dom_handle Sax_Null d = res_bind (dom_handle_value JNull d) (\<lambda>(d', _). Inr d')"
| "dom_handle (Sax_Boolean b) d = res_bind (dom_handle_value (JBool b) d) (\<lambda>(d', _). Inr d')"
| "dom_handle (Sax_Integer n) d = res_bind (dom_handle_value (JInt n) d) (\<lambda>(d', _). Inr d')"
| "dom_handle (Sax_Float l) d = res_bind (dom_handle_value (JFloat l) d) (\<lambda>(d', _). Inr d')"
| "dom_handle (Sax_String s) d = res_bind (dom_handle_value (JString s) d) (\<lambda>(d', _). Inr d')"
| "dom_handle Sax_Start_Object d = dom_start (JObject []) d"
| "dom_handle (Sax_Key k) d = dom_key k d"
| "dom_handle Sax_End_Object d = dom_end d"
| "dom_handle Sax_Start_Array d = dom_start (JArray []) d"
| "dom_handle Sax_End_Array d = dom_end d"

text \<open>\<open>json::parse\<close>: the handler throws the error it is given.\<close>

definition json_parse :: "string \<Rightarrow> json res" where
  "json_parse s =
     res_bind (sax_parse dom_handle s dom_init) (\<lambda>(d, r).
       case r of Inl e \<Rightarrow> Inl e | Inr _ \<Rightarrow> Inr (dom_root d))"

section \<open>What the loop needs from a handler\<close>

fun is_array_frame :: "frame \<Rightarrow> bool" where
  "is_array_frame (In_Array xs) = True"
| "is_array_frame (In_Object xs k) = False"

text \<open>
  \<open>ready st\<close> holds when the handler expects a value inside the open containers \<open>st\<close>, and \<open>got st v\<close> when
  it has just got the value \<open>v\<close> there.
\<close>

locale sax_handler =
  fixes handle :: "sax_event \<Rightarrow> 'h \<Rightarrow> 'h res"
    and ready :: "frame list \<Rightarrow> 'h \<Rightarrow> bool"
    and got :: "frame list \<Rightarrow> json \<Rightarrow> 'h \<Rightarrow> bool"
  assumes scalar: "ready st h \<Longrightarrow> scalar_event tok = Some e \<Longrightarrow> scalar_value tok = Some v \<Longrightarrow>
      \<exists>h'. handle e h = Inr h' \<and> got st v h'"
    and start_array: "ready st h \<Longrightarrow> \<exists>h'. handle Sax_Start_Array h = Inr h' \<and> ready (In_Array [] # st) h' \<and>
      (\<exists>h''. handle Sax_End_Array h' = Inr h'' \<and> got st (JArray []) h'')"
    and next_element: "got (In_Array xs # st) v h \<Longrightarrow> ready (In_Array (xs @ [v]) # st) h"
    and end_array: "got (In_Array xs # st) v h \<Longrightarrow>
      \<exists>h'. handle Sax_End_Array h = Inr h' \<and> got st (JArray (xs @ [v])) h'"
    and start_object: "ready st h \<Longrightarrow> \<exists>h'. handle Sax_Start_Object h = Inr h' \<and>
      (\<forall>k. \<exists>h''. handle (Sax_Key k) h' = Inr h'' \<and> ready (In_Object [] k # st) h'') \<and>
      (\<exists>h''. handle Sax_End_Object h' = Inr h'' \<and> got st (JObject []) h'')"
    and next_member: "got (In_Object ms k # st) v h \<Longrightarrow>
      \<exists>h'. handle (Sax_Key k') h = Inr h' \<and> ready (In_Object (obj_assign k v ms) k' # st) h'"
    and end_object: "got (In_Object ms k # st) v h \<Longrightarrow>
      \<exists>h'. handle Sax_End_Object h = Inr h' \<and> got st (JObject (obj_assign k v ms)) h'"
begin

text \<open>A result of the loop follows a result of the parser.\<close>

definition follows :: "('h \<times> string res) res \<Rightarrow> (json \<times> string) res \<Rightarrow> bool" where
  "follows r q \<longleftrightarrow> (case q of
     Inl e \<Rightarrow> \<exists>h. r = Inr (h, Inl e)
   | Inr (v, s) \<Rightarrow> \<exists>h. r = Inr (h, Inr s) \<and> got [] v h)"

lemma follows_error [simp]: "follows (Inr (h, Inl e)) (Inl e)"
  by (simp add: follows_def)

lemma sax_key_follows:
  assumes "\<And>k. \<exists>h'. handle (Sax_Key k) h = Inr h' \<and> P k h'"
  shows "case scan_key t s of
      None \<Rightarrow> \<exists>h'. sax_key handle t s h = Inr (h', None)
    | Some (k, t', s') \<Rightarrow> \<exists>h'. sax_key handle t s h = Inr (h', Some (t', s')) \<and> P k h'"
proof (cases "\<exists>k. t = Value_String k")
  case True
  then obtain k where t: "t = Value_String k" by blast
  obtain h' where h': "handle (Sax_Key k) h = Inr h'" "P k h'" using assms by blast
  obtain t1 s1 where "json_scan s = (t1, s1)" by (cases "json_scan s")
  then show ?thesis
    using t h' by (cases "json_scan s1") (simp add: scan_key_def sax_key_def)
next
  case False
  then show ?thesis by (cases t) (simp_all add: scan_key_def sax_key_def)
qed

lemma scalar_follows:
  assumes "ready st h" and "scalar_value tok = Some v"
    and "\<And>h'. \<not> (\<exists>l. v = JFloat l \<and> float_overflows l) \<Longrightarrow> got st v h' \<Longrightarrow>
      follows (sax_after handle states s h') (parse_after st v s)"
  shows "follows (sax_value handle states tok s h) (parse_value st tok s)"
proof -
  obtain e where e: "scalar_event tok = Some e" "tok \<noteq> Begin_Object" "tok \<noteq> Begin_Array"
    "(case e of Sax_Float l \<Rightarrow> float_overflows l | _ \<Rightarrow> False) =
     (case v of JFloat l \<Rightarrow> float_overflows l | _ \<Rightarrow> False)"
    using assms(2) by (cases tok) (auto simp: scalar_value_def)
  obtain h' where h': "handle e h = Inr h'" "got st v h'" using scalar [OF assms(1) e(1) assms(2)] by blast
  have "parse_value st tok s = (if case v of JFloat l \<Rightarrow> float_overflows l | _ \<Rightarrow> False
      then Inl Json_Number_Overflow else parse_after st v s)"
    using e(2,3) assms(2) by (subst parse_value.simps) (simp split: json.split)
  with e h' assms(3) [OF _ h'(2)] show ?thesis
    by (subst sax_value.simps) (auto split: json.splits)
qed

lemma sax_follows:
  "ready st h \<Longrightarrow> follows (sax_value handle (map is_array_frame st) tok s h) (parse_value st tok s)"
  "got st v h \<Longrightarrow> follows (sax_after handle (map is_array_frame st) s h) (parse_after st v s)"
proof (induction st tok s and st v s arbitrary: h and h rule: parse_value_parse_after.induct)
  case (1 st tok s)
  obtain t s1 where scan: "json_scan s = (t, s1)" by (cases "json_scan s")
  consider "tok = Begin_Object" | "tok = Begin_Array" | v where "scalar_value tok = Some v"
    | "tok \<noteq> Begin_Object" "tok \<noteq> Begin_Array" "scalar_value tok = None"
    by (cases "scalar_value tok") auto
  then show ?case
  proof cases
    case o: 1
    from start_object [OF "1.prems"] obtain h1 where h1: "handle Sax_Start_Object h = Inr h1"
      "\<And>k. \<exists>h''. handle (Sax_Key k) h1 = Inr h'' \<and> ready (In_Object [] k # st) h''"
      "\<exists>h''. handle Sax_End_Object h1 = Inr h'' \<and> got st (JObject []) h''" by blast
    show ?thesis
    proof (cases "t = End_Object")
      case True
      from h1(3) obtain h2 where h2: "handle Sax_End_Object h1 = Inr h2" "got st (JObject []) h2" by blast
      with "1.IH"(1) [OF o scan [symmetric] True h2(2)] True h1(1) o scan show ?thesis
        by (subst sax_value.simps, subst parse_value.simps) simp
    next
      case False
      note key = sax_key_follows [OF h1(2), of t s1]
      show ?thesis
      proof (cases "scan_key t s1")
        case None
        with key False h1(1) o scan show ?thesis
          by (subst sax_value.simps, subst parse_value.simps) auto
      next
        case (Some r)
        obtain k t2 s2 where r: "r = (k, t2, s2)" by (cases r)
        with key Some obtain h2 where h2: "sax_key handle t s1 h1 = Inr (h2, Some (t2, s2))"
          "ready (In_Object [] k # st) h2" by auto
        from "1.IH"(2) [OF o scan [symmetric] False Some r [symmetric] refl h2(2)] h2 Some r False h1(1) o scan
        show ?thesis by (subst sax_value.simps, subst parse_value.simps) simp
      qed
    qed
  next
    case a: 2
    then have no: "tok \<noteq> Begin_Object" by simp
    from start_array [OF "1.prems"] obtain h1 where h1: "handle Sax_Start_Array h = Inr h1"
      "ready (In_Array [] # st) h1" "\<exists>h''. handle Sax_End_Array h1 = Inr h'' \<and> got st (JArray []) h''" by blast
    consider "t = End_Array" | "t = End_Of_Input" | "t \<noteq> End_Array" "t \<noteq> End_Of_Input" by blast
    then show ?thesis
    proof cases
      case e: 1
      from h1(3) obtain h2 where h2: "handle Sax_End_Array h1 = Inr h2" "got st (JArray []) h2" by blast
      with "1.IH"(3) [OF no a scan [symmetric] e h2(2)] e h1(1) a scan show ?thesis
        by (subst sax_value.simps, subst parse_value.simps) simp
    next
      case 2
      with h1(1) a scan show ?thesis
        by (subst sax_value.simps, subst parse_value.simps) (simp add: sax_value.simps [of _ _ End_Of_Input])
    next
      case 3
      with "1.IH"(4) [OF no a scan [symmetric] 3 h1(2)] h1(1) a scan show ?thesis
        by (subst sax_value.simps, subst parse_value.simps) simp
    qed
  next
    case (3 v)
    then have no: "tok \<noteq> Begin_Object" "tok \<noteq> Begin_Array" by (auto simp: scalar_value_def)
    show ?thesis
    proof (rule scalar_follows [OF "1.prems" 3])
      fix h' assume "\<not> (\<exists>l. v = JFloat l \<and> float_overflows l)" and "got st v h'"
      then show "follows (sax_after handle (map is_array_frame st) s h') (parse_after st v s)"
        using "1.IH"(5-11) [OF no 3] by (cases v) simp_all
    qed
  next
    case 4
    then have "scalar_event tok = None" by (cases tok) (simp_all add: scalar_value_def)
    with 4 show ?thesis by (subst sax_value.simps, subst parse_value.simps) simp
  qed
next
  case (2 v s)
  then show ?case by (simp add: sax_after.simps parse_after.simps follows_def)
next
  case (3 xs st v s)
  obtain t s1 where scan: "json_scan s = (t, s1)" by (cases "json_scan s")
  obtain t2 s2 where scan2: "json_scan s1 = (t2, s2)" by (cases "json_scan s1")
  from end_array [OF "3.prems"] obtain h1 where h1: "handle Sax_End_Array h = Inr h1"
    "got st (JArray (xs @ [v])) h1" by blast
  show ?case
    using "3.IH"(1) [OF scan [symmetric] _ scan2 [symmetric] next_element [OF "3.prems"]]
      "3.IH"(2) [OF scan [symmetric] _ _ h1(2)] scan scan2 h1(1)
    by (simp add: sax_after.simps parse_after.simps)
next
  case (4 ms k st v s)
  obtain t s1 where scan: "json_scan s = (t, s1)" by (cases "json_scan s")
  obtain t2 s2 where scan2: "json_scan s1 = (t2, s2)" by (cases "json_scan s1")
  from end_object [OF "4.prems"] obtain h1 where h1: "handle Sax_End_Object h = Inr h1"
    "got st (JObject (obj_assign k v ms)) h1" by blast
  note key = sax_key_follows [OF next_member [OF "4.prems"], of t2 s2]
  show ?case
  proof (cases "t = Value_Separator")
    case sep: True
    show ?thesis
    proof (cases "scan_key t2 s2")
      case None
      with key sep scan scan2 show ?thesis by (auto simp: sax_after.simps parse_after.simps)
    next
      case (Some r)
      obtain k' t3 s3 where r: "r = (k', t3, s3)" by (cases r)
      with key Some obtain h2 where h2: "sax_key handle t2 s2 h = Inr (h2, Some (t3, s3))"
        "ready (In_Object (obj_assign k v ms) k' # st) h2" by auto
      from "4.IH"(1) [OF scan [symmetric] sep scan2 [symmetric] Some r [symmetric] refl h2(2)] h2 Some r sep
        scan scan2
      show ?thesis by (simp add: sax_after.simps parse_after.simps)
    qed
  next
    case False
    then show ?thesis
      using "4.IH"(2) [OF scan [symmetric] False _ h1(2)] scan h1(1)
      by (simp add: sax_after.simps parse_after.simps)
  qed
qed

lemma sax_parse_follows:
  assumes "ready [] h"
  shows "case parse_text s of
      Inl e \<Rightarrow> \<exists>h'. sax_parse handle s h = Inr (h', Inl e)
    | Inr v \<Rightarrow> \<exists>h'. sax_parse handle s h = Inr (h', Inr ()) \<and> got [] v h'"
proof (cases "skip_bom s")
  case None
  then show ?thesis
    by (simp add: sax_parse_def parse_text_def first_token_def sax_value.simps)
next
  case (Some s0)
  obtain t s1 where scan: "json_scan s0 = (t, s1)" by (cases "json_scan s0")
  have follows: "follows (sax_value handle [] t s1 h) (parse_value [] t s1)"
    using sax_follows(1) [OF assms, of t s1] by simp
  show ?thesis
  proof (cases "parse_value [] t s1")
    case (Inl e)
    with follows obtain h' where "sax_value handle [] t s1 h = Inr (h', Inl e)" by (auto simp: follows_def)
    then have "sax_parse handle s h = Inr (h', Inl e)"
      by (simp add: sax_parse_def first_token_def Some scan)
    with Inl show ?thesis by (simp add: parse_text_def Some scan)
  next
    case (Inr q)
    obtain v r where q: "q = (v, r)" by (cases q)
    with follows Inr obtain h' where h': "sax_value handle [] t s1 h = Inr (h', Inr r)" "got [] v h'"
      by (auto simp: follows_def)
    then have "sax_parse handle s h =
        Inr (h', if fst (json_scan r) = End_Of_Input then Inr () else Inl Json_Parse_Error)"
      by (simp add: sax_parse_def first_token_def Some scan)
    with Inr q h'(2) show ?thesis by (simp add: parse_text_def Some scan)
  qed
qed

end

section \<open>The acceptor follows the parser\<close>

interpretation acceptor: sax_handler acceptor_handle "\<lambda>_ _. True" "\<lambda>_ _ _. True"
  by unfold_locales (simp_all add: acceptor_handle_def)

lemma json_accept_iff: "json_accept s \<longleftrightarrow> is_ok (parse_text s)"
  using acceptor.sax_parse_follows [OF TrueI, of s "()"]
  by (cases "parse_text s") (auto simp: json_accept_def)

section \<open>The DOM handler follows the parser\<close>

text \<open>The whole value when the place the frames leave open has the value \<open>v\<close>, and the pointer to that place.\<close>

fun plug :: "frame list \<Rightarrow> json \<Rightarrow> json" where
  "plug [] v = v"
| "plug (In_Array xs # st) v = plug st (JArray (xs @ [v]))"
| "plug (In_Object ms k # st) v = plug st (JObject (obj_assign k v ms))"

fun place :: "frame list \<Rightarrow> selector list" where
  "place [] = []"
| "place (In_Array xs # st) = place st @ [Element (length xs)]"
| "place (In_Object ms k # st) = place st @ [Member k]"

fun containers :: "frame list \<Rightarrow> selector list list" where
  "containers [] = []"
| "containers (f # st) = place st # containers st"

lemma obj_assign_emplace: "obj_assign k v (obj_emplace k w ms) = obj_assign k v ms"
  by (simp add: obj_emplace_def obj_assign_twice split: option.split)

lemma json_get_plug: "json_get (place st @ p) (plug st v) = json_get p v"
  by (induction st v arbitrary: p rule: plug.induct) (auto simp: map_of_obj_assign nth_append)

lemma json_set_plug: "json_set (place st @ p) w (plug st v) = plug st (json_set p w v)"
  by (induction st v arbitrary: p rule: plug.induct)
    (auto simp: map_of_obj_assign nth_append obj_assign_twice)

lemmas json_plug = json_get_plug [of _ "[]", simplified] json_set_plug [of _ "[]", simplified]

text \<open>The state of the handler before and after a value.\<close>

fun dom_ready :: "frame list \<Rightarrow> dom \<Rightarrow> bool" where
  "dom_ready [] d \<longleftrightarrow> dom_ref_stack d = []"
| "dom_ready (In_Array xs # st) d \<longleftrightarrow>
     dom_ref_stack d = containers (In_Array xs # st) \<and> dom_root d = plug st (JArray xs)"
| "dom_ready (In_Object ms k # st) d \<longleftrightarrow>
     dom_ref_stack d = containers (In_Object ms k # st) \<and>
     dom_root d = plug st (JObject (obj_emplace k JNull ms)) \<and>
     dom_object_element d = Some (place st @ [Member k])"

definition dom_got :: "frame list \<Rightarrow> json \<Rightarrow> dom \<Rightarrow> bool" where
  "dom_got st v d \<longleftrightarrow> dom_ref_stack d = containers st \<and> dom_root d = plug st v"

lemma dom_handle_value_ready:
  assumes "dom_ready st d"
  shows "\<exists>d'. dom_handle_value v d = Inr (d', place st) \<and> dom_got st v d'"
proof (cases st)
  case Nil
  with assms show ?thesis by (simp add: dom_handle_value_def dom_got_def)
next
  case (Cons f st')
  then show ?thesis
  proof (cases f)
    case (In_Array xs)
    with Cons assms show ?thesis by (simp add: dom_handle_value_def dom_got_def json_plug)
  next
    case (In_Object ms k)
    with Cons assms show ?thesis
      by (simp add: dom_handle_value_def dom_got_def json_plug json_set_plug obj_assign_emplace)
  qed
qed

lemma dom_start_ready:
  assumes "dom_ready st d"
  shows "\<exists>d'. dom_start v d = Inr d' \<and> dom_ref_stack d' = place st # containers st \<and> dom_root d' = plug st v"
  using dom_handle_value_ready [OF assms, of v] by (auto simp: dom_start_def dom_got_def)

interpretation dom_parser: sax_handler dom_handle dom_ready dom_got
proof (unfold_locales, goal_cases)
  case (1 st h tok e v)
  from dom_handle_value_ready [OF 1(1), of v] obtain d' where
    "dom_handle_value v h = Inr (d', place st)" "dom_got st v d'" by blast
  with 1(2,3) show ?case by (cases tok) (auto simp: scalar_value_def)
next
  case (2 st h)
  from dom_start_ready [OF this, of "JArray []"] show ?case
    by (auto simp: dom_end_def dom_got_def)
next
  case (5 st h)
  from dom_start_ready [OF this, of "JObject []"] show ?case
    by (auto simp: dom_end_def dom_got_def dom_key_def json_plug)
next
  case (6 ms k st v h k')
  then show ?case by (simp add: dom_got_def dom_key_def json_plug)
qed (auto simp: dom_got_def dom_end_def)

lemma json_parse_eq: "json_parse s = parse_text s"
  using dom_parser.sax_parse_follows [of dom_init s]
  by (auto simp: json_parse_def dom_init_def dom_got_def split: sum.splits)

text \<open>
  C27. The event-driven parser agrees with the parser that keeps the open containers and their values: \<open>parse\<close>,
  whose handler builds the value in place through a stack of pointers, returns the same value or throws the
  same error on every text, never fails an assertion and never follows a pointer to the wrong kind of value;
  \<open>accept\<close> is true exactly for the texts that \<open>parse\<close> reads.
\<close>

theorem parsers_agree:
  "json_parse s = parse_text s \<and> (json_accept s \<longleftrightarrow> (\<exists>j. json_parse s = Inr j))"
  by (cases "parse_text s") (simp_all add: json_parse_eq json_accept_iff)

end
