(* ===== verification/Json_Roundtrip.thy ===== *)
theory Json_Roundtrip
  imports Json_Sax
begin

text \<open>
  What \<open>json::dump\<close> writes, \<open>json::parse\<close> reads back: first integers, then escaped strings
  (the two UTF-8 checks, a table in the serializer and byte ranges in the lexer, agree), then
  values. A dumped text contains no control character, hence no terminator of a C string.
\<close>

section \<open>Integers\<close>

lemma byte_digit_char [simp]: "n < 10 \<Longrightarrow> byte (digit_char n) = n + 48"
  by (simp add: digit_char_def)

lemma is_digit_digit_char [simp]: "n < 10 \<Longrightarrow> is_digit (digit_char n)"
  by (simp add: is_digit_def)

lemma digits_value_foldl:
  "foldl (\<lambda>n c. 10 * n + (byte c - 48)) a t = a * 10 ^ length t + digits_value t"
proof (induction t arbitrary: a)
  case (Cons c t)
  define d where "d = byte c - 48"
  have "digits_value (c # t) = d * 10 ^ length t + digits_value t"
    using Cons.IH [of d] by (simp add: digits_value_def d_def)
  with Cons.IH [of "10 * a + d"] show ?case by (simp add: d_def algebra_simps)
qed (simp add: digits_value_def)

lemma digits_value_append:
  "digits_value (s @ t) = digits_value s * 10 ^ length t + digits_value t"
  using digits_value_foldl [of "digits_value s" t] by (simp add: digits_value_def)

lemma digits_value_single [simp]: "n < 10 \<Longrightarrow> digits_value [digit_char n] = n"
  by (simp add: digits_value_def)

lemma digits_to_99_props:
  assumes "n < 100"
  shows "digits_value (digits_to_99 n) = n" and "length (digits_to_99 n) = 2"
    and "list_all is_digit (digits_to_99 n)"
  using assms by (simp_all add: digits_to_99_def digits_value_def div_less_iff_less_mult)

lemma dump_abs_props:
  "digits_value (dump_abs n) = n \<and> list_all is_digit (dump_abs n) \<and> dump_abs n \<noteq> [] \<and>
   (0 < n \<longrightarrow> hd (dump_abs n) \<noteq> CHR ''0'')"
proof (induction n rule: dump_abs.induct)
  case (1 n)
  have small: "digit_char k \<noteq> CHR ''0''" if "0 < k" "k < 10" for k
    using that byte_eq_iff [of "digit_char k" "CHR ''0''"] by simp
  consider "100 \<le> n" | "10 \<le> n" "n < 100" | "n < 10" by linarith
  then show ?case
  proof cases
    case 1
    then have "0 < n div 100" by (simp add: div_greater_zero_iff)
    with 1 "1.IH" show ?thesis
      by (simp add: dump_abs.simps [of n] digits_value_append digits_to_99_props)
  next
    case 2
    moreover from 2 have "0 < n div 10" and "n div 10 < 10" by (simp_all add: div_greater_zero_iff)
    ultimately show ?thesis
      using digits_to_99_props [of n] small [of "n div 10"]
      by (simp add: dump_abs.simps [of n] digits_to_99_def)
  next
    case 3
    then show ?thesis using small [of n] by (simp add: dump_abs.simps [of n])
  qed
qed

lemmas digits_value_dump_abs [simp] = dump_abs_props [THEN conjunct1]
lemmas dump_abs_digits = dump_abs_props [THEN conjunct2, THEN conjunct1]
lemmas dump_abs_not_Nil [simp] = dump_abs_props [THEN conjunct2, THEN conjunct2, THEN conjunct1]
lemmas dump_abs_hd = dump_abs_props [THEN conjunct2, THEN conjunct2, THEN conjunct2, rule_format]

text \<open>Where a number ends: at the end of the text or at a separator.\<close>

definition at_delimiter :: "string \<Rightarrow> bool" where
  "at_delimiter r \<longleftrightarrow> r = [] \<or> hd r = CHR '','' \<or> hd r = CHR '']'' \<or> hd r = CHR ''}''"

lemma at_delimiter_simps [simp]:
  "at_delimiter []"
  "at_delimiter (c # r) \<longleftrightarrow> c = CHR '','' \<or> c = CHR '']'' \<or> c = CHR ''}''"
  by (simp_all add: at_delimiter_def)

lemma at_delimiter_separators:
  "at_delimiter (CHR '','' # r)" "at_delimiter (CHR '']'' # r)" "at_delimiter (CHR ''}'' # r)"
  by (simp_all add: at_delimiter_def)

lemma num_next_digit [simp]:
  "is_digit c \<Longrightarrow> num_next Any1 (Some c) = Some (Some Any1)"
  by (simp add: num_next_defs)

lemma scan_number_from_end:
  "at_delimiter r \<Longrightarrow> st = Any1 \<or> st = Zero \<Longrightarrow> scan_number_from st ty r = Some (ty, [], r)"
  by (cases r) (auto simp: num_next_defs num_enter_def is_digit_def is_exp_char_def)

lemma scan_number_from_digits:
  "list_all is_digit s \<Longrightarrow> at_delimiter r \<Longrightarrow> scan_number_from Any1 ty (s @ r) = Some (ty, s, r)"
  by (induction s) (auto simp: num_enter_def scan_number_from_end)

lemma scan_number_digits:
  assumes "list_all is_digit (c # s)" and "c \<noteq> CHR ''0'' \<or> s = []" and "at_delimiter r"
  shows "scan_number c (s @ r) = (convert_number Num_Unsigned (c # s), r)"
  using assms
  by (auto simp: scan_number_def num_init_def is_digit_def scan_number_from_digits
      scan_number_from_end)

lemma scan_number_minus:
  assumes "list_all is_digit s" and "s \<noteq> []" and "hd s \<noteq> CHR ''0''" and "at_delimiter r"
  shows "scan_number (CHR ''-'') (s @ r) = (convert_number Num_Integer (CHR ''-'' # s), r)"
proof -
  obtain c s' where s: "s = c # s'" using assms(2) by (cases s) auto
  with assms have "num_next Minus (Some c) = Some (Some Any1)"
    by (simp add: num_next_defs)
  with s assms show ?thesis
    by (simp add: scan_number_def num_init_def num_enter_def scan_number_from_digits)
qed

definition int_fits :: "int \<Rightarrow> bool" where
  "int_fits n \<longleftrightarrow> - (2 ^ 63) \<le> n \<and> n < 2 ^ 64"

lemma int_fits_int32: "is_int32 n \<Longrightarrow> int_fits n"
  by (simp add: is_int32_def int_fits_def)

lemma is_digit_not_special:
  assumes "is_digit c"
  shows "\<not> is_space c" and "c \<noteq> CHR ''[''" and "c \<noteq> CHR '']''" and "c \<noteq> CHR ''{''"
    and "c \<noteq> CHR ''}''" and "c \<noteq> CHR '':''" and "c \<noteq> CHR '',''" and "c \<noteq> CHR ''t''"
    and "c \<noteq> CHR ''f''" and "c \<noteq> CHR ''n''" and "c \<noteq> quote_char"
  using assms by (auto simp: is_digit_def is_space_def)

lemma scan_token_number:
  assumes "c = CHR ''-'' \<or> is_digit c"
  shows "json_scan (c # s) = scan_number c s"
  using assms
proof
  assume "is_digit c"
  then show ?thesis by (simp add: json_scan_def scan_token_def is_digit_not_special)
qed (simp add: json_scan_def scan_token_def is_space_def)

lemma json_scan_nat:
  assumes "int n < 2 ^ 64" and "at_delimiter r"
  shows "json_scan (dump_abs n @ r) = (Value_Int (int n), r)"
proof -
  obtain c s where cs: "dump_abs n = c # s" by (cases "dump_abs n") simp_all
  have digits: "list_all is_digit (c # s)" using dump_abs_digits [of n] cs by simp
  have "c \<noteq> CHR ''0'' \<or> s = []"
    using dump_abs_hd [of n] cs by (cases "n = 0") (auto simp: dump_abs.simps)
  with digits assms(2) have "json_scan (dump_abs n @ r) = (convert_number Num_Unsigned (c # s), r)"
    by (simp add: cs scan_token_number scan_number_digits)
  moreover have "digits_value (c # s) = n" using digits_value_dump_abs [of n] cs by simp
  moreover have "n < 2 ^ 64" using assms(1) by simp
  ultimately show ?thesis by (simp add: convert_number_def)
qed

lemma json_scan_integer:
  assumes "int_fits n" and "at_delimiter r"
  shows "json_scan (dump_integer n @ r) = (Value_Int n, r)"
proof -
  consider "n = 0" | "0 < n" | "n < 0" by linarith
  then show ?thesis
  proof cases
    case 1
    have "dump_abs 0 = ''0''"
      using byte_eq_iff [of "digit_char 0" "CHR ''0''"] by (simp add: dump_abs.simps)
    with 1 assms(2) json_scan_nat [of 0 r] show ?thesis by (simp add: dump_integer_def)
  next
    case 2
    with assms json_scan_nat [of "nat n" r] show ?thesis
      by (simp add: dump_integer_def int_fits_def)
  next
    case 3
    define m where "m = nat (- n)"
    have m: "0 < m" "m \<le> 2 ^ 63" "n = - int m" using 3 assms(1) by (auto simp: m_def int_fits_def)
    then have "json_scan (dump_integer n @ r) = scan_number (CHR ''-'') (dump_abs m @ r)"
      using 3 by (simp add: dump_integer_def scan_token_number)
    also have "\<dots> = (convert_number Num_Integer (CHR ''-'' # dump_abs m), r)"
      using dump_abs_digits dump_abs_hd [OF m(1)] assms(2) by (simp add: scan_number_minus)
    finally show ?thesis using m by (simp add: convert_number_def)
  qed
qed

section \<open>Strings\<close>

lemma dump_escaped_state0: "dump_escaped_from 0 cp s = dump_escaped_from 0 0 s"
  by (cases s) (simp_all add: utf8_decode_def)

lemma get_codepoint_hex4:
  assumes "n < 65536"
  shows "get_codepoint (hex4 n @ r) = Some (n, r)"
proof -
  have hex: "hex_value (hex_digit k) = Some k" if "k < 16" for k
    using that by (auto simp: hex_value_def hex_digit_def Let_def)
  define a0 a1 a2 r0 r1 r2 where "a0 = n div 16" "a1 = n div 16 div 16" "a2 = n div 16 div 16 div 16"
    "r0 = n mod 16" "r1 = n div 16 mod 16" "r2 = n div 16 div 16 mod 16"
  note defs = this
  have "n = 16 * a0 + r0" "a0 = 16 * a1 + r1" "a1 = 16 * a2 + r2"
    unfolding defs by (simp_all only: mult_div_mod_eq)
  then have sum: "n = a2 * 4096 + r2 * 256 + r1 * 16 + r0" by linarith
  have parts: "n div 256 = a1" "n div 4096 = a2" "a1 mod 16 = r2" "n div 16 mod 16 = r1" "n mod 16 = r0"
    unfolding defs by (simp_all add: div_mult2_eq [symmetric])
  have "n div 4096 < 16" using assms by (simp add: div_less_iff_less_mult)
  moreover from this have "n div 4096 mod 16 = n div 4096" by (rule mod_less)
  moreover have "n div 4096 * 4096 + n div 256 mod 16 * 256 + n div 16 mod 16 * 16 + n mod 16 = n"
    unfolding parts by (rule sum [symmetric])
  moreover have "get_codepoint s = get_codepoint_from (Suc (Suc (Suc (Suc 0)))) 0 s" for s
    by (simp add: get_codepoint_def eval_nat_numeral(2,3))
  ultimately show ?thesis
    by (simp add: hex4_def hex)
qed

lemma scan_string_escape:
  assumes "byte c < 128"
  shows "scan_string (escape_codepoint (byte c) c @ r) =
    map_option (\<lambda>(t, r'). (c # t, r')) (scan_string r)"
proof -
  have c: "c = char_of (byte c)" by simp
  consider "byte c \<le> 31" | "byte c = 34" | "byte c = 92"
    | "32 \<le> byte c" "byte c \<noteq> 34" "byte c \<noteq> 92"
    by linarith
  then show ?thesis
  proof cases
    case 1
    then have "scan_unicode_escape (hex4 (byte c) @ r) = Some ([c], r)"
      by (simp add: scan_unicode_escape_def get_codepoint_hex4 utf8_encode_def)
    moreover have "c = CHR 0x08" if "byte c = 8" using that byte_eq_iff [of c "CHR 0x08"] by simp
    moreover have "c = CHR 0x09" if "byte c = 9" using that byte_eq_iff [of c "CHR 0x09"] by simp
    moreover have "c = CHR 0x0A" if "byte c = 10" using that byte_eq_iff [of c "CHR 0x0A"] by simp
    moreover have "c = CHR 0x0C" if "byte c = 12" using that byte_eq_iff [of c "CHR 0x0C"] by simp
    moreover have "c = CHR 0x0D" if "byte c = 13" using that byte_eq_iff [of c "CHR 0x0D"] by simp
    ultimately show ?thesis
      using 1 by (auto simp: escape_codepoint_def scan_string.simps(2))
  next
    case 4
    with assms have "c \<noteq> quote_char" "c \<noteq> backslash_char" by auto
    with 4 assms show ?thesis by (simp add: escape_codepoint_def scan_string.simps(2))
  next
    case 2
    then have "c = quote_char" using byte_eq_iff [of c quote_char] by simp
    then show ?thesis by (simp add: escape_codepoint_def scan_string.simps(2))
  next
    case 3
    then have "c = backslash_char" using byte_eq_iff [of c backslash_char] by simp
    then show ?thesis by (simp add: escape_codepoint_def scan_string.simps(2))
  qed
qed

text \<open>The states of the automaton inside a sequence, with what the lead byte left in the code point.\<close>

definition mid_sequence :: "nat \<Rightarrow> nat \<Rightarrow> (nat \<times> nat) list \<Rightarrow> bool" where
  "mid_sequence st cp rs \<longleftrightarrow>
     st = 2 \<and> 2 \<le> cp \<and> cp < 2 ^ 20 \<and> rs = [(128, 191)] \<or>
     st = 3 \<and> 1 \<le> cp \<and> cp < 2 ^ 14 \<and> rs = [(128, 191), (128, 191)] \<or>
     st = 4 \<and> cp = 0 \<and> rs = [(160, 191), (128, 191)] \<or>
     st = 5 \<and> cp = 13 \<and> rs = [(128, 159), (128, 191)] \<or>
     st = 6 \<and> cp = 0 \<and> rs = [(144, 191), (128, 191), (128, 191)] \<or>
     st = 7 \<and> 1 \<le> cp \<and> cp < 2 ^ 8 \<and> rs = [(128, 191), (128, 191), (128, 191)] \<or>
     st = 8 \<and> cp = 4 \<and> rs = [(128, 143), (128, 191), (128, 191)]"

lemma utf8_decode_cont:
  "st \<noteq> 0 \<Longrightarrow> snd (utf8_decode st cp b) = b mod 64 + cp * 64 mod 2 ^ 32"
  by (simp add: utf8_decode_def)

lemma cont_byte_mod:
  fixes b :: nat
  shows "128 \<le> b \<Longrightarrow> b < 192 \<Longrightarrow> b mod 64 = b - 128"
  using le_mod_geq [of 64 b] le_mod_geq [of 64 "b - 64"] by simp

text \<open>
  One byte inside a sequence: the serializer goes on only when the byte lies in the range the
  lexer expects next, and copies it.
\<close>

lemma mid_sequence_decode:
  assumes "mid_sequence st cp rs" and "b < 256" and "fst (utf8_decode st cp b) \<noteq> 1"
  shows "\<exists>lo hi rs'. rs = (lo, hi) # rs' \<and> 128 \<le> lo \<and> lo \<le> b \<and> b \<le> hi \<and>
    (rs' = [] \<and> fst (utf8_decode st cp b) = 0 \<and> 128 \<le> snd (utf8_decode st cp b) \<or>
     mid_sequence (fst (utf8_decode st cp b)) (snd (utf8_decode st cp b)) rs')"
proof -
  have range: "128 \<le> b \<and> b < 192"
    using assms by (auto simp: mid_sequence_def utf8_next_cont split: if_splits)
  then have "b mod 64 = b - 128" by (simp add: cont_byte_mod)
  with assms range show ?thesis
    by (auto simp: mid_sequence_def utf8_next_cont utf8_decode_cont split: if_splits)
qed

lemma dump_mid_sequence:
  assumes "mid_sequence st cp rs" and "dump_escaped_from st cp s = Inr t"
  shows "\<exists>ds s' t'. s = ds @ s' \<and> t = ds @ t' \<and> ds \<noteq> [] \<and> list_all (\<lambda>d. 128 \<le> byte d) ds \<and>
    dump_escaped_from 0 0 s' = Inr t' \<and> (\<forall>r. next_byte_in_range rs (ds @ r) = Some (ds, r))"
  using assms
proof (induction rs arbitrary: st cp s t)
  case Nil
  then show ?case by (simp add: mid_sequence_def)
next
  case (Cons x rs)
  have "st \<noteq> 0" and "st \<noteq> 1" using Cons.prems(1) by (auto simp: mid_sequence_def)
  with Cons.prems(2) obtain d s' where s: "s = d # s'" by (cases s) auto
  define st' where "st' = fst (utf8_decode st cp (byte d))"
  define cp' where "cp' = snd (utf8_decode st cp (byte d))"
  have "st' \<noteq> 1"
    using Cons.prems(2) unfolding s st'_def by (auto simp: split_def Let_def)
  then obtain lo hi where x: "x = (lo, hi)" "128 \<le> lo" "lo \<le> byte d" "byte d \<le> hi"
    and nxt: "rs = [] \<and> st' = 0 \<and> 128 \<le> cp' \<or> mid_sequence st' cp' rs"
    using mid_sequence_decode [OF Cons.prems(1), of "byte d"] by (auto simp: st'_def cp'_def)
  from nxt show ?case
  proof
    assume fin: "rs = [] \<and> st' = 0 \<and> 128 \<le> cp'"
    then obtain t' where "dump_escaped_from 0 0 s' = Inr t'" and "t = d # t'"
      using Cons.prems(2) unfolding s st'_def cp'_def
      by (auto simp: split_def Let_def escape_codepoint_def dump_escaped_state0 [of "snd _"])
    with s x fin show ?thesis
      by (intro exI [of _ "[d]"] exI [of _ s'] exI [of _ t']) auto
  next
    assume mid: "mid_sequence st' cp' rs"
    then have "st' \<noteq> 0" by (auto simp: mid_sequence_def)
    then obtain t1 where t1: "dump_escaped_from st' cp' s' = Inr t1" "t = d # t1"
      using Cons.prems(2) \<open>st' \<noteq> 1\<close> unfolding s st'_def cp'_def
      by (auto simp: split_def Let_def)
    from Cons.IH [OF mid t1(1)] obtain ds s'' t' where "s' = ds @ s''" "t1 = ds @ t'"
      "list_all (\<lambda>d. 128 \<le> byte d) ds" "dump_escaped_from 0 0 s'' = Inr t'"
      "\<forall>r. next_byte_in_range rs (ds @ r) = Some (ds, r)"
      by blast
    with s x t1(2) show ?thesis
      by (intro exI [of _ "d # ds"] exI [of _ s''] exI [of _ t']) auto
  qed
qed

text \<open>The lead byte puts the automaton where the lexer's ranges start.\<close>

lemma lead_byte_mid_sequence:
  assumes "128 \<le> b" and "b < 256" and "fst (utf8_decode 0 cp b) \<noteq> 1"
  shows "\<exists>rs. utf8_tail_ranges b = Some rs \<and>
    mid_sequence (fst (utf8_decode 0 cp b)) (snd (utf8_decode 0 cp b)) rs"
  using assms(2)
proof (cases rule: utf8_class_cases)
  case 6
  then have "b mod 64 = b - 192" by (intro mod_nat_eqI) auto
  with 6 show ?thesis
    by (auto simp: utf8_decode_def utf8_rows_def utf8_tail_ranges_def mid_sequence_def)
next
  case 8
  then have "b mod 32 = b - 224" by (intro mod_nat_eqI) auto
  with 8 show ?thesis
    by (auto simp: utf8_decode_def utf8_rows_def utf8_tail_ranges_def mid_sequence_def)
next
  case 12
  then have "b mod 4 = b - 240" by (intro mod_nat_eqI) auto
  with 12 show ?thesis
    by (auto simp: utf8_decode_def utf8_rows_def utf8_tail_ranges_def mid_sequence_def)
qed (use assms in \<open>auto simp: utf8_decode_def utf8_rows_def utf8_tail_ranges_def mid_sequence_def\<close>)

lemma scan_string_dump_escaped:
  "dump_escaped_from 0 cp s = Inr t \<Longrightarrow> scan_string (t @ quote_char # r) = Some (s, r)"
proof (induction "length s" arbitrary: s t cp rule: less_induct)
  case less
  show ?case
  proof (cases s)
    case Nil
    with less.prems show ?thesis by (simp add: scan_string.simps(2))
  next
    case (Cons c s')
    define st' where "st' = fst (utf8_decode 0 cp (byte c))"
    define cp' where "cp' = snd (utf8_decode 0 cp (byte c))"
    have "st' \<noteq> 1" using less.prems unfolding Cons st'_def by (auto simp: split_def Let_def)
    show ?thesis
    proof (cases "byte c < 128")
      case True
      then have "utf8_decode 0 cp (byte c) = (0, byte c)"
        by (simp add: utf8_decode_def utf8_class_values utf8_rows_def)
      with less.prems Cons obtain t' where t': "dump_escaped_from 0 (byte c) s' = Inr t'"
        and t: "t = escape_codepoint (byte c) c @ t'"
        by auto
      from less.hyps [OF _ t'] Cons have "scan_string (t' @ quote_char # r) = Some (s', r)"
        by simp
      with True t Cons show ?thesis by (simp add: scan_string_escape)
    next
      case False
      have "fst (utf8_decode 0 cp (byte c)) = fst (utf8_decode 0 0 (byte c))"
        "snd (utf8_decode 0 cp (byte c)) = snd (utf8_decode 0 0 (byte c))"
        by (simp_all add: utf8_decode_def)
      then obtain rs where rs: "utf8_tail_ranges (byte c) = Some rs"
        and mid: "mid_sequence st' cp' rs"
        using lead_byte_mid_sequence [of "byte c" cp] False \<open>st' \<noteq> 1\<close>
        by (auto simp: st'_def cp'_def)
      then have "st' \<noteq> 0" by (auto simp: mid_sequence_def)
      then obtain t1 where t1: "dump_escaped_from st' cp' s' = Inr t1" "t = c # t1"
        using less.prems \<open>st' \<noteq> 1\<close> unfolding Cons st'_def cp'_def
        by (auto simp: split_def Let_def)
      from dump_mid_sequence [OF mid t1(1)] obtain ds s'' t' where ds: "s' = ds @ s''"
        "t1 = ds @ t'" "ds \<noteq> []" "dump_escaped_from 0 0 s'' = Inr t'"
        "\<forall>r. next_byte_in_range rs (ds @ r) = Some (ds, r)"
        by blast
      from less.hyps [OF _ ds(4)] Cons ds(1)
      have "scan_string (t' @ quote_char # r) = Some (s'', r)" by simp
      moreover have "c \<noteq> quote_char" "c \<noteq> backslash_char" using False by auto
      ultimately show ?thesis
        using False rs ds t1(2) Cons by (simp add: scan_string.simps(2))
    qed
  qed
qed

lemma json_scan_dump_string:
  assumes "dump_string s = Inr t"
  shows "json_scan (t @ r) = (Value_String s, r)"
proof -
  obtain u where "dump_escaped s = Inr u" and t: "t = quote_char # u @ [quote_char]"
    using assms by (auto simp: dump_string_def)
  then have "scan_string (u @ quote_char # r) = Some (s, r)"
    using scan_string_dump_escaped [of 0 s u r] by (simp add: dump_escaped_def)
  then show ?thesis
    by (simp add: t json_scan_def is_space_def scan_token_def)
qed

section \<open>Values\<close>

fun json_wf :: "json \<Rightarrow> bool" where
  "json_wf (JInt n) = int_fits n"
| "json_wf (JFloat l) = False"
| "json_wf (JArray xs) = list_all json_wf xs"
| "json_wf (JObject xs) = (obj_wf xs \<and> list_all (\<lambda>(k, v). json_wf v) xs)"
| "json_wf _ = True"

lemma json_scan_punctuation [simp]:
  "json_scan (CHR ''['' # s) = (Begin_Array, s)"
  "json_scan (CHR '']'' # s) = (End_Array, s)"
  "json_scan (CHR ''{'' # s) = (Begin_Object, s)"
  "json_scan (CHR ''}'' # s) = (End_Object, s)"
  "json_scan (CHR '':'' # s) = (Name_Separator, s)"
  "json_scan (CHR '','' # s) = (Value_Separator, s)"
  "json_scan [] = (End_Of_Input, [])"
  by (simp_all add: json_scan_def is_space_def scan_token_def)

lemma json_scan_literals [simp]:
  "json_scan (CHR ''t'' # CHR ''r'' # CHR ''u'' # CHR ''e'' # s) = (Literal_True, s)"
  "json_scan (CHR ''f'' # CHR ''a'' # CHR ''l'' # CHR ''s'' # CHR ''e'' # s) = (Literal_False, s)"
  "json_scan (CHR ''n'' # CHR ''u'' # CHR ''l'' # CHR ''l'' # s) = (Literal_Null, s)"
  by (simp_all add: json_scan_def is_space_def scan_token_def)

text \<open>
  \<open>t\<close> is a text of the value \<open>j\<close>: in front of a separator it is read as one value, whatever
  containers are open.
\<close>

definition text_of :: "string \<Rightarrow> json \<Rightarrow> bool" where
  "text_of t j \<longleftrightarrow> (\<forall>st r. at_delimiter r \<longrightarrow>
     (\<exists>tok s. json_scan (t @ r) = (tok, s) \<and> parse_value st tok s = parse_after st j r \<and>
        tok \<notin> {End_Array, End_Object, End_Of_Input}))"

lemma text_ofD:
  assumes "text_of t j" and "at_delimiter r"
  obtains tok s where "json_scan (t @ r) = (tok, s)" "parse_value st tok s = parse_after st j r"
    "tok \<notin> {End_Array, End_Object, End_Of_Input}"
  using assms unfolding text_of_def by blast

lemma text_of_scalar:
  assumes "\<And>r. at_delimiter r \<Longrightarrow> json_scan (t @ r) = (tok, r)" and "scalar_value tok = Some j"
    and "\<And>l. j \<noteq> JFloat l"
  shows "text_of t j"
proof -
  have "parse_value st tok r = parse_after st j r" for st r
    using assms(2,3) by (cases tok; cases j) (auto simp: parse_value.simps scalar_value_def)
  with assms(1,2) show ?thesis
    by (auto simp: text_of_def scalar_value_def split: token.splits)
qed

lemma parse_elements:
  assumes "\<forall>y \<in> set (x # xs). \<forall>t. json_dump y = Inr t \<longrightarrow> text_of t y"
    and "comma_join (map json_dump (x # xs)) = Inr u"
  shows "\<exists>tok s. json_scan (u @ CHR '']'' # r) = (tok, s) \<and>
    parse_value (In_Array ys # st) tok s = parse_after st (JArray (ys @ x # xs)) r \<and>
    tok \<notin> {End_Array, End_Object, End_Of_Input}"
  using assms
proof (induction xs arbitrary: x u ys)
  case Nil
  then have "text_of u x" by simp
  then obtain tok s where "json_scan (u @ CHR '']'' # r) = (tok, s)"
    "parse_value (In_Array ys # st) tok s = parse_after (In_Array ys # st) x (CHR '']'' # r)"
    "tok \<notin> {End_Array, End_Object, End_Of_Input}"
    by (rule text_ofD [where st = "In_Array ys # st"]) (rule at_delimiter_separators)
  then show ?case by (simp add: parse_after.simps)
next
  case (Cons x' xs)
  then obtain t u' where t: "json_dump x = Inr t" and u': "comma_join (map json_dump (x' # xs)) = Inr u'"
    and u: "u = t @ CHR '','' # u'"
    by auto
  from Cons.prems(1) t have "text_of t x" by simp
  then obtain tok s where scan: "json_scan (t @ CHR '','' # u' @ CHR '']'' # r) = (tok, s)"
    "parse_value (In_Array ys # st) tok s =
       parse_after (In_Array ys # st) x (CHR '','' # u' @ CHR '']'' # r)"
    "tok \<notin> {End_Array, End_Object, End_Of_Input}"
    by (rule text_ofD [where st = "In_Array ys # st"]) (rule at_delimiter_separators)
  from Cons.IH [OF _ u', of "ys @ [x]"] Cons.prems(1) obtain tok' s' where
    "json_scan (u' @ CHR '']'' # r) = (tok', s')"
    "parse_value (In_Array (ys @ [x]) # st) tok' s' = parse_after st (JArray (ys @ x # x' # xs)) r"
    by auto
  with scan show ?case by (simp add: u parse_after.simps)
qed

lemma obj_assign_last: "\<forall>x \<in> set xs. fst x < k \<Longrightarrow> obj_assign k v xs = xs @ [(k, v)]"
  by (induction k v xs rule: obj_assign.induct) auto

lemma obj_wf_append_Cons:
  "obj_wf (xs @ (k, v) # ys) \<Longrightarrow> \<forall>x \<in> set xs. fst x < k"
  by (auto simp: obj_wf_def sorted_wrt_append)

lemma parse_members:
  assumes "\<forall>(k, v) \<in> set ((k, v) # xs). \<forall>t. json_dump v = Inr t \<longrightarrow> text_of t v"
    and "comma_join (map (\<lambda>(k, v). dump_member k (json_dump v)) ((k, v) # xs)) = Inr u"
    and "obj_wf (acc @ (k, v) # xs)"
  shows "\<exists>tok s tok' s'. json_scan (u @ CHR ''}'' # r) = (tok, s) \<and> tok \<noteq> End_Object \<and>
    scan_key tok s = Some (k, tok', s') \<and>
    parse_value (In_Object acc k # st) tok' s' = parse_after st (JObject (acc @ (k, v) # xs)) r"
  using assms
proof (induction xs arbitrary: k v u acc)
  case Nil
  then obtain tk tv where d: "dump_string k = Inr tk" "json_dump v = Inr tv" and u: "u = tk @ CHR '':'' # tv"
    by (auto simp: dump_member_def)
  from Nil.prems(1) d(2) have "text_of tv v" by simp
  then obtain tok s where "json_scan (tv @ CHR ''}'' # r) = (tok, s)"
    "parse_value (In_Object acc k # st) tok s = parse_after (In_Object acc k # st) v (CHR ''}'' # r)"
    by (rule text_ofD [where st = "In_Object acc k # st"]) (rule at_delimiter_separators)
  moreover have "obj_assign k v acc = acc @ [(k, v)]"
    using Nil.prems(3) by (intro obj_assign_last obj_wf_append_Cons)
  ultimately show ?case
    by (simp add: u json_scan_dump_string [OF d(1)] scan_key_def parse_after.simps)
next
  case (Cons m xs)
  obtain k' v' where m: "m = (k', v')" by (cases m)
  with Cons.prems(2) obtain tk tv u' where d: "dump_string k = Inr tk" "json_dump v = Inr tv"
    and u': "comma_join (map (\<lambda>(k, v). dump_member k (json_dump v)) ((k', v') # xs)) = Inr u'"
    and u: "u = tk @ CHR '':'' # tv @ CHR '','' # u'"
    by (auto simp: dump_member_def)
  from Cons.prems(1) d(2) have "text_of tv v" by simp
  then obtain tok s where scan: "json_scan (tv @ CHR '','' # u' @ CHR ''}'' # r) = (tok, s)"
    "parse_value (In_Object acc k # st) tok s =
       parse_after (In_Object acc k # st) v (CHR '','' # u' @ CHR ''}'' # r)"
    by (rule text_ofD [where st = "In_Object acc k # st"]) (rule at_delimiter_separators)
  have assign: "obj_assign k v acc = acc @ [(k, v)]"
    using Cons.prems(3) by (intro obj_assign_last obj_wf_append_Cons)
  have "\<forall>(k, v) \<in> set ((k', v') # xs). \<forall>t. json_dump v = Inr t \<longrightarrow> text_of t v"
    and "obj_wf ((acc @ [(k, v)]) @ (k', v') # xs)"
    using Cons.prems(1,3) m by simp_all
  from Cons.IH [OF this(1) u' this(2)] obtain tok1 s1 tok2 s2 where
    "json_scan (u' @ CHR ''}'' # r) = (tok1, s1)" "scan_key tok1 s1 = Some (k', tok2, s2)"
    "parse_value (In_Object (acc @ [(k, v)]) k' # st) tok2 s2 =
       parse_after st (JObject (acc @ (k, v) # m # xs)) r"
    by (auto simp: m)
  with scan show ?case
    by (simp add: u json_scan_dump_string [OF d(1)] scan_key_def parse_after.simps assign)
qed

lemma json_dump_text_of: "json_wf j \<Longrightarrow> json_dump j = Inr t \<Longrightarrow> text_of t j"
proof (induction j arbitrary: t)
  case JNull
  then show ?case by (intro text_of_scalar [where tok = Literal_Null]) (auto simp: scalar_value_def)
next
  case (JBool b)
  then show ?case
    by (intro text_of_scalar [where tok = "if b then Literal_True else Literal_False"])
      (auto simp: scalar_value_def)
next
  case (JInt n)
  then show ?case
    by (intro text_of_scalar [where tok = "Value_Int n"]) (auto simp: scalar_value_def json_scan_integer)
next
  case (JFloat l)
  then show ?case by simp
next
  case (JString s)
  then show ?case
    by (intro text_of_scalar [where tok = "Value_String s"])
      (auto simp: scalar_value_def json_scan_dump_string)
next
  case (JArray xs)
  show ?case
  proof (cases xs)
    case Nil
    with JArray.prems show ?thesis by (auto simp: text_of_def parse_value.simps)
  next
    case (Cons x xs')
    with JArray.prems obtain u where u: "comma_join (map json_dump (x # xs')) = Inr u"
      and t: "t = CHR ''['' # u @ '']''"
      by auto
    have "\<forall>y \<in> set (x # xs'). \<forall>t. json_dump y = Inr t \<longrightarrow> text_of t y"
      using JArray Cons by (auto simp: list_all_iff)
    note elements = parse_elements [OF this u, where ys = "[]"]
    have "\<exists>tok s. json_scan (t @ r) = (tok, s) \<and> parse_value st tok s = parse_after st (JArray xs) r \<and>
        tok \<notin> {End_Array, End_Object, End_Of_Input}" for st r
      using elements [of r st] Cons by (auto simp: t parse_value.simps [of _ Begin_Array])
    then show ?thesis by (simp add: text_of_def)
  qed
next
  case (JObject xs)
  show ?case
  proof (cases xs)
    case Nil
    with JObject.prems show ?thesis by (auto simp: text_of_def parse_value.simps)
  next
    case (Cons m xs')
    obtain k v where m: "m = (k, v)" by (cases m)
    with JObject.prems Cons obtain u where
      u: "comma_join (map (\<lambda>(k, v). dump_member k (json_dump v)) ((k, v) # xs')) = Inr u"
      and t: "t = CHR ''{'' # u @ ''}''"
      by auto
    have texts: "\<forall>(k, v) \<in> set ((k, v) # xs'). \<forall>t. json_dump v = Inr t \<longrightarrow> text_of t v"
      using JObject Cons m by (fastforce simp: list_all_iff)
    have "obj_wf ([] @ (k, v) # xs')" using JObject.prems(1) Cons m by simp
    note members = parse_members [OF texts u this]
    have "\<exists>tok s. json_scan (t @ r) = (tok, s) \<and> parse_value st tok s = parse_after st (JObject xs) r \<and>
        tok \<notin> {End_Array, End_Object, End_Of_Input}" for st r
      using members [of r st] Cons m by (auto simp: t parse_value.simps [of _ Begin_Object])
    then show ?thesis by (simp add: text_of_def)
  qed
qed

section \<open>The round trip\<close>

lemma text_of_skip_bom: "text_of t j \<Longrightarrow> skip_bom t = Some t"
proof (cases t)
  case (Cons c r)
  assume *: "text_of t j"
  have "byte c \<noteq> 239"
  proof
    assume "byte c = 239"
    then have "json_scan t = (Parse_Error, [])"
      by (simp add: Cons json_scan_def scan_token_def is_space_def is_digit_def byte_eq_iff)
    moreover obtain tok s where "json_scan (t @ []) = (tok, s)"
      "parse_value [] tok s = parse_after [] j []"
      by (rule text_ofD [OF *, where st = "[]" and r = "[]"]) (simp add: at_delimiter_def)
    ultimately show False
      by (simp add: parse_value.simps scalar_value_def parse_after.simps)
  qed
  then show ?thesis by (simp add: Cons skip_bom_def)
qed (simp add: skip_bom_def)

lemma json_parse_dump:
  assumes "json_wf j" and "json_dump j = Inr t"
  shows "json_parse t = Inr j"
proof -
  have *: "text_of t j" using assms by (rule json_dump_text_of)
  obtain tok s where "json_scan (t @ []) = (tok, s)" "parse_value [] tok s = parse_after [] j []"
    by (rule text_ofD [OF *, where st = "[]" and r = "[]"]) (simp add: at_delimiter_def)
  with text_of_skip_bom [OF *] show ?thesis
    by (simp add: json_parse_eq parse_text_def parse_after.simps)
qed

section \<open>Dumped text has no control characters\<close>

abbreviation printable :: "string \<Rightarrow> bool" where
  "printable s \<equiv> list_all (\<lambda>c. 32 \<le> byte c) s"

lemma hex_digit_printable: "n < 16 \<Longrightarrow> 32 \<le> byte (hex_digit n)"
  by (simp add: hex_digit_def)

lemma escape_codepoint_printable:
  "cp \<le> 31 \<or> 32 \<le> byte c \<Longrightarrow> printable (escape_codepoint cp c)"
  by (auto simp: escape_codepoint_def hex4_def hex_digit_printable)

lemma utf8_decode_high:
  assumes "b < 256" and "state \<le> 8" and "state \<noteq> 1" and "fst (utf8_decode state cp b) \<noteq> 1"
  shows "128 \<le> b \<or> utf8_decode state cp b = (0, b)"
proof (cases "b < 128 \<and> state = 0")
  case True
  then show ?thesis by (simp add: utf8_decode_def utf8_class_values utf8_rows_def)
next
  case False
  have "state \<in> {0, 2, 3, 4, 5, 6, 7, 8}" using assms(2,3) by auto
  with False assms(4) utf8_next_cont [OF assms(1), of cp] show ?thesis
    by (auto split: if_splits)
qed

lemma utf8_decode_state:
  assumes "b < 256" and "state \<le> 8"
  shows "fst (utf8_decode state cp b) \<le> 8"
proof (cases "state = 0 \<or> state = 1")
  case True
  then show ?thesis
    using utf8_next_0 [OF assms(1), of cp] assms(1)
    by (auto elim!: utf8_class_cases simp: utf8_decode_def utf8_rows_def)
next
  case False
  then have "state \<in> {2, 3, 4, 5, 6, 7, 8}" using assms(2) by auto
  with utf8_next_cont [OF assms(1), of cp] show ?thesis by auto
qed

lemma dump_escaped_from_printable:
  "state \<le> 8 \<Longrightarrow> state \<noteq> 1 \<Longrightarrow> dump_escaped_from state cp s = Inr t \<Longrightarrow> printable t"
proof (induction s arbitrary: state cp t)
  case Nil
  then show ?case by (simp split: if_splits)
next
  case (Cons c s)
  obtain st' cp' where d: "utf8_decode state cp (byte c) = (st', cp')"
    by (cases "utf8_decode state cp (byte c)")
  with Cons.prems(3) have "st' \<noteq> 1" by auto
  with utf8_decode_high [of "byte c" state cp] Cons.prems(1,2) d
  have high: "128 \<le> byte c \<or> st' = 0 \<and> cp' = byte c" by simp
  have "st' \<le> 8" using utf8_decode_state [of "byte c" state cp] Cons.prems(1) d by simp
  show ?case
  proof (cases "st' = 0")
    case True
    with Cons.prems(3) d obtain u where "dump_escaped_from 0 cp' s = Inr u"
      and "t = escape_codepoint cp' c @ u" by auto
    with Cons.IH [of 0 cp' u] high show ?thesis
      by (auto intro!: escape_codepoint_printable)
  next
    case False
    with Cons.prems(3) d \<open>st' \<noteq> 1\<close> obtain u where "dump_escaped_from st' cp' s = Inr u"
      and "t = c # u" by auto
    with Cons.IH [of st' cp' u] high \<open>st' \<noteq> 1\<close> \<open>st' \<le> 8\<close> False show ?thesis by auto
  qed
qed

lemma dump_string_printable: "dump_string s = Inr t \<Longrightarrow> printable t"
  by (auto simp: dump_string_def dump_escaped_def dest!: dump_escaped_from_printable [rotated 2])

lemma digit_char_printable: "n < 10 \<Longrightarrow> 32 \<le> byte (digit_char n)"
  by (simp add: digit_char_def)

lemma dump_abs_printable: "printable (dump_abs n)"
proof (induction n rule: dump_abs.induct)
  case (1 n)
  have "n mod 100 div 10 < 10" by (rule less_mult_imp_div_less) simp
  with 1 show ?case
    by (subst dump_abs.simps) (auto simp: digits_to_99_def digit_char_printable)
qed

lemma dump_integer_printable: "printable (dump_integer n)"
  by (simp add: dump_integer_def dump_abs_printable)

lemma comma_join_printable:
  "comma_join rs = Inr t \<Longrightarrow> (\<And>r u. r \<in> set rs \<Longrightarrow> r = Inr u \<Longrightarrow> printable u) \<Longrightarrow> printable t"
proof (induction rs arbitrary: t rule: comma_join.induct)
  case (3 r r' rs)
  then obtain u v where "r = Inr u" "comma_join (r' # rs) = Inr v" "t = u @ CHR '','' # v" by auto
  with 3 show ?case by auto
qed auto

lemma json_dump_printable: "json_dump j = Inr t \<Longrightarrow> printable t"
proof (induction j arbitrary: t)
  case (JArray xs)
  then show ?case
    by (auto dest!: comma_join_printable split: if_splits)
next
  case (JObject xs)
  have "printable u" if "(k, v) \<in> set xs" "dump_member k (json_dump v) = Inr u" for k v u
    using that JObject.IH [of "(k, v)"] by (auto simp: dump_member_def dest: dump_string_printable)
  then show ?case
    using JObject.prems by (auto dest!: comma_join_printable split: if_splits)
qed (auto simp: dump_integer_printable dump_string_printable)

section \<open>Which strings are dumped, and in how many bytes\<close>

definition valid_utf8 :: "string \<Rightarrow> bool" where
  "valid_utf8 s = is_ok (dump_escaped s)"

definition plain_char :: "char \<Rightarrow> bool" where
  "plain_char c \<longleftrightarrow> 32 \<le> byte c \<and> byte c < 128 \<and> c \<noteq> quote_char \<and> c \<noteq> backslash_char"

lemma dump_escaped_plain: "list_all plain_char s \<Longrightarrow> dump_escaped_from 0 cp s = Inr s"
proof (induction s arbitrary: cp)
  case (Cons c s)
  then have "plain_char c" by simp
  then have "utf8_decode 0 cp (byte c) = (0, byte c)" and "escape_codepoint (byte c) c = [c]"
    by (auto simp: plain_char_def utf8_decode_def utf8_class_values utf8_rows_def
        escape_codepoint_def byte_eq_iff)
  with Cons show ?case by simp
qed simp

lemma dump_string_plain: "list_all plain_char s \<Longrightarrow> dump_string s = Inr (quote_char # s @ [quote_char])"
  by (simp add: dump_string_def dump_escaped_def dump_escaped_plain)

lemma valid_utf8_plain: "list_all plain_char s \<Longrightarrow> valid_utf8 s"
  by (simp add: valid_utf8_def dump_escaped_def dump_escaped_plain)

lemma escape_codepoint_length: "length (escape_codepoint cp c) \<le> 6"
  by (simp add: escape_codepoint_def hex4_def)

lemma dump_escaped_from_length:
  "dump_escaped_from state cp s = Inr t \<Longrightarrow> length t \<le> 6 * length s"
proof (induction state cp s arbitrary: t rule: dump_escaped_from.induct)
  case (2 state codep c s)
  obtain st' cp' where d: "utf8_decode state codep (byte c) = (st', cp')"
    by (cases "utf8_decode state codep (byte c)")
  from 2 d show ?case
    using escape_codepoint_length [of cp' c] by (fastforce split: if_splits)
qed (simp split: if_splits)

lemma dump_string_length: "dump_string s = Inr t \<Longrightarrow> length t \<le> 6 * length s + 2"
  by (auto simp: dump_string_def dump_escaped_def dest: dump_escaped_from_length)

lemma dump_string_valid: "valid_utf8 s \<Longrightarrow> \<exists>t. dump_string s = Inr t"
  by (auto simp: valid_utf8_def dump_string_def is_ok_iff)

lemma dump_abs_length: "n < 10 ^ k \<Longrightarrow> 0 < k \<Longrightarrow> length (dump_abs n) \<le> k"
proof (induction n arbitrary: k rule: dump_abs.induct)
  case (1 n)
  show ?case
  proof (cases "100 \<le> n")
    case True
    obtain k' where k: "k = Suc (Suc k')" "0 < k'"
    proof (cases k)
      case (Suc m)
      with 1 True show ?thesis
        using that by (cases m; cases "m - 1") auto
    qed (use 1 in simp)
    with 1 have "n div 100 < 10 ^ k'" by (simp add: less_mult_imp_div_less)
    with 1(1) [OF True, of k'] True k show ?thesis
      by (subst dump_abs.simps) (simp add: digits_to_99_def)
  next
    case False
    moreover have "2 \<le> k" if "10 \<le> n"
      using that 1(2,3) by (cases k; cases "k - 1") auto
    ultimately show ?thesis
      using 1(3) by (subst dump_abs.simps) (auto simp: digits_to_99_def)
  qed
qed

lemma dump_integer_length: "is_int32 n \<Longrightarrow> length (dump_integer n) \<le> 11"
proof -
  assume n: "is_int32 n"
  have "length (dump_abs (nat n)) \<le> 10" and "length (dump_abs (nat (- n))) \<le> 10"
    using n by (intro dump_abs_length; auto simp: is_int32_def)+
  then show ?thesis by (simp add: dump_integer_def)
qed

section \<open>All dumps\<close>

lemma dump_escaped_from_error: "dump_escaped_from state cp s = Inl e \<Longrightarrow> e = Json_Invalid_Utf8"
proof (induction state cp s rule: dump_escaped_from.induct)
  case (2 state codep c s)
  obtain st' cp' where "utf8_decode state codep (byte c) = (st', cp')"
    by (cases "utf8_decode state codep (byte c)")
  with 2 show ?case by (auto simp: res_bind_eq_Inl split: if_splits)
qed (simp split: if_splits)

lemma dump_string_error: "dump_string s = Inl e \<Longrightarrow> e = Json_Invalid_Utf8"
  by (auto simp: dump_string_def dump_escaped_def res_bind_eq_Inl dest: dump_escaped_from_error)

lemma comma_join_error:
  "comma_join rs = Inl e \<Longrightarrow> \<exists>r \<in> set rs. r = Inl e"
  by (induction rs rule: comma_join.induct) (auto simp: res_bind_eq_Inl)

lemma json_dump_error: "json_wf j \<Longrightarrow> json_dump j = Inl e \<Longrightarrow> e = Json_Invalid_Utf8"
proof (induction j arbitrary: e)
  case (JArray xs)
  then show ?case
    by (auto simp: res_bind_eq_Inl list_all_iff dest!: comma_join_error split: if_splits)
next
  case (JObject xs)
  have "e' = Json_Invalid_Utf8" if "(k, v) \<in> set xs" "dump_member k (json_dump v) = Inl e'" for k v e'
    using that JObject.IH [of "(k, v)"] JObject.prems(1)
    by (auto simp: dump_member_def res_bind_eq_Inl list_all_iff dest: dump_string_error)
  then show ?case
    using JObject.prems by (auto simp: res_bind_eq_Inl dest!: comma_join_error split: if_splits)
qed (auto dest: dump_string_error)

text \<open>
  C26. Every JSON value the server builds (nested objects and arrays, 64-bit integers, strings of any
  bytes) is either refused by \<open>dump\<close> for ill-formed UTF-8, or written as a text that \<open>accept\<close>
  accepts, \<open>parse\<close> reads back as the same value, and that has no control character in it, so it
  survives being read as a C string.
\<close>

theorem dump_parse_total:
  assumes "json_wf j"
  shows "json_dump j = Inl Json_Invalid_Utf8 \<or>
    (\<exists>t. json_dump j = Inr t \<and> json_accept t \<and> json_parse t = Inr j \<and>
      list_all (\<lambda>c. 32 \<le> byte c) t)"
proof (cases "json_dump j")
  case (Inl e)
  with json_dump_error [OF assms] show ?thesis by simp
next
  case (Inr t)
  with json_parse_dump [OF assms] json_dump_printable show ?thesis by (auto simp: json_accept_iff json_parse_eq)
qed

theorem dump_parse_total_witness:
  "json_dump (JObject [(''a'', JArray [JInt (-7), JBool True]), (''b'', JString [CHR 0x0A])]) =
      Inl Json_Invalid_Utf8 \<or>
    (\<exists>t. json_dump (JObject [(''a'', JArray [JInt (-7), JBool True]), (''b'', JString [CHR 0x0A])]) =
        Inr t \<and> json_accept t \<and>
      json_parse t = Inr (JObject [(''a'', JArray [JInt (-7), JBool True]), (''b'', JString [CHR 0x0A])]) \<and>
      list_all (\<lambda>c. 32 \<le> byte c) t)"
  by (rule dump_parse_total) (simp add: int_fits_def obj_wf_def)

end
