(* ===== verification/Message_Info.thy ===== *)
theory Message_Info
  imports Json_Roundtrip
begin

text \<open>
  \<open>message-info.hh\<close> and \<open>message-info.cc\<close>: message tags and codes, the numbers they are cast to,
  and the tables \<open>printSentMessage\<close> indexes with them. The enums share the enumerator
  \<open>SHUTDOWN\<close>, which is prefixed here. A \<open>switch\<close> over a code received from the network is modelled
  on the decoded enumerator; a number without an enumerator decodes to \<open>None\<close> and takes no case.
\<close>

section \<open>Tags and codes\<close>

datatype message_tag =
    LEADER_ELECTION
  | CONSENSUS
  | REPL
  | FAILURE_DETECTION
  | CLIENT
  | SIZE

fun tag_int :: "message_tag \<Rightarrow> int" where
  "tag_int LEADER_ELECTION = 0"
| "tag_int CONSENSUS = 1"
| "tag_int REPL = 2"
| "tag_int FAILURE_DETECTION = 3"
| "tag_int CLIENT = 4"
| "tag_int SIZE = 5"

lemma tag_int_inject [simp]: "tag_int t = tag_int t' \<longleftrightarrow> t = t'"
  by (cases t; cases t') simp_all

text \<open>The order of \<open>std::map\<close> on tags.\<close>

instantiation message_tag :: linorder
begin

definition less_eq_message_tag :: "message_tag \<Rightarrow> message_tag \<Rightarrow> bool" where
  "t \<le> t' \<longleftrightarrow> tag_int t \<le> tag_int t'"

definition less_message_tag :: "message_tag \<Rightarrow> message_tag \<Rightarrow> bool" where
  "t < t' \<longleftrightarrow> tag_int t < tag_int t'"

instance
  by intro_classes (auto simp: less_eq_message_tag_def less_message_tag_def)

end

datatype leader_election_code = Election_SHUTDOWN | ELECTION | ALIVE | VICTORY

datatype consensus_code = Consensus_SHUTDOWN | PREPARE | PROMISE | PROPOSE | ACCEPT | ACCEPTED

datatype failure_code = Failure_SHUTDOWN | PING | STATE | STATE_UPDATED | RECOVERED

datatype client_code = Client_SHUTDOWN | PORT | DISCONNECT | REPLICATE | SUCCESS

datatype repl_code =
  Repl_SHUTDOWN | START | SPEED_LOW | SPEED_MEDIUM | SPEED_HIGH | CRASH | RECOVER

definition leader_election_codes :: "leader_election_code list" where
  "leader_election_codes = [Election_SHUTDOWN, ELECTION, ALIVE, VICTORY]"

definition consensus_codes :: "consensus_code list" where
  "consensus_codes = [Consensus_SHUTDOWN, PREPARE, PROMISE, PROPOSE, ACCEPT, ACCEPTED]"

definition failure_codes :: "failure_code list" where
  "failure_codes = [Failure_SHUTDOWN, PING, STATE, STATE_UPDATED, RECOVERED]"

definition client_codes :: "client_code list" where
  "client_codes = [Client_SHUTDOWN, PORT, DISCONNECT, REPLICATE, SUCCESS]"

definition repl_codes :: "repl_code list" where
  "repl_codes = [Repl_SHUTDOWN, START, SPEED_LOW, SPEED_MEDIUM, SPEED_HIGH, CRASH, RECOVER]"

text \<open>\<open>static_cast\<close> to an \<open>int\<close> and back: the enumerators are numbered from 0.\<close>

fun enum_int :: "'c list \<Rightarrow> 'c \<Rightarrow> int" where
  "enum_int [] c = 0"
| "enum_int (d # ds) c = (if c = d then 0 else 1 + enum_int ds c)"

definition enum_of_int :: "'c list \<Rightarrow> int \<Rightarrow> 'c option" where
  "enum_of_int ds n = (if 0 \<le> n \<and> n < int (length ds) then Some (ds ! nat n) else None)"

lemma enum_int_bounds: "c \<in> set ds \<Longrightarrow> 0 \<le> enum_int ds c \<and> enum_int ds c < int (length ds)"
  by (induction ds c rule: enum_int.induct) auto

lemma enum_int_nth: "c \<in> set ds \<Longrightarrow> ds ! nat (enum_int ds c) = c"
proof (induction ds c rule: enum_int.induct)
  case (2 d ds c)
  then show ?case
    using enum_int_bounds [of c ds] by (auto simp: nat_add_distrib)
qed simp

lemma enum_of_int_enum_int: "c \<in> set ds \<Longrightarrow> enum_of_int ds (enum_int ds c) = Some c"
  using enum_int_bounds [of c ds] by (simp add: enum_of_int_def enum_int_nth)

datatype code =
    Leader_Election_Code leader_election_code
  | Consensus_Code consensus_code
  | Repl_Code repl_code
  | Failure_Code failure_code
  | Client_Code client_code

fun get_tag_from_code :: "code \<Rightarrow> message_tag" where
  "get_tag_from_code (Leader_Election_Code _) = LEADER_ELECTION"
| "get_tag_from_code (Consensus_Code _) = CONSENSUS"
| "get_tag_from_code (Repl_Code _) = REPL"
| "get_tag_from_code (Failure_Code _) = FAILURE_DETECTION"
| "get_tag_from_code (Client_Code _) = CLIENT"

fun code_int :: "code \<Rightarrow> int" where
  "code_int (Leader_Election_Code c) = enum_int leader_election_codes c"
| "code_int (Consensus_Code c) = enum_int consensus_codes c"
| "code_int (Repl_Code c) = enum_int repl_codes c"
| "code_int (Failure_Code c) = enum_int failure_codes c"
| "code_int (Client_Code c) = enum_int client_codes c"

definition leader_election_code_of_int :: "int \<Rightarrow> leader_election_code option" where
  "leader_election_code_of_int = enum_of_int leader_election_codes"

definition consensus_code_of_int :: "int \<Rightarrow> consensus_code option" where
  "consensus_code_of_int = enum_of_int consensus_codes"

definition repl_code_of_int :: "int \<Rightarrow> repl_code option" where
  "repl_code_of_int = enum_of_int repl_codes"

definition failure_code_of_int :: "int \<Rightarrow> failure_code option" where
  "failure_code_of_int = enum_of_int failure_codes"

definition client_code_of_int :: "int \<Rightarrow> client_code option" where
  "client_code_of_int = enum_of_int client_codes"

lemma all_codes:
  "c1 \<in> set leader_election_codes" "c2 \<in> set consensus_codes" "c3 \<in> set repl_codes"
  "c4 \<in> set failure_codes" "c5 \<in> set client_codes"
proof -
  show "c1 \<in> set leader_election_codes" by (cases c1) (simp_all add: leader_election_codes_def)
  show "c2 \<in> set consensus_codes" by (cases c2) (simp_all add: consensus_codes_def)
  show "c3 \<in> set repl_codes" by (cases c3) (simp_all add: repl_codes_def)
  show "c4 \<in> set failure_codes" by (cases c4) (simp_all add: failure_codes_def)
  show "c5 \<in> set client_codes" by (cases c5) (simp_all add: client_codes_def)
qed

lemma code_of_int_code_int [simp]:
  "leader_election_code_of_int (code_int (Leader_Election_Code c1)) = Some c1"
  "consensus_code_of_int (code_int (Consensus_Code c2)) = Some c2"
  "repl_code_of_int (code_int (Repl_Code c3)) = Some c3"
  "failure_code_of_int (code_int (Failure_Code c4)) = Some c4"
  "client_code_of_int (code_int (Client_Code c5)) = Some c5"
  by (simp_all add: leader_election_code_of_int_def consensus_code_of_int_def repl_code_of_int_def
      failure_code_of_int_def client_code_of_int_def enum_of_int_enum_int all_codes)

lemma code_int_is_int32: "is_int32 (code_int c)"
proof -
  have "0 \<le> code_int c \<and> code_int c < 10"
    by (cases c rule: code.exhaust)
      (use enum_int_bounds [OF all_codes(1)] enum_int_bounds [OF all_codes(2)]
        enum_int_bounds [OF all_codes(3)] enum_int_bounds [OF all_codes(4)]
        enum_int_bounds [OF all_codes(5)] in
       \<open>fastforce simp: leader_election_codes_def consensus_codes_def repl_codes_def
          failure_codes_def client_codes_def\<close>)+
  then show ?thesis by (simp add: is_int32_def)
qed

section \<open>The names of the REPL commands\<close>

definition repl_parse_map :: "string \<Rightarrow> repl_code option" where
  "repl_parse_map = map_of
     [(''shutdown'', Repl_SHUTDOWN), (''start'', START), (''speed-low'', SPEED_LOW),
      (''speed-medium'', SPEED_MEDIUM), (''speed-high'', SPEED_HIGH), (''crash'', CRASH),
      (''recover'', RECOVER)]"

section \<open>Printing\<close>

definition message_tag_map :: "string list" where
  "message_tag_map = [''ELECTION'', ''CONSENSUS'', ''REPL'', ''FAILURE'', ''CLIENT'']"

definition code_map :: "string list list" where
  "code_map =
    [[''SHUTDOWN'', ''ELECTION'', ''ALIVE'', ''VICTORY''],
     [''SHUTDOWN'', ''PREPARE'', ''PROMISE'', ''PROPOSE'', ''ACCEPT'', ''ACCEPTED''],
     [''SHUTDOWN'', ''START'', ''SPEED_LOW'', ''SPEED_MDIM'', ''SPEED_HIGH'', ''CRASH'', ''RECOVER''],
     [''SHUTDOWN'', ''PING'', ''STATE'', ''STATE_UPDT'', ''RECOVERED''],
     [''SHUTDOWN'', ''PORT'', ''DISCONNECT'', ''REPLICATE'', ''SUCCESS'']]"

text \<open>A field of width 10, filled on the right with dashes.\<close>

definition print_field :: "string \<Rightarrow> string" where
  "print_field s = CHR ''['' # s @ replicate (10 - length s) (CHR ''-'') @ '']''"

text \<open>The line written for a message, if one is: pings are not printed.\<close>

definition print_sent_message :: "int \<Rightarrow> int \<Rightarrow> int \<Rightarrow> int \<Rightarrow> string option res" where
  "print_sent_message src dst tag code =
     (if \<not> (tag = 3 \<and> code = 1) then
        res_bind (vec_get message_tag_map tag) (\<lambda>t.
        res_bind (vec_get code_map tag) (\<lambda>cs.
        res_bind (vec_get cs code) (\<lambda>c.
          Inr (Some (CHR ''['' # dump_integer src @ ''][''  @ dump_integer dst @ '']''
            @ print_field t @ print_field c)))))
      else Inr None)"

lemma print_sent_message_ok:
  "\<exists>l. print_sent_message src dst (tag_int (get_tag_from_code c)) (code_int c) = Inr l"
proof -
  have "0 \<le> code_int c \<and> code_int c < int (length (code_map ! nat (tag_int (get_tag_from_code c))))"
    using enum_int_bounds [OF all_codes(1)] enum_int_bounds [OF all_codes(2)]
        enum_int_bounds [OF all_codes(3)] enum_int_bounds [OF all_codes(4)]
        enum_int_bounds [OF all_codes(5)]
    by (cases c)
      (simp_all add: code_map_def leader_election_codes_def consensus_codes_def repl_codes_def
          failure_codes_def client_codes_def)
  then show ?thesis
    by (cases c) (auto simp: print_sent_message_def message_tag_map_def vec_get_def code_map_def)
qed

end
