(* ===== verification/Message.thy ===== *)
theory Message
  imports Message_Info
begin

text \<open>
  \<open>message.hh\<close>, \<open>message.hxx\<close> and \<open>message.cc\<close>. The defaulted constructor leaves the three
  integers indeterminate, so they are arguments of \<open>default_message\<close>; the data pointer is null and
  \<open>getData\<close> on it is undefined.
\<close>

record message =
  m_tag :: int
  m_code :: int
  m_id :: int
  m_data :: "string option"
  m_isValid :: bool

definition default_message :: "int \<Rightarrow> int \<Rightarrow> int \<Rightarrow> message" where
  "default_message t c i =
     \<lparr>m_tag = t, m_code = c, m_id = i, m_data = None, m_isValid = False\<rparr>"

definition message_init :: "int \<Rightarrow> int \<Rightarrow> int \<Rightarrow> string \<Rightarrow> message" where
  "message_init tag code i data =
     \<lparr>m_tag = tag, m_code = code, m_id = i, m_data = Some data, m_isValid = True\<rparr>"

text \<open>\<open>getTag\<close> casts the number to the enum; a number without an enumerator gives \<open>None\<close>.\<close>

definition message_getTag :: "message \<Rightarrow> message_tag option" where
  "message_getTag m =
     enum_of_int [LEADER_ELECTION, CONSENSUS, REPL, FAILURE_DETECTION, CLIENT, SIZE] (m_tag m)"

definition message_getData :: "message \<Rightarrow> string res" where
  "message_getData m = (case m_data m of None \<Rightarrow> Inl Undefined_Behaviour | Some d \<Rightarrow> Inr d)"

definition message_setData :: "string \<Rightarrow> message \<Rightarrow> message" where
  "message_setData d m = m\<lparr>m_data := Some d\<rparr>"

lemma message_init_simps [simp]:
  "m_tag (message_init t c i d) = t" "m_code (message_init t c i d) = c"
  "m_id (message_init t c i d) = i" "m_data (message_init t c i d) = Some d"
  "m_isValid (message_init t c i d)"
  by (simp_all add: message_init_def)

lemma message_getData_init [simp]: "message_getData (message_init t c i d) = Inr d"
  by (simp add: message_getData_def)

lemma message_getData_set [simp]: "message_getData (message_setData d m) = Inr d"
  by (simp add: message_getData_def message_setData_def)

lemma message_setData_init [simp]:
  "message_setData d (message_init t c i d') = message_init t c i d"
  by (simp add: message_setData_def message_init_def)

lemma message_getTag_init [simp]:
  "message_getTag (message_init (tag_int t) c i d) = Some t"
  by (cases t) (simp_all add: message_getTag_def enum_of_int_def)

text \<open>
  A message built by \<open>setMessage\<close> or by the receiver: it carries data and its code and id are
  32-bit integers.
\<close>

definition message_wf :: "message \<Rightarrow> bool" where
  "message_wf m \<longleftrightarrow> m_isValid m \<and> is_int32 (m_code m) \<and> is_int32 (m_id m) \<and>
     (\<exists>d. m_data m = Some d \<and> valid_utf8 d)"

lemma message_wf_init:
  "message_wf (message_init t c i d) \<longleftrightarrow> is_int32 c \<and> is_int32 i \<and> valid_utf8 d"
  by (simp add: message_wf_def)

end
