(* ===== verification/Messenger.thy ===== *)
theory Messenger
  imports Message
begin

text \<open>
  \<open>messenger.hh\<close>, \<open>messenger.hxx\<close> and \<open>messenger.cc\<close>. The state is the rank of the process, the
  size of the cluster and the liveness flag of every other node. MPI is outside \<open>src/\<close>: a
  communicator delivers packets of 1000 bytes with their source and tag, in the order the inbox
  lists them, and \<open>MPI_Wtime\<close> is an argument in nanoseconds.
\<close>

section \<open>State\<close>

record messenger =
  m_rank :: int
  m_clusterSize :: int
  m_processIsAlive :: "bool list"

datatype comm =
    Comm_World
  | Inter_Comm nat

record packet =
  pk_source :: int
  pk_tag :: int
  pk_bytes :: string

abbreviation max_message_size :: nat where
  "max_message_size \<equiv> 1000"

definition messenger_start :: "int \<Rightarrow> int \<Rightarrow> messenger" where
  "messenger_start rank n =
     \<lparr>m_rank = rank, m_clusterSize = n, m_processIsAlive = replicate (nat (n - 1)) True\<rparr>"

definition messenger_wf :: "messenger \<Rightarrow> bool" where
  "messenger_wf m \<longleftrightarrow> 0 \<le> m_rank m \<and> m_rank m < m_clusterSize m \<and>
     int (length (m_processIsAlive m)) = m_clusterSize m - 1"

definition setNodeStatus :: "int \<Rightarrow> bool \<Rightarrow> messenger \<Rightarrow> messenger res" where
  "setNodeStatus i alive m =
     res_bind (vec_set (m_processIsAlive m) i alive) (\<lambda>v. Inr (m\<lparr>m_processIsAlive := v\<rparr>))"

text \<open>The position of another node in the vectors that leave this node out.\<close>

definition node_status_index :: "int \<Rightarrow> int \<Rightarrow> int" where
  "node_status_index self other = (if other < self then other else other - 1)"

text \<open>
  The flag is read before the tag is looked at, and only for another node on \<open>MPI_COMM_WORLD\<close>.
\<close>

definition messageShouldDrop ::
  "bool list \<Rightarrow> int \<Rightarrow> int \<Rightarrow> comm \<Rightarrow> message_tag option \<Rightarrow> bool res" where
  "messageShouldDrop alive self other conn tag =
     (if other = self \<or> conn \<noteq> Comm_World then Inr False
      else res_bind (vec_get alive (node_status_index self other))
             (\<lambda>a. Inr (\<not> (a \<or> tag = Some FAILURE_DETECTION))))"

definition node_alive :: "messenger \<Rightarrow> int \<Rightarrow> bool" where
  "node_alive m n = m_processIsAlive m ! nat (node_status_index (m_rank m) n)"

lemma node_status_index_bounds:
  assumes "0 \<le> self" "self < n" "0 \<le> other" "other < n" "other \<noteq> self"
  shows "0 \<le> node_status_index self other" "node_status_index self other < n - 1"
  using assms by (auto simp: node_status_index_def)

lemma messageShouldDrop_eq:
  assumes "messenger_wf m" and "0 \<le> other" "other < m_clusterSize m"
  shows "messageShouldDrop (m_processIsAlive m) (m_rank m) other conn tag =
    Inr (other \<noteq> m_rank m \<and> conn = Comm_World \<and> \<not> node_alive m other
      \<and> tag \<noteq> Some FAILURE_DETECTION)"
proof (cases "other = m_rank m \<or> conn \<noteq> Comm_World")
  case False
  with assms node_status_index_bounds [of "m_rank m" "m_clusterSize m" other]
  show ?thesis
    by (auto simp: messageShouldDrop_def messenger_wf_def node_alive_def)
qed (auto simp: messageShouldDrop_def)

section \<open>Building and encoding messages\<close>

definition generateUniqueId :: "int \<Rightarrow> int" where
  "generateUniqueId wtime = wtime div ns_per_second"

definition setMessage_data :: "int \<Rightarrow> code \<Rightarrow> string \<Rightarrow> message" where
  "setMessage_data wtime c data =
     message_init (tag_int (get_tag_from_code c)) (code_int c) (generateUniqueId wtime) data"

definition setMessage :: "int \<Rightarrow> code \<Rightarrow> message" where
  "setMessage wtime c = setMessage_data wtime c []"

definition serializeMessage :: "message \<Rightarrow> string res" where
  "serializeMessage m =
     res_bind (message_getData m) (\<lambda>d.
       json_dump (json_object [(''code'', JInt (m_code m)), (''id'', JInt (m_id m)),
         (''data'', JString d)]))"

text \<open>An invalid text leaves the message as it was; an exception of \<open>at\<close> or \<open>get_to\<close> is a result.\<close>

definition deserializeMessage :: "string \<Rightarrow> int \<Rightarrow> message \<Rightarrow> (message \<times> bool) res" where
  "deserializeMessage s tag m =
     (if json_accept s then
        res_bind (json_parse s) (\<lambda>j.
        res_bind (json_at ''code'' j) (\<lambda>jc. res_bind (json_get_int jc) (\<lambda>code.
        res_bind (json_at ''id'' j) (\<lambda>ji. res_bind (json_get_int ji) (\<lambda>i.
        res_bind (json_at ''data'' j) (\<lambda>jd. res_bind (json_get_string jd) (\<lambda>data.
          Inr (message_init tag code i data, True))))))))
      else Inr (m, False))"

section \<open>Sending\<close>

text \<open>
  \<open>MPI_Send\<close> is given 1000 bytes from \<open>c_str()\<close>: the text, its terminator, and whatever follows
  (\<open>slack\<close>). A longer text is cut.
\<close>

definition send_buffer :: "(nat \<Rightarrow> char) \<Rightarrow> string \<Rightarrow> string" where
  "send_buffer slack s =
     map (\<lambda>i. if i < length s then s ! i else if i = length s then CHR 0x00 else slack i)
       [0..<max_message_size]"

text \<open>The rank the receiver sees: a connection joins two groups of one process each.\<close>

definition source_rank :: "comm \<Rightarrow> messenger \<Rightarrow> int" where
  "source_rank conn m = (if conn = Comm_World then m_rank m else 0)"

lemma source_rank_simps [simp]:
  "source_rank Comm_World m = m_rank m" "source_rank (Inter_Comm k) m = 0"
  by (simp_all add: source_rank_def)

definition messenger_send ::
  "(nat \<Rightarrow> char) \<Rightarrow> int \<Rightarrow> message \<Rightarrow> comm \<Rightarrow> messenger \<Rightarrow> packet option res" where
  "messenger_send slack dst msg conn m =
     res_bind (messageShouldDrop (m_processIsAlive m) (m_rank m) dst conn (message_getTag msg))
       (\<lambda>drop.
        if drop then Inr None
        else if \<not> m_isValid msg then Inl Assertion_Failed
        else
          res_bind (serializeMessage msg) (\<lambda>s.
          res_bind (print_sent_message (m_rank m) dst (m_tag msg) (m_code msg)) (\<lambda>_.
            Inr (Some \<lparr>pk_source = source_rank conn m, pk_tag = m_tag msg, pk_bytes = send_buffer slack s\<rparr>))))"

definition broadcast_targets :: "int \<Rightarrow> int \<Rightarrow> bool \<Rightarrow> messenger \<Rightarrow> int list" where
  "broadcast_targets start end includeSelf m =
     (let iend = (if end = -1 then m_clusterSize m else end) in
      filter (\<lambda>i. i \<noteq> m_rank m \<or> includeSelf) [start..iend - 1])"

fun send_all ::
  "(int \<Rightarrow> nat \<Rightarrow> char) \<Rightarrow> int list \<Rightarrow> message \<Rightarrow> messenger \<Rightarrow> (int \<times> packet) list res" where
  "send_all slack [] msg m = Inr []"
| "send_all slack (i # is) msg m =
     res_bind (messenger_send (slack i) i msg Comm_World m) (\<lambda>p.
     res_bind (send_all slack is msg m) (\<lambda>ps.
       Inr (case p of None \<Rightarrow> ps | Some pk \<Rightarrow> (i, pk) # ps)))"

definition messenger_broadcast ::
  "(int \<Rightarrow> nat \<Rightarrow> char) \<Rightarrow> message \<Rightarrow> int \<Rightarrow> int \<Rightarrow> bool \<Rightarrow> messenger \<Rightarrow> (int \<times> packet) list res" where
  "messenger_broadcast slack msg start end includeSelf m =
     send_all slack (broadcast_targets start end includeSelf m) msg m"

section \<open>Receiving\<close>

text \<open>\<open>std::string(messageChar)\<close>: without a terminator the read runs past the buffer.\<close>

definition c_string :: "string \<Rightarrow> string res" where
  "c_string b =
     (if CHR 0x00 \<in> set b then Inr (takeWhile (\<lambda>c. c \<noteq> CHR 0x00) b) else Inl Undefined_Behaviour)"

definition receive_packet :: "packet \<Rightarrow> message \<Rightarrow> (int \<times> message \<times> bool) res" where
  "receive_packet p m =
     res_bind (c_string (pk_bytes p)) (\<lambda>s.
     res_bind (deserializeMessage s (pk_tag p) m) (\<lambda>(m', valid). Inr (pk_source p, m', valid)))"

fun take_tag :: "int \<Rightarrow> packet list \<Rightarrow> (packet \<times> packet list) option" where
  "take_tag t [] = None"
| "take_tag t (p # ps) =
     (if pk_tag p = t then Some (p, ps)
      else (case take_tag t ps of None \<Rightarrow> None | Some (q, qs) \<Rightarrow> Some (q, p # qs)))"

lemma take_tag_length: "take_tag t ps = Some (p, qs) \<Longrightarrow> length qs < length ps"
  by (induction t ps arbitrary: p qs rule: take_tag.induct) (auto split: if_splits option.splits)

lemma take_tag_source: "take_tag t ps = Some (p, qs) \<Longrightarrow> p \<in> set ps \<and> pk_tag p = t \<and> set qs \<subseteq> set ps"
  by (induction t ps arbitrary: p qs rule: take_tag.induct) (auto split: if_splits option.splits)

text \<open>
  The loop of \<open>receiveWithTagBlock\<close> over the packets of one communicator. \<open>None\<close> means that the
  call still blocks when the inbox is used up; the packets it consumed are gone.
\<close>

function receiveWithTagBlock ::
  "message_tag \<Rightarrow> comm \<Rightarrow> messenger \<Rightarrow> message \<Rightarrow> packet list \<Rightarrow>
   ((int \<times> message) option \<times> packet list) res" where
  "receiveWithTagBlock tag conn m msg inbox =
     (case take_tag (tag_int tag) inbox of
        None \<Rightarrow> Inr (None, inbox)
      | Some (p, rest) \<Rightarrow>
          res_bind (receive_packet p msg) (\<lambda>(src, msg', valid).
          res_bind (messageShouldDrop (m_processIsAlive m) (m_rank m) src conn (Some tag)) (\<lambda>drop.
            if \<not> drop \<or> \<not> valid then Inr (Some (src, msg'), rest)
            else receiveWithTagBlock tag conn m msg' rest)))"
  by pat_completeness auto
termination
  by (relation "measure (\<lambda>(tag, conn, m, msg, inbox). length inbox)") (auto dest: take_tag_length)

declare receiveWithTagBlock.simps [simp del]

definition hasPendingWithTag :: "message_tag \<Rightarrow> packet list \<Rightarrow> int option" where
  "hasPendingWithTag tag inbox = map_option (\<lambda>(p, _). pk_source p) (take_tag (tag_int tag) inbox)"

text \<open>
  The results are the reference parameters \<open>messageReceived\<close>, \<open>srcNodeId\<close> and \<open>message\<close>; \<open>None\<close>
  means that the call blocks inside \<open>receiveWithTagBlock\<close>.
\<close>

definition receiveWithTag ::
  "message_tag \<Rightarrow> comm \<Rightarrow> messenger \<Rightarrow> int \<Rightarrow> message \<Rightarrow> packet list \<Rightarrow>
   ((bool \<times> int \<times> message) option \<times> packet list) res" where
  "receiveWithTag tag conn m src0 msg inbox =
     (case hasPendingWithTag tag inbox of
        None \<Rightarrow> Inr (Some (False, src0, msg), inbox)
      | Some src \<Rightarrow>
          res_bind (messageShouldDrop (m_processIsAlive m) (m_rank m) src conn (Some tag)) (\<lambda>drop.
            if \<not> drop then
              res_bind (receiveWithTagBlock tag conn m msg inbox) (\<lambda>(r, rest).
                Inr (map_option (\<lambda>(src', msg'). (True, src', msg')) r, rest))
            else Inr (Some (False, -1, msg), inbox)))"

section \<open>Ports\<close>

text \<open>The file of the published port; \<open>getline\<close> on a missing or empty file gives the empty string.\<close>

definition publishPort :: "string \<Rightarrow> string option" where
  "publishPort port = Some port"

definition lookupServerPort :: "string option \<Rightarrow> string" where
  "lookupServerPort file =
     (case file of None \<Rightarrow> [] | Some s \<Rightarrow> takeWhile (\<lambda>c. c \<noteq> CHR 0x0A) s)"

end
