(* ===== verification/Wire.thy ===== *)
theory Wire
  imports Messenger
begin

text \<open>
  What the messenger puts on the wire and what a receiver makes of it: the text of a message, the
  1000-byte buffer it travels in, and the drop rule. The interface is the locale \<open>codec\<close>, which
  both JSON texts and whole messages implement.
\<close>

section \<open>Codecs\<close>

locale codec =
  fixes enc :: "'a \<Rightarrow> 'b res" and dec :: "'b \<Rightarrow> 'a res" and ok :: "'a \<Rightarrow> bool"
  assumes dec_enc: "ok x \<Longrightarrow> enc x = Inr b \<Longrightarrow> dec b = Inr x"
begin

lemma enc_inject: "ok x \<Longrightarrow> ok y \<Longrightarrow> enc x = Inr b \<Longrightarrow> enc y = Inr b \<Longrightarrow> x = y"
  using dec_enc [of x b] dec_enc [of y b] by simp

lemma dec_enc_is_ok: "ok x \<Longrightarrow> enc x = Inr b \<Longrightarrow> is_ok (dec b)"
  by (simp add: dec_enc)

end

interpretation json_codec: codec json_dump json_parse json_wf
  by unfold_locales (rule json_parse_dump)

section \<open>The text of a message\<close>

definition message_json :: "message \<Rightarrow> string \<Rightarrow> json" where
  "message_json m d = json_object [(''code'', JInt (m_code m)), (''id'', JInt (m_id m)),
     (''data'', JString d)]"

lemma message_json_members:
  "message_json m d = JObject [(''code'', JInt (m_code m)), (''data'', JString d),
     (''id'', JInt (m_id m))]"
  by (simp add: message_json_def json_object_def obj_emplace_def)

lemma serializeMessage_eq:
  "m_data m = Some d \<Longrightarrow> serializeMessage m = json_dump (message_json m d)"
  by (simp add: serializeMessage_def message_getData_def message_json_def)

lemma message_json_wf:
  "is_int32 (m_code m) \<Longrightarrow> is_int32 (m_id m) \<Longrightarrow> json_wf (message_json m d)"
  by (simp add: message_json_members int_fits_int32 obj_wf_def)

lemma message_wf_serialize: "message_wf m \<Longrightarrow> \<exists>s. serializeMessage m = Inr s"
proof -
  assume "message_wf m"
  then obtain d t where "m_data m = Some d" "dump_string d = Inr t"
    by (auto simp: message_wf_def dest: dump_string_valid)
  moreover have "list_all plain_char ''code''" "list_all plain_char ''id''"
    "list_all plain_char ''data''"
    by (simp_all add: plain_char_def)
  ultimately show ?thesis
    by (simp add: serializeMessage_eq message_json_members dump_member_def dump_string_plain)
qed

lemma serializeMessage_printable: "serializeMessage m = Inr s \<Longrightarrow> printable s"
  by (auto simp: serializeMessage_def dest: json_dump_printable)

lemma serializeMessage_length:
  assumes "message_wf m" and "m_data m = Some d" and "serializeMessage m = Inr s"
  shows "length s \<le> 6 * length d + 47"
proof -
  have "list_all plain_char ''code''" "list_all plain_char ''id''" "list_all plain_char ''data''"
    by (simp_all add: plain_char_def)
  moreover from assms have "is_int32 (m_code m)" "is_int32 (m_id m)"
    by (simp_all add: message_wf_def)
  moreover note dump_integer_length [OF this(1)] dump_integer_length [OF this(2)]
  ultimately show ?thesis
    using assms(2,3)
    by (auto simp: serializeMessage_eq message_json_members dump_member_def dump_string_plain
        dest!: dump_string_length)
qed

lemma deserialize_serialize:
  assumes "message_wf m" and "serializeMessage m = Inr s"
  shows "deserializeMessage s (m_tag m) m0 = Inr (m, True)"
proof -
  obtain d where d: "m_data m = Some d" "is_int32 (m_code m)" "is_int32 (m_id m)" "m_isValid m"
    using assms(1) by (auto simp: message_wf_def)
  then have "json_parse s = Inr (message_json m d)"
    using assms(2) by (intro json_codec.dec_enc message_json_wf) (simp_all add: serializeMessage_eq)
  moreover have "message_init (m_tag m) (m_code m) (m_id m) d = m"
    using d by (cases m) (simp add: message_init_def)
  ultimately show ?thesis
    using d by (simp add: deserializeMessage_def json_accept_iff json_parse_eq [symmetric] message_json_def)
qed

definition decode_text :: "int \<Rightarrow> string \<Rightarrow> message res" where
  "decode_text tag s =
     res_bind (deserializeMessage s tag (default_message 0 0 0))
       (\<lambda>(m, valid). if valid then Inr m else Inl Json_Parse_Error)"

interpretation message_codec: codec serializeMessage "decode_text tag"
  "\<lambda>m. message_wf m \<and> m_tag m = tag"
  by unfold_locales (auto simp: decode_text_def dest: deserialize_serialize)

section \<open>The buffer\<close>

lemma send_buffer_nth:
  "i < max_message_size \<Longrightarrow> send_buffer slack s ! i =
     (if i < length s then s ! i else if i = length s then CHR 0x00 else slack i)"
  by (simp add: send_buffer_def)

lemma send_buffer_length [simp]: "length (send_buffer slack s) = max_message_size"
  by (simp add: send_buffer_def)

lemma printable_no_nul: "printable s \<Longrightarrow> CHR 0x00 \<notin> set s"
  by (auto simp: list_all_iff)

lemma send_buffer_short:
  assumes "length s < max_message_size"
  shows "\<exists>r. send_buffer slack s = s @ CHR 0x00 # r"
proof (intro exI nth_equalityI)
  let ?r = "map slack [Suc (length s)..<max_message_size]"
  show "length (send_buffer slack s) = length (s @ CHR 0x00 # ?r)"
    using assms by simp
  show "send_buffer slack s ! i = (s @ CHR 0x00 # ?r) ! i" if "i < length (send_buffer slack s)" for i
    using that assms by (auto simp: send_buffer_nth nth_append nth_Cons' )
qed

lemma send_buffer_long:
  "max_message_size \<le> length s \<Longrightarrow> send_buffer slack s = take max_message_size s"
  by (rule nth_equalityI) (simp_all add: send_buffer_nth)

lemma c_string_send_buffer:
  assumes "printable s"
  shows "c_string (send_buffer slack s) =
    (if length s < max_message_size then Inr s else Inl Undefined_Behaviour)"
proof (cases "length s < max_message_size")
  case True
  then obtain r where "send_buffer slack s = s @ CHR 0x00 # r"
    using send_buffer_short by blast
  moreover have "takeWhile (\<lambda>c. c \<noteq> CHR 0x00) (s @ CHR 0x00 # r) = s"
    using printable_no_nul [OF assms] by (subst takeWhile_append2) auto
  ultimately show ?thesis using True by (simp add: c_string_def)
next
  case False
  then have "CHR 0x00 \<notin> set (send_buffer slack s)"
    using printable_no_nul [OF assms] by (auto simp: send_buffer_long dest: in_set_takeD)
  with False show ?thesis by (simp add: c_string_def)
qed

lemma messenger_send_packet:
  assumes "messenger_send slack dst msg conn m = Inr (Some p)"
  shows "\<exists>s. serializeMessage msg = Inr s \<and>
    p = \<lparr>pk_source = source_rank conn m, pk_tag = m_tag msg, pk_bytes = send_buffer slack s\<rparr>"
  using assms by (auto simp: messenger_send_def split: if_splits)

text \<open>
  The receiver's side of a packet that was sent: the message, or a buffer without a terminator.
\<close>

lemma receive_sent_packet:
  assumes "message_wf msg"
    and "messenger_send slack dst msg conn m = Inr (Some p)"
    and "serializeMessage msg = Inr s"
  shows "receive_packet p msg0 =
    (if length s < max_message_size then Inr (source_rank conn m, msg, True) else Inl Undefined_Behaviour)"
proof -
  from messenger_send_packet [OF assms(2)] assms(3)
  have "p = \<lparr>pk_source = source_rank conn m, pk_tag = m_tag msg, pk_bytes = send_buffer slack s\<rparr>" by auto
  moreover have "printable s" using assms(3) by (rule serializeMessage_printable)
  ultimately show ?thesis
    using deserialize_serialize [OF assms(1,3)]
    by (simp add: receive_packet_def c_string_send_buffer)
qed

section \<open>Messages of the program\<close>

lemma setMessage_data_wf:
  "valid_utf8 d \<Longrightarrow> is_int32 (generateUniqueId wtime) \<Longrightarrow> message_wf (setMessage_data wtime c d)"
  by (simp add: setMessage_data_def message_wf_init code_int_is_int32)

lemma setMessage_data_simps [simp]:
  "m_tag (setMessage_data wtime c d) = tag_int (get_tag_from_code c)"
  "m_code (setMessage_data wtime c d) = code_int c"
  "m_id (setMessage_data wtime c d) = generateUniqueId wtime"
  "m_data (setMessage_data wtime c d) = Some d"
  "m_isValid (setMessage_data wtime c d)"
  "message_getTag (setMessage_data wtime c d) = Some (get_tag_from_code c)"
  by (simp_all add: setMessage_data_def)

lemma setMessage_simps [simp]:
  "m_tag (setMessage wtime c) = tag_int (get_tag_from_code c)"
  "m_code (setMessage wtime c) = code_int c"
  "m_id (setMessage wtime c) = generateUniqueId wtime"
  "m_data (setMessage wtime c) = Some []"
  "m_isValid (setMessage wtime c)"
  "message_getTag (setMessage wtime c) = Some (get_tag_from_code c)"
  by (simp_all add: setMessage_def)

lemma messenger_send_setMessage:
  assumes "messageShouldDrop (m_processIsAlive m) (m_rank m) dst conn (Some (get_tag_from_code c))
      = Inr False"
    and "valid_utf8 d" and "is_int32 (generateUniqueId wtime)"
  shows "\<exists>s. serializeMessage (setMessage_data wtime c d) = Inr s \<and>
    messenger_send slack dst (setMessage_data wtime c d) conn m =
      Inr (Some \<lparr>pk_source = source_rank conn m, pk_tag = tag_int (get_tag_from_code c),
                 pk_bytes = send_buffer slack s\<rparr>)"
proof -
  from message_wf_serialize [OF setMessage_data_wf [OF assms(2,3)]]
  obtain s where "serializeMessage (setMessage_data wtime c d) = Inr s" by blast
  moreover obtain l where "print_sent_message (m_rank m) dst (tag_int (get_tag_from_code c))
      (code_int c) = Inr l"
    using print_sent_message_ok by blast
  ultimately show ?thesis
    using assms(1) by (simp add: messenger_send_def)
qed

text \<open>
  C29. Whatever bytes lie behind the text in the sender's memory, a message built by
  \<open>setMessage\<close> that is not dropped is sent, and a receiver reads back the message itself when its
  JSON text has fewer than 1000 bytes. A text of 1000 bytes or more is cut, the buffer has no
  terminator, and the receiver's \<open>std::string\<close> constructor reads past it.
\<close>

theorem transmit_message:
  assumes "messageShouldDrop (m_processIsAlive m) (m_rank m) dst conn (Some (get_tag_from_code c))
      = Inr False"
    and "valid_utf8 d" and "is_int32 (generateUniqueId wtime)"
  shows "\<exists>s p. serializeMessage (setMessage_data wtime c d) = Inr s \<and>
    messenger_send slack dst (setMessage_data wtime c d) conn m = Inr (Some p) \<and>
    receive_packet p msg0 =
      (if length s < max_message_size then Inr (source_rank conn m, setMessage_data wtime c d, True)
       else Inl Undefined_Behaviour)"
proof -
  note msg = setMessage_data_wf [OF assms(2,3), of c]
  from messenger_send_setMessage [OF assms] obtain s p
    where s: "serializeMessage (setMessage_data wtime c d) = Inr s"
      and p: "messenger_send slack dst (setMessage_data wtime c d) conn m = Inr (Some p)"
    by metis
  from receive_sent_packet [OF msg p s] s p show ?thesis by blast
qed

theorem transmit_message_witness:
  "\<exists>s p. serializeMessage (setMessage_data 0 (Client_Code REPLICATE) ''x=1'') = Inr s \<and>
    messenger_send (\<lambda>_. CHR ''!'') 2 (setMessage_data 0 (Client_Code REPLICATE) ''x=1'') Comm_World
      (messenger_start 0 3) = Inr (Some p) \<and>
    receive_packet p (default_message 7 7 7) =
      (if length s < max_message_size
       then Inr (source_rank Comm_World (messenger_start 0 3), setMessage_data 0 (Client_Code REPLICATE) ''x=1'', True)
       else Inl Undefined_Behaviour)"
  by (rule transmit_message)
    (simp_all add: messenger_start_def messageShouldDrop_def node_status_index_def
      vec_get_def numeral_2_eq_2 valid_utf8_plain plain_char_def generateUniqueId_def
      ns_per_second_def is_int32_def)

lemma setMessage_short:
  assumes "valid_utf8 d" and "is_int32 (generateUniqueId wtime)" and "length d \<le> 158"
    and "serializeMessage (setMessage_data wtime c d) = Inr s"
  shows "length s < max_message_size"
  using serializeMessage_length [OF setMessage_data_wf [OF assms(1,2)] _ assms(4)] assms(3) by simp

text \<open>A short message that is not dropped, from the sender to the receiver.\<close>

lemma sent_packet:
  assumes "messageShouldDrop (m_processIsAlive m) (m_rank m) dst conn (Some (get_tag_from_code c))
      = Inr False"
    and "valid_utf8 d" and "is_int32 (generateUniqueId wtime)" and "length d \<le> 158"
  obtains p where "messenger_send slack dst (setMessage_data wtime c d) conn m = Inr (Some p)"
    and "pk_source p = source_rank conn m" and "pk_tag p = tag_int (get_tag_from_code c)"
    and "\<And>m0. receive_packet p m0 = Inr (source_rank conn m, setMessage_data wtime c d, True)"
proof -
  from messenger_send_setMessage [OF assms(1-3), of slack] obtain s p where
    s: "serializeMessage (setMessage_data wtime c d) = Inr s"
    and p: "messenger_send slack dst (setMessage_data wtime c d) conn m = Inr (Some p)"
      "pk_source p = source_rank conn m" "pk_tag p = tag_int (get_tag_from_code c)"
    by force
  with receive_sent_packet [OF setMessage_data_wf [OF assms(2,3)] p(1) s]
    setMessage_short [OF assms(2-4) s]
  show thesis by (intro that [of p]) simp_all
qed

text \<open>
  Every message whose data has at most 158 bytes of valid UTF-8 fits in the buffer, whatever
  its code and id and however many bytes are escaped: the text has fewer than 1000 bytes.
\<close>

lemma short_message_fits:
  assumes "valid_utf8 d" and "is_int32 (generateUniqueId wtime)" and "length d \<le> 158"
  shows "\<exists>s. serializeMessage (setMessage_data wtime c d) = Inr s \<and> length s < max_message_size"
  using message_wf_serialize [OF setMessage_data_wf [OF assms(1,2), of c]]
    setMessage_short [OF assms] by blast

section \<open>Who receives a broadcast\<close>

lemma send_all_setMessage:
  assumes "valid_utf8 d" and "is_int32 (generateUniqueId wtime)" and "length d \<le> 158"
    and "messenger_wf m" and "\<forall>i \<in> set is. 0 \<le> i \<and> i < m_clusterSize m"
  shows "\<exists>ps. send_all slack is (setMessage_data wtime c d) m = Inr ps \<and>
    map fst ps = filter (\<lambda>i. i = m_rank m \<or> node_alive m i \<or> get_tag_from_code c = FAILURE_DETECTION) is \<and>
    (\<forall>(i, p) \<in> set ps. pk_tag p = tag_int (get_tag_from_code c) \<and>
       receive_packet p msg0 = Inr (m_rank m, setMessage_data wtime c d, True))"
  using assms(5)
proof (induction "is")
  case (Cons i "is")
  then obtain ps where ps: "send_all slack is (setMessage_data wtime c d) m = Inr ps"
    "map fst ps = filter (\<lambda>i. i = m_rank m \<or> node_alive m i \<or> get_tag_from_code c = FAILURE_DETECTION) is"
    "\<forall>(i, p) \<in> set ps. pk_tag p = tag_int (get_tag_from_code c) \<and>
       receive_packet p msg0 = Inr (m_rank m, setMessage_data wtime c d, True)"
    by auto
  from Cons.prems have i: "0 \<le> i" "i < m_clusterSize m" by simp_all
  note drop = messageShouldDrop_eq [OF assms(4) i, of Comm_World "Some (get_tag_from_code c)"]
  show ?case
  proof (cases "i = m_rank m \<or> node_alive m i \<or> get_tag_from_code c = FAILURE_DETECTION")
    case True
    with drop have "messageShouldDrop (m_processIsAlive m) (m_rank m) i Comm_World
        (Some (get_tag_from_code c)) = Inr False" by auto
    from sent_packet [where conn = Comm_World, unfolded source_rank_simps, OF this assms(1-3),
        of "slack i"] obtain p where
      "messenger_send (slack i) i (setMessage_data wtime c d) Comm_World m = Inr (Some p)"
      "pk_tag p = tag_int (get_tag_from_code c)"
      "receive_packet p msg0 = Inr (m_rank m, setMessage_data wtime c d, True)"
      by blast
    with True ps show ?thesis by simp
  next
    case False
    with drop have "messenger_send (slack i) i (setMessage_data wtime c d) Comm_World m = Inr None"
      by (simp add: messenger_send_def)
    with False ps show ?thesis by simp
  qed
qed simp

text \<open>
  A broadcast from node \<open>start\<close> to the end of the cluster sends one packet to every node of that
  range except the sender, in increasing order, leaving out exactly the nodes marked as failed
  (unless the message is a failure-detection one), and each of them reads the message back.
\<close>

lemma broadcast_reaches_alive:
  assumes "valid_utf8 d" and "is_int32 (generateUniqueId wtime)" and "length d \<le> 158"
    and "messenger_wf m" and "0 \<le> start"
  shows "\<exists>ps. messenger_broadcast slack (setMessage_data wtime c d) start (-1) False m = Inr ps \<and>
    map fst ps = filter (\<lambda>i. i \<noteq> m_rank m \<and> (node_alive m i \<or> get_tag_from_code c = FAILURE_DETECTION))
      [start..m_clusterSize m - 1] \<and>
    (\<forall>(i, p) \<in> set ps. pk_tag p = tag_int (get_tag_from_code c) \<and>
       receive_packet p msg0 = Inr (m_rank m, setMessage_data wtime c d, True))"
proof -
  let ?is = "broadcast_targets start (-1) False m"
  have "\<forall>i \<in> set ?is. 0 \<le> i \<and> i < m_clusterSize m"
    using assms(5) by (auto simp: broadcast_targets_def)
  from send_all_setMessage [OF assms(1-4) this, of slack c msg0] obtain ps where
    ps: "send_all slack ?is (setMessage_data wtime c d) m = Inr ps"
    "map fst ps = filter (\<lambda>i. i = m_rank m \<or> node_alive m i \<or> get_tag_from_code c = FAILURE_DETECTION) ?is"
    "\<forall>(i, p) \<in> set ps. pk_tag p = tag_int (get_tag_from_code c) \<and>
       receive_packet p msg0 = Inr (m_rank m, setMessage_data wtime c d, True)"
    by blast
  have "filter (\<lambda>i. i = m_rank m \<or> node_alive m i \<or> get_tag_from_code c = FAILURE_DETECTION) ?is =
    filter (\<lambda>i. i \<noteq> m_rank m \<and> (node_alive m i \<or> get_tag_from_code c = FAILURE_DETECTION))
      [start..m_clusterSize m - 1]"
    by (auto simp: broadcast_targets_def intro!: filter_cong)
  with ps show ?thesis by (simp add: messenger_broadcast_def)
qed

end
