(* ===== verification/Receiving.thy ===== *)
theory Receiving
  imports Wire
begin

text \<open>
  The receiving half of the messenger over a whole inbox: which packet \<open>receiveWithTagBlock\<close> and
  \<open>receiveWithTag\<close> return, which ones they drop, and what stays in the inbox.
\<close>

section \<open>Taking packets of one tag\<close>

lemma take_tag_None: "take_tag t ps = None \<longleftrightarrow> filter (\<lambda>p. pk_tag p = t) ps = []"
  by (induction t ps rule: take_tag.induct) (auto split: option.splits)

lemma take_tag_Some:
  "take_tag t ps = Some (p, qs) \<Longrightarrow>
    filter (\<lambda>p. pk_tag p = t) ps = p # filter (\<lambda>p. pk_tag p = t) qs \<and>
    filter (\<lambda>p. pk_tag p \<noteq> t) ps = filter (\<lambda>p. pk_tag p \<noteq> t) qs"
  by (induction t ps arbitrary: p qs rule: take_tag.induct) (auto split: if_splits option.splits)

text \<open>A packet the drop rule lets through.\<close>

definition deliverable :: "message_tag \<Rightarrow> comm \<Rightarrow> messenger \<Rightarrow> packet \<Rightarrow> bool" where
  "deliverable tag conn m p \<longleftrightarrow>
     pk_source p = m_rank m \<or> conn \<noteq> Comm_World \<or> node_alive m (pk_source p) \<or>
     tag = FAILURE_DETECTION"

lemma messageShouldDrop_deliverable:
  assumes "messenger_wf m" and "0 \<le> pk_source p" "pk_source p < m_clusterSize m"
  shows "messageShouldDrop (m_processIsAlive m) (m_rank m) (pk_source p) conn (Some tag) =
    Inr (\<not> deliverable tag conn m p)"
  using messageShouldDrop_eq [OF assms, of conn "Some tag"] by (auto simp: deliverable_def)

text \<open>A packet with the text \<open>s\<close>, terminated.\<close>

definition text_packet :: "int \<Rightarrow> message_tag \<Rightarrow> string \<Rightarrow> packet" where
  "text_packet src tag s =
     \<lparr>pk_source = src, pk_tag = tag_int tag, pk_bytes = send_buffer (\<lambda>_. CHR 0x00) s\<rparr>"

definition demo_messenger :: messenger where
  "demo_messenger = \<lparr>m_rank = 0, m_clusterSize = 3, m_processIsAlive = [True, False]\<rparr>"

lemma demo_messenger_wf [simp]: "messenger_wf demo_messenger"
  by (simp add: messenger_wf_def demo_messenger_def)

lemma demo_messenger_size [simp]: "m_clusterSize demo_messenger = 3"
  by (simp add: demo_messenger_def)

lemma demo_deliverable [simp]:
  "pk_source p = 1 \<Longrightarrow> deliverable CONSENSUS Comm_World demo_messenger p"
  "pk_source p = 2 \<Longrightarrow> \<not> deliverable CONSENSUS Comm_World demo_messenger p"
  by (auto simp: deliverable_def demo_messenger_def node_alive_def node_status_index_def)

text \<open>
  On an inbox whose packets of the requested tag are all messages of cluster nodes,
  \<open>receiveWithTagBlock\<close> returns the first one that comes from a node marked alive (or from any
  node, for failure detection and client connections), throws away the ones before it, keeps
  the order of the rest and does not touch packets of other tags; it blocks exactly when there is
  no such packet.
\<close>

lemma receiveWithTagBlock_first_deliverable:
  assumes "messenger_wf m"
    and "\<forall>p \<in> set inbox. pk_tag p = tag_int tag \<longrightarrow> 0 \<le> pk_source p \<and> pk_source p < m_clusterSize m \<and>
      (\<forall>m0. receive_packet p m0 = Inr (pk_source p, body p, True))"
  shows "\<exists>rest.
    receiveWithTagBlock tag conn m msg inbox = Inr
      (case dropWhile (\<lambda>p. \<not> deliverable tag conn m p) (filter (\<lambda>p. pk_tag p = tag_int tag) inbox) of
         [] \<Rightarrow> None | p # _ \<Rightarrow> Some (pk_source p, body p), rest) \<and>
    filter (\<lambda>p. pk_tag p = tag_int tag) rest =
      tl (dropWhile (\<lambda>p. \<not> deliverable tag conn m p) (filter (\<lambda>p. pk_tag p = tag_int tag) inbox)) \<and>
    filter (\<lambda>p. pk_tag p \<noteq> tag_int tag) rest = filter (\<lambda>p. pk_tag p \<noteq> tag_int tag) inbox"
  using assms
proof (induction tag conn m msg inbox rule: receiveWithTagBlock.induct)
  case (1 tag conn m msg inbox)
  show ?case
  proof (cases "take_tag (tag_int tag) inbox")
    case None
    then have "filter (\<lambda>p. pk_tag p = tag_int tag) inbox = []" by (simp only: take_tag_None)
    with None show ?thesis by (simp add: receiveWithTagBlock.simps)
  next
    case (Some pr)
    obtain p rest where pr: "pr = (p, rest)" by (cases pr)
    note tk = Some [unfolded pr]
    note filters = take_tag_Some [OF tk]
    from take_tag_source [OF tk] "1.prems"(2)
    have p: "0 \<le> pk_source p" "pk_source p < m_clusterSize m"
      "receive_packet p msg = Inr (pk_source p, body p, True)"
      and rest: "\<forall>p \<in> set rest. pk_tag p = tag_int tag \<longrightarrow> 0 \<le> pk_source p \<and>
        pk_source p < m_clusterSize m \<and>
        (\<forall>m0. receive_packet p m0 = Inr (pk_source p, body p, True))"
      by auto
    note drop = messageShouldDrop_deliverable [OF "1.prems"(1) p(1,2), of conn tag]
    show ?thesis
    proof (cases "deliverable tag conn m p")
      case True
      with drop filters p(3) tk show ?thesis by (simp add: receiveWithTagBlock.simps)
    next
      case False
      with drop p(3) tk
      have "receiveWithTagBlock tag conn m msg inbox = receiveWithTagBlock tag conn m (body p) rest"
        by (simp add: receiveWithTagBlock.simps [of tag conn m msg inbox])
      moreover from "1.IH" [OF tk refl p(3) refl refl drop _ "1.prems"(1) rest] False
      have "\<exists>rest'. receiveWithTagBlock tag conn m (body p) rest = Inr
        (case dropWhile (\<lambda>p. \<not> deliverable tag conn m p) (filter (\<lambda>p. pk_tag p = tag_int tag) rest) of
           [] \<Rightarrow> None | p # _ \<Rightarrow> Some (pk_source p, body p), rest') \<and>
        filter (\<lambda>p. pk_tag p = tag_int tag) rest' =
          tl (dropWhile (\<lambda>p. \<not> deliverable tag conn m p) (filter (\<lambda>p. pk_tag p = tag_int tag) rest)) \<and>
        filter (\<lambda>p. pk_tag p \<noteq> tag_int tag) rest' = filter (\<lambda>p. pk_tag p \<noteq> tag_int tag) rest"
        by simp
      ultimately show ?thesis using filters False by simp
    qed
  qed
qed

text \<open>
  C36. An unreadable packet ends the wait, whoever sent it: when the text of the first packet of the
  tag is not JSON, \<open>receiveWithTagBlock\<close> returns the caller's message object as it was, with the
  sender's id, even if that sender is marked as failed.
\<close>

theorem receiveWithTagBlock_invalid_text:
  assumes "messenger_wf m" and "take_tag (tag_int tag) inbox = Some (p, rest)"
    and "0 \<le> pk_source p" "pk_source p < m_clusterSize m"
    and "c_string (pk_bytes p) = Inr s" and "\<not> json_accept s"
  shows "receiveWithTagBlock tag conn m msg inbox = Inr (Some (pk_source p, msg), rest)"
  using assms messageShouldDrop_deliverable [OF assms(1,3,4), of conn tag]
  by (simp add: receiveWithTagBlock.simps receive_packet_def deserializeMessage_def)

theorem receiveWithTagBlock_invalid_text_witness:
  "receiveWithTagBlock CONSENSUS Comm_World demo_messenger (default_message 8 9 10)
     [text_packet 1 REPL ''x'', text_packet 2 CONSENSUS ''x''] =
   Inr (Some (pk_source (text_packet 2 CONSENSUS ''x''), default_message 8 9 10),
     [text_packet 1 REPL ''x''])"
  by (rule receiveWithTagBlock_invalid_text [where s = "''x''"])
    (simp_all add: text_packet_def c_string_send_buffer json_accept_iff
      json_parse_eq parse_text_def skip_bom_def json_scan_def is_space_def scan_token_def is_digit_def
      parse_value.simps scalar_value_def)

text \<open>
  \<open>receiveWithTag\<close> looks only at the first pending packet of the tag: when that one comes from a
  node marked as failed, the call reports that nothing was received and leaves the packet where
  it is, so later packets of live nodes stay hidden behind it.
\<close>

lemma receiveWithTag_blocked_by_failed_head:
  assumes "messenger_wf m" and "take_tag (tag_int tag) inbox = Some (p, rest)"
    and "0 \<le> pk_source p" "pk_source p < m_clusterSize m"
    and "\<not> deliverable tag conn m p"
  shows "receiveWithTag tag conn m src0 msg (inbox @ later) = Inr (Some (False, -1, msg), inbox @ later)"
proof -
  have "take_tag t (xs @ ys) = Some (q, qs @ ys)" if "take_tag t xs = Some (q, qs)" for t xs ys q qs
    using that
    by (induction t xs arbitrary: q qs rule: take_tag.induct) (auto split: if_splits option.splits)
  from this [OF assms(2)] messageShouldDrop_deliverable [OF assms(1,3,4), of conn tag] assms(5)
  show ?thesis by (simp add: receiveWithTag_def hasPendingWithTag_def)
qed

end
