(* ===== verification/Log_File.thy ===== *)
theory Log_File
  imports Messenger
begin

text \<open>
  \<open>log-file-manager.cc\<close>: the log of a node is a text file with one line per entry. The files of the
  host are a map from paths to contents; the directory \<open>etc/server/log\<close> is assumed to exist, as
  the scripts of the repository create it. The interface the consensus and recovery code relies
  on is the locale \<open>log_store\<close>.
\<close>

section \<open>The path\<close>

text \<open>\<open>%02d\<close> for the ids of nodes, which are not negative.\<close>

definition sprintf_02d :: "int \<Rightarrow> string" where
  "sprintf_02d n = (if 0 \<le> n \<and> n < 10 then CHR ''0'' # dump_integer n else dump_integer n)"

text \<open>The buffer \<open>logFile\<close> has 24 bytes, one of them for the terminator.\<close>

definition log_file_path :: "int \<Rightarrow> string res" where
  "log_file_path node =
     (let s = ''etc/server/log/'' @ sprintf_02d node @ ''.txt'' in
      if length s < 24 then Inr s else Inl Undefined_Behaviour)"

lemma sprintf_02d_two: "0 \<le> n \<Longrightarrow> n < 100 \<Longrightarrow> sprintf_02d n = digits_to_99 (nat n)"
  by (auto simp: sprintf_02d_def dump_integer_def dump_abs.simps digits_to_99_def digit_char_def
      div_eq_0_iff byte_eq_iff)

lemma dump_abs_length_ge: "10 ^ k \<le> n \<Longrightarrow> Suc k \<le> length (dump_abs n)"
proof (induction n arbitrary: k rule: dump_abs.induct)
  case (1 n)
  show ?case
  proof (cases "100 \<le> n")
    case True
    show ?thesis
    proof (cases "k < 2")
      case False
      then obtain j where k: "k = Suc (Suc j)" by (metis add_2_eq_Suc le_Suc_ex not_less)
      with 1(2) have "10 ^ j \<le> n div 100" by (simp add: less_eq_div_iff_mult_less_eq)
      from 1(1) [OF True this] k True show ?thesis
        by (subst dump_abs.simps) (simp add: digits_to_99_def)
    qed (use True in \<open>subst dump_abs.simps, simp add: digits_to_99_def\<close>)
  next
    case False
    have "k < 2"
    proof (rule ccontr)
      assume "\<not> k < 2"
      then have "(10::nat) ^ 2 \<le> 10 ^ k" by (intro power_increasing) auto
      with 1(2) False show False by simp
    qed
    moreover have "10 \<le> n" if "k = 1" using that 1(2) by simp
    ultimately show ?thesis
      by (subst dump_abs.simps) (use False in \<open>auto simp: digits_to_99_def less_2_cases_iff\<close>)
  qed
qed

lemma sprintf_02d_length:
  assumes "0 \<le> n"
  shows "length (sprintf_02d n) \<le> 4 \<longleftrightarrow> n < 10000"
proof
  assume "n < 10000"
  show "length (sprintf_02d n) \<le> 4"
  proof (cases "n < 100")
    case True
    with assms show ?thesis by (simp add: sprintf_02d_two digits_to_99_def)
  next
    case False
    then have "sprintf_02d n = dump_abs (nat n)" by (simp add: sprintf_02d_def dump_integer_def)
    then show ?thesis using dump_abs_length [of "nat n" 4] \<open>n < 10000\<close> by simp
  qed
next
  assume short: "length (sprintf_02d n) \<le> 4"
  show "n < 10000"
  proof (rule ccontr)
    assume "\<not> n < 10000"
    then have "sprintf_02d n = dump_abs (nat n)" and "10 ^ 4 \<le> nat n"
      by (auto simp: sprintf_02d_def dump_integer_def)
    with dump_abs_length_ge [of 4 "nat n"] short show False by simp
  qed
qed

lemma digits_to_99_inject: "m < 100 \<Longrightarrow> n < 100 \<Longrightarrow> digits_to_99 m = digits_to_99 n \<Longrightarrow> m = n"
proof -
  assume "m < 100" "n < 100" and eq: "digits_to_99 m = digits_to_99 n"
  then have "m div 10 < 10" "n div 10 < 10"
    by (auto intro: less_mult_imp_div_less)
  with eq have "m div 10 = n div 10" and "m mod 10 = n mod 10"
    by (auto simp: digits_to_99_def digit_char_def byte_eq_iff)
  then show "m = n" by (metis mult_div_mod_eq)
qed

lemma sprintf_02d_inject:
  assumes "0 \<le> m" "0 \<le> n" "int_fits m" "int_fits n" and eq: "sprintf_02d m = sprintf_02d n"
  shows "m = n"
proof -
  have len: "length (sprintf_02d k) = 2 \<longleftrightarrow> k < 100" if "0 \<le> k" for k
  proof (cases "k < 100")
    case False
    then have "sprintf_02d k = dump_abs (nat k)" and "10 ^ 2 \<le> nat k"
      by (auto simp: sprintf_02d_def dump_integer_def)
    with dump_abs_length_ge [of 2 "nat k"] False show ?thesis by simp
  qed (use that in \<open>simp add: sprintf_02d_two digits_to_99_def\<close>)
  show ?thesis
  proof (cases "m < 100")
    case True
    with len [OF assms(1)] len [OF assms(2)] eq have "n < 100" by simp
    with True assms have "nat m = nat n"
      by (intro digits_to_99_inject) (simp_all add: sprintf_02d_two)
    with assms(1,2) show ?thesis by simp
  next
    case False
    with len [OF assms(1)] len [OF assms(2)] eq have "\<not> n < 100" by simp
    with False eq have "json_dump (JInt m) = Inr (dump_integer n)"
      by (simp add: sprintf_02d_def)
    then have "json_parse (dump_integer n) = Inr (JInt m)"
      using assms(3) by (intro json_parse_dump) simp_all
    moreover have "json_parse (dump_integer n) = Inr (JInt n)"
      using assms(4) by (intro json_parse_dump) simp_all
    ultimately show ?thesis by simp
  qed
qed

section \<open>Operations\<close>

record log_file_manager =
  l_nodeId :: int
  l_logFilePath :: string

type_synonym files = "string \<rightharpoonup> string"

definition log_file_manager_init :: "int \<Rightarrow> log_file_manager res" where
  "log_file_manager_init node =
     res_bind (log_file_path node) (\<lambda>p. Inr \<lparr>l_nodeId = node, l_logFilePath = p\<rparr>)"

abbreviation newline :: string where
  "newline \<equiv> [CHR 0x0A]"

datatype open_mode = App | Out

text \<open>\<open>std::ios_base::app\<close> keeps the contents, \<open>std::ios_base::out\<close> truncates the file.\<close>

definition writeWithMode :: "string \<Rightarrow> string \<Rightarrow> open_mode \<Rightarrow> bool \<Rightarrow> files \<Rightarrow> files" where
  "writeWithMode path str mode nl fs =
     (let old = (case mode of App \<Rightarrow> (case fs path of None \<Rightarrow> [] | Some c \<Rightarrow> c) | Out \<Rightarrow> []) in
      fs(path \<mapsto> old @ str @ (if nl then newline else [])))"

definition log_append :: "log_file_manager \<Rightarrow> string \<Rightarrow> files \<Rightarrow> files" where
  "log_append l entry fs = writeWithMode (l_logFilePath l) entry App True fs"

definition log_replace :: "log_file_manager \<Rightarrow> string \<Rightarrow> files \<Rightarrow> files" where
  "log_replace l contents fs = writeWithMode (l_logFilePath l) contents Out False fs"

text \<open>The reference parameter keeps its value when the file cannot be opened.\<close>

definition log_read :: "log_file_manager \<Rightarrow> files \<Rightarrow> string \<Rightarrow> string" where
  "log_read l fs contents = (case fs (l_logFilePath l) of None \<Rightarrow> contents | Some c \<Rightarrow> c)"

section \<open>The interface\<close>

locale log_store =
  fixes append :: "string \<Rightarrow> 's \<Rightarrow> 's"
    and replace :: "string \<Rightarrow> 's \<Rightarrow> 's"
    and contents :: "'s \<Rightarrow> string"
  assumes contents_append: "contents (append e s) = contents s @ e @ newline"
    and contents_replace: "contents (replace c s) = c"
begin

lemma contents_appends:
  "contents (fold append es s) = contents s @ concat (map (\<lambda>e. e @ newline) es)"
  by (induction es arbitrary: s) (simp_all add: contents_append)

text \<open>Replacing the log of \<open>t\<close> by that of \<open>s\<close> and then applying the same appends.\<close>

lemma transfer_then_append:
  "contents (fold append es (replace (contents s) t)) = contents (fold append es s)"
  by (simp add: contents_appends contents_replace)

end

interpretation log_file: log_store "log_append l" "log_replace l" "\<lambda>fs. log_read l fs []"
  by unfold_locales
    (auto simp: log_append_def log_replace_def log_read_def writeWithMode_def split: option.splits)

section \<open>Properties\<close>

text \<open>
  The path of a node's log fits the 24-byte buffer \<open>sprintf\<close> writes it to exactly for the ids
  below 10000, and two such nodes never share a log file.
\<close>

lemma log_file_path_bounds:
  assumes "0 \<le> n" "0 \<le> m" "n < 2 ^ 31" "m < 2 ^ 31"
  shows "(is_ok (log_file_path n) \<longleftrightarrow> n < 10000) \<and>
    (log_file_path n = log_file_path m \<and> is_ok (log_file_path n) \<longrightarrow> n = m)"
proof -
  have "is_ok (log_file_path n) \<longleftrightarrow> length (sprintf_02d n) \<le> 4"
    by (auto simp: log_file_path_def)
  moreover have "n = m" if "log_file_path n = log_file_path m" "is_ok (log_file_path n)"
    using that assms
    by (intro sprintf_02d_inject) (auto simp: log_file_path_def int_fits_def split: if_splits)
  ultimately show ?thesis using sprintf_02d_length [OF assms(1)] by blast
qed

text \<open>
  After any sequence of \<open>append\<close> calls the log file holds its old contents followed by one line
  per entry, in order, and no other file changes.
\<close>

lemma log_appends_contents:
  "log_read l (fold (log_append l) es fs) [] =
     log_read l fs [] @ concat (map (\<lambda>e. e @ newline) es) \<and>
   (fold (log_append l) es fs)(l_logFilePath l := None) = fs(l_logFilePath l := None)"
proof -
  have "(fold (log_append l) es fs)(l_logFilePath l := None) = fs(l_logFilePath l := None)"
    by (induction es arbitrary: fs) (simp_all add: log_append_def writeWithMode_def)
  then show ?thesis by (simp add: log_file.contents_appends)
qed

text \<open>
  Copying a log by \<open>read\<close> on one node and \<open>replace\<close> on another makes the two logs equal, and they
  stay equal when both nodes append the same entries afterwards.
\<close>

lemma log_state_transfer:
  "log_read l' (fold (log_append l') es (log_replace l' (log_read l fs []) fs')) [] =
   log_read l (fold (log_append l) es fs) []"
  by (simp add: log_file.contents_appends log_file.contents_replace)

end
