(* ===== verification/Text_Files.thy ===== *)
theory Text_Files
  imports Log_File
begin

text \<open>
  The parts of the standard library the text files of the program are read with: \<open>std::stoi\<close>, and
  \<open>std::getline\<close> on a file that another process may still be writing to.
\<close>

section \<open>Integers\<close>

definition cpp_isspace :: "char \<Rightarrow> bool" where
  "cpp_isspace c \<longleftrightarrow> c = CHR '' '' \<or> 9 \<le> byte c \<and> byte c \<le> 13"

text \<open>
  \<open>std::stoi\<close> in base 10: leading white space, an optional sign, digits, and anything after them.
\<close>

definition cpp_stoi :: "string \<Rightarrow> int res" where
  "cpp_stoi s =
     (let t = dropWhile cpp_isspace s;
          neg = (t \<noteq> [] \<and> hd t = CHR ''-'');
          u = (if t \<noteq> [] \<and> (hd t = CHR ''-'' \<or> hd t = CHR ''+'') then tl t else t);
          ds = takeWhile is_digit u;
          n = (if neg then - int (digits_value ds) else int (digits_value ds))
      in if ds = [] then Inl Stoi_Invalid_Argument
         else if is_int32 n then Inr n
         else Inl Stoi_Out_Of_Range)"

lemma is_digit_not_sign: "is_digit c \<Longrightarrow> c \<noteq> CHR ''-'' \<and> c \<noteq> CHR ''+'' \<and> \<not> cpp_isspace c \<and> c \<noteq> CHR '',''"
  by (auto simp: is_digit_def cpp_isspace_def)

lemma takeWhile_digits: "list_all is_digit s \<Longrightarrow> r = [] \<or> \<not> is_digit (hd r) \<Longrightarrow>
    takeWhile is_digit (s @ r) = s"
proof (induction s)
  case Nil
  then show ?case by (cases r) auto
qed auto

lemma cpp_stoi_digits:
  assumes "list_all is_digit s" "s \<noteq> []" "r = [] \<or> \<not> is_digit (hd r)"
    and "is_int32 (int (digits_value s))"
  shows "cpp_stoi (s @ r) = Inr (int (digits_value s))"
proof -
  obtain c s' where s: "s = c # s'" using assms(2) by (cases s) auto
  with assms(1) have "c \<noteq> CHR ''-''" "c \<noteq> CHR ''+''" "\<not> cpp_isspace c"
    using is_digit_not_sign [of c] by auto
  then show ?thesis
    using assms takeWhile_digits [of s r] by (simp add: cpp_stoi_def Let_def s)
qed

lemma cpp_stoi_minus:
  assumes "list_all is_digit s" "s \<noteq> []" "r = [] \<or> \<not> is_digit (hd r)"
    and "is_int32 (- int (digits_value s))"
  shows "cpp_stoi (CHR ''-'' # s @ r) = Inr (- int (digits_value s))"
  using assms takeWhile_digits [of s r] by (simp add: cpp_stoi_def Let_def cpp_isspace_def)

text \<open>What \<open>operator<<\<close> wrote, \<open>stoi\<close> reads back, whatever non-digit follows.\<close>

lemma cpp_stoi_dump_integer:
  assumes "is_int32 n" and "r = [] \<or> \<not> is_digit (hd r)"
  shows "cpp_stoi (dump_integer n @ r) = Inr n"
proof -
  consider "n = 0" | "0 < n" | "n < 0" by linarith
  then show ?thesis
  proof cases
    case 1
    with assms show ?thesis
      using cpp_stoi_digits [of "''0''" r] by (simp add: dump_integer_def is_digit_def digits_value_def)
  next
    case 2
    with assms show ?thesis
      using cpp_stoi_digits [of "dump_abs (nat n)" r] dump_abs_digits [of "nat n"]
      by (simp add: dump_integer_def)
  next
    case 3
    with assms show ?thesis
      using cpp_stoi_minus [of "dump_abs (nat (- n))" r] dump_abs_digits [of "nat (- n)"]
      by (simp add: dump_integer_def)
  qed
qed

lemma dump_integer_chars: "c \<in> set (dump_integer n) \<Longrightarrow> c = CHR ''-'' \<or> is_digit c"
  using dump_abs_digits [of "nat n"] dump_abs_digits [of "nat (- n)"]
  by (auto simp: dump_integer_def list_all_iff is_digit_def split: if_splits)

lemma dump_integer_not_Nil [simp]: "dump_integer n \<noteq> []"
  by (simp add: dump_integer_def)

section \<open>Lines\<close>

text \<open>
  \<open>getline\<close> at a position of the file, and \<open>clear\<close>: the line may be an unfinished last one, and
  nothing is read at the end of the file.
\<close>

definition getTrailingLine :: "string \<Rightarrow> nat \<Rightarrow> string \<times> nat" where
  "getTrailingLine content pos =
     (let rest = drop pos content; line = takeWhile (\<lambda>c. c \<noteq> CHR 0x0A) rest in
      (line, pos + length line + (if length line < length rest then 1 else 0)))"

definition unlines :: "string list \<Rightarrow> string" where
  "unlines ls = concat (map (\<lambda>l. l @ newline) ls)"

lemma unlines_simps [simp]:
  "unlines [] = []" "unlines (l # ls) = l @ newline @ unlines ls"
  "unlines (ls @ ls') = unlines ls @ unlines ls'"
  by (simp_all add: unlines_def)

lemma takeWhile_line: "CHR 0x0A \<notin> set l \<Longrightarrow> takeWhile (\<lambda>c. c \<noteq> CHR 0x0A) (l @ CHR 0x0A # r) = l"
  by (subst takeWhile_append2) auto

lemma getTrailingLine_next:
  assumes "CHR 0x0A \<notin> set l"
  shows "getTrailingLine (unlines ls @ l @ newline @ r) (length (unlines ls)) =
    (l, length (unlines (ls @ [l])))"
  by (simp add: getTrailingLine_def Let_def takeWhile_line [OF assms])

lemma getTrailingLine_end: "getTrailingLine content (length content) = ([], length content)"
  by (simp add: getTrailingLine_def)

text \<open>Successive reads of one file.\<close>

fun read_lines :: "nat \<Rightarrow> string \<Rightarrow> nat \<Rightarrow> string list" where
  "read_lines 0 content pos = []"
| "read_lines (Suc n) content pos =
     (let (line, pos') = getTrailingLine content pos in line # read_lines n content pos')"

lemma read_lines_end: "read_lines n content (length content) = replicate n []"
  by (induction n) (simp_all add: getTrailingLine_end)

lemma read_lines_from:
  assumes "\<forall>l \<in> set ls'. CHR 0x0A \<notin> set l"
  shows "read_lines n (unlines (ls @ ls')) (length (unlines ls)) =
    take n ls' @ replicate (n - length ls') []"
  using assms
proof (induction ls' arbitrary: n ls)
  case Nil
  then show ?case using read_lines_end [of n "unlines ls"] by simp
next
  case (Cons l ls')
  show ?case
  proof (cases n)
    case (Suc k)
    have "getTrailingLine (unlines (ls @ l # ls')) (length (unlines ls)) =
        (l, length (unlines (ls @ [l])))"
      using Cons.prems getTrailingLine_next [of l ls "unlines ls'"] by simp
    with Suc show ?thesis
      using Cons.IH [of k "ls @ [l]"] Cons.prems by simp
  qed simp
qed

end
