(* ===== verification/Repl_Manager.thy ===== *)
theory Repl_Manager
  imports Text_Files Wire
begin

text \<open>
  \<open>repl-manager.cc\<close>: the command file an operator appends to, its parser, and the block flag and
  speed that every other receiver waits on in \<open>sleep\<close>. Each handler runs under the manager's
  mutex and is one step of its state.
\<close>

section \<open>State and handlers\<close>

record repl_state =
  r_shouldBlock :: bool
  r_speed :: repl_code

definition repl_start :: repl_state where
  "repl_start = \<lparr>r_shouldBlock = True, r_speed = SPEED_HIGH\<rparr>"

definition repl_handleMessage :: "message \<Rightarrow> repl_state \<Rightarrow> repl_state" where
  "repl_handleMessage msg r =
     (case repl_code_of_int (m_code msg) of
        Some START \<Rightarrow> r\<lparr>r_shouldBlock := False\<rparr>
      | Some SPEED_LOW \<Rightarrow> r\<lparr>r_speed := SPEED_LOW\<rparr>
      | Some SPEED_MEDIUM \<Rightarrow> r\<lparr>r_speed := SPEED_MEDIUM\<rparr>
      | Some SPEED_HIGH \<Rightarrow> r\<lparr>r_speed := SPEED_HIGH\<rparr>
      | Some CRASH \<Rightarrow> r\<lparr>r_shouldBlock := True\<rparr>
      | Some RECOVER \<Rightarrow> r\<lparr>r_shouldBlock := False\<rparr>
      | _ \<Rightarrow> r)"

text \<open>\<open>None\<close>: the caller waits on the condition variable; otherwise the milliseconds it sleeps.\<close>

definition repl_sleep :: "repl_state \<Rightarrow> int option" where
  "repl_sleep r =
     (if r_shouldBlock r then None
      else Some (case r_speed r of SPEED_LOW \<Rightarrow> 50 | SPEED_MEDIUM \<Rightarrow> 10 | _ \<Rightarrow> 0))"

section \<open>The command file\<close>

text \<open>
  \<open>parseLine\<close>: the message, if one was made (\<open>messageReceived\<close>), and the destination, which is only
  assigned on some paths (\<open>dst\<close> is its value before the call).
\<close>

definition parseLine ::
  "messenger \<Rightarrow> int \<Rightarrow> string \<Rightarrow> int \<Rightarrow> (message option \<times> int) res" where
  "parseLine m wtime line dst =
     (let delimiterFound = (CHR '','' \<in> set line) in
      if delimiterFound \<or> line = ''shutdown'' \<or> line = ''start'' then
        res_bind
          (if delimiterFound then
             res_bind (cpp_stoi (takeWhile (\<lambda>c. c \<noteq> CHR '','') line)) (\<lambda>i.
               Inr (i, tl (dropWhile (\<lambda>c. c \<noteq> CHR '','') line)))
           else Inr (m_rank m, line))
          (\<lambda>(dstNodeId, codeStr).
             if 0 \<le> dstNodeId \<and> dstNodeId < m_clusterSize m then
               (case repl_parse_map codeStr of
                  Some c \<Rightarrow> Inr (Some (setMessage wtime (Repl_Code c)), dstNodeId)
                | None \<Rightarrow> Inr (None, dstNodeId))
             else Inr (None, dstNodeId))
      else Inr (None, dst))"

definition fetchMessageFromFile ::
  "messenger \<Rightarrow> int \<Rightarrow> string \<Rightarrow> nat \<Rightarrow> int \<Rightarrow> ((message option \<times> int) \<times> nat) res" where
  "fetchMessageFromFile m wtime content pos dst =
     (let (line, pos') = getTrailingLine content pos in
      if line \<noteq> [] then res_bind (parseLine m wtime line dst) (\<lambda>r. Inr (r, pos'))
      else Inr ((None, dst), pos'))"

text \<open>
  One round of the loop of \<open>startReceiver\<close>: the state, the position in the file, and whether the
  loop goes on. \<open>junk\<close> is the indeterminate initial value of \<open>dstNodeId\<close>.
\<close>

definition repl_round ::
  "messenger \<Rightarrow> int \<Rightarrow> int \<Rightarrow> string \<Rightarrow> repl_state \<times> nat \<Rightarrow> ((repl_state \<times> nat) \<times> bool) res" where
  "repl_round m junk wtime content st =
     (case st of (r, pos) \<Rightarrow>
       res_bind (fetchMessageFromFile m wtime content pos junk) (\<lambda>((received, dst), pos').
         case received of
           Some msg \<Rightarrow>
             if dst = m_rank m then
               Inr ((repl_handleMessage msg r, pos'), m_code msg \<noteq> 0)
             else Inr ((r, pos'), True)
         | None \<Rightarrow> Inr ((r, pos'), True)))"

text \<open>
  The loop over the contents of the file at each round; the flag says whether it is still running
  after them. Once it ends, three receivers are stopped.
\<close>

fun repl_loop ::
  "messenger \<Rightarrow> int \<Rightarrow> (int \<times> string) list \<Rightarrow> repl_state \<times> nat \<Rightarrow> ((repl_state \<times> nat) \<times> bool) res" where
  "repl_loop m junk [] st = Inr (st, True)"
| "repl_loop m junk ((wtime, content) # rounds) st =
     res_bind (repl_round m junk wtime content st) (\<lambda>(st', isUp).
       if isUp then repl_loop m junk rounds st' else Inr (st', False))"

definition repl_stopped_receivers :: "message_tag list" where
  "repl_stopped_receivers = [LEADER_ELECTION, CONSENSUS, FAILURE_DETECTION]"

section \<open>Lemmas\<close>

lemma takeWhile_comma:
  "is_int32 n \<Longrightarrow> takeWhile (\<lambda>c. c \<noteq> CHR '','') (dump_integer n @ CHR '','' # s) = dump_integer n"
  "is_int32 n \<Longrightarrow> dropWhile (\<lambda>c. c \<noteq> CHR '','') (dump_integer n @ CHR '','' # s) = CHR '','' # s"
proof -
  have "c \<noteq> CHR '',''" if "c \<in> set (dump_integer n)" for c
    using dump_integer_chars [OF that] is_digit_not_sign by auto
  then show "takeWhile (\<lambda>c. c \<noteq> CHR '','') (dump_integer n @ CHR '','' # s) = dump_integer n"
    and "dropWhile (\<lambda>c. c \<noteq> CHR '','') (dump_integer n @ CHR '','' # s) = CHR '','' # s"
    by (auto simp: takeWhile_append2 dropWhile_append2)
qed

lemma repl_sleep_None [simp]: "repl_sleep r = None \<longleftrightarrow> r_shouldBlock r"
  by (simp add: repl_sleep_def)

text \<open>The command lines of the file, as \<open>parseLine\<close> reads them.\<close>

definition command_line :: "int \<Rightarrow> string \<Rightarrow> string" where
  "command_line n c = dump_integer n @ CHR '','' # c"

lemma parseLine_command:
  assumes "is_int32 n"
  shows "parseLine m wtime (command_line n c) dst =
    Inr (if 0 \<le> n \<and> n < m_clusterSize m
         then map_option (\<lambda>x. setMessage wtime (Repl_Code x)) (repl_parse_map c) else None, n)"
  using assms cpp_stoi_dump_integer [of n "[]"]
  by (simp add: parseLine_def command_line_def Let_def takeWhile_comma split: option.splits)

text \<open>The state the loop is in after it executed the codes \<open>cs\<close>.\<close>

definition repl_execute :: "repl_code list \<Rightarrow> repl_state \<Rightarrow> repl_state" where
  "repl_execute cs r = fold (\<lambda>c. repl_handleMessage (setMessage 0 (Repl_Code c))) cs r"

lemma repl_handle_setMessage:
  "repl_handleMessage (setMessage wtime (Repl_Code c)) r =
     (case c of
        START \<Rightarrow> r\<lparr>r_shouldBlock := False\<rparr> | RECOVER \<Rightarrow> r\<lparr>r_shouldBlock := False\<rparr>
      | CRASH \<Rightarrow> r\<lparr>r_shouldBlock := True\<rparr>
      | SPEED_LOW \<Rightarrow> r\<lparr>r_speed := SPEED_LOW\<rparr> | SPEED_MEDIUM \<Rightarrow> r\<lparr>r_speed := SPEED_MEDIUM\<rparr>
      | SPEED_HIGH \<Rightarrow> r\<lparr>r_speed := SPEED_HIGH\<rparr>
      | Repl_SHUTDOWN \<Rightarrow> r)"
  by (simp only: repl_handleMessage_def setMessage_def setMessage_data_def message_init_simps
      code_of_int_code_int) (simp split: repl_code.split)

lemma repl_code_int_zero [simp]:
  "code_int (Repl_Code c) = 0 \<longleftrightarrow> c = Repl_SHUTDOWN"
  by (cases c) (simp_all add: repl_codes_def)

section \<open>Properties\<close>

text \<open>
  A line \<open><id>,<command>\<close> is turned into the message of that command for that node exactly when
  the id is a node of the cluster and the command is one of the seven names; a line without a
  comma is accepted only for \<open>start\<close> and \<open>shutdown\<close> and then addresses the reader itself, and a
  comma with no number in front of it ends the process with an exception.
\<close>

lemma parseLine_characterisation:
  assumes "is_int32 n" and "CHR '','' \<notin> set s" and "0 \<le> m_rank m" "m_rank m < m_clusterSize m"
  shows "parseLine m wtime (dump_integer n @ CHR '','' # c) dst =
      Inr (if 0 \<le> n \<and> n < m_clusterSize m
           then map_option (\<lambda>x. setMessage wtime (Repl_Code x)) (repl_parse_map c) else None, n) \<and>
    parseLine m wtime s dst =
      Inr (if s = ''shutdown'' then (Some (setMessage wtime (Repl_Code Repl_SHUTDOWN)), m_rank m)
           else if s = ''start'' then (Some (setMessage wtime (Repl_Code START)), m_rank m)
           else (None, dst)) \<and>
    parseLine m wtime (CHR '','' # c) dst = Inl Stoi_Invalid_Argument"
proof (intro conjI)
  show "parseLine m wtime (dump_integer n @ CHR '','' # c) dst =
      Inr (if 0 \<le> n \<and> n < m_clusterSize m
           then map_option (\<lambda>x. setMessage wtime (Repl_Code x)) (repl_parse_map c) else None, n)"
    using parseLine_command [OF assms(1), of m wtime c dst] by (simp add: command_line_def)
qed (use assms(2-4) in \<open>auto simp: parseLine_def repl_parse_map_def cpp_stoi_def\<close>)

text \<open>
  After any commands, the receivers are blocked exactly when the last of the \<open>start\<close>, \<open>crash\<close>
  and \<open>recover\<close> commands was \<open>crash\<close> or there was none, and otherwise they run at the last speed
  that was set (high at the beginning): 50, 10 or 0 ms per message.
\<close>

lemma repl_commands_semantics:
  "repl_sleep (repl_execute cs repl_start) =
     (if (case find (\<lambda>c. c \<in> {START, CRASH, RECOVER}) (rev cs) of None \<Rightarrow> True | Some c \<Rightarrow> c = CRASH)
      then None
      else Some (case find (\<lambda>c. c \<in> {SPEED_LOW, SPEED_MEDIUM, SPEED_HIGH}) (rev cs) of
                   Some SPEED_LOW \<Rightarrow> 50 | Some SPEED_MEDIUM \<Rightarrow> 10 | _ \<Rightarrow> 0))"
proof -
  have "r_shouldBlock (repl_execute cs repl_start) =
      (case find (\<lambda>c. c \<in> {START, CRASH, RECOVER}) (rev cs) of None \<Rightarrow> True | Some c \<Rightarrow> c = CRASH) \<and>
    r_speed (repl_execute cs repl_start) =
      (case find (\<lambda>c. c \<in> {SPEED_LOW, SPEED_MEDIUM, SPEED_HIGH}) (rev cs) of
         None \<Rightarrow> SPEED_HIGH | Some c \<Rightarrow> c)"
  proof (induction cs rule: rev_induct)
    case (snoc c cs)
    then show ?case
      by (cases c) (simp_all add: repl_execute_def repl_handle_setMessage)
  qed (simp add: repl_execute_def repl_start_def)
  moreover have "find (\<lambda>c. c \<in> {SPEED_LOW, SPEED_MEDIUM, SPEED_HIGH}) xs = Some c \<Longrightarrow>
      c \<in> {SPEED_LOW, SPEED_MEDIUM, SPEED_HIGH}" for xs c
    by (induction xs) (auto split: if_splits)
  from this [of "rev cs"] calculation show ?thesis
    by (auto simp: repl_sleep_def split: option.splits)
qed

text \<open>
  Reading a file of complete lines one \<open>getTrailingLine\<close> at a time gives its lines in order and
  then empty lines for ever; the lines the loop sees are those an operator wrote.
\<close>

lemma read_lines_unlines:
  assumes "\<forall>l \<in> set ls. CHR 0x0A \<notin> set l"
  shows "read_lines n (unlines ls) 0 = take n ls @ replicate (n - length ls) []"
  using read_lines_from [OF assms, of n "[]"] by simp

section \<open>A whole command file\<close>

fun repl_name :: "repl_code \<Rightarrow> string" where
  "repl_name Repl_SHUTDOWN = ''shutdown''"
| "repl_name START = ''start''"
| "repl_name SPEED_LOW = ''speed-low''"
| "repl_name SPEED_MEDIUM = ''speed-medium''"
| "repl_name SPEED_HIGH = ''speed-high''"
| "repl_name CRASH = ''crash''"
| "repl_name RECOVER = ''recover''"

lemma repl_parse_map_name [simp]: "repl_parse_map (repl_name c) = Some c"
  by (cases c) (simp_all add: repl_parse_map_def)

definition script_line :: "int \<times> repl_code \<Rightarrow> string" where
  "script_line l = command_line (fst l) (repl_name (snd l))"

definition own_codes :: "int \<Rightarrow> (int \<times> repl_code) list \<Rightarrow> repl_code list" where
  "own_codes n ls = map snd (filter (\<lambda>l. fst l = n) ls)"

lemma script_line_no_newline: "CHR 0x0A \<notin> set (script_line l)"
proof -
  have "CHR 0x0A \<notin> set (dump_integer n)" for n
    using dump_integer_chars [of "CHR 0x0A" n] by (auto simp: is_digit_def)
  moreover have "CHR 0x0A \<notin> set (repl_name c)" for c
    by (cases c) simp_all
  ultimately show ?thesis by (simp add: script_line_def command_line_def)
qed

lemma script_line_not_Nil: "script_line l \<noteq> []"
  by (simp add: script_line_def command_line_def)

lemma repl_round_script:
  assumes "0 \<le> fst l" "fst l < m_clusterSize m" "m_clusterSize m < 2 ^ 31"
  shows "repl_round m junk wtime (unlines (map script_line (ls @ l # ls')))
      (r, length (unlines (map script_line ls))) =
    Inr ((if fst l = m_rank m then repl_execute [snd l] r else r,
          length (unlines (map script_line (ls @ [l])))),
         fst l \<noteq> m_rank m \<or> snd l \<noteq> Repl_SHUTDOWN)"
proof -
  have "is_int32 (fst l)" using assms by (simp add: is_int32_def)
  then have parse: "parseLine m wtime (script_line l) junk =
      Inr (Some (setMessage wtime (Repl_Code (snd l))), fst l)"
    using assms(1,2) by (simp add: script_line_def parseLine_command)
  have handle: "repl_handleMessage (setMessage wtime (Repl_Code c)) r = repl_execute [c] r" for c
    by (simp add: repl_execute_def repl_handle_setMessage)
  show ?thesis
    using getTrailingLine_next [OF script_line_no_newline, of "map script_line ls" l
        "unlines (map script_line ls')"]
    by (simp add: repl_round_def fetchMessageFromFile_def script_line_not_Nil parse handle
        del: code_int.simps)
qed

lemma repl_loop_script:
  assumes "\<forall>l \<in> set ls'. 0 \<le> fst l \<and> fst l < m_clusterSize m" "m_clusterSize m < 2 ^ 31"
    and "length ls' \<le> k"
  shows "\<exists>pos. repl_loop m junk (replicate k (wtime, unlines (map script_line (ls @ ls'))))
      (r, length (unlines (map script_line ls))) =
    Inr ((repl_execute (takeWhile (\<lambda>c. c \<noteq> Repl_SHUTDOWN) (own_codes (m_rank m) ls')) r, pos),
         Repl_SHUTDOWN \<notin> set (own_codes (m_rank m) ls'))"
  using assms(1,3)
proof (induction ls' arbitrary: ls r k)
  case Nil
  have "repl_loop m junk (replicate k (wtime, content)) (r, length content) = Inr ((r, length content), True)"
    for content
    by (induction k)
      (simp_all add: repl_round_def fetchMessageFromFile_def getTrailingLine_end)
  then show ?case by (simp add: own_codes_def repl_execute_def)
next
  case (Cons l ls')
  then obtain k' where k: "k = Suc k'" by (cases k) auto
  from Cons.prems have l: "0 \<le> fst l" "fst l < m_clusterSize m" by simp_all
  note round = repl_round_script [OF l assms(2), of junk wtime ls ls' r]
  let ?r = "if fst l = m_rank m then repl_execute [snd l] r else r"
  from Cons.IH [of k' "ls @ [l]" ?r] Cons.prems k obtain pos where
    rest: "repl_loop m junk (replicate k' (wtime, unlines (map script_line (ls @ l # ls'))))
      (?r, length (unlines (map script_line (ls @ [l])))) =
    Inr ((repl_execute (takeWhile (\<lambda>c. c \<noteq> Repl_SHUTDOWN) (own_codes (m_rank m) ls')) ?r, pos),
         Repl_SHUTDOWN \<notin> set (own_codes (m_rank m) ls'))"
    by auto
  have shutdown: "repl_execute [Repl_SHUTDOWN] r = r"
    by (simp add: repl_execute_def repl_handle_setMessage)
  from round rest k shutdown show ?case
    by (cases "fst l = m_rank m"; cases "snd l = Repl_SHUTDOWN")
      (auto simp: own_codes_def repl_execute_def simp del: map_append unlines_simps)
qed

text \<open>
  C38. A node whose loop reads a file of well-formed command lines executes exactly the commands
  addressed to it, in the order of the file, up to its first \<open>shutdown\<close>; the loop has ended after
  at most one round per line if there is such a command, and otherwise is still running.
\<close>

theorem repl_loop_runs_script:
  assumes "\<forall>l \<in> set ls. 0 \<le> fst l \<and> fst l < m_clusterSize m" "m_clusterSize m < 2 ^ 31"
    and "length ls \<le> k"
  shows "\<exists>pos. repl_loop m junk (replicate k (wtime, unlines (map script_line ls))) (repl_start, 0) =
    Inr ((repl_execute (takeWhile (\<lambda>c. c \<noteq> Repl_SHUTDOWN) (own_codes (m_rank m) ls)) repl_start, pos),
         Repl_SHUTDOWN \<notin> set (own_codes (m_rank m) ls))"
  using repl_loop_script [OF assms, of junk wtime "[]" repl_start] by simp

theorem repl_loop_runs_script_witness:
  "\<exists>pos. repl_loop (messenger_start 1 3) 9
      (replicate 5 (0, unlines (map script_line [(1, START), (2, CRASH), (1, Repl_SHUTDOWN)])))
      (repl_start, 0) =
    Inr ((repl_execute (takeWhile (\<lambda>c. c \<noteq> Repl_SHUTDOWN)
           (own_codes (m_rank (messenger_start 1 3)) [(1, START), (2, CRASH), (1, Repl_SHUTDOWN)]))
           repl_start, pos),
         Repl_SHUTDOWN \<notin> set (own_codes (m_rank (messenger_start 1 3))
           [(1, START), (2, CRASH), (1, Repl_SHUTDOWN)]))"
  by (rule repl_loop_runs_script) (simp_all add: messenger_start_def)

end
