(* ===== verification/Receiver_Loop.thy ===== *)
theory Receiver_Loop
  imports Receiving Repl_Manager
begin

text \<open>
  \<open>message-receiver.cc\<close>: the loop every manager's thread runs, as a machine whose states are the
  points where the thread can wait. The handler is the manager's \<open>handleMessage\<close>; what a manager
  must provide is the locale \<open>message_handler\<close>, interpreted by each manager's theory.
\<close>

section \<open>The machine\<close>

datatype receiver_state =
    Starting
  | Receiving
  | Sleeping int message
  | Stopped

text \<open>
  One move of the thread: out of the first \<open>sleep\<close> (and into \<open>init\<close>), over \<open>receiveWithTagBlock\<close>, or
  out of the \<open>sleep\<close> before the handler. A move that has to wait leaves the state as it is.
  \<open>received\<close> is the fresh message object of the round.
\<close>

definition receiver_step ::
  "message_tag \<Rightarrow> message \<Rightarrow> ('s \<Rightarrow> 's) \<Rightarrow> (int \<Rightarrow> message \<Rightarrow> 's \<Rightarrow> 's res) \<Rightarrow> messenger \<Rightarrow> repl_state \<Rightarrow>
   receiver_state \<times> packet list \<times> 's \<Rightarrow> (receiver_state \<times> packet list \<times> 's) res" where
  "receiver_step tag received init handle m r st =
     (case st of
        (Starting, inbox, s) \<Rightarrow>
          Inr (if repl_sleep r = None then st else (Receiving, inbox, init s))
      | (Receiving, inbox, s) \<Rightarrow>
          res_bind (receiveWithTagBlock tag Comm_World m received inbox) (\<lambda>(got, rest).
            case got of
              None \<Rightarrow> Inr (Receiving, rest, s)
            | Some (src, msg) \<Rightarrow>
                if m_code msg \<noteq> 0 then Inr (Sleeping src msg, rest, s) else Inr (Stopped, rest, s))
      | (Sleeping src msg, inbox, s) \<Rightarrow>
          if repl_sleep r = None then Inr st
          else res_bind (handle src msg s) (\<lambda>s'. Inr (Receiving, inbox, s'))
      | (Stopped, inbox, s) \<Rightarrow> Inr st)"

fun receiver_run ::
  "nat \<Rightarrow> message_tag \<Rightarrow> message \<Rightarrow> ('s \<Rightarrow> 's) \<Rightarrow> (int \<Rightarrow> message \<Rightarrow> 's \<Rightarrow> 's res) \<Rightarrow> messenger \<Rightarrow>
   repl_state \<Rightarrow> receiver_state \<times> packet list \<times> 's \<Rightarrow> (receiver_state \<times> packet list \<times> 's) res" where
  "receiver_run 0 tag received init handle m r st = Inr st"
| "receiver_run (Suc n) tag received init handle m r st =
     res_bind (receiver_step tag received init handle m r st)
       (receiver_run n tag received init handle m r)"

text \<open>What the handlers see: the messages in front of the first with code 0, in order.\<close>

fun handle_all ::
  "(int \<Rightarrow> message \<Rightarrow> 's \<Rightarrow> 's res) \<Rightarrow> (int \<times> message) list \<Rightarrow> 's \<Rightarrow> 's res" where
  "handle_all handle [] s = Inr s"
| "handle_all handle ((src, msg) # ms) s = res_bind (handle src msg s) (handle_all handle ms)"

section \<open>Handlers that keep an invariant\<close>

locale message_handler =
  fixes init :: "'s \<Rightarrow> 's" and handle :: "int \<Rightarrow> message \<Rightarrow> 's \<Rightarrow> 's res" and inv :: "'s \<Rightarrow> bool"
  assumes inv_init: "inv s \<Longrightarrow> inv (init s)"
    and inv_handle: "inv s \<Longrightarrow> handle src msg s = Inr s' \<Longrightarrow> inv s'"
begin

lemma inv_handle_all: "handle_all handle ms s = Inr s' \<Longrightarrow> inv s \<Longrightarrow> inv s'"
proof (induction ms arbitrary: s)
  case (Cons sm ms)
  then show ?case by (cases sm) (auto dest: inv_handle)
qed simp

lemma inv_receiver_step:
  "receiver_step tag received init handle m r (st, inbox, s) = Inr (st', inbox', s') \<Longrightarrow> inv s \<Longrightarrow>
   inv s'"
  by (cases st) (auto simp: receiver_step_def dest: inv_handle intro: inv_init
      split: if_splits option.splits)

lemma inv_receiver_run:
  "receiver_run n tag received init handle m r (st, inbox, s) = Inr (st', inbox', s') \<Longrightarrow> inv s \<Longrightarrow>
   inv s'"
proof (induction n arbitrary: st inbox s)
  case (Suc n)
  then obtain st1 inbox1 s1 where
    "receiver_step tag received init handle m r (st, inbox, s) = Inr (st1, inbox1, s1)"
    "receiver_run n tag received init handle m r (st1, inbox1, s1) = Inr (st', inbox', s')"
    by auto
  with Suc show ?case by (meson inv_receiver_step)
qed simp

end

interpretation repl_handler: message_handler id "\<lambda>src msg r. Inr (repl_handleMessage msg r)"
  "\<lambda>r. r_speed r \<in> {SPEED_LOW, SPEED_MEDIUM, SPEED_HIGH}"
  by unfold_locales (auto simp: repl_handleMessage_def split: option.splits repl_code.splits)

section \<open>The whole loop\<close>

text \<open>An inbox of well-formed packets of one tag from nodes that are not dropped.\<close>

definition clean_inbox ::
  "message_tag \<Rightarrow> messenger \<Rightarrow> (packet \<Rightarrow> message) \<Rightarrow> packet list \<Rightarrow> bool" where
  "clean_inbox tag m body inbox \<longleftrightarrow>
     (\<forall>p \<in> set inbox. pk_tag p = tag_int tag \<and> 0 \<le> pk_source p \<and> pk_source p < m_clusterSize m \<and>
        deliverable tag Comm_World m p \<and> (\<forall>m0. receive_packet p m0 = Inr (pk_source p, body p, True)))"

definition inbox_messages :: "(packet \<Rightarrow> message) \<Rightarrow> packet list \<Rightarrow> (int \<times> message) list" where
  "inbox_messages body inbox = map (\<lambda>p. (pk_source p, body p)) inbox"

lemma clean_inbox_receive:
  assumes "messenger_wf m" and "clean_inbox tag m body (p # inbox)"
  shows "receiveWithTagBlock tag Comm_World m received (p # inbox) =
    Inr (Some (pk_source p, body p), inbox)"
proof -
  have p: "pk_tag p = tag_int tag" "0 \<le> pk_source p" "pk_source p < m_clusterSize m"
    "deliverable tag Comm_World m p" "receive_packet p received = Inr (pk_source p, body p, True)"
    using assms(2) by (auto simp: clean_inbox_def)
  with messageShouldDrop_deliverable [OF assms(1) p(2,3), of Comm_World tag]
  show ?thesis by (simp add: receiveWithTagBlock.simps)
qed

lemma receiver_run_stopped:
  "receiver_run n tag received init handle m r (Stopped, inbox, s) = Inr (Stopped, inbox, s)"
  by (induction n) (simp_all add: receiver_step_def)

lemma receiver_run_idle:
  "receiver_run n tag received init handle m r (Receiving, [], s) = Inr (Receiving, [], s)"
  by (induction n) (simp_all add: receiver_step_def receiveWithTagBlock.simps)

lemma receiver_run_inbox:
  assumes "messenger_wf m" and "\<not> r_shouldBlock r" and "clean_inbox tag m body inbox"
    and "2 * length inbox \<le> n"
  shows "receiver_run n tag received init handle m r (Receiving, inbox, s) =
    res_bind (handle_all handle (takeWhile (\<lambda>(_, msg). m_code msg \<noteq> 0) (inbox_messages body inbox)) s)
      (\<lambda>s'. Inr (if list_all (\<lambda>(_, msg). m_code msg \<noteq> 0) (inbox_messages body inbox)
                 then (Receiving, [], s')
                 else (Stopped, tl (dropWhile (\<lambda>p. m_code (body p) \<noteq> 0) inbox), s')))"
  using assms(3,4)
proof (induction inbox arbitrary: n s)
  case Nil
  then show ?case by (simp add: inbox_messages_def receiver_run_idle)
next
  case (Cons p inbox)
  then obtain k where n: "n = Suc (Suc k)" "2 * length inbox \<le> k"
    by (cases n; cases "n - 1") auto
  have clean: "clean_inbox tag m body inbox"
    using Cons.prems(1) by (simp add: clean_inbox_def)
  note rcv = clean_inbox_receive [OF assms(1) Cons.prems(1)]
  show ?case
  proof (cases "m_code (body p) = 0")
    case True
    with rcv n show ?thesis
      by (simp add: receiver_step_def inbox_messages_def receiver_run_stopped)
  next
    case False
    then have "receiver_run n tag received init handle m r (Receiving, p # inbox, s) =
        res_bind (handle (pk_source p) (body p) s)
          (\<lambda>s'. receiver_run k tag received init handle m r (Receiving, inbox, s'))"
      using rcv n(1) assms(2) by (simp add: receiver_step_def res_bind_assoc repl_sleep_def)
    also have "\<dots> = res_bind (handle (pk_source p) (body p) s) (\<lambda>s1.
        res_bind (handle_all handle (takeWhile (\<lambda>(_, msg). m_code msg \<noteq> 0) (inbox_messages body inbox)) s1)
      (\<lambda>s'. Inr (if list_all (\<lambda>(_, msg). m_code msg \<noteq> 0) (inbox_messages body inbox)
                 then (Receiving, [], s')
                 else (Stopped, tl (dropWhile (\<lambda>p. m_code (body p) \<noteq> 0) inbox), s'))))"
      using Cons.IH [OF clean n(2)] by simp
    finally show ?thesis
      using False by (simp add: inbox_messages_def res_bind_assoc cong: if_cong)
  qed
qed

text \<open>
  C37. A receiver whose node is not crashed, started on any inbox of well-formed messages from live
  nodes, handles exactly the messages in front of the first \<open>SHUTDOWN\<close> (code 0), in order and each
  once. Two moves per packet are enough; it then has stopped with the later packets unread, or waits
  for more.
\<close>

theorem receiver_handles_until_shutdown:
  assumes "messenger_wf m" and "\<not> r_shouldBlock r" and "clean_inbox tag m body inbox"
    and "2 * length inbox < n"
  shows "receiver_run n tag received init handle m r (Starting, inbox, s) =
    res_bind (handle_all handle
        (takeWhile (\<lambda>(_, msg). m_code msg \<noteq> 0) (inbox_messages body inbox)) (init s))
      (\<lambda>s'. Inr (if list_all (\<lambda>(_, msg). m_code msg \<noteq> 0) (inbox_messages body inbox)
                 then (Receiving, [], s')
                 else (Stopped, tl (dropWhile (\<lambda>p. m_code (body p) \<noteq> 0) inbox), s')))"
proof -
  obtain k where n: "n = Suc k" "2 * length inbox \<le> k" using assms(4) by (cases n) auto
  then have "receiver_run n tag received init handle m r (Starting, inbox, s) =
      receiver_run k tag received init handle m r (Receiving, inbox, init s)"
    using assms(2) by (simp add: receiver_step_def repl_sleep_def)
  with receiver_run_inbox [OF assms(1-3) n(2)] show ?thesis by simp
qed

theorem receiver_handles_until_shutdown_witness:
  "\<exists>p. messenger_send (\<lambda>_. CHR ''-'') 0 (setMessage 0 (Repl_Code CRASH)) Comm_World
      (messenger_start 1 2) = Inr (Some p) \<and>
    receiver_run 3 REPL (default_message 0 0 0) id (\<lambda>src msg r. Inr (repl_handleMessage msg r))
      (messenger_start 0 2) (repl_execute [START] repl_start) (Starting, [p], repl_execute [START] repl_start) =
    Inr (Receiving, [], repl_execute [START, CRASH] repl_start)"
proof -
  let ?c = "Repl_Code CRASH"
  have d: "valid_utf8 []" "is_int32 (generateUniqueId 0)" "length ([] :: string) \<le> 158"
    by (simp_all add: valid_utf8_plain generateUniqueId_def is_int32_def ns_per_second_def)
  have "messageShouldDrop (m_processIsAlive (messenger_start 1 2)) (m_rank (messenger_start 1 2)) 0
      Comm_World (Some (get_tag_from_code ?c)) = Inr False"
    by (simp add: messenger_start_def messageShouldDrop_def node_status_index_def vec_get_def)
  from sent_packet [OF this d, of "\<lambda>_. CHR ''-''"] obtain p where
    p: "messenger_send (\<lambda>_. CHR ''-'') 0 (setMessage 0 ?c) Comm_World (messenger_start 1 2) = Inr (Some p)"
      "pk_source p = 1" "pk_tag p = 2" "\<And>m0. receive_packet p m0 = Inr (1, setMessage 0 ?c, True)"
    by (auto simp: messenger_start_def setMessage_def)
  have "receiver_run 3 REPL (default_message 0 0 0) id (\<lambda>src msg r. Inr (repl_handleMessage msg r))
      (messenger_start 0 2) (repl_execute [START] repl_start) (Starting, [p], repl_execute [START] repl_start) =
    res_bind (handle_all (\<lambda>src msg r. Inr (repl_handleMessage msg r))
        (takeWhile (\<lambda>(_, msg). m_code msg \<noteq> 0) (inbox_messages (\<lambda>_. setMessage 0 ?c) [p]))
        (id (repl_execute [START] repl_start)))
      (\<lambda>s'. Inr (if list_all (\<lambda>(_, msg). m_code msg \<noteq> 0) (inbox_messages (\<lambda>_. setMessage 0 ?c) [p])
                 then (Receiving, [], s')
                 else (Stopped, tl (dropWhile (\<lambda>p. m_code (setMessage 0 ?c) \<noteq> 0) [p]), s')))"
    by (rule receiver_handles_until_shutdown)
      (simp_all add: p messenger_wf_def messenger_start_def clean_inbox_def repl_execute_def
        repl_handle_setMessage deliverable_def node_alive_def node_status_index_def)
  with p(1) show ?thesis
    by (simp add: inbox_messages_def repl_execute_def del: code_int.simps)
qed

lemma crashed_receiver_step:
  assumes "r_shouldBlock r"
    and "receiver_step tag received init handle m r (st, inbox, s) = Inr (st', inbox', s')"
  shows "s' = s \<and> (\<forall>src msg. st = Sleeping src msg \<longrightarrow> st' = st)"
  using assms
  by (cases st) (auto simp: receiver_step_def split: if_splits option.splits)

text \<open>
  While the node is crashed its receivers handle nothing: whatever arrives and however long the
  thread runs, the manager's state is unchanged, and a thread that took a message before noticing
  the crash stays with it and does not even see a \<open>SHUTDOWN\<close> until the node recovers.
\<close>

lemma crashed_receiver_is_inert:
  assumes "r_shouldBlock r"
    and "receiver_run n tag received init handle m r (st, inbox, s) = Inr (st', inbox', s')"
  shows "s' = s \<and> (\<forall>src msg. st = Sleeping src msg \<longrightarrow> st' = st)"
  using assms(2)
proof (induction n arbitrary: st inbox s)
  case (Suc n)
  then obtain st1 inbox1 s1 where
    step: "receiver_step tag received init handle m r (st, inbox, s) = Inr (st1, inbox1, s1)"
    and run: "receiver_run n tag received init handle m r (st1, inbox1, s1) = Inr (st', inbox', s')"
    by auto
  from crashed_receiver_step [OF assms(1) step] Suc.IH [OF run] show ?case by auto
qed simp

end
