(* ===== verification/Receiver_Manager.thy ===== *)
theory Receiver_Manager
  imports Receiver_Loop
begin

text \<open>
  \<open>receiver-manager.cc\<close>, \<open>receiver-manager.hxx\<close> and the start and end of \<open>node.cc\<close>: the table of
  the five receivers, their threads and the active flags.
\<close>

section \<open>State\<close>

datatype thread =
    No_Thread
  | Joinable
  | Joined

text \<open>A receiver object is known by its tag; arrays have \<open>MessageTag::SIZE\<close> entries.\<close>

record receiver_manager =
  rm_receivers :: "message_tag option list"
  rm_threads :: "thread list"
  rm_isActive :: "bool list"

definition receiver_manager_init :: receiver_manager where
  "receiver_manager_init =
     \<lparr>rm_receivers = replicate 5 None, rm_threads = replicate 5 No_Thread,
      rm_isActive = replicate 5 False\<rparr>"

definition receiver_manager_wf :: "receiver_manager \<Rightarrow> bool" where
  "receiver_manager_wf rm \<longleftrightarrow> length (rm_receivers rm) = 5 \<and> length (rm_threads rm) = 5 \<and>
     length (rm_isActive rm) = 5"

section \<open>Operations\<close>

definition rm_startReceiver :: "message_tag \<Rightarrow> receiver_manager \<Rightarrow> receiver_manager res" where
  "rm_startReceiver tag rm =
     res_bind (vec_set (rm_receivers rm) (tag_int tag) (Some tag)) (\<lambda>rs.
     res_bind (vec_get (rm_threads rm) (tag_int tag)) (\<lambda>t.
       if t = Joinable then Inl Thread_Terminate
       else
         res_bind (vec_set (rm_threads rm) (tag_int tag) Joinable) (\<lambda>ts.
         res_bind (vec_set (rm_isActive rm) (tag_int tag) True) (\<lambda>as.
           Inr \<lparr>rm_receivers = rs, rm_threads = ts, rm_isActive = as\<rparr>))))"

definition rm_getReceiver :: "message_tag \<Rightarrow> receiver_manager \<Rightarrow> message_tag option res" where
  "rm_getReceiver tag rm = vec_get (rm_receivers rm) (tag_int tag)"

text \<open>The result says whether the receiver's \<open>stopReceiver\<close> was called.\<close>

definition rm_stopReceiver :: "message_tag \<Rightarrow> receiver_manager \<Rightarrow> (receiver_manager \<times> bool) res" where
  "rm_stopReceiver tag rm =
     res_bind (vec_get (rm_isActive rm) (tag_int tag)) (\<lambda>active.
       if active then
         res_bind (vec_get (rm_receivers rm) (tag_int tag)) (\<lambda>r.
           if r = None then Inl Undefined_Behaviour
           else
             res_bind (vec_set (rm_isActive rm) (tag_int tag) False) (\<lambda>as.
               Inr (rm\<lparr>rm_isActive := as\<rparr>, True)))
       else Inr (rm, False))"

definition rm_waitForReceiver :: "message_tag \<Rightarrow> receiver_manager \<Rightarrow> receiver_manager res" where
  "rm_waitForReceiver tag rm =
     res_bind (vec_get (rm_isActive rm) (tag_int tag)) (\<lambda>active.
       if active then
         res_bind (vec_get (rm_threads rm) (tag_int tag)) (\<lambda>t.
           if t \<noteq> Joinable then Inl Thread_Not_Joinable
           else
             res_bind (vec_set (rm_threads rm) (tag_int tag) Joined) (\<lambda>ts.
               Inr (rm\<lparr>rm_threads := ts\<rparr>)))
       else Inr rm)"

text \<open>The receivers \<open>Node::init\<close> starts, and those it waits for, in its order.\<close>

definition node_start_order :: "message_tag list" where
  "node_start_order = [REPL, LEADER_ELECTION, CONSENSUS, FAILURE_DETECTION, CLIENT]"

definition node_wait_order :: "message_tag list" where
  "node_wait_order = [REPL, LEADER_ELECTION, CONSENSUS, CLIENT, FAILURE_DETECTION]"

fun rm_each ::
  "(message_tag \<Rightarrow> receiver_manager \<Rightarrow> receiver_manager res) \<Rightarrow> message_tag list \<Rightarrow>
   receiver_manager \<Rightarrow> receiver_manager res" where
  "rm_each f [] rm = Inr rm"
| "rm_each f (t # ts) rm = res_bind (f t rm) (rm_each f ts)"

definition node_start :: "receiver_manager res" where
  "node_start = rm_each rm_startReceiver node_start_order receiver_manager_init"

definition repl_stop_receivers :: "receiver_manager \<Rightarrow> receiver_manager res" where
  "repl_stop_receivers rm =
     rm_each (\<lambda>t rm. res_bind (rm_stopReceiver t rm) (\<lambda>(rm', _). Inr rm')) repl_stopped_receivers rm"

text \<open>
  The end of \<open>Node::init\<close>: the thread of the REPL receiver stops three receivers before it ends, so
  that is done when the first wait returns.
\<close>

definition node_wait :: "receiver_manager \<Rightarrow> receiver_manager res" where
  "node_wait rm =
     res_bind (repl_stop_receivers rm) (rm_each rm_waitForReceiver node_wait_order)"

section \<open>Properties\<close>

lemma receiver_manager_init_wf: "receiver_manager_wf receiver_manager_init"
  by (simp add: receiver_manager_wf_def receiver_manager_init_def)

lemma tag_int_range: "t \<noteq> SIZE \<Longrightarrow> 0 \<le> tag_int t \<and> tag_int t < 5"
  by (cases t) simp_all

lemma rm_operations_wf:
  "receiver_manager_wf rm \<Longrightarrow> rm_startReceiver t rm = Inr rm' \<Longrightarrow> receiver_manager_wf rm'"
  "receiver_manager_wf rm \<Longrightarrow> rm_stopReceiver t rm = Inr (rm', b) \<Longrightarrow> receiver_manager_wf rm'"
  "receiver_manager_wf rm \<Longrightarrow> rm_waitForReceiver t rm = Inr rm' \<Longrightarrow> receiver_manager_wf rm'"
  by (auto simp: receiver_manager_wf_def rm_startReceiver_def rm_stopReceiver_def
      rm_waitForReceiver_def dest: vec_set_length split: if_splits)

definition node_started :: receiver_manager where
  "node_started =
     \<lparr>rm_receivers = [Some LEADER_ELECTION, Some CONSENSUS, Some REPL, Some FAILURE_DETECTION,
        Some CLIENT],
      rm_threads = replicate 5 Joinable, rm_isActive = replicate 5 True\<rparr>"

lemma node_start_eq: "node_start = Inr node_started"
  by (simp add: node_start_def node_start_order_def receiver_manager_init_def rm_startReceiver_def
      vec_get_def vec_set_def eval_nat_numeral node_started_def)

text \<open>
  Stopping is idempotent: once a receiver has been stopped, stopping it again calls nothing and
  changes nothing, so it gets at most one \<open>SHUTDOWN\<close> message from the manager, and the flags of the
  other receivers are untouched.
\<close>

lemma rm_stopReceiver_idempotent:
  assumes "rm_stopReceiver t rm = Inr (rm', called)"
  shows "rm_stopReceiver t rm' = Inr (rm', False) \<and>
    (\<forall>t'. t' \<noteq> t \<longrightarrow> vec_get (rm_isActive rm') (tag_int t') = vec_get (rm_isActive rm) (tag_int t'))"
proof -
  have "nat (tag_int t) \<noteq> nat (tag_int t')" if "t' \<noteq> t" for t'
    using that by (cases t; cases t') simp_all
  then have "(xs[nat (tag_int t) := a]) ! nat (tag_int t') = xs ! nat (tag_int t')"
    if "t' \<noteq> t" for xs :: "bool list" and a t'
    using that by simp
  with assms show ?thesis
    by (auto simp: rm_stopReceiver_def vec_get_def vec_set_def split: if_splits)
qed

text \<open>
  The end of a node: \<open>Node::init\<close> starts all five receivers, but its waits for the election,
  consensus and failure-detection receivers return at once, because the REPL receiver has cleared
  their active flags by then. Only the REPL and client threads are joined when \<open>Node::destroy\<close>
  finalises MPI.
\<close>

lemma node_wait_joins_two:
  "\<exists>rm rm'. node_start = Inr rm \<and> list_all (\<lambda>a. a) (rm_isActive rm) \<and> node_wait rm = Inr rm' \<and>
     map (\<lambda>t. vec_get (rm_threads rm') (tag_int t))
       [LEADER_ELECTION, CONSENSUS, REPL, FAILURE_DETECTION, CLIENT] =
     map Inr [Joinable, Joinable, Joined, Joinable, Joined]"
proof -
  have "node_wait node_started =
      Inr (node_started\<lparr>rm_threads := [Joinable, Joinable, Joined, Joinable, Joined],
        rm_isActive := [False, False, True, False, True]\<rparr>)"
    by (simp add: node_wait_def node_wait_order_def repl_stop_receivers_def repl_stopped_receivers_def
        rm_stopReceiver_def rm_waitForReceiver_def vec_get_def vec_set_def eval_nat_numeral
        node_started_def)
  moreover have "list_all (\<lambda>a. a) (rm_isActive node_started)"
    by (simp add: node_started_def list_all_length)
  moreover have "map (\<lambda>t. vec_get (rm_threads (node_started\<lparr>rm_threads :=
        [Joinable, Joinable, Joined, Joinable, Joined], rm_isActive := b\<rparr>)) (tag_int t))
      [LEADER_ELECTION, CONSENSUS, REPL, FAILURE_DETECTION, CLIENT] =
      map Inr [Joinable, Joinable, Joined, Joinable, Joined]" for b
    by (simp add: vec_get_def eval_nat_numeral)
  ultimately show ?thesis using node_start_eq by blast
qed

end
