(* ===== verification/Network.thy ===== *)
theory Network
  imports Messenger
begin

text \<open>
  Sends as the handlers and threads make them, before the messenger looks at the liveness flags, and
  the channels of the cluster models: one FIFO per ordered pair of nodes.
\<close>

type_synonym sends = "(int \<times> message) list"

type_synonym 's handled = "('s \<times> sends) res"

text \<open>A broadcast, as the list of its sends.\<close>

definition broadcast_sends :: "messenger \<Rightarrow> message \<Rightarrow> sends" where
  "broadcast_sends m msg = map (\<lambda>i. (i, msg)) (broadcast_targets 0 (m_clusterSize m) False m)"

text \<open>The messages a node sends go to the ends of its channels, in the order it sends them.\<close>

definition enqueue :: "int \<Rightarrow> sends \<Rightarrow> (int \<Rightarrow> int \<Rightarrow> message list) \<Rightarrow> int \<Rightarrow> int \<Rightarrow> message list" where
  "enqueue src out net p q =
     net p q @ (if p = src then map snd (filter (\<lambda>x. fst x = q) out) else [])"

lemma broadcast_sends_to:
  "map snd (filter (\<lambda>x. fst x = q) (broadcast_sends (messenger_start L n) msg)) =
     (if 0 \<le> q \<and> q < n \<and> q \<noteq> L then [msg] else [])"
proof -
  have *: "filter (\<lambda>i. i = q) [a..b] = (if a \<le> q \<and> q \<le> b then [q] else [])" for a b :: int
  proof (induction "nat (b - a + 1)" arbitrary: a)
    case 0
    then show ?case by simp
  next
    case (Suc k)
    then have "[a..b] = a # [a + 1..b]" and "nat (b - (a + 1) + 1) = k" and "a \<le> b"
      by (simp_all add: upto_rec1)
    with Suc.hyps(1) [of "a + 1"] show ?case by auto
  qed
  have "filter (\<lambda>i. i \<noteq> L \<and> i = q) [0..n - 1] = (if q = L then [] else filter (\<lambda>i. i = q) [0..n - 1])"
    by (auto simp: filter_empty_conv intro!: filter_cong)
  then show ?thesis
    by (simp add: broadcast_sends_def broadcast_targets_def messenger_start_def filter_map comp_def *
        conj_commute)
qed

end
