(* ===== verification/Consensus_Manager.thy ===== *)
theory Consensus_Manager
  imports Receiver_Loop Network
begin

text \<open>
  \<open>consensus-manager.cc\<close>: the round state of a node, the handlers of its consensus receiver and the
  thread that runs \<open>startConsensus\<close>. A block under the manager's mutex is one step; what the
  receiver handles between two blocks of \<open>startConsensus\<close> is an argument of it. A handler returns
  the messages it hands to \<open>Messenger::send\<close>, with their destinations, in order. The counters are
  unbounded here (an \<open>int\<close> in the code).
\<close>

section \<open>State\<close>

record consensus_context =
  c_roundId :: int
  c_maxAcceptedId :: int
  c_valueAccepted :: bool
  c_acceptedId :: int
  c_acceptedValue :: string
  c_promiseCount :: int
  c_acceptCount :: int

definition consensus_context_init :: consensus_context where
  "consensus_context_init =
     \<lparr>c_roundId = -1, c_maxAcceptedId = -1, c_valueAccepted = False, c_acceptedId = -1,
      c_acceptedValue = [], c_promiseCount = 0, c_acceptCount = 0\<rparr>"

text \<open>The log manager is shared with the failure manager; its files are part of the state.\<close>

record consensus_state =
  cs_context :: consensus_context
  cs_maxRoundId :: int
  cs_files :: files

definition consensus_init :: "files \<Rightarrow> consensus_state" where
  "consensus_init fs = \<lparr>cs_context = consensus_context_init, cs_maxRoundId = -1, cs_files = fs\<rparr>"

definition json_text :: "(string \<times> json) list \<Rightarrow> string res" where
  "json_text kvs = json_dump (json_object kvs)"

section \<open>The proposing thread\<close>

definition majority_reached :: "messenger \<Rightarrow> int \<Rightarrow> bool" where
  "majority_reached m count \<longleftrightarrow> (m_clusterSize m - 1) div 2 \<le> count"

definition receiveAccepts :: "messenger \<Rightarrow> consensus_context \<Rightarrow> bool" where
  "receiveAccepts m ctx = majority_reached m (c_acceptCount ctx)"

definition receivePromises :: "messenger \<Rightarrow> consensus_context \<Rightarrow> bool" where
  "receivePromises m ctx = majority_reached m (c_promiseCount ctx)"

definition broadcastPrepare :: "messenger \<Rightarrow> int \<Rightarrow> consensus_context \<Rightarrow> consensus_context \<times> sends" where
  "broadcastPrepare m wtime ctx =
     (let prepare = setMessage wtime (Consensus_Code PREPARE) in
      (ctx\<lparr>c_roundId := m_id prepare\<rparr>, broadcast_sends m prepare))"

definition broadcastPropose :: "messenger \<Rightarrow> int \<Rightarrow> string \<Rightarrow> consensus_context \<Rightarrow> sends res" where
  "broadcastPropose m wtime value ctx =
     (let proposeValue = (if c_maxAcceptedId ctx = -1 then value else c_acceptedValue ctx) in
      res_bind (json_text [(''roundId'', JInt (c_roundId ctx)), (''value'', JString proposeValue)])
        (\<lambda>proposeData.
          Inr (broadcast_sends m (setMessage_data wtime (Consensus_Code PROPOSE) proposeData))))"

definition broadcastAccepted :: "messenger \<Rightarrow> int \<Rightarrow> string \<Rightarrow> consensus_context \<Rightarrow> sends res" where
  "broadcastAccepted m wtime value ctx =
     res_bind (json_text [(''roundId'', JInt (c_roundId ctx)), (''value'', JString value)])
       (\<lambda>acceptedData.
         Inr (broadcast_sends m (setMessage_data wtime (Consensus_Code ACCEPTED) acceptedData)))"

section \<open>Handlers\<close>

definition handlePrepareMessage ::
  "messenger \<Rightarrow> int \<Rightarrow> int \<Rightarrow> int \<Rightarrow> consensus_state \<Rightarrow> consensus_state handled" where
  "handlePrepareMessage m wtime srcNodeId i st =
     (if i > cs_maxRoundId st then
        (let ctx = cs_context st; st' = st\<lparr>cs_maxRoundId := i\<rparr> in
         if c_valueAccepted ctx then
           res_bind (json_text [(''roundId'', JInt i), (''acceptedId'', JInt (c_acceptedId ctx)),
               (''acceptedValue'', JString (c_acceptedValue ctx))])
             (\<lambda>promiseData.
               Inr (st', [(srcNodeId, setMessage_data wtime (Consensus_Code PROMISE) promiseData)]))
         else
           res_bind (json_text [(''roundId'', JInt i)]) (\<lambda>promiseData.
             Inr (st', [(srcNodeId, setMessage_data wtime (Consensus_Code PROMISE) promiseData)])))
      else Inr (st, []))"

definition handleProposeMessage ::
  "messenger \<Rightarrow> int \<Rightarrow> int \<Rightarrow> message \<Rightarrow> int \<Rightarrow> consensus_state \<Rightarrow> consensus_state handled" where
  "handleProposeMessage m wtime srcNodeId msg i st =
     res_bind (message_getData msg) (\<lambda>messageData.
     res_bind (json_parse messageData) (\<lambda>j.
     res_bind (json_at ''roundId'' j) (\<lambda>jr.
     res_bind (json_get_int jr) (\<lambda>roundId.
       if roundId = cs_maxRoundId st then
         res_bind (json_at ''value'' j) (\<lambda>jv.
         res_bind (json_get_string jv) (\<lambda>value.
         res_bind (json_text [(''roundId'', JInt i)]) (\<lambda>acceptData.
           Inr (st\<lparr>cs_context := (cs_context st)\<lparr>c_valueAccepted := True, c_acceptedId := roundId,
                    c_acceptedValue := value\<rparr>\<rparr>,
                [(srcNodeId, setMessage_data wtime (Consensus_Code ACCEPT) acceptData)]))))
       else Inr (st, [])))))"

definition handleAcceptedMessage ::
  "log_file_manager \<Rightarrow> message \<Rightarrow> consensus_state \<Rightarrow> consensus_state handled" where
  "handleAcceptedMessage l msg st =
     res_bind (message_getData msg) (\<lambda>messageData.
     res_bind (json_parse messageData) (\<lambda>j.
     res_bind (json_at ''value'' j) (\<lambda>jv.
     res_bind (json_get_string jv) (\<lambda>value.
       Inr (st\<lparr>cs_files := log_append l value (cs_files st), cs_context := consensus_context_init\<rparr>, [])))))"

definition handlePromiseMessage :: "message \<Rightarrow> consensus_state \<Rightarrow> consensus_state handled" where
  "handlePromiseMessage promise st =
     res_bind (message_getData promise) (\<lambda>messageData.
     res_bind (json_parse messageData) (\<lambda>j.
     res_bind (json_at ''roundId'' j) (\<lambda>jr.
     res_bind (json_get_int jr) (\<lambda>i.
       let ctx = cs_context st in
       if i = c_roundId ctx then
         res_bind (json_value_int ''acceptedId'' (-1) j) (\<lambda>acceptedId.
         res_bind
           (if acceptedId > c_maxAcceptedId ctx then
              res_bind (json_value_string ''acceptedValue'' [] j) (\<lambda>v.
                Inr (ctx\<lparr>c_acceptedValue := v, c_maxAcceptedId := acceptedId\<rparr>))
            else Inr ctx)
           (\<lambda>ctx'. Inr (st\<lparr>cs_context := ctx'\<lparr>c_promiseCount := c_promiseCount ctx' + 1\<rparr>\<rparr>, [])))
       else Inr (st, [])))))"

definition handleAcceptMessage :: "consensus_state \<Rightarrow> consensus_state" where
  "handleAcceptMessage st =
     (let ctx = cs_context st in
      st\<lparr>cs_context := ctx\<lparr>c_acceptCount := c_acceptCount ctx + 1\<rparr>\<rparr>)"

definition consensus_handleMessage ::
  "messenger \<Rightarrow> log_file_manager \<Rightarrow> int \<Rightarrow> int \<Rightarrow> message \<Rightarrow> consensus_state \<Rightarrow>
   consensus_state handled" where
  "consensus_handleMessage m l wtime srcNodeId msg st =
     (let i = m_id msg in
      case consensus_code_of_int (m_code msg) of
        Some PREPARE \<Rightarrow> handlePrepareMessage m wtime srcNodeId i st
      | Some PROMISE \<Rightarrow> handlePromiseMessage msg st
      | Some PROPOSE \<Rightarrow> handleProposeMessage m wtime srcNodeId msg i st
      | Some ACCEPT \<Rightarrow> Inr (handleAcceptMessage st, [])
      | Some ACCEPTED \<Rightarrow> handleAcceptedMessage l msg st
      | _ \<Rightarrow> Inr (st, []))"

definition consensus_stopReceiver :: "messenger \<Rightarrow> int \<Rightarrow> sends" where
  "consensus_stopReceiver m wtime = [(m_rank m, setMessage wtime (Consensus_Code Consensus_SHUTDOWN))]"

section \<open>startConsensus\<close>

text \<open>
  What the consensus receiver of the same node handles meanwhile: clock, source and message of each.
\<close>

type_synonym handled_messages = "(int \<times> int \<times> message) list"

fun consensus_handle_all ::
  "messenger \<Rightarrow> log_file_manager \<Rightarrow> handled_messages \<Rightarrow> consensus_state \<Rightarrow>
   consensus_state handled" where
  "consensus_handle_all m l [] st = Inr (st, [])"
| "consensus_handle_all m l ((wtime, src, msg) # ms) st =
     res_bind (consensus_handleMessage m l wtime src msg st) (\<lambda>(st', out).
     res_bind (consensus_handle_all m l ms st') (\<lambda>(st'', out'). Inr (st'', out @ out')))"

text \<open>
  The messages handled in the six gaps between the blocks of \<open>startConsensus\<close> that hold the mutex
  or write the log: while waiting for promises, before the proposal is read, while waiting for
  accepts, before the append, before the round id is read, and before the reset.
\<close>

record schedule =
  sch_promises :: handled_messages
  sch_propose :: handled_messages
  sch_accepts :: handled_messages
  sch_append :: handled_messages
  sch_accepted :: handled_messages
  sch_reset :: handled_messages

definition startConsensus_accept ::
  "messenger \<Rightarrow> log_file_manager \<Rightarrow> int \<Rightarrow> schedule \<Rightarrow> string \<Rightarrow> consensus_state \<Rightarrow>
   (consensus_state \<times> sends \<times> bool) res" where
  "startConsensus_accept m l wtime sch value st =
     (if receiveAccepts m (cs_context st) then
        res_bind (consensus_handle_all m l (sch_append sch) st) (\<lambda>(st1, out1).
        res_bind (consensus_handle_all m l (sch_accepted sch)
            (st1\<lparr>cs_files := log_append l value (cs_files st1)\<rparr>)) (\<lambda>(st2, out2).
        res_bind (broadcastAccepted m wtime value (cs_context st2)) (\<lambda>out3.
          Inr (st2, out1 @ out2 @ out3, True))))
      else Inr (st, [], False))"

definition startConsensus_promised ::
  "messenger \<Rightarrow> log_file_manager \<Rightarrow> int \<Rightarrow> int \<Rightarrow> schedule \<Rightarrow> string \<Rightarrow> consensus_state \<Rightarrow>
   (consensus_state \<times> sends \<times> bool) res" where
  "startConsensus_promised m l wtime wtime' sch value st =
     (if receivePromises m (cs_context st) then
        res_bind (consensus_handle_all m l (sch_propose sch) st) (\<lambda>(st1, out1).
        res_bind (broadcastPropose m wtime value (cs_context st1)) (\<lambda>out2.
        res_bind (consensus_handle_all m l (sch_accepts sch) st1) (\<lambda>(st2, out3).
        res_bind (startConsensus_accept m l wtime' sch value st2) (\<lambda>(st3, out4, reached).
          Inr (st3, out1 @ out2 @ out3 @ out4, reached)))))
      else Inr (st, [], False))"

text \<open>The clocks are those of the PREPARE, PROPOSE and ACCEPTED messages.\<close>

definition startConsensus ::
  "messenger \<Rightarrow> log_file_manager \<Rightarrow> int \<Rightarrow> int \<Rightarrow> int \<Rightarrow> schedule \<Rightarrow> string \<Rightarrow> consensus_state \<Rightarrow>
   (consensus_state \<times> sends \<times> bool) res" where
  "startConsensus m l w1 w2 w3 sch value st =
     (case broadcastPrepare m w1 (cs_context st) of (ctx, out) \<Rightarrow>
        res_bind (consensus_handle_all m l (sch_promises sch) (st\<lparr>cs_context := ctx\<rparr>)) (\<lambda>(st1, out1).
        res_bind (startConsensus_promised m l w2 w3 sch value st1) (\<lambda>(st2, out2, reached).
        res_bind (consensus_handle_all m l (sch_reset sch) st2) (\<lambda>(st3, out3).
          Inr (st3\<lparr>cs_context := consensus_context_init\<rparr>, out @ out1 @ out2 @ out3, reached)))))"

end
