(* ===== verification/Json_Utf8.thy ===== *)
theory Json_Utf8
  imports Json_Roundtrip
begin

text \<open>
  The text the serializer writes is well-formed UTF-8 itself. The program puts the text of one JSON
  object as a string into another one, so this is what makes the outer \<open>dump\<close> succeed.
\<close>

section \<open>The state of the automaton after a string\<close>

fun utf8_end :: "nat \<Rightarrow> string \<Rightarrow> nat" where
  "utf8_end st [] = st"
| "utf8_end st (c # s) = utf8_end (fst (utf8_decode st 0 (byte c))) s"

lemma utf8_end_append: "utf8_end st (s @ t) = utf8_end (utf8_end st s) t"
  by (induction st s rule: utf8_end.induct) simp_all

lemma fst_utf8_decode: "fst (utf8_decode st cp b) = fst (utf8_decode st 0 b)"
  by (simp add: utf8_decode_def Let_def)

lemma utf8_end_rejected: "utf8_end (Suc 0) s = Suc 0"
proof (induction s)
  case (Cons c s)
  have "byte c < 256" by simp
  then have "fst (utf8_decode (Suc 0) 0 (byte c)) = Suc 0"
    by (cases rule: utf8_class_cases) (simp_all add: utf8_decode_def utf8_rows_def)
  with Cons show ?case by simp
qed simp

lemma is_ok_dump_escaped_from: "is_ok (dump_escaped_from st cp s) \<longleftrightarrow> utf8_end st s = 0"
proof (induction s arbitrary: st cp)
  case (Cons c s)
  obtain st' cp' where d: "utf8_decode st cp (byte c) = (st', cp')" by (cases "utf8_decode st cp (byte c)")
  then have "st' = fst (utf8_decode st 0 (byte c))" using fst_utf8_decode [of st cp "byte c"] by simp
  with d Cons [of st' cp'] Cons [of 0 cp'] show ?case
    by (auto simp: is_ok_iff utf8_end_rejected)
qed simp

lemma valid_utf8_iff: "valid_utf8 s \<longleftrightarrow> utf8_end 0 s = 0"
  by (simp add: valid_utf8_def dump_escaped_def is_ok_dump_escaped_from)

lemma valid_utf8_append: "valid_utf8 s \<Longrightarrow> valid_utf8 t \<Longrightarrow> valid_utf8 (s @ t)"
  by (simp add: valid_utf8_iff utf8_end_append)

lemma utf8_end_ascii: "byte c < 128 \<Longrightarrow> fst (utf8_decode 0 cp (byte c)) = 0"
  by (simp add: utf8_next_0)

lemma valid_utf8_ascii: "list_all (\<lambda>c. byte c < 128) s \<Longrightarrow> valid_utf8 s"
  unfolding valid_utf8_iff by (induction s) (simp_all add: utf8_end_ascii)

lemma valid_utf8_Cons: "byte c < 128 \<Longrightarrow> valid_utf8 (c # s) \<longleftrightarrow> valid_utf8 s"
  by (simp add: valid_utf8_iff utf8_end_ascii)

lemma valid_utf8_Nil [simp]: "valid_utf8 []"
  by (simp add: valid_utf8_iff)

section \<open>Escaped strings\<close>

lemma escape_codepoint_ascii:
  assumes "cp < 128" and "byte c = cp"
  shows "list_all (\<lambda>c. byte c < 128) (escape_codepoint cp c)"
proof -
  have "byte (hex_digit n) < 128" if "n < 16" for n
    using that by (simp add: hex_digit_def)
  then show ?thesis using assms by (simp add: escape_codepoint_def hex4_def)
qed

lemma dump_escaped_from_end:
  "st = 0 \<or> mid_sequence st cp rs \<Longrightarrow> dump_escaped_from st cp s = Inr t \<Longrightarrow> utf8_end st t = 0"
proof (induction s arbitrary: st cp rs t)
  case Nil
  then show ?case by (simp split: if_splits)
next
  case (Cons c s)
  obtain st' cp' where d: "utf8_decode st cp (byte c) = (st', cp')" by (cases "utf8_decode st cp (byte c)")
  then have st': "st' = fst (utf8_decode st 0 (byte c))" using fst_utf8_decode [of st cp "byte c"] by simp
  from Cons.prems(2) d have "st' \<noteq> 1" by auto
  have mid_case: "utf8_end st t = 0" if mid: "mid_sequence st' cp' rs'" for rs'
  proof -
    have "st' \<noteq> 0" using mid by (auto simp: mid_sequence_def)
    with Cons.prems(2) d \<open>st' \<noteq> 1\<close> obtain u where "dump_escaped_from st' cp' s = Inr u" "t = c # u"
      by auto
    with Cons.IH [of st' cp' rs' u] mid st' show ?thesis by simp
  qed
  have done_case: "utf8_end st t = 0"
    if "st' = 0" "utf8_end st (escape_codepoint cp' c) = 0"
  proof -
    from that(1) Cons.prems(2) d obtain u where "dump_escaped_from 0 cp' s = Inr u"
      "t = escape_codepoint cp' c @ u" by auto
    with Cons.IH [of 0 cp' rs u] that(2) show ?thesis by (simp add: utf8_end_append)
  qed
  from Cons.prems(1) show ?case
  proof
    assume st: "st = 0"
    show ?thesis
    proof (cases "byte c < 128")
      case True
      with d st have "st' = 0" "cp' = byte c"
        by (auto simp: utf8_decode_def utf8_class_values utf8_rows_def)
      with done_case valid_utf8_ascii [OF escape_codepoint_ascii [OF True refl]] st show ?thesis
        by (simp add: valid_utf8_iff)
    next
      case False
      with lead_byte_mid_sequence [of "byte c" cp] d st \<open>st' \<noteq> 1\<close> mid_case show ?thesis by auto
    qed
  next
    assume "mid_sequence st cp rs"
    from mid_sequence_decode [OF this, of "byte c"] d \<open>st' \<noteq> 1\<close> obtain rs'
      where "st' = 0 \<and> 128 \<le> cp' \<or> mid_sequence st' cp' rs'" by auto
    then show ?thesis
      using mid_case done_case st' by (auto simp: escape_codepoint_def)
  qed
qed

lemma dump_string_valid_utf8: "dump_string s = Inr t \<Longrightarrow> valid_utf8 t"
  using dump_escaped_from_end [of 0 0 "[]" s]
  by (auto simp: dump_string_def dump_escaped_def valid_utf8_Cons intro!: valid_utf8_append)
    (simp add: valid_utf8_iff)

section \<open>Values\<close>

lemma dump_abs_ascii: "list_all (\<lambda>c. byte c < 128) (dump_abs n)"
  using dump_abs_digits [of n] by (auto simp: list_all_iff is_digit_def)

lemma dump_integer_ascii: "list_all (\<lambda>c. byte c < 128) (dump_integer n)"
  by (simp add: dump_integer_def dump_abs_ascii)

lemma comma_join_valid_utf8:
  "comma_join rs = Inr t \<Longrightarrow> (\<And>r u. r \<in> set rs \<Longrightarrow> r = Inr u \<Longrightarrow> valid_utf8 u) \<Longrightarrow> valid_utf8 t"
proof (induction rs arbitrary: t rule: comma_join.induct)
  case (3 r r' rs)
  then obtain u v where "r = Inr u" "comma_join (r' # rs) = Inr v" "t = u @ CHR '','' # v" by auto
  with 3 show ?case by (auto intro!: valid_utf8_append simp: valid_utf8_Cons)
qed auto

lemma json_dump_valid_utf8: "json_dump j = Inr t \<Longrightarrow> valid_utf8 t"
proof (induction j arbitrary: t)
  case (JArray xs)
  then show ?case
    by (auto dest!: comma_join_valid_utf8 intro!: valid_utf8_append simp: valid_utf8_Cons split: if_splits)
next
  case (JObject xs)
  have "valid_utf8 u" if "(k, v) \<in> set xs" "dump_member k (json_dump v) = Inr u" for k v u
    using that JObject.IH [of "(k, v)"]
    by (auto simp: dump_member_def valid_utf8_Cons dest!: dump_string_valid_utf8 intro!: valid_utf8_append)
  then show ?case
    using JObject.prems
    by (auto dest!: comma_join_valid_utf8 intro!: valid_utf8_append simp: valid_utf8_Cons split: if_splits)
qed (auto simp: dump_integer_ascii valid_utf8_ascii dump_string_valid_utf8)

section \<open>The automaton accepts UTF-8\<close>

text \<open>
  The other half of the library has UTF-8 too: the lexer encodes the code point of a \<open>\u\<close> escape. A
  Unicode scalar value is a code point that is no surrogate.
\<close>

definition unicode_scalar :: "nat \<Rightarrow> bool" where
  "unicode_scalar cp \<longleftrightarrow> cp < 55296 \<or> 57344 \<le> cp \<and> cp < 1114112"

text \<open>One byte inside a sequence.\<close>

lemma utf8_end_cont:
  assumes "utf8_end st s = 0" and "st \<in> {2, 3, 4, 5, 6, 7, 8}"
  shows "\<exists>d s'. s = d # s' \<and>
    (st = 2 \<and> 128 \<le> byte d \<and> byte d < 192 \<and> utf8_end 0 s' = 0 \<or>
     st = 3 \<and> 128 \<le> byte d \<and> byte d < 192 \<and> utf8_end 2 s' = 0 \<or>
     st = 4 \<and> 160 \<le> byte d \<and> byte d < 192 \<and> utf8_end 2 s' = 0 \<or>
     st = 5 \<and> 128 \<le> byte d \<and> byte d < 160 \<and> utf8_end 2 s' = 0 \<or>
     st = 6 \<and> 144 \<le> byte d \<and> byte d < 192 \<and> utf8_end 3 s' = 0 \<or>
     st = 7 \<and> 128 \<le> byte d \<and> byte d < 192 \<and> utf8_end 3 s' = 0 \<or>
     st = 8 \<and> 128 \<le> byte d \<and> byte d < 144 \<and> utf8_end 3 s' = 0)"
proof (cases s)
  case (Cons d s')
  have "byte d < 256" by simp
  note nxt = utf8_next_cont [OF this, of 0]
  from assms(2) consider "st = 2" | "st = 3" | "st = 4" | "st = 5" | "st = 6" | "st = 7" | "st = 8" by blast
  then show ?thesis
    using assms(1) Cons nxt by cases (auto simp: utf8_end_rejected split: if_splits)
qed (use assms in auto)

lemma utf8_end_cont2:
  assumes "utf8_end 2 s = 0"
  obtains d s' where "s = d # s'" "128 \<le> byte d" "byte d < 192" "utf8_end 0 s' = 0"
  using utf8_end_cont [OF assms] by auto

lemma utf8_end_cont3:
  assumes "utf8_end 3 s = 0"
  obtains d e s' where "s = d # e # s'" "128 \<le> byte d" "byte d < 192" "128 \<le> byte e" "byte e < 192"
    "utf8_end 0 s' = 0"
  using utf8_end_cont [OF assms] by (auto elim!: utf8_end_cont2)

lemma utf8_end_next:
  "byte c = b \<Longrightarrow> 194 \<le> b \<Longrightarrow> b < 224 \<Longrightarrow> utf8_end 0 (c # s) = utf8_end 2 s"
  "byte c = b \<Longrightarrow> 224 \<le> b \<Longrightarrow> b < 240 \<Longrightarrow>
     utf8_end 0 (c # s) = utf8_end (if b = 224 then 4 else if b = 237 then 5 else 3) s"
  "byte c = b \<Longrightarrow> 240 \<le> b \<Longrightarrow> b < 245 \<Longrightarrow>
     utf8_end 0 (c # s) = utf8_end (if b = 240 then 6 else if b = 244 then 8 else 7) s"
  "byte c = b \<Longrightarrow> 128 \<le> b \<Longrightarrow> b < 192 \<Longrightarrow> utf8_end 2 (c # s) = utf8_end 0 s"
  "byte c = b \<Longrightarrow> 128 \<le> b \<Longrightarrow> b < 192 \<Longrightarrow> utf8_end 3 (c # s) = utf8_end 2 s"
  "byte c = b \<Longrightarrow> 160 \<le> b \<Longrightarrow> b < 192 \<Longrightarrow> utf8_end 4 (c # s) = utf8_end 2 s"
  "byte c = b \<Longrightarrow> 128 \<le> b \<Longrightarrow> b < 160 \<Longrightarrow> utf8_end 5 (c # s) = utf8_end 2 s"
  "byte c = b \<Longrightarrow> 144 \<le> b \<Longrightarrow> b < 192 \<Longrightarrow> utf8_end 6 (c # s) = utf8_end 3 s"
  "byte c = b \<Longrightarrow> 128 \<le> b \<Longrightarrow> b < 192 \<Longrightarrow> utf8_end 7 (c # s) = utf8_end 3 s"
  "byte c = b \<Longrightarrow> 128 \<le> b \<Longrightarrow> b < 144 \<Longrightarrow> utf8_end 8 (c # s) = utf8_end 3 s"
  using utf8_next_0 [of b 0] utf8_next_cont [of b 0] by auto

lemma utf8_lead_3:
  assumes "utf8_end 0 (c # s) = 0" "224 \<le> byte c" "byte c < 240"
  obtains d e s' where "s = d # e # s'" "128 \<le> byte d" "byte d < 192" "128 \<le> byte e" "byte e < 192"
    "byte c = 224 \<longrightarrow> 160 \<le> byte d" "byte c = 237 \<longrightarrow> byte d < 160" "utf8_end 0 s' = 0"
proof -
  from assms(1) utf8_end_next(2) [OF refl assms(2,3)]
  have "utf8_end (if byte c = 224 then 4 else if byte c = 237 then 5 else 3) s = 0" by simp
  then have "\<exists>d s1. s = d # s1 \<and> 128 \<le> byte d \<and> byte d < 192 \<and> (byte c = 224 \<longrightarrow> 160 \<le> byte d) \<and>
      (byte c = 237 \<longrightarrow> byte d < 160) \<and> utf8_end 2 s1 = 0"
    using utf8_end_cont [of 3 s] utf8_end_cont [of 4 s] utf8_end_cont [of 5 s]
    by (cases "byte c = 224"; cases "byte c = 237") auto
  then show thesis using that by (metis utf8_end_cont2)
qed

lemma utf8_lead_4:
  assumes "utf8_end 0 (c # s) = 0" "240 \<le> byte c" "byte c < 245"
  obtains d e f s' where "s = d # e # f # s'" "128 \<le> byte d" "byte d < 192" "128 \<le> byte e" "byte e < 192"
    "128 \<le> byte f" "byte f < 192" "byte c = 240 \<longrightarrow> 144 \<le> byte d" "byte c = 244 \<longrightarrow> byte d < 144"
    "utf8_end 0 s' = 0"
proof -
  from assms(1) utf8_end_next(3) [OF refl assms(2,3)]
  have "utf8_end (if byte c = 240 then 6 else if byte c = 244 then 8 else 7) s = 0" by simp
  then have "\<exists>d s1. s = d # s1 \<and> 128 \<le> byte d \<and> byte d < 192 \<and> (byte c = 240 \<longrightarrow> 144 \<le> byte d) \<and>
      (byte c = 244 \<longrightarrow> byte d < 144) \<and> utf8_end 3 s1 = 0"
    using utf8_end_cont [of 6 s] utf8_end_cont [of 7 s] utf8_end_cont [of 8 s]
    by (cases "byte c = 240"; cases "byte c = 244") auto
  then show thesis using that by (metis utf8_end_cont3)
qed

text \<open>The code point of a sequence of two, three or four bytes.\<close>

lemma div_mod_add: "r < k \<Longrightarrow> (a * k + r) div k = (a :: nat)" "r < k \<Longrightarrow> (a * k + r) mod k = r"
  by simp_all

lemma utf8_encode_2:
  assumes "194 \<le> byte c" "byte c < 224" "128 \<le> byte d" "byte d < 192"
  shows "\<exists>cp. unicode_scalar cp \<and> utf8_encode cp = [c, d]"
proof -
  define cp where "cp = (byte c - 192) * 64 + (byte d - 128)"
  have "byte d - 128 < 64" using assms by linarith
  then have "cp div 64 = byte c - 192" "cp mod 64 = byte d - 128"
    unfolding cp_def by (rule div_mod_add)+
  moreover have "128 \<le> cp" "cp < 2048" using assms unfolding cp_def by linarith+
  ultimately have "unicode_scalar cp" "utf8_encode cp = [c, d]"
    using assms by (simp_all add: unicode_scalar_def utf8_encode_def)
  then show ?thesis by blast
qed

lemma byte_char_of: "byte c = n \<Longrightarrow> c = char_of n"
  by auto

lemma utf8_encode_3:
  assumes "224 \<le> byte c" "byte c < 240" "128 \<le> byte d" "byte d < 192" "128 \<le> byte e" "byte e < 192"
    and "byte c = 224 \<longrightarrow> 160 \<le> byte d" "byte c = 237 \<longrightarrow> byte d < 160"
  shows "\<exists>cp. unicode_scalar cp \<and> utf8_encode cp = [c, d, e]"
proof -
  obtain a x y where b: "byte c = 224 + a" "byte d = 128 + x" "byte e = 128 + y"
    using assms(1,3,5) by (auto simp: le_iff_add)
  have bounds: "a < 16" "x < 64" "y < 64" using assms(2,4,6) b by linarith+
  define cp where "cp = (a * 64 + x) * 64 + y"
  have parts: "cp div 64 = a * 64 + x" "cp mod 64 = y"
    unfolding cp_def by (rule div_mod_add [OF bounds(3)])+
  then have "cp div 4096 = a" "cp div 64 mod 64 = x"
    using div_mult2_eq [of cp 64 64] div_mod_add [OF bounds(2), of a] by simp_all
  moreover have "2048 \<le> cp \<and> cp < 65536 \<and> (cp < 55296 \<or> 57344 \<le> cp)"
  proof -
    have "a = 0 \<and> 32 \<le> x \<or> 1 \<le> a \<and> a < 13 \<or> a = 13 \<and> x < 32 \<or> 14 \<le> a"
      using assms(7,8) b by (cases "a = 0"; cases "a = 13") auto
    then show ?thesis using bounds by (elim disjE) (auto simp: cp_def)
  qed
  ultimately have "unicode_scalar cp" "utf8_encode cp = [char_of (224 + a), char_of (128 + x), char_of (128 + y)]"
    using parts(2) by (simp_all add: unicode_scalar_def utf8_encode_def)
  then show ?thesis using b [THEN byte_char_of] by metis
qed

lemma utf8_encode_4:
  assumes "240 \<le> byte c" "byte c < 245" "128 \<le> byte d" "byte d < 192" "128 \<le> byte e" "byte e < 192"
    "128 \<le> byte f" "byte f < 192" and "byte c = 240 \<longrightarrow> 144 \<le> byte d" "byte c = 244 \<longrightarrow> byte d < 144"
  shows "\<exists>cp. unicode_scalar cp \<and> utf8_encode cp = [c, d, e, f]"
proof -
  obtain a w x y where b: "byte c = 240 + a" "byte d = 128 + w" "byte e = 128 + x" "byte f = 128 + y"
    using assms(1,3,5,7) by (auto simp: le_iff_add)
  have bounds: "a < 5" "w < 64" "x < 64" "y < 64" using assms(2,4,6,8) b by linarith+
  define cp where "cp = ((a * 64 + w) * 64 + x) * 64 + y"
  have parts: "cp div 64 = (a * 64 + w) * 64 + x" "cp mod 64 = y"
    unfolding cp_def by (rule div_mod_add [OF bounds(4)])+
  then have q: "cp div 4096 = a * 64 + w" "cp div 64 mod 64 = x"
    using div_mult2_eq [of cp 64 64] div_mod_add [OF bounds(3), of "a * 64 + w"] by simp_all
  then have "cp div 262144 = a" "cp div 4096 mod 64 = w"
    using div_mult2_eq [of cp 4096 64] div_mod_add [OF bounds(2), of a] by simp_all
  moreover have "65536 \<le> cp \<and> cp < 1114112"
  proof -
    have "a = 0 \<and> 16 \<le> w \<or> 1 \<le> a \<and> a < 4 \<or> a = 4 \<and> w < 16"
      using assms(9,10) b bounds(1) by (cases "a = 0"; cases "a = 4") auto
    then show ?thesis using bounds by (elim disjE) (auto simp: cp_def)
  qed
  ultimately have "unicode_scalar cp"
    "utf8_encode cp = [char_of (240 + a), char_of (128 + w), char_of (128 + x), char_of (128 + y)]"
    using parts(2) q(2) by (simp_all add: unicode_scalar_def utf8_encode_def)
  then show ?thesis using b [THEN byte_char_of] by metis
qed

lemma utf8_split:
  assumes "utf8_end 0 (c # s) = 0"
  shows "\<exists>cp s'. unicode_scalar cp \<and> c # s = utf8_encode cp @ s' \<and> utf8_end 0 s' = 0"
proof -
  have "byte c < 256" by simp
  note nxt = utf8_next_0 [OF this, of 0]
  have rest: "utf8_end (fst (utf8_decode 0 0 (byte c))) s = 0" using assms by simp
  consider "byte c < 128" | "194 \<le> byte c" "byte c < 224" | "224 \<le> byte c" "byte c < 240"
    | "240 \<le> byte c" "byte c < 245"
    using rest nxt by (fastforce simp: utf8_end_rejected split: if_splits)
  then show ?thesis
  proof cases
    case 1
    with rest nxt show ?thesis
      by (intro exI [of _ "byte c"] exI [of _ s]) (simp add: unicode_scalar_def utf8_encode_def)
  next
    case 2
    with rest nxt obtain d s' where "s = d # s'" "128 \<le> byte d" "byte d < 192" "utf8_end 0 s' = 0"
      by (auto elim: utf8_end_cont2)
    with utf8_encode_2 [OF 2, of d] show ?thesis by force
  next
    case 3
    with assms obtain d e s' where s: "s = d # e # s'" "128 \<le> byte d" "byte d < 192" "128 \<le> byte e"
      "byte e < 192" "byte c = 224 \<longrightarrow> 160 \<le> byte d" "byte c = 237 \<longrightarrow> byte d < 160" "utf8_end 0 s' = 0"
      by (rule utf8_lead_3)
    with utf8_encode_3 [OF 3 s(2-7)] show ?thesis by force
  next
    case 4
    with assms obtain d e f s' where s: "s = d # e # f # s'" "128 \<le> byte d" "byte d < 192" "128 \<le> byte e"
      "byte e < 192" "128 \<le> byte f" "byte f < 192" "byte c = 240 \<longrightarrow> 144 \<le> byte d" "byte c = 244 \<longrightarrow> byte d < 144"
      "utf8_end 0 s' = 0"
      by (rule utf8_lead_4)
    with utf8_encode_4 [OF 4 s(2-9)] show ?thesis by force
  qed
qed

lemma utf8_end_encode:
  assumes "unicode_scalar cp"
  shows "utf8_end 0 (utf8_encode cp) = 0"
proof -
  obtain q r where q: "cp = q * 64 + r" "r < 64" "cp div 64 = q" "cp mod 64 = r"
    by (metis div_mult_mod_eq mod_less_divisor zero_less_numeral)
  obtain p r1 where p: "q = p * 64 + r1" "r1 < 64" "q div 64 = p" "q mod 64 = r1"
    by (metis div_mult_mod_eq mod_less_divisor zero_less_numeral)
  obtain o' r2 where o': "p = o' * 64 + r2" "r2 < 64" "p div 64 = o'" "p mod 64 = r2"
    by (metis div_mult_mod_eq mod_less_divisor zero_less_numeral)
  have divs: "cp div 4096 = p" "cp div 262144 = o'"
    using div_mult2_eq [of cp 64 64] div_mult2_eq [of cp 4096 64] q(3) p(3) o'(3) by simp_all
  have bytes: "byte (char_of n :: char) = n" if "n < 256" for n :: nat using that by simp
  consider "cp < 128" | "128 \<le> cp" "cp < 2048" | "2048 \<le> cp" "cp < 65536" | "65536 \<le> cp" "cp < 1114112"
  proof -
    have "cp < 1114112" using assms by (auto simp: unicode_scalar_def)
    then have "cp < 128 \<or> 128 \<le> cp \<and> cp < 2048 \<or> 2048 \<le> cp \<and> cp < 65536 \<or> 65536 \<le> cp \<and> cp < 1114112"
      by linarith
    then show thesis using that by blast
  qed
  then show ?thesis
  proof cases
    case 1
    with utf8_next_0 [of cp 0] show ?thesis by (simp add: utf8_encode_def)
  next
    case 2
    then have "2 \<le> q" "q < 32" using q(1,2) by linarith+
    with 2 q show ?thesis
      by (simp add: utf8_encode_def utf8_end_next(1) [OF bytes] utf8_end_next(4) [OF bytes] del: utf8_end.simps(2))
  next
    case 3
    then have "p < 16" "p = 0 \<longrightarrow> 32 \<le> r1" "p = 13 \<longrightarrow> r1 < 32"
      using q(1,2) p(1,2) assms by (auto simp: unicode_scalar_def)
    moreover have "utf8_encode cp = [char_of (224 + p), char_of (128 + r1), char_of (128 + r)]"
      using 3 q(3,4) p(3,4) divs by (simp add: utf8_encode_def)
    ultimately show ?thesis
      using p(2) q(2) by (simp add: utf8_end_next(2,4-7) [OF bytes] del: utf8_end.simps(2))
  next
    case 4
    then have "o' < 5" "o' = 0 \<longrightarrow> 16 \<le> r2" "o' = 4 \<longrightarrow> r2 < 16"
      using q(1,2) p(1,2) o'(1,2) by auto
    moreover have "utf8_encode cp = [char_of (240 + o'), char_of (128 + r2), char_of (128 + r1), char_of (128 + r)]"
      using 4 q(3,4) p(3,4) o'(3,4) divs by (simp add: utf8_encode_def)
    ultimately show ?thesis
      using p(2) q(2) o'(2) by (simp add: utf8_end_next(3-5,8-10) [OF bytes] del: utf8_end.simps(2))
  qed
qed

lemma utf8_accepted:
  "is_ok (dump_escaped s) \<longleftrightarrow> (\<exists>cps. list_all unicode_scalar cps \<and> s = concat (map utf8_encode cps))"
proof -
  have accepted: "utf8_end 0 (concat (map utf8_encode cps)) = 0" if "list_all unicode_scalar cps" for cps
    using that by (induction cps) (simp_all add: utf8_end_append utf8_end_encode)
  have split: "\<exists>cps. list_all unicode_scalar cps \<and> s = concat (map utf8_encode cps)" if "utf8_end 0 s = 0"
    using that
  proof (induction s rule: length_induct)
    case (1 s)
    show ?case
    proof (cases s)
      case Nil
      then show ?thesis by (intro exI [of _ "[]"]) simp
    next
      case (Cons c s0)
      with 1(2) utf8_split [of c s0] obtain cp s' where cp: "unicode_scalar cp" "s = utf8_encode cp @ s'"
        "utf8_end 0 s' = 0" by auto
      then have "length s' < length s" by (simp add: utf8_encode_def)
      with 1(1) cp(3) obtain cps where "list_all unicode_scalar cps" "s' = concat (map utf8_encode cps)" by blast
      with cp show ?thesis by (intro exI [of _ "cp # cps"]) simp
    qed
  qed
  show ?thesis
    unfolding is_ok_dump_escaped_from dump_escaped_def using accepted split by (auto simp del: utf8_end.simps)
qed

text \<open>
  C33. The serializer takes a string exactly when it is UTF-8: its table-driven automaton accepts a string if
  and only if the string is a sequence of Unicode scalar values, each encoded as the lexer encodes the
  code point of an escape; overlong forms, surrogates and numbers above 10FFFF are refused.
\<close>

theorem utf8_automaton_correct:
  "is_ok (dump_escaped s) \<longleftrightarrow> (\<exists>cps. list_all unicode_scalar cps \<and> s = concat (map utf8_encode cps))"
  by (rule utf8_accepted)

end
