(* ===== verification/Json_Text.thy ===== *)
theory Json_Text
  imports Consensus_Manager Json_Utf8
begin

text \<open>
  JSON objects as the data of messages: a text written by one handler is read back by another. The
  predicate \<open>carries\<close> says that a message's data is the text of an object, and its rules let the
  handlers be evaluated without looking at the text.
\<close>

lemma set_obj_emplace: "set (obj_emplace k v xs) \<subseteq> insert (k, v) (set xs)"
  by (auto simp: obj_emplace_def dest: set_obj_assign split: option.splits)

lemma set_obj_of_pairs: "set (obj_of_pairs xs acc) \<subseteq> set xs \<union> set acc"
  by (induction xs acc rule: obj_of_pairs.induct) (use set_obj_emplace in fastforce)+

lemma json_object_wf: "list_all (\<lambda>(k, v). json_wf v) kvs \<Longrightarrow> json_wf (json_object kvs)"
  using set_obj_of_pairs [of kvs "[]"]
  by (auto simp: json_object_def obj_of_pairs_wf list_all_iff)

lemma comma_join_ok: "list_all is_ok rs \<Longrightarrow> is_ok (comma_join rs)"
  by (induction rs rule: comma_join.induct) (auto simp: is_ok_iff)

lemma json_text_ok:
  assumes "list_all (\<lambda>(k, v). list_all plain_char k \<and> is_ok (json_dump v)) kvs"
  shows "\<exists>t. json_text kvs = Inr t"
proof -
  have "is_ok (dump_member k (json_dump v))" if "(k, v) \<in> set (obj_of_pairs kvs [])" for k v
  proof -
    have "(k, v) \<in> set kvs" using that set_obj_of_pairs [of kvs "[]"] by auto
    with assms have "list_all plain_char k \<and> is_ok (json_dump v)"
      by (auto simp: list_all_iff)
    then show ?thesis by (auto simp: dump_member_def dump_string_plain is_ok_iff)
  qed
  then have "is_ok (comma_join (map (\<lambda>(k, v). dump_member k (json_dump v)) (obj_of_pairs kvs [])))"
    by (intro comma_join_ok) (auto simp: list_all_iff)
  then show ?thesis
    by (auto simp: json_text_def json_object_def is_ok_iff)
qed

lemma json_text_parse:
  assumes "list_all (\<lambda>(k, v). json_wf v) kvs" and "json_text kvs = Inr t"
  shows "json_parse t = Inr (json_object kvs)"
  using assms json_parse_dump [OF json_object_wf] by (simp add: json_text_def)

definition carries :: "message \<Rightarrow> (string \<times> json) list \<Rightarrow> bool" where
  "carries msg kvs \<longleftrightarrow> (\<exists>t. m_data msg = Some t \<and> json_text kvs = Inr t)"

lemma carriesI: "json_text kvs = Inr t \<Longrightarrow> carries (setMessage_data wtime c t) kvs"
  by (simp add: carries_def)

lemma carries_parse:
  assumes "carries msg kvs" and "list_all (\<lambda>(k, v). json_wf v) kvs"
  obtains t where "message_getData msg = Inr t" and "json_parse t = Inr (json_object kvs)"
  using assms json_text_parse by (auto simp: carries_def message_getData_def)

lemma json_text_wf_error: "list_all (\<lambda>(k, v). json_wf v) kvs \<Longrightarrow> json_text kvs = Inl e \<Longrightarrow>
    e = Json_Invalid_Utf8"
  using json_dump_error [OF json_object_wf] by (simp add: json_text_def)

lemma is_ok_dump_string [simp]: "is_ok (dump_string s) \<longleftrightarrow> valid_utf8 s"
  by (auto simp: valid_utf8_def dump_string_def is_ok_iff)

lemma json_text_round_ok: "\<exists>t. json_text [(''roundId'', JInt r)] = Inr t"
  by (rule json_text_ok) (simp add: plain_char_def)

lemma json_text_round_value_ok:
  "valid_utf8 v \<Longrightarrow> \<exists>t. json_text [(''roundId'', JInt r), (''value'', JString v)] = Inr t"
  by (rule json_text_ok) (simp add: plain_char_def)

text \<open>
  C35. The data of a message that one of the program's \<open>dump\<close> calls made is fit to be the string of
  another object: it is valid UTF-8, so the message that carries it can always be serialised, and
  decoding gives the message back, with the object it was made from.
\<close>

theorem json_data_is_sendable:
  assumes "json_text kvs = Inr t" and "list_all (\<lambda>(k, v). json_wf v) kvs" and "is_int32 (generateUniqueId wtime)"
  shows "valid_utf8 t \<and> (\<exists>s. serializeMessage (setMessage_data wtime c t) = Inr s \<and>
    deserializeMessage s (tag_int (get_tag_from_code c)) m0 = Inr (setMessage_data wtime c t, True)) \<and>
    json_parse t = Inr (json_object kvs)"
proof -
  have utf8: "valid_utf8 t" using assms(1) json_dump_valid_utf8 by (simp add: json_text_def)
  have wf: "message_wf (setMessage_data wtime c t)" by (rule setMessage_data_wf [OF utf8 assms(3)])
  from message_wf_serialize [OF wf] obtain s where s: "serializeMessage (setMessage_data wtime c t) = Inr s"
    by blast
  with deserialize_serialize [OF wf s, of m0] utf8 json_text_parse [OF assms(2,1)] show ?thesis by simp
qed

theorem json_data_is_sendable_witness:
  "\<exists>t. json_text [(''value'', JString ''x=1'')] = Inr t \<and> valid_utf8 t"
proof -
  obtain t where t: "json_text [(''value'', JString ''x=1'')] = Inr t"
    using json_text_ok [of "[(''value'', JString ''x=1'')]"] by (auto simp: plain_char_def valid_utf8_plain)
  from json_data_is_sendable [OF t, of 0 "Client_Code REPLICATE" "default_message 0 0 0"] t show ?thesis
    by (simp add: generateUniqueId_def ns_per_second_def is_int32_def)
qed

end
