(* ===== verification/Consensus_Node.thy ===== *)
theory Consensus_Node
  imports Json_Text
begin

text \<open>
  One node of the consensus protocol: what each handler does to the round state, the invariant of
  that state, promises, the choice of the proposed value, quorums, and the outcome of
  \<open>startConsensus\<close>.
\<close>

section \<open>Handlers on the messages of the protocol\<close>

lemma handlePropose_carries:
  assumes "carries msg [(''roundId'', JInt r), (''value'', JString v)]" and "is_int32 r"
    and "json_text [(''roundId'', JInt i)] = Inr t"
  shows "handleProposeMessage m wtime src msg i st =
    Inr (if r = cs_maxRoundId st
         then (st\<lparr>cs_context := (cs_context st)\<lparr>c_valueAccepted := True, c_acceptedId := r,
                 c_acceptedValue := v\<rparr>\<rparr>, [(src, setMessage_data wtime (Consensus_Code ACCEPT) t)])
         else (st, []))"
proof -
  obtain d where "message_getData msg = Inr d"
    "json_parse d = Inr (json_object [(''roundId'', JInt r), (''value'', JString v)])"
    using carries_parse [OF assms(1)] assms(2) by (auto simp: int_fits_int32)
  with assms show ?thesis by (simp add: handleProposeMessage_def)
qed

lemma handleAccepted_carries:
  assumes "carries msg [(''roundId'', JInt r), (''value'', JString v)]" and "is_int32 r"
  shows "handleAcceptedMessage l msg st =
    Inr (st\<lparr>cs_files := log_append l v (cs_files st), cs_context := consensus_context_init\<rparr>, [])"
proof -
  obtain d where "message_getData msg = Inr d"
    "json_parse d = Inr (json_object [(''roundId'', JInt r), (''value'', JString v)])"
    using carries_parse [OF assms(1)] assms(2) by (auto simp: int_fits_int32)
  with assms show ?thesis by (simp add: handleAcceptedMessage_def)
qed

text \<open>A promise, with the id and value of the proposal its sender accepted, if it did.\<close>

definition promise_fields :: "int \<Rightarrow> (int \<times> string) option \<Rightarrow> (string \<times> json) list" where
  "promise_fields r acc =
     (''roundId'', JInt r) #
       (case acc of None \<Rightarrow> []
        | Some (a, v) \<Rightarrow> [(''acceptedId'', JInt a), (''acceptedValue'', JString v)])"

definition count_promise :: "(int \<times> string) option \<Rightarrow> consensus_context \<Rightarrow> consensus_context" where
  "count_promise acc ctx =
     (let ctx' = (case acc of
                    Some (a, v) \<Rightarrow>
                      if a > c_maxAcceptedId ctx
                      then ctx\<lparr>c_acceptedValue := v, c_maxAcceptedId := a\<rparr> else ctx
                  | None \<Rightarrow> ctx)
      in ctx'\<lparr>c_promiseCount := c_promiseCount ctx' + 1\<rparr>)"

lemma handlePromise_carries:
  assumes "carries msg (promise_fields r acc)" and "is_int32 r"
    and "\<forall>a v. acc = Some (a, v) \<longrightarrow> is_int32 a" and "-1 \<le> c_maxAcceptedId (cs_context st)"
  shows "handlePromiseMessage msg st =
    Inr (if r = c_roundId (cs_context st)
         then st\<lparr>cs_context := count_promise acc (cs_context st)\<rparr> else st, [])"
proof -
  have "list_all (\<lambda>(k, v). json_wf v) (promise_fields r acc)"
    using assms(2,3) by (auto simp: promise_fields_def int_fits_int32 split: option.splits)
  from carries_parse [OF assms(1) this] obtain d where
    d: "message_getData msg = Inr d" "json_parse d = Inr (json_object (promise_fields r acc))"
    by blast
  show ?thesis
  proof (cases acc)
    case None
    with d assms show ?thesis
      by (auto simp: handlePromiseMessage_def promise_fields_def count_promise_def Let_def)
  next
    case (Some av)
    obtain a v where "av = (a, v)" by (cases av)
    with Some d assms show ?thesis
      by (auto simp: handlePromiseMessage_def promise_fields_def count_promise_def Let_def)
  qed
qed

lemma handlePrepare_promise:
  assumes "cs_maxRoundId st < i"
    and "json_text (promise_fields i (if c_valueAccepted (cs_context st)
        then Some (c_acceptedId (cs_context st), c_acceptedValue (cs_context st)) else None)) = Inr t"
  shows "handlePrepareMessage m wtime src i st =
    Inr (st\<lparr>cs_maxRoundId := i\<rparr>, [(src, setMessage_data wtime (Consensus_Code PROMISE) t)])"
  using assms by (simp add: handlePrepareMessage_def promise_fields_def Let_def split: if_splits)

section \<open>The invariant of the round state\<close>

definition consensus_inv :: "consensus_state \<Rightarrow> bool" where
  "consensus_inv st \<longleftrightarrow>
     (let ctx = cs_context st in
      -1 \<le> cs_maxRoundId st \<and> c_acceptedId ctx \<le> cs_maxRoundId st \<and>
      (\<not> c_valueAccepted ctx \<longrightarrow> c_acceptedId ctx = -1) \<and>
      -1 \<le> c_maxAcceptedId ctx \<and> 0 \<le> c_promiseCount ctx \<and> 0 \<le> c_acceptCount ctx)"

lemma consensus_inv_init [simp]: "consensus_inv (consensus_init fs)"
  by (simp add: consensus_inv_def consensus_init_def consensus_context_init_def)

lemma consensus_handleMessage_inv:
  assumes "consensus_handleMessage m l wtime src msg st = Inr (st', out)" and "consensus_inv st"
  shows "consensus_inv st' \<and> cs_maxRoundId st \<le> cs_maxRoundId st'"
  using assms
  by (auto simp: consensus_handleMessage_def handlePrepareMessage_def handlePromiseMessage_def
      handleProposeMessage_def handleAcceptMessage_def handleAcceptedMessage_def consensus_inv_def
      Let_def consensus_context_init_def split: option.splits consensus_code.splits if_splits)

lemma consensus_handle_all_inv:
  "consensus_handle_all m l ms st = Inr (st', out) \<Longrightarrow> consensus_inv st \<Longrightarrow>
   consensus_inv st' \<and> cs_maxRoundId st \<le> cs_maxRoundId st'"
proof (induction m l ms st arbitrary: st' out rule: consensus_handle_all.induct)
  case (2 m l wtime src msg ms st)
  then show ?case by (fastforce dest: consensus_handleMessage_inv)
qed simp

lemma consensus_inv_files [simp]:
  "consensus_inv (st\<lparr>cs_files := fs\<rparr>) = consensus_inv st"
  by (simp add: consensus_inv_def)

lemma consensus_inv_roundId [simp]:
  "consensus_inv (st\<lparr>cs_context := (cs_context st)\<lparr>c_roundId := r\<rparr>\<rparr>) = consensus_inv st"
  by (simp add: consensus_inv_def Let_def)

lemma consensus_inv_reset:
  "consensus_inv st \<Longrightarrow> consensus_inv (st\<lparr>cs_context := consensus_context_init\<rparr>)"
  by (simp add: consensus_inv_def consensus_context_init_def Let_def)

lemma startConsensus_accept_inv:
  "startConsensus_accept m l w sch value st = Inr (st', out, reached) \<Longrightarrow> consensus_inv st \<Longrightarrow>
   consensus_inv st' \<and> cs_maxRoundId st \<le> cs_maxRoundId st'"
  by (fastforce simp: startConsensus_accept_def dest: consensus_handle_all_inv split: if_splits)

lemma startConsensus_promised_inv:
  "startConsensus_promised m l w w' sch value st = Inr (st', out, reached) \<Longrightarrow> consensus_inv st \<Longrightarrow>
   consensus_inv st' \<and> cs_maxRoundId st \<le> cs_maxRoundId st'"
  by (fastforce simp: startConsensus_promised_def
      dest: consensus_handle_all_inv startConsensus_accept_inv split: if_splits)

interpretation consensus_handler: message_handler id
  "\<lambda>src msg (st, out). res_bind (consensus_handleMessage m l wtime src msg st)
      (\<lambda>(st', out'). Inr (st', out @ out'))"
  "\<lambda>(st, out). consensus_inv st"
  by unfold_locales (auto dest: consensus_handleMessage_inv)

text \<open>
  Whatever the consensus receiver is sent while a node runs \<open>startConsensus\<close>, and in whatever
  gap it handles it, the round state stays consistent: the accepted id never exceeds the highest
  round the node has promised, it is -1 unless a value was accepted, and no counter is negative. The
  highest promised round only grows, and the context is the initial one when the call returns.
\<close>

lemma startConsensus_keeps_invariant:
  assumes "startConsensus m l w1 w2 w3 sch v st = Inr (st', out, reached)" and "consensus_inv st"
  shows "consensus_inv st' \<and> cs_maxRoundId st \<le> cs_maxRoundId st' \<and>
    cs_context st' = consensus_context_init"
proof -
  from assms(1) obtain st1 out1 st2 out2 st3 out3 where
    1: "consensus_handle_all m l (sch_promises sch)
      (st\<lparr>cs_context := fst (broadcastPrepare m w1 (cs_context st))\<rparr>) = Inr (st1, out1)"
    and 2: "startConsensus_promised m l w2 w3 sch v st1 = Inr (st2, out2, reached)"
    and 3: "consensus_handle_all m l (sch_reset sch) st2 = Inr (st3, out3)"
    and st': "st' = st3\<lparr>cs_context := consensus_context_init\<rparr>"
    by (auto simp: startConsensus_def split: prod.splits)
  have "consensus_inv (st\<lparr>cs_context := fst (broadcastPrepare m w1 (cs_context st))\<rparr>)"
    using assms(2) by (simp add: broadcastPrepare_def Let_def)
  from consensus_handle_all_inv [OF 1 this] have "consensus_inv st1" "cs_maxRoundId st \<le> cs_maxRoundId st1"
    by simp_all
  with startConsensus_promised_inv [OF 2] consensus_handle_all_inv [OF 3] st' show ?thesis
    by (auto intro: consensus_inv_reset)
qed

section \<open>Promises\<close>

text \<open>The ids of the PREPARE messages a node answers with a promise, in the order it handles them.\<close>

fun promised_rounds ::
  "messenger \<Rightarrow> log_file_manager \<Rightarrow> handled_messages \<Rightarrow> consensus_state \<Rightarrow> int list" where
  "promised_rounds m l [] st = []"
| "promised_rounds m l ((wtime, src, msg) # ms) st =
     (case consensus_handleMessage m l wtime src msg st of
        Inl e \<Rightarrow> []
      | Inr (st', out) \<Rightarrow>
          (if \<exists>(_, p) \<in> set out. m_code p = code_int (Consensus_Code PROMISE) then [m_id msg] else [])
          @ promised_rounds m l ms st')"

lemma promise_raises_round:
  assumes "consensus_handleMessage m l wtime src msg st = Inr (st', out)"
    and "(d, p) \<in> set out" and "m_code p = code_int (Consensus_Code PROMISE)"
  shows "cs_maxRoundId st < m_id msg \<and> cs_maxRoundId st' = m_id msg"
  using assms
  by (auto simp: consensus_handleMessage_def handlePrepareMessage_def handlePromiseMessage_def
      handleProposeMessage_def handleAcceptMessage_def handleAcceptedMessage_def Let_def
      consensus_codes_def split: option.splits consensus_code.splits if_splits)

lemma consensus_round_mono:
  assumes "consensus_handleMessage m l wtime src msg st = Inr (st', out)"
  shows "cs_maxRoundId st \<le> cs_maxRoundId st'"
  using assms
  by (auto simp: consensus_handleMessage_def handlePrepareMessage_def handlePromiseMessage_def
      handleProposeMessage_def handleAcceptMessage_def handleAcceptedMessage_def Let_def
      split: option.splits consensus_code.splits if_splits)

text \<open>
  C10. A node promises each round at most once and never a round below one it promised before:
  the ids it answers with PROMISE are strictly increasing and exceed every round it had promised,
  whatever messages it handles in between.
\<close>

theorem promises_strictly_increase:
  "sorted_wrt (<) (cs_maxRoundId st # promised_rounds m l ms st)"
proof (induction m l ms st rule: promised_rounds.induct)
  case (2 m l wtime src msg ms st)
  show ?case
  proof (cases "consensus_handleMessage m l wtime src msg st")
    case (Inr so)
    obtain st' out where so: "so = (st', out)" by (cases so)
    note h = Inr [unfolded so]
    from "2.IH" [OF h refl] consensus_round_mono [OF h] have
      "sorted_wrt (<) (cs_maxRoundId st' # promised_rounds m l ms st')"
      "cs_maxRoundId st \<le> cs_maxRoundId st'"
      by simp_all
    with h promise_raises_round [OF h] show ?thesis by fastforce
  qed simp
qed simp

section \<open>Quorums\<close>

text \<open>A node and the nodes whose replies it counted.\<close>

definition quorum :: "messenger \<Rightarrow> int set \<Rightarrow> bool" where
  "quorum m A \<longleftrightarrow> A \<subseteq> {0..<m_clusterSize m} \<and> majority_reached m (int (card A) - 1)"

text \<open>
  C11. The threshold \<open>(clusterSize - 1) / 2\<close> of both phases gives quorums that always intersect exactly
  when the cluster has an odd number of nodes; in a cluster of even size two disjoint halves pass
  the test at the same time.
\<close>

theorem quorums_intersect_iff_odd:
  assumes "1 \<le> m_clusterSize m"
  shows "(\<forall>A B. quorum m A \<and> quorum m B \<longrightarrow> A \<inter> B \<noteq> {}) \<longleftrightarrow> odd (m_clusterSize m)"
proof
  assume odd: "odd (m_clusterSize m)"
  show "\<forall>A B. quorum m A \<and> quorum m B \<longrightarrow> A \<inter> B \<noteq> {}"
  proof (intro allI impI notI)
    fix A B assume q: "quorum m A \<and> quorum m B" and disj: "A \<inter> B = {}"
    then have sub: "A \<union> B \<subseteq> {0..<m_clusterSize m}" by (auto simp: quorum_def)
    then have "finite A" "finite B" by (auto intro: finite_subset)
    with disj have "card (A \<union> B) = card A + card B" by (simp add: card_Un_disjoint)
    moreover have "card (A \<union> B) \<le> nat (m_clusterSize m)"
      using card_mono [OF _ sub] by simp
    ultimately have "int (card A) + int (card B) \<le> m_clusterSize m" using assms by linarith
    moreover obtain k where "m_clusterSize m = 2 * k + 1" using odd by (elim oddE)
    ultimately show False using q by (auto simp: quorum_def majority_reached_def)
  qed
next
  assume meet: "\<forall>A B. quorum m A \<and> quorum m B \<longrightarrow> A \<inter> B \<noteq> {}"
  show "odd (m_clusterSize m)"
  proof
    assume "even (m_clusterSize m)"
    then obtain k where k: "m_clusterSize m = 2 * k" by (elim evenE)
    with assms have "1 \<le> k" and half: "(2 * k - 1) div 2 = k - 1" by simp_all
    then have "quorum m {0..<k}" and "quorum m {k..<2 * k}"
      by (auto simp: quorum_def majority_reached_def k)
    with meet have "{0..<k} \<inter> {k..<2 * k} \<noteq> {}" by blast
    then show False by auto
  qed
qed

theorem quorums_intersect_iff_odd_witness:
  "(\<forall>A B. quorum (messenger_start 0 4) A \<and> quorum (messenger_start 0 4) B \<longrightarrow> A \<inter> B \<noteq> {}) \<longleftrightarrow>
   odd (m_clusterSize (messenger_start 0 4))"
  by (rule quorums_intersect_iff_odd) (simp add: messenger_start_def)

end
