(* ===== verification/Consensus_Round.thy ===== *)
theory Consensus_Round
  imports Consensus_Node
begin

text \<open>
  A round as the proposer sees it: what the promises it counted make it propose, and when
  \<open>startConsensus\<close> reports success and what it has logged and sent by then.
\<close>

section \<open>Counting promises and accepts\<close>

text \<open>Promises of round \<open>r\<close> from some nodes, with what those nodes had accepted.\<close>

definition promises_of ::
  "int \<Rightarrow> (int \<times> string) option list \<Rightarrow> handled_messages \<Rightarrow> bool" where
  "promises_of r accs ms \<longleftrightarrow>
     list_all2 (\<lambda>(w, src, msg) acc. m_code msg = code_int (Consensus_Code PROMISE) \<and>
       carries msg (promise_fields r acc)) ms accs"

definition accepts :: "handled_messages \<Rightarrow> bool" where
  "accepts ms \<longleftrightarrow> list_all (\<lambda>(w, src, msg). m_code msg = code_int (Consensus_Code ACCEPT)) ms"

definition accs_wf :: "(int \<times> string) option list \<Rightarrow> bool" where
  "accs_wf accs \<longleftrightarrow> list_all (\<lambda>acc. case acc of None \<Rightarrow> True | Some (a, v) \<Rightarrow> 0 \<le> a \<and> a < 2 ^ 31) accs"

lemma count_promise_fields:
  "c_roundId (count_promise acc ctx) = c_roundId ctx"
  "c_promiseCount (count_promise acc ctx) = c_promiseCount ctx + 1"
  "c_acceptCount (count_promise acc ctx) = c_acceptCount ctx"
  "c_valueAccepted (count_promise acc ctx) = c_valueAccepted ctx"
  "c_acceptedId (count_promise acc ctx) = c_acceptedId ctx"
  "c_maxAcceptedId ctx \<le> c_maxAcceptedId (count_promise acc ctx)"
  by (auto simp: count_promise_def split: option.splits)

lemma count_promise_accepted:
  "c_maxAcceptedId (count_promise None ctx) = c_maxAcceptedId ctx"
  "c_acceptedValue (count_promise None ctx) = c_acceptedValue ctx"
  "c_maxAcceptedId (count_promise (Some (a, v)) ctx) = max a (c_maxAcceptedId ctx)"
  "c_acceptedValue (count_promise (Some (a, v)) ctx) =
     (if c_maxAcceptedId ctx < a then v else c_acceptedValue ctx)"
  by (auto simp: count_promise_def)

lemma fold_count_promise_fields:
  "c_roundId (fold count_promise accs ctx) = c_roundId ctx"
  "c_promiseCount (fold count_promise accs ctx) = c_promiseCount ctx + int (length accs)"
  "c_acceptCount (fold count_promise accs ctx) = c_acceptCount ctx"
  by (induction accs arbitrary: ctx) (simp_all add: count_promise_fields)

lemma handle_promises:
  assumes "promises_of r accs ms" and "is_int32 r" and "accs_wf accs"
    and "c_roundId (cs_context st) = r" and "-1 \<le> c_maxAcceptedId (cs_context st)"
  shows "consensus_handle_all m l ms st =
    Inr (st\<lparr>cs_context := fold count_promise accs (cs_context st)\<rparr>, [])"
  using assms
proof (induction ms arbitrary: st accs)
  case Nil
  then show ?case by (simp add: promises_of_def)
next
  case (Cons x ms)
  obtain w src msg where x: "x = (w, src, msg)" by (cases x)
  from Cons.prems(1) obtain acc accs' where accs: "accs = acc # accs'"
    and code: "m_code msg = code_int (Consensus_Code PROMISE)"
    and car: "carries msg (promise_fields r acc)" and ms: "promises_of r accs' ms"
    by (auto simp: promises_of_def list_all2_Cons1 x)
  have "\<forall>a v. acc = Some (a, v) \<longrightarrow> is_int32 a" and wf: "accs_wf accs'"
    using Cons.prems(3) by (auto simp: accs_wf_def accs is_int32_def)
  from handlePromise_carries [OF car Cons.prems(2) this(1) Cons.prems(5)] Cons.prems(4) code
  have "consensus_handleMessage m l w src msg st =
      Inr (st\<lparr>cs_context := count_promise acc (cs_context st)\<rparr>, [])"
    by (simp add: consensus_handleMessage_def del: code_int.simps)
  moreover have "-1 \<le> c_maxAcceptedId (count_promise acc (cs_context st))"
    using Cons.prems(5) count_promise_fields(6) by (rule order_trans)
  then have "consensus_handle_all m l ms (st\<lparr>cs_context := count_promise acc (cs_context st)\<rparr>) =
      Inr (st\<lparr>cs_context := fold count_promise accs' (count_promise acc (cs_context st))\<rparr>, [])"
    using Cons.IH [OF ms Cons.prems(2) wf, of "st\<lparr>cs_context := count_promise acc (cs_context st)\<rparr>"]
      Cons.prems(4) by (simp add: count_promise_fields)
  ultimately show ?case by (simp add: x accs)
qed

lemma handle_accepts:
  assumes "accepts ms"
  shows "consensus_handle_all m l ms st =
    Inr (st\<lparr>cs_context := (cs_context st)\<lparr>c_acceptCount := c_acceptCount (cs_context st)
           + int (length ms)\<rparr>\<rparr>, [])"
  using assms
proof (induction ms arbitrary: st)
  case (Cons x ms)
  obtain w src msg where x: "x = (w, src, msg)" by (cases x)
  with Cons show ?case
    by (simp add: accepts_def consensus_handleMessage_def handleAcceptMessage_def Let_def
        del: code_int.simps)
qed simp

section \<open>The proposed value\<close>

text \<open>The value of the promise with the highest accepted id, if any node had accepted one.\<close>

definition chosen_value :: "string \<Rightarrow> consensus_context \<Rightarrow> string" where
  "chosen_value own ctx = (if c_maxAcceptedId ctx = -1 then own else c_acceptedValue ctx)"

lemma fold_count_promise_highest:
  assumes "accs_wf accs" and "-1 \<le> c_maxAcceptedId ctx"
  shows "(\<forall>a v. Some (a, v) \<in> set accs \<longrightarrow> a \<le> c_maxAcceptedId (fold count_promise accs ctx)) \<and>
    (let ctx' = fold count_promise accs ctx in
     (c_maxAcceptedId ctx' = c_maxAcceptedId ctx \<and> c_acceptedValue ctx' = c_acceptedValue ctx) \<or>
     (c_maxAcceptedId ctx < c_maxAcceptedId ctx' \<and>
        Some (c_maxAcceptedId ctx', c_acceptedValue ctx') \<in> set accs))"
  using assms
proof (induction accs rule: rev_induct)
  case (snoc acc accs)
  then have IH: "\<forall>a v. Some (a, v) \<in> set accs \<longrightarrow> a \<le> c_maxAcceptedId (fold count_promise accs ctx)"
    "(c_maxAcceptedId (fold count_promise accs ctx) = c_maxAcceptedId ctx \<and>
      c_acceptedValue (fold count_promise accs ctx) = c_acceptedValue ctx) \<or>
     (c_maxAcceptedId ctx < c_maxAcceptedId (fold count_promise accs ctx) \<and>
      Some (c_maxAcceptedId (fold count_promise accs ctx), c_acceptedValue (fold count_promise accs ctx))
        \<in> set accs)"
    by (auto simp: accs_wf_def Let_def)
  define ctx' where "ctx' = fold count_promise accs ctx"
  note IH' = IH [folded ctx'_def]
  show ?case
  proof (cases acc)
    case None
    with IH' show ?thesis by (simp add: count_promise_accepted Let_def ctx'_def [symmetric])
  next
    case (Some av)
    obtain a v where av: "av = (a, v)" by (cases av)
    with Some IH' show ?thesis
      by (cases "a > c_maxAcceptedId ctx'")
        (fastforce simp: count_promise_accepted Let_def ctx'_def [symmetric] max_def)+
  qed
qed (simp add: Let_def)

lemma chosen_value_highest:
  assumes "accs_wf accs" and "c_maxAcceptedId ctx = -1"
  shows "if list_all (\<lambda>acc. acc = None) accs
    then chosen_value own (fold count_promise accs ctx) = own
    else \<exists>a. Some (a, chosen_value own (fold count_promise accs ctx)) \<in> set accs \<and>
      list_all (\<lambda>acc. case acc of None \<Rightarrow> True | Some (b, w) \<Rightarrow> b \<le> a) accs"
proof (cases "list_all (\<lambda>acc. acc = None) accs")
  case True
  then have "c_maxAcceptedId (fold count_promise accs ctx) = c_maxAcceptedId ctx"
    by (induction accs arbitrary: ctx) (auto simp: count_promise_accepted)
  with True assms(2) show ?thesis by (simp add: chosen_value_def)
next
  case False
  let ?ctx = "fold count_promise accs ctx"
  from False obtain b w where "Some (b, w) \<in> set accs" by (auto simp: list_all_iff)
  moreover from this assms(1) have "0 \<le> b" by (auto simp: accs_wf_def list_all_iff)
  ultimately have "c_maxAcceptedId ?ctx \<noteq> -1"
    using fold_count_promise_highest [OF assms(1), of ctx] assms(2) by force
  with fold_count_promise_highest [OF assms(1), of ctx] assms(2) False show ?thesis
    by (auto simp: Let_def chosen_value_def list_all_iff split: option.splits intro!: exI)
qed

text \<open>
  C9. After counting any promises of its round, a proposer sends every other node a PROPOSE whose
  data holds the round id and a value: its own when no node reported an accepted value, and
  otherwise the value of a promise with the highest accepted id.
\<close>

theorem propose_highest_accepted:
  assumes "promises_of r accs ms" and "is_int32 r" and "accs_wf accs"
    and "c_roundId (cs_context st) = r" and "c_maxAcceptedId (cs_context st) = -1"
  shows "\<exists>st' v. consensus_handle_all m l ms st = Inr (st', []) \<and>
    broadcastPropose m wtime own (cs_context st') =
      res_bind (json_text [(''roundId'', JInt r), (''value'', JString v)]) (\<lambda>t.
        Inr (broadcast_sends m (setMessage_data wtime (Consensus_Code PROPOSE) t))) \<and>
    (if list_all (\<lambda>acc. acc = None) accs then v = own
     else \<exists>a. Some (a, v) \<in> set accs \<and>
       list_all (\<lambda>acc. case acc of None \<Rightarrow> True | Some (b, w) \<Rightarrow> b \<le> a) accs)"
proof (intro exI conjI)
  let ?st = "st\<lparr>cs_context := fold count_promise accs (cs_context st)\<rparr>"
  show "consensus_handle_all m l ms st = Inr (?st, [])"
    using assms by (intro handle_promises) simp_all
  show "broadcastPropose m wtime own (cs_context ?st) =
      res_bind (json_text [(''roundId'', JInt r),
          (''value'', JString (chosen_value own (fold count_promise accs (cs_context st))))]) (\<lambda>t.
        Inr (broadcast_sends m (setMessage_data wtime (Consensus_Code PROPOSE) t)))"
    using assms(4) by (simp add: broadcastPropose_def chosen_value_def fold_count_promise_fields)
  show "if list_all (\<lambda>acc. acc = None) accs
    then chosen_value own (fold count_promise accs (cs_context st)) = own
    else \<exists>a. Some (a, chosen_value own (fold count_promise accs (cs_context st))) \<in> set accs \<and>
      list_all (\<lambda>acc. case acc of None \<Rightarrow> True | Some (b, w) \<Rightarrow> b \<le> a) accs"
    by (rule chosen_value_highest [OF assms(3,5)])
qed

lemma promises_of_exist:
  assumes "list_all (\<lambda>acc. case acc of None \<Rightarrow> True | Some (a, v) \<Rightarrow> valid_utf8 v) accs"
  shows "\<exists>ms. promises_of r accs ms"
  using assms
proof (induction accs)
  case (Cons acc accs)
  then obtain ms where ms: "promises_of r accs ms" by auto
  have "\<exists>t. json_text (promise_fields r acc) = Inr t"
    using Cons.prems
    by (intro json_text_ok) (auto simp: promise_fields_def plain_char_def split: option.splits)
  then obtain t where "json_text (promise_fields r acc) = Inr t" by blast
  with ms have "promises_of r (acc # accs)
      ((0, 0, setMessage_data 0 (Consensus_Code PROMISE) t) # ms)"
    by (simp add: promises_of_def carries_def)
  then show ?case by blast
next
  case Nil
  have "promises_of r [] []" by (simp add: promises_of_def)
  then show ?case by blast
qed

theorem propose_highest_accepted_witness:
  "\<exists>ms st' v. promises_of 5 [Some (3, ''b''), None, Some (4, ''c'')] ms \<and>
    consensus_handle_all (messenger_start 0 5) \<lparr>l_nodeId = 0, l_logFilePath = ''log''\<rparr> ms
      (consensus_init Map.empty\<lparr>cs_context := consensus_context_init\<lparr>c_roundId := 5\<rparr>\<rparr>) = Inr (st', []) \<and>
    broadcastPropose (messenger_start 0 5) 0 ''own'' (cs_context st') =
      res_bind (json_text [(''roundId'', JInt 5), (''value'', JString v)]) (\<lambda>t.
        Inr (broadcast_sends (messenger_start 0 5) (setMessage_data 0 (Consensus_Code PROPOSE) t))) \<and>
    v = ''c''"
proof -
  obtain ms where ms: "promises_of 5 [Some (3, ''b''), None, Some (4, ''c'')] ms"
    using promises_of_exist [of "[Some (3, ''b''), None, Some (4, ''c'')]" 5]
    by (auto simp: valid_utf8_plain plain_char_def)
  from propose_highest_accepted [OF ms, of "consensus_init Map.empty\<lparr>cs_context :=
      consensus_context_init\<lparr>c_roundId := 5\<rparr>\<rparr>" "messenger_start 0 5"
      "\<lparr>l_nodeId = 0, l_logFilePath = ''log''\<rparr>" 0 "''own''"] ms
  show ?thesis
    by (fastforce simp: is_int32_def accs_wf_def consensus_context_init_def)
qed

section \<open>The outcome of a round\<close>

definition values_valid :: "(int \<times> string) option list \<Rightarrow> bool" where
  "values_valid accs \<longleftrightarrow> list_all (\<lambda>acc. case acc of None \<Rightarrow> True | Some (a, v) \<Rightarrow> valid_utf8 v) accs"

lemma chosen_value_valid:
  assumes "values_valid accs" and "valid_utf8 own" and "c_maxAcceptedId ctx = -1" and "accs_wf accs"
  shows "valid_utf8 (chosen_value own (fold count_promise accs ctx))"
  using chosen_value_highest [OF assms(4,3), of own] assms(1,2)
  by (fastforce simp: values_valid_def list_all_iff split: if_splits)

definition counted_context :: "int \<Rightarrow> (int \<times> string) option list \<Rightarrow> consensus_context" where
  "counted_context r accs = fold count_promise accs (consensus_context_init\<lparr>c_roundId := r\<rparr>)"

lemma startConsensus_result:
  assumes "promises_of (generateUniqueId w1) accs ps" and "accepts as" and "accs_wf accs"
    and "is_int32 (generateUniqueId w1)" and "valid_utf8 v" and "values_valid accs"
    and "cs_context st = consensus_context_init"
    and tp: "json_text [(''roundId'', JInt (generateUniqueId w1)), (''value'',
        JString (chosen_value v (counted_context (generateUniqueId w1) accs)))] = Inr tp"
    and ta: "json_text [(''roundId'', JInt (generateUniqueId w1)), (''value'', JString v)] = Inr ta"
  shows "startConsensus m l w1 w2 w3 (schedule.make ps [] as [] [] []) v st =
    Inr (if majority_reached m (int (length accs)) \<and> majority_reached m (int (length as))
         then st\<lparr>cs_files := log_append l v (cs_files st)\<rparr> else st,
      broadcast_sends m (setMessage w1 (Consensus_Code PREPARE)) @
      (if majority_reached m (int (length accs))
       then broadcast_sends m (setMessage_data w2 (Consensus_Code PROPOSE) tp) else []) @
      (if majority_reached m (int (length accs)) \<and> majority_reached m (int (length as))
       then broadcast_sends m (setMessage_data w3 (Consensus_Code ACCEPTED) ta) else []),
      majority_reached m (int (length accs)) \<and> majority_reached m (int (length as)))"
proof -
  define ctx where "ctx = counted_context (generateUniqueId w1) accs"
  let ?st0 = "st\<lparr>cs_context := consensus_context_init\<lparr>c_roundId := generateUniqueId w1\<rparr>\<rparr>"
  have handle: "consensus_handle_all m l ps ?st0 = Inr (?st0\<lparr>cs_context := ctx\<rparr>, [])"
    using handle_promises [OF assms(1,4,3), of ?st0 m l]
    by (simp add: ctx_def counted_context_def consensus_context_init_def)
  have counts: "c_promiseCount ctx = int (length accs)" "c_acceptCount ctx = 0"
    "c_roundId ctx = generateUniqueId w1"
    by (simp_all add: ctx_def counted_context_def fold_count_promise_fields consensus_context_init_def)
  have propose: "broadcastPropose m w2 v ctx =
      Inr (broadcast_sends m (setMessage_data w2 (Consensus_Code PROPOSE) tp))"
    using tp by (simp add: ctx_def [symmetric] broadcastPropose_def counts chosen_value_def split del: if_split)
  have accs: "consensus_handle_all m l as (?st0\<lparr>cs_context := ctx\<rparr>) =
      Inr (?st0\<lparr>cs_context := ctx\<lparr>c_acceptCount := int (length as)\<rparr>\<rparr>, [])"
    using handle_accepts [OF assms(2), of m l "?st0\<lparr>cs_context := ctx\<rparr>"] counts by simp
  have st: "st\<lparr>cs_context := consensus_context_init\<rparr> = st" using assms(7) by (cases st) simp
  have reset: "st\<lparr>cs_files := fs, cs_context := consensus_context_init\<rparr> = st\<lparr>cs_files := fs\<rparr>" for fs
    using assms(7) by (cases st) simp
  from assms(7) handle propose accs counts ta st reset show ?thesis
    by (simp add: startConsensus_def broadcastPrepare_def Let_def startConsensus_promised_def
        startConsensus_accept_def receivePromises_def receiveAccepts_def broadcastAccepted_def
        schedule.defs)
qed

lemma counted_context_valid:
  assumes "values_valid accs" and "valid_utf8 v" and "accs_wf accs"
  shows "valid_utf8 (chosen_value v (counted_context r accs))"
  unfolding counted_context_def
  using assms by (intro chosen_value_valid) (simp_all add: consensus_context_init_def)

lemma startConsensus_texts:
  assumes "values_valid accs" and "valid_utf8 v" and "accs_wf accs"
  obtains tp ta where
    "json_text [(''roundId'', JInt r), (''value'', JString (chosen_value v (counted_context r accs)))]
      = Inr tp"
    "json_text [(''roundId'', JInt r), (''value'', JString v)] = Inr ta"
  using json_text_round_value_ok [OF counted_context_valid [OF assms, of r], of r]
    json_text_round_value_ok [OF assms(2), of r] by blast

text \<open>
  C7. The outcome of a round, for a proposer with a fresh context whose receiver counts some promises
  of the round and then some ACCEPT messages (of any round) while it sleeps: it reports success exactly
  when both counts reach \<open>(clusterSize - 1) / 2\<close>; only then is the client's value appended to its log,
  once, and broadcast as ACCEPTED; and the context is fresh again.
\<close>

theorem startConsensus_outcome:
  assumes "promises_of (generateUniqueId w1) accs ps" and "accepts as" and "accs_wf accs"
    and "is_int32 (generateUniqueId w1)" and "valid_utf8 v" and "values_valid accs"
    and "cs_context st = consensus_context_init"
  shows "\<exists>st' out reached.
    startConsensus m l w1 w2 w3 (schedule.make ps [] as [] [] []) v st = Inr (st', out, reached) \<and>
    (reached \<longleftrightarrow> (m_clusterSize m - 1) div 2 \<le> int (length accs) \<and>
                (m_clusterSize m - 1) div 2 \<le> int (length as)) \<and>
    log_read l (cs_files st') [] = log_read l (cs_files st) [] @ (if reached then v @ newline else []) \<and>
    cs_context st' = consensus_context_init \<and> cs_maxRoundId st' = cs_maxRoundId st \<and>
    (if reached
     then \<exists>ta. carries (setMessage_data w3 (Consensus_Code ACCEPTED) ta)
            [(''roundId'', JInt (generateUniqueId w1)), (''value'', JString v)] \<and>
          filter (\<lambda>(dst, msg). m_code msg = code_int (Consensus_Code ACCEPTED)) out =
            broadcast_sends m (setMessage_data w3 (Consensus_Code ACCEPTED) ta)
     else filter (\<lambda>(dst, msg). m_code msg = code_int (Consensus_Code ACCEPTED)) out = [])"
proof -
  obtain tp ta where texts: "json_text [(''roundId'', JInt (generateUniqueId w1)), (''value'',
        JString (chosen_value v (counted_context (generateUniqueId w1) accs)))] = Inr tp"
    "json_text [(''roundId'', JInt (generateUniqueId w1)), (''value'', JString v)] = Inr ta"
    using startConsensus_texts [OF assms(6,5,3)] by blast
  note run = startConsensus_result [OF assms texts, of m l w2 w3]
  have other: "filter (\<lambda>(dst, msg). m_code msg = code_int (Consensus_Code ACCEPTED))
      (broadcast_sends m msg) = (if m_code msg = code_int (Consensus_Code ACCEPTED)
        then broadcast_sends m msg else [])" for msg
    by (auto simp: broadcast_sends_def filter_map comp_def filter_empty_conv)
  have codes: "code_int (Consensus_Code PREPARE) \<noteq> code_int (Consensus_Code ACCEPTED)"
    "code_int (Consensus_Code PROPOSE) \<noteq> code_int (Consensus_Code ACCEPTED)"
    by (simp_all add: consensus_codes_def)
  show ?thesis
    unfolding run
    using texts assms(7) codes
    by (auto simp: majority_reached_def log_file.contents_append carries_def other
        simp del: code_int.simps)
qed

theorem startConsensus_outcome_witness:
  "\<exists>ps st' out. startConsensus (messenger_start 0 3) \<lparr>l_nodeId = 0, l_logFilePath = ''log''\<rparr> 7000000000 0 0
      (schedule.make ps [] [(0, 2, setMessage 0 (Consensus_Code ACCEPT))] [] [] []) ''x=1''
      (consensus_init Map.empty) = Inr (st', out, True) \<and>
    log_read \<lparr>l_nodeId = 0, l_logFilePath = ''log''\<rparr> (cs_files st') [] = ''x=1'' @ newline"
proof -
  have id: "generateUniqueId 7000000000 = 7" by (simp add: generateUniqueId_def ns_per_second_def)
  obtain ps where ps: "promises_of (generateUniqueId 7000000000) [None] ps"
    using promises_of_exist [of "[None]"] by auto
  from startConsensus_outcome [OF ps, of "[(0, 2, setMessage 0 (Consensus_Code ACCEPT))]" "''x=1''"
      "consensus_init Map.empty" "messenger_start 0 3" "\<lparr>l_nodeId = 0, l_logFilePath = ''log''\<rparr>" 0 0]
  show ?thesis
    by (fastforce simp: accepts_def accs_wf_def id is_int32_def valid_utf8_plain plain_char_def
        values_valid_def consensus_init_def messenger_start_def log_read_def)
qed

text \<open>
  C13. A proposer that learns of an accepted value proposes that value but logs and announces its own: in
  a cluster of three, one promise reporting the accepted value \<open>old\<close> and one ACCEPT make
  \<open>startConsensus\<close> for \<open>new\<close> send \<open>old\<close> in the PROPOSE messages, succeed, and write \<open>new\<close> to the log.
\<close>

theorem adopted_value_is_not_logged:
  "\<exists>ps tp ta st' out.
    promises_of 7 [Some (3, ''old'')] ps \<and>
    json_text [(''roundId'', JInt 7), (''value'', JString ''old'')] = Inr tp \<and>
    startConsensus (messenger_start 0 3) l 7000000000 8000000000 9000000000
      (schedule.make ps [] [(0, 2, setMessage 0 (Consensus_Code ACCEPT))] [] [] []) ''new''
      (consensus_init fs) = Inr (st', out, True) \<and>
    (1, setMessage_data 8000000000 (Consensus_Code PROPOSE) tp) \<in> set out \<and>
    json_text [(''roundId'', JInt 7), (''value'', JString ''new'')] = Inr ta \<and>
    (1, setMessage_data 9000000000 (Consensus_Code ACCEPTED) ta) \<in> set out \<and>
    log_read l (cs_files st') [] = log_read l fs [] @ ''new'' @ newline"
proof -
  have id: "generateUniqueId 7000000000 = 7" by (simp add: generateUniqueId_def ns_per_second_def)
  obtain ps where ps: "promises_of (generateUniqueId 7000000000) [Some (3, ''old'')] ps"
    using promises_of_exist [of "[Some (3, ''old'')]"] by (auto simp: valid_utf8_plain plain_char_def)
  have chosen: "chosen_value ''new'' (counted_context 7 [Some (3, ''old'')]) = ''old''"
    by (simp add: chosen_value_def counted_context_def count_promise_def consensus_context_init_def)
  have wf: "values_valid [Some (3, ''old'')]" "valid_utf8 ''new''" "accs_wf [Some (3, ''old'')]"
    by (simp_all add: values_valid_def valid_utf8_plain plain_char_def accs_wf_def)
  obtain tp ta where texts: "json_text [(''roundId'', JInt 7), (''value'', JString ''old'')] = Inr tp"
    "json_text [(''roundId'', JInt 7), (''value'', JString ''new'')] = Inr ta"
    using startConsensus_texts [OF wf, of 7] chosen by auto
  have "majority_reached (messenger_start 0 3) 1"
    by (simp add: majority_reached_def messenger_start_def)
  moreover have "1 \<in> set (broadcast_targets 0 (m_clusterSize (messenger_start 0 3)) False (messenger_start 0 3))"
    by (simp add: broadcast_targets_def messenger_start_def)
  moreover have "accepts [(0, 2, setMessage 0 (Consensus_Code ACCEPT))]" by (simp add: accepts_def)
  note startConsensus_result [OF ps this wf(3) _ wf(2,1), unfolded id chosen, OF _ _ texts,
      of "consensus_init fs" "messenger_start 0 3" l 8000000000 9000000000]
  ultimately show ?thesis
    using ps texts
    by (fastforce simp: id is_int32_def consensus_init_def broadcast_sends_def
        log_file.contents_append)
qed

end
