(* ===== verification/Consensus_System.thy ===== *)
theory Consensus_System
  imports Consensus_Round
begin

text \<open>
  The cluster of consensus managers with one node \<open>L\<close> that clients use: the nodes' states, one FIFO
  channel per ordered pair of nodes (MPI keeps the order of messages between two processes), and
  the point \<open>L\<close>'s client thread has reached in \<open>startConsensus\<close>. Deliveries and the blocks of
  the thread interleave freely and every step reads the clock anew. No node is marked as failed, so
  nothing is dropped.
\<close>

section \<open>The system\<close>

text \<open>The blocks of \<open>startConsensus\<close> the client thread runs next, with the value it replicates.\<close>

datatype proposer =
    Idle
  | Await_Promises string
  | Propose string
  | Await_Accepts string
  | Append string
  | Announce string
  | Reset

record consensus_system =
  sys_nodes :: "int \<Rightarrow> consensus_state"
  sys_net :: "int \<Rightarrow> int \<Rightarrow> message list"
  sys_thread :: proposer

definition sys_context :: "consensus_system \<Rightarrow> int \<Rightarrow> consensus_context" where
  "sys_context s p = cs_context (sys_nodes s p)"

definition set_context :: "int \<Rightarrow> consensus_context \<Rightarrow> consensus_system \<Rightarrow> consensus_system" where
  "set_context p ctx s =
     s\<lparr>sys_nodes := (sys_nodes s)(p := (sys_nodes s p)\<lparr>cs_context := ctx\<rparr>)\<rparr>"

inductive consensus_step ::
  "int \<Rightarrow> (int \<Rightarrow> log_file_manager) \<Rightarrow> int \<Rightarrow> consensus_system \<Rightarrow> consensus_system \<Rightarrow> bool"
  for n :: int and ls :: "int \<Rightarrow> log_file_manager" and L :: int
where
  deliver:
    "sys_net s src dst = msg # rest \<Longrightarrow>
     consensus_handleMessage (messenger_start dst n) (ls dst) wtime src msg (sys_nodes s dst) =
       Inr (st', out) \<Longrightarrow>
     consensus_step n ls L s
       (s\<lparr>sys_nodes := (sys_nodes s)(dst := st'),
          sys_net := enqueue dst out ((sys_net s)(src := (sys_net s src)(dst := rest)))\<rparr>)"
| prepare:
    "sys_thread s = Idle \<Longrightarrow> is_int32 (generateUniqueId wtime) \<Longrightarrow>
     broadcastPrepare (messenger_start L n) wtime (sys_context s L) = (ctx, out) \<Longrightarrow>
     consensus_step n ls L s
       ((set_context L ctx s)\<lparr>sys_net := enqueue L out (sys_net s), sys_thread := Await_Promises v\<rparr>)"
| promised:
    "sys_thread s = Await_Promises v \<Longrightarrow>
     consensus_step n ls L s
       (s\<lparr>sys_thread := (if receivePromises (messenger_start L n) (sys_context s L)
                        then Propose v else Reset)\<rparr>)"
| propose:
    "sys_thread s = Propose v \<Longrightarrow>
     broadcastPropose (messenger_start L n) wtime v (sys_context s L) = Inr out \<Longrightarrow>
     consensus_step n ls L s
       (s\<lparr>sys_net := enqueue L out (sys_net s), sys_thread := Await_Accepts v\<rparr>)"
| accepted:
    "sys_thread s = Await_Accepts v \<Longrightarrow>
     consensus_step n ls L s
       (s\<lparr>sys_thread := (if receiveAccepts (messenger_start L n) (sys_context s L)
                        then Append v else Reset)\<rparr>)"
| append:
    "sys_thread s = Append v \<Longrightarrow>
     consensus_step n ls L s
       (s\<lparr>sys_nodes := (sys_nodes s)(L := (sys_nodes s L)
            \<lparr>cs_files := log_append (ls L) v (cs_files (sys_nodes s L))\<rparr>),
          sys_thread := Announce v\<rparr>)"
| announce:
    "sys_thread s = Announce v \<Longrightarrow>
     broadcastAccepted (messenger_start L n) wtime v (sys_context s L) = Inr out \<Longrightarrow>
     consensus_step n ls L s
       (s\<lparr>sys_net := enqueue L out (sys_net s), sys_thread := Reset\<rparr>)"
| reset:
    "sys_thread s = Reset \<Longrightarrow>
     consensus_step n ls L s
       ((set_context L consensus_context_init s)\<lparr>sys_thread := Idle\<rparr>)"

definition node_log :: "(int \<Rightarrow> log_file_manager) \<Rightarrow> consensus_system \<Rightarrow> int \<Rightarrow> string" where
  "node_log ls s p = log_read (ls p) (cs_files (sys_nodes s p)) []"

definition system_start :: "int \<Rightarrow> (int \<Rightarrow> log_file_manager) \<Rightarrow> int \<Rightarrow> consensus_system \<Rightarrow> bool" where
  "system_start n ls L s \<longleftrightarrow>
     sys_thread s = Idle \<and> (\<forall>p q. sys_net s p q = []) \<and> c_roundId (sys_context s L) = -1 \<and>
     (\<forall>p. 0 \<le> p \<and> p < n \<longrightarrow> node_log ls s p = node_log ls s L)"

section \<open>Messages that carry a log entry\<close>

definition message_value :: "message \<Rightarrow> string res" where
  "message_value msg =
     res_bind (message_getData msg) (\<lambda>d.
     res_bind (json_parse d) (\<lambda>j.
     res_bind (json_at ''value'' j) json_get_string))"

text \<open>The line the receiver of a message appends to its log.\<close>

definition accepted_line :: "message \<Rightarrow> string" where
  "accepted_line msg =
     (case (consensus_code_of_int (m_code msg), message_value msg) of
        (Some ACCEPTED, Inr v) \<Rightarrow> v @ newline
      | _ \<Rightarrow> [])"

definition log_lines :: "message list \<Rightarrow> string" where
  "log_lines msgs = concat (map accepted_line msgs)"

lemma log_lines_simps [simp]:
  "log_lines [] = []" "log_lines (msg # msgs) = accepted_line msg @ log_lines msgs"
  "log_lines (xs @ ys) = log_lines xs @ log_lines ys"
  by (simp_all add: log_lines_def)

lemma accepted_line_other [simp]:
  "c \<noteq> ACCEPTED \<Longrightarrow> accepted_line (setMessage_data wtime (Consensus_Code c) d) = []"
  by (simp add: accepted_line_def del: code_int.simps split: consensus_code.splits)

lemma accepted_line_accepted:
  assumes "json_text [(''roundId'', JInt r), (''value'', JString v)] = Inr t" and "int_fits r"
  shows "accepted_line (setMessage_data wtime (Consensus_Code ACCEPTED) t) = v @ newline"
proof -
  have "json_parse t = Inr (json_object [(''roundId'', JInt r), (''value'', JString v)])"
    using assms by (intro json_text_parse) simp_all
  then show ?thesis
    by (simp add: accepted_line_def message_value_def message_getData_def del: code_int.simps)
qed

lemma handle_log:
  assumes "consensus_handleMessage m l wtime src msg st = Inr (st', out)"
  shows "log_read l (cs_files st') [] = log_read l (cs_files st) [] @ accepted_line msg"
    and "c_roundId (cs_context st') = c_roundId (cs_context st) \<or> c_roundId (cs_context st') = -1"
    and "\<And>d msg'. (d, msg') \<in> set out \<Longrightarrow> accepted_line msg' = []"
  using assms
  by (auto simp: consensus_handleMessage_def handlePrepareMessage_def handlePromiseMessage_def
      handleProposeMessage_def handleAcceptMessage_def handleAcceptedMessage_def Let_def
      accepted_line_def message_value_def consensus_context_init_def log_file.contents_append
      simp del: code_int.simps
      split: option.splits consensus_code.splits if_splits sum.splits)

section \<open>The replicated log\<close>

definition pending_line :: "proposer \<Rightarrow> string" where
  "pending_line th = (case th of Announce v \<Rightarrow> v @ newline | _ \<Rightarrow> [])"

text \<open>
  The log of the proposing node is the log of every other node, followed by what is on its way there
  and by the entry that is logged but not yet announced.
\<close>

definition logs_agree :: "int \<Rightarrow> (int \<Rightarrow> log_file_manager) \<Rightarrow> int \<Rightarrow> consensus_system \<Rightarrow> bool" where
  "logs_agree n ls L s \<longleftrightarrow>
     (\<forall>p. 0 \<le> p \<and> p < n \<and> p \<noteq> L \<longrightarrow>
        node_log ls s L = node_log ls s p @ log_lines (sys_net s L p) @ pending_line (sys_thread s))"

definition system_inv :: "int \<Rightarrow> (int \<Rightarrow> log_file_manager) \<Rightarrow> int \<Rightarrow> consensus_system \<Rightarrow> bool" where
  "system_inv n ls L s \<longleftrightarrow>
     logs_agree n ls L s \<and>
     (\<forall>p q msg. p \<noteq> L \<or> q = L \<longrightarrow> msg \<in> set (sys_net s p q) \<longrightarrow> accepted_line msg = []) \<and>
     int_fits (c_roundId (sys_context s L))"

lemma log_lines_none: "(\<And>msg. msg \<in> set msgs \<Longrightarrow> accepted_line msg = []) \<Longrightarrow> log_lines msgs = []"
  by (auto simp: log_lines_def)

lemma system_inv_start: "system_start n ls L s \<Longrightarrow> system_inv n ls L s"
  by (auto simp: system_start_def system_inv_def logs_agree_def pending_line_def int_fits_def)

text \<open>A step of the thread that neither logs nor announces.\<close>

lemma system_inv_silent:
  assumes "system_inv n ls L s"
    and "\<And>q msg. (q, msg) \<in> set out \<Longrightarrow> accepted_line msg = []"
    and "int_fits (c_roundId ctx)" and "pending_line th = pending_line (sys_thread s)"
  shows "system_inv n ls L ((set_context L ctx s)\<lparr>sys_net := enqueue L out (sys_net s), sys_thread := th\<rparr>)"
proof -
  have "log_lines (map snd (filter (\<lambda>x. fst x = q) out)) = []" for q
    using assms(2) by (intro log_lines_none) auto
  with assms show ?thesis
    by (fastforce simp: system_inv_def logs_agree_def node_log_def set_context_def sys_context_def
        enqueue_def)
qed

lemma set_context_same: "set_context L (sys_context s L) s = s"
  by (simp add: set_context_def sys_context_def)

lemma set_context_net [simp]: "(set_context L ctx s)\<lparr>sys_net := sys_net s\<rparr> = set_context L ctx s"
  by (cases s) (simp add: set_context_def)

lemma enqueue_nothing: "enqueue L [] net = net"
  by (simp add: enqueue_def fun_eq_iff)

lemma system_inv_deliver:
  assumes inv: "system_inv n ls L s" and msg: "sys_net s src dst = msg # rest"
    and handle: "consensus_handleMessage (messenger_start dst n) (ls dst) wtime src msg (sys_nodes s dst) =
      Inr (st', out)"
  shows "system_inv n ls L
    (s\<lparr>sys_nodes := (sys_nodes s)(dst := st'),
       sys_net := enqueue dst out ((sys_net s)(src := (sys_net s src)(dst := rest)))\<rparr>)"
    (is "system_inv n ls L ?t")
proof -
  note h = handle_log [OF handle]
  have out: "log_lines (map snd (filter (\<lambda>x. fst x = q) out)) = []" for q
    using h(3) by (intro log_lines_none) auto
  have silent: "accepted_line msg = []" if "src \<noteq> L \<or> dst = L"
    using inv that msg by (auto simp: system_inv_def)
  have net: "log_lines (sys_net ?t L q) =
      (if q = dst \<and> src = L then log_lines rest else log_lines (sys_net s L q))" for q
    using out by (auto simp: enqueue_def)
  have "logs_agree n ls L ?t"
    unfolding logs_agree_def
  proof (intro allI impI)
    fix p assume p: "0 \<le> p \<and> p < n \<and> p \<noteq> L"
    with inv have eq: "node_log ls s L =
        node_log ls s p @ log_lines (sys_net s L p) @ pending_line (sys_thread s)"
      by (simp add: system_inv_def logs_agree_def)
    have logs: "node_log ls ?t q = node_log ls s q @ (if q = dst then accepted_line msg else [])" for q
      using h(1) by (simp add: node_log_def)
    have "node_log ls ?t L = node_log ls s L"
      using logs [of L] silent by auto
    moreover have "node_log ls ?t p @ log_lines (sys_net ?t L p) =
        node_log ls s p @ log_lines (sys_net s L p)"
      using logs [of p] net [of p] silent msg by (cases "src = L") auto
    ultimately show "node_log ls ?t L =
        node_log ls ?t p @ log_lines (sys_net ?t L p) @ pending_line (sys_thread ?t)"
      using eq by (simp flip: append_assoc)
  qed
  moreover have "accepted_line x = []" if "p \<noteq> L \<or> q = L" "x \<in> set (sys_net ?t p q)" for p q x
  proof -
    from that(2) consider "x \<in> set (sys_net s p q)" | d where "(d, x) \<in> set out"
      using msg by (auto simp: enqueue_def split: if_splits)
    then show ?thesis
      using inv that(1) h(3) by cases (auto simp: system_inv_def)
  qed
  moreover have "int_fits (c_roundId (sys_context ?t L))"
    using inv h(2) by (auto simp: system_inv_def sys_context_def int_fits_def)
  ultimately show ?thesis by (simp add: system_inv_def)
qed

lemma system_inv_step:
  assumes "system_inv n ls L s" and "consensus_step n ls L s t"
  shows "system_inv n ls L t"
  using assms(2)
proof (cases rule: consensus_step.cases)
  case (deliver src dst msg rest wtime st' out)
  with system_inv_deliver [OF assms(1)] show ?thesis by simp
next
  case (prepare wtime ctx out v)
  then have "ctx = (sys_context s L)\<lparr>c_roundId := generateUniqueId wtime\<rparr>"
    "out = broadcast_sends (messenger_start L n) (setMessage wtime (Consensus_Code PREPARE))"
    by (auto simp: broadcastPrepare_def Let_def)
  with prepare assms(1) show ?thesis
    by (auto intro!: system_inv_silent simp: int_fits_int32 broadcast_sends_def setMessage_def
        pending_line_def simp del: code_int.simps)
next
  case (promised v)
  with system_inv_silent [OF assms(1), where out = "[]" and ctx = "sys_context s L"] assms(1) show ?thesis
    by (auto simp: set_context_same enqueue_nothing pending_line_def system_inv_def)
next
  case (propose v wtime out)
  then have "accepted_line msg = []" if "(q, msg) \<in> set out" for q msg
    using that by (auto simp: broadcastPropose_def broadcast_sends_def Let_def simp del: code_int.simps)
  with system_inv_silent [OF assms(1), where out = out and ctx = "sys_context s L" and th = "Await_Accepts v"] propose assms(1)
  show ?thesis
    by (auto simp: set_context_same pending_line_def system_inv_def)
next
  case (accepted v)
  with system_inv_silent [OF assms(1), where out = "[]" and ctx = "sys_context s L"] assms(1) show ?thesis
    by (auto simp: set_context_same enqueue_nothing pending_line_def system_inv_def)
next
  case (append v)
  with assms(1) show ?thesis
    by (auto simp: system_inv_def logs_agree_def node_log_def log_file.contents_append
        pending_line_def sys_context_def)
next
  case (announce v wtime out)
  from announce(3) obtain ta where
    ta: "json_text [(''roundId'', JInt (c_roundId (sys_context s L))), (''value'', JString v)] = Inr ta"
    and out: "out = broadcast_sends (messenger_start L n)
      (setMessage_data wtime (Consensus_Code ACCEPTED) ta)"
    by (auto simp: broadcastAccepted_def)
  have line: "accepted_line (setMessage_data wtime (Consensus_Code ACCEPTED) ta) = v @ newline"
  proof (rule accepted_line_accepted [OF ta])
    show "int_fits (c_roundId (sys_context s L))"
      using assms(1) unfolding system_inv_def by blast
  qed
  have net: "enqueue L out (sys_net s) p q = sys_net s p q @
      (if p = L \<and> 0 \<le> q \<and> q < n \<and> q \<noteq> L
       then [setMessage_data wtime (Consensus_Code ACCEPTED) ta] else [])" for p q
    using broadcast_sends_to [of q L n] by (auto simp: enqueue_def out)
  from assms(1) announce(1,2) line net show ?thesis
    by (auto simp: system_inv_def logs_agree_def node_log_def pending_line_def sys_context_def)
next
  case reset
  with system_inv_silent [OF assms(1), where out = "[]" and ctx = consensus_context_init and th = Idle] show ?thesis
    by (auto simp: enqueue_nothing pending_line_def consensus_context_init_def int_fits_def)
qed

interpretation replication: step_invariant "system_start n ls L" "consensus_step n ls L"
  "system_inv n ls L"
  by unfold_locales (auto intro: system_inv_start system_inv_step)

text \<open>
  C2. Replication by one proposing node, for every interleaving of deliveries with the blocks of its
  \<open>startConsensus\<close> calls, any number of calls and any outcome of the votes: the log of every other node
  is a prefix of the proposer's log, and what is missing is exactly the entries announced to it that
  are still in its channel plus the one being announced.
\<close>

theorem replicated_logs_agree:
  assumes "reachable (system_start n ls L) (consensus_step n ls L) s"
    and "0 \<le> p" "p < n" "p \<noteq> L"
  shows "node_log ls s L =
    node_log ls s p @ log_lines (sys_net s L p) @ pending_line (sys_thread s)"
  using replication.reachable_holds [OF assms(1)] assms(2-4)
  by (simp add: system_inv_def logs_agree_def)

definition fresh_system :: "files \<Rightarrow> consensus_system" where
  "fresh_system fs =
     \<lparr>sys_nodes = (\<lambda>p. consensus_init fs), sys_net = (\<lambda>p q. []), sys_thread = Idle\<rparr>"

definition demo_logs :: "int \<Rightarrow> log_file_manager" where
  "demo_logs p = \<lparr>l_nodeId = p, l_logFilePath = ''log''\<rparr>"

lemma fresh_system_start: "system_start n demo_logs L (fresh_system fs)"
  by (simp add: system_start_def fresh_system_def sys_context_def node_log_def demo_logs_def
      consensus_init_def consensus_context_init_def log_read_def)

text \<open>A run in which node 0 of a single-vote cluster logs an entry and announces it.\<close>

lemma announced_run:
  "\<exists>s. reachable (system_start 2 demo_logs 0) (consensus_step 2 demo_logs 0) s \<and>
     sys_thread s = Announce ''x'' \<and> node_log demo_logs s 1 = [] \<and> sys_net s 0 1 =
       [setMessage 0 (Consensus_Code PREPARE)] @ tl (sys_net s 0 1) \<and>
     node_log demo_logs s 0 = ''x'' @ newline"
proof -
  let ?R = "reachable (system_start 2 demo_logs 0) (consensus_step 2 demo_logs 0)"
  let ?m = "messenger_start 0 2"
  let ?s0 = "fresh_system Map.empty"
  have vote: "receivePromises ?m ctx" "receiveAccepts ?m ctx"
    if "c_promiseCount ctx = 0" "c_acceptCount ctx = 0" for ctx
    using that by (simp_all add: receivePromises_def receiveAccepts_def majority_reached_def
        messenger_start_def)
  obtain ctx out where prep: "broadcastPrepare ?m 0 (sys_context ?s0 0) = (ctx, out)"
    by (cases "broadcastPrepare ?m 0 (sys_context ?s0 0)")
  then have ctx: "ctx = consensus_context_init\<lparr>c_roundId := 0\<rparr>"
    "out = broadcast_sends ?m (setMessage 0 (Consensus_Code PREPARE))"
    by (auto simp: broadcastPrepare_def Let_def fresh_system_def sys_context_def consensus_init_def
        generateUniqueId_def simp del: code_int.simps)
  define s1 where "s1 = (set_context 0 ctx ?s0)\<lparr>sys_net := enqueue 0 out (sys_net ?s0),
      sys_thread := Await_Promises ''x''\<rparr>"
  have "?R ?s0" by (rule reachable_start) (rule fresh_system_start)
  then have r1: "?R s1"
    unfolding s1_def
    by (rule reachable_step) (rule consensus_step.prepare [OF _ _ prep],
      simp_all add: fresh_system_def generateUniqueId_def is_int32_def ns_per_second_def)
  have c1: "sys_context s1 0 = ctx"
    by (simp add: s1_def set_context_def sys_context_def)
  define s2 where "s2 = s1\<lparr>sys_thread := Propose ''x''\<rparr>"
  have "sys_thread s1 = Await_Promises ''x''" by (simp add: s1_def)
  moreover have "receivePromises ?m (sys_context s1 0)"
    using vote [of ctx] c1 ctx(1) by (simp add: consensus_context_init_def)
  ultimately have r2: "?R s2"
    using reachable_step [OF r1 consensus_step.promised [of s1 "''x''" 2 demo_logs 0]]
    by (simp add: s2_def)
  obtain t where t: "json_text [(''roundId'', JInt 0), (''value'', JString ''x'')] = Inr t"
    using json_text_round_value_ok [of "''x''" 0] by (auto simp: valid_utf8_plain plain_char_def)
  have proposal: "broadcastPropose ?m 0 ''x'' (sys_context s2 0) =
      Inr (broadcast_sends ?m (setMessage_data 0 (Consensus_Code PROPOSE) t))"
    using c1 ctx(1) t
    by (simp add: s2_def sys_context_def broadcastPropose_def consensus_context_init_def)
  define s3 where "s3 = s2\<lparr>sys_net := enqueue 0
      (broadcast_sends ?m (setMessage_data 0 (Consensus_Code PROPOSE) t)) (sys_net s2),
      sys_thread := Await_Accepts ''x''\<rparr>"
  have r3: "?R s3"
    unfolding s3_def by (rule reachable_step [OF r2], rule consensus_step.propose [OF _ proposal])
      (simp add: s2_def)
  have c3: "sys_context s3 0 = ctx" using c1 by (simp add: s3_def s2_def sys_context_def)
  define s4 where "s4 = s3\<lparr>sys_thread := Append ''x''\<rparr>"
  have "sys_thread s3 = Await_Accepts ''x''" by (simp add: s3_def)
  moreover have "receiveAccepts ?m (sys_context s3 0)"
    using vote [of ctx] c3 ctx(1) by (simp add: consensus_context_init_def)
  ultimately have r4: "?R s4"
    using reachable_step [OF r3 consensus_step.accepted [of s3 "''x''" 2 demo_logs 0]]
    by (simp add: s4_def)
  define s5 where "s5 = s4\<lparr>sys_nodes := (sys_nodes s4)(0 := (sys_nodes s4 0)
      \<lparr>cs_files := log_append (demo_logs 0) ''x'' (cs_files (sys_nodes s4 0))\<rparr>),
      sys_thread := Announce ''x''\<rparr>"
  have "?R s5"
    unfolding s5_def by (rule reachable_step [OF r4], rule consensus_step.append) (simp add: s4_def)
  moreover have "node_log demo_logs s5 1 = []" "node_log demo_logs s5 0 = ''x'' @ newline"
    by (simp_all add: s5_def s4_def s3_def s2_def s1_def node_log_def set_context_def fresh_system_def
        consensus_init_def log_read_def log_append_def writeWithMode_def demo_logs_def)
  moreover have "sys_net s5 0 1 = setMessage 0 (Consensus_Code PREPARE) # tl (sys_net s5 0 1)"
    using broadcast_sends_to [of 1 0 2]
    by (simp add: s5_def s4_def s3_def s2_def s1_def enqueue_def ctx(2) fresh_system_def)
  ultimately show ?thesis by (intro exI [of _ s5]) (simp add: s5_def)
qed

theorem replicated_logs_agree_witness:
  "\<exists>s. reachable (system_start 2 demo_logs 0) (consensus_step 2 demo_logs 0) s \<and>
     node_log demo_logs s 0 = ''x'' @ newline \<and> node_log demo_logs s 1 = [] \<and>
     node_log demo_logs s 0 =
       node_log demo_logs s 1 @ log_lines (sys_net s 0 1) @ pending_line (sys_thread s)"
proof -
  from announced_run obtain s where
    s: "reachable (system_start 2 demo_logs 0) (consensus_step 2 demo_logs 0) s"
      "node_log demo_logs s 0 = ''x'' @ newline" "node_log demo_logs s 1 = []"
    by blast
  from replicated_logs_agree [OF s(1), of 1] s show ?thesis by auto
qed

end
