(* ===== verification/Consensus_Sync.thy ===== *)
theory Consensus_Sync
  imports Consensus_System
begin

text \<open>
  A whole round in which every node answers while the proposer sleeps: the PREPARE, PROPOSE and
  ACCEPTED broadcasts of \<open>startConsensus\<close> are handled by all other nodes and their replies by the
  proposer's receiver. The theorem is that the value ends up in every log.
\<close>

section \<open>The round\<close>

text \<open>Every destination of a broadcast handles its message; the replies come back in that order.\<close>

fun ask_all ::
  "int \<Rightarrow> (int \<Rightarrow> log_file_manager) \<Rightarrow> int \<Rightarrow> int \<Rightarrow> sends \<Rightarrow> (int \<Rightarrow> consensus_state) \<Rightarrow>
   ((int \<Rightarrow> consensus_state) \<times> handled_messages) res" where
  "ask_all n ls wtime L [] nodes = Inr (nodes, [])"
| "ask_all n ls wtime L ((p, msg) # out) nodes =
     res_bind (consensus_handleMessage (messenger_start p n) (ls p) wtime L msg (nodes p))
       (\<lambda>(st, replies).
     res_bind (ask_all n ls wtime L out (nodes(p := st))) (\<lambda>(nodes', rs).
       Inr (nodes', map (\<lambda>(_, m). (wtime, p, m)) replies @ rs)))"

definition accepted_sends :: "sends \<Rightarrow> sends" where
  "accepted_sends out = filter (\<lambda>(_, msg). m_code msg = code_int (Consensus_Code ACCEPTED)) out"

definition sync_round ::
  "int \<Rightarrow> (int \<Rightarrow> log_file_manager) \<Rightarrow> int \<Rightarrow> int \<Rightarrow> int \<Rightarrow> int \<Rightarrow> string \<Rightarrow> (int \<Rightarrow> consensus_state) \<Rightarrow>
   ((int \<Rightarrow> consensus_state) \<times> bool) res" where
  "sync_round n ls L w1 w2 w3 v nodes =
     (let m = messenger_start L n; (ctx, prepare) = broadcastPrepare m w1 (cs_context (nodes L)) in
      res_bind (ask_all n ls w1 L prepare nodes) (\<lambda>(nodes1, promises).
      res_bind (consensus_handle_all m (ls L) promises ((nodes L)\<lparr>cs_context := ctx\<rparr>)) (\<lambda>(counted, _).
      res_bind (broadcastPropose m w2 v (cs_context counted)) (\<lambda>propose.
      res_bind (ask_all n ls w2 L propose nodes1) (\<lambda>(nodes2, accepts).
      res_bind (startConsensus m (ls L) w1 w2 w3 (schedule.make promises [] accepts [] [] []) v (nodes L))
        (\<lambda>(st, out, reached).
      res_bind (ask_all n ls w3 L (accepted_sends out) nodes2) (\<lambda>(nodes3, _).
        Inr (nodes3(L := st), reached))))))))"

section \<open>What the other nodes do\<close>

lemma ask_all_each:
  assumes "distinct ps"
    and "\<And>p. p \<in> set ps \<Longrightarrow>
      consensus_handleMessage (messenger_start p n) (ls p) w L msg (nodes p) = Inr (f p, out p)"
  shows "ask_all n ls w L (map (\<lambda>p. (p, msg)) ps) nodes =
    Inr (\<lambda>p. if p \<in> set ps then f p else nodes p,
         concat (map (\<lambda>p. map (\<lambda>(_, m). (w, p, m)) (out p)) ps))"
  using assms
proof (induction ps arbitrary: nodes)
  case (Cons p ps)
  have "ask_all n ls w L (map (\<lambda>p. (p, msg)) ps) (nodes(p := f p)) =
      Inr (\<lambda>q. if q \<in> set ps then f q else (nodes(p := f p)) q,
           concat (map (\<lambda>p. map (\<lambda>(_, m). (w, p, m)) (out p)) ps))"
  proof (rule Cons.IH)
    show "distinct ps" using Cons.prems(1) by simp
    fix q assume "q \<in> set ps"
    moreover from this have "q \<noteq> p" using Cons.prems(1) by auto
    ultimately show "consensus_handleMessage (messenger_start q n) (ls q) w L msg ((nodes(p := f p)) q) =
        Inr (f q, out q)"
      using Cons.prems(2) by simp
  qed
  moreover have "(\<lambda>q. if q \<in> set ps then f q else (nodes(p := f p)) q) =
      (\<lambda>q. if q \<in> set (p # ps) then f q else nodes q)"
    by auto
  ultimately show ?case using Cons.prems(2) [of p] by (simp del: fun_upd_apply)
qed simp

lemma ask_prepare:
  assumes "distinct ps"
    and "\<And>p. p \<in> set ps \<Longrightarrow> cs_maxRoundId (nodes p) < generateUniqueId w1 \<and>
      cs_context (nodes p) = consensus_context_init"
  shows "\<exists>replies. ask_all n ls w L (map (\<lambda>p. (p, setMessage w1 (Consensus_Code PREPARE))) ps) nodes =
      Inr (\<lambda>p. if p \<in> set ps then (nodes p)\<lparr>cs_maxRoundId := generateUniqueId w1\<rparr> else nodes p, replies) \<and>
    promises_of (generateUniqueId w1) (replicate (length ps) None) replies"
proof -
  obtain t where t: "json_text [(''roundId'', JInt (generateUniqueId w1))] = Inr t"
    using json_text_round_ok by blast
  let ?reply = "setMessage_data w (Consensus_Code PROMISE) t"
  have handled: "consensus_handleMessage (messenger_start p n) (ls p) w L (setMessage w1 (Consensus_Code PREPARE))
      (nodes p) = Inr ((nodes p)\<lparr>cs_maxRoundId := generateUniqueId w1\<rparr>, [(L, ?reply)])"
    if "p \<in> set ps" for p
    using assms(2) [OF that] t
    by (simp add: consensus_handleMessage_def handlePrepareMessage_def Let_def
        consensus_context_init_def del: code_int.simps)
  have "promises_of (generateUniqueId w1) (replicate (length qs) None) (map (\<lambda>p. (w, p, ?reply)) qs)" for qs
    by (induction qs)
      (simp_all add: promises_of_def carries_def promise_fields_def t del: code_int.simps)
  with ask_all_each [OF assms(1) handled] show ?thesis by simp
qed

definition accepted_state :: "int \<Rightarrow> string \<Rightarrow> consensus_state \<Rightarrow> consensus_state" where
  "accepted_state r v st =
     st\<lparr>cs_context := (cs_context st)\<lparr>c_valueAccepted := True, c_acceptedId := r, c_acceptedValue := v\<rparr>\<rparr>"

lemma ask_propose:
  assumes "distinct ps" and "is_int32 r" and "\<And>p. p \<in> set ps \<Longrightarrow> cs_maxRoundId (nodes p) = r"
    and "json_text [(''roundId'', JInt r), (''value'', JString v)] = Inr tp"
  shows "\<exists>replies. ask_all n ls w L (map (\<lambda>p. (p, setMessage_data w2 (Consensus_Code PROPOSE) tp)) ps) nodes =
      Inr (\<lambda>p. if p \<in> set ps then accepted_state r v (nodes p) else nodes p, replies) \<and>
    accepts replies \<and> length replies = length ps"
proof -
  obtain t where t: "json_text [(''roundId'', JInt (generateUniqueId w2))] = Inr t"
    using json_text_round_ok by blast
  let ?reply = "setMessage_data w (Consensus_Code ACCEPT) t"
  have handled: "consensus_handleMessage (messenger_start p n) (ls p) w L
      (setMessage_data w2 (Consensus_Code PROPOSE) tp) (nodes p) =
      Inr (accepted_state r v (nodes p), [(L, ?reply)])"
    if "p \<in> set ps" for p
    using handlePropose_carries [OF carriesI [OF assms(4)] assms(2) t] assms(3) [OF that]
    by (simp add: consensus_handleMessage_def accepted_state_def del: code_int.simps)
  have "accepts (map (\<lambda>p. (w, p, ?reply)) qs)" for qs
    by (induction qs) (simp_all add: accepts_def del: code_int.simps)
  with ask_all_each [OF assms(1) handled] show ?thesis by simp
qed

definition logged_state :: "log_file_manager \<Rightarrow> string \<Rightarrow> consensus_state \<Rightarrow> consensus_state" where
  "logged_state l v st =
     st\<lparr>cs_files := log_append l v (cs_files st), cs_context := consensus_context_init\<rparr>"

lemma ask_accepted:
  assumes "distinct ps" and "is_int32 r"
    and "json_text [(''roundId'', JInt r), (''value'', JString v)] = Inr ta"
  shows "ask_all n ls w L (map (\<lambda>p. (p, setMessage_data w3 (Consensus_Code ACCEPTED) ta)) ps) nodes =
      Inr (\<lambda>p. if p \<in> set ps then logged_state (ls p) v (nodes p) else nodes p, [])"
proof -
  have "consensus_handleMessage (messenger_start p n) (ls p) w L
      (setMessage_data w3 (Consensus_Code ACCEPTED) ta) (nodes p) =
      Inr (logged_state (ls p) v (nodes p), [])" for p
    using handleAccepted_carries [OF carriesI [OF assms(3)] assms(2)]
    by (simp add: consensus_handleMessage_def logged_state_def del: code_int.simps)
  from ask_all_each [OF assms(1) this] show ?thesis by simp
qed

section \<open>The theorem\<close>

definition other_nodes :: "int \<Rightarrow> int \<Rightarrow> int list" where
  "other_nodes n L = filter (\<lambda>i. i \<noteq> L) [0..n - 1]"

lemma broadcast_other_nodes:
  "0 \<le> n \<Longrightarrow> broadcast_sends (messenger_start L n) msg = map (\<lambda>p. (p, msg)) (other_nodes n L)"
  by (simp add: broadcast_sends_def broadcast_targets_def messenger_start_def other_nodes_def)

lemma other_nodes_length:
  assumes "0 \<le> L" "L < n"
  shows "int (length (other_nodes n L)) = n - 1"
proof -
  have "set (other_nodes n L) = {0..<n} - {L}" by (auto simp: other_nodes_def)
  moreover have "distinct (other_nodes n L)" by (simp add: other_nodes_def)
  ultimately have "length (other_nodes n L) = card ({0..<n} - {L})" by (metis distinct_card)
  with assms show ?thesis by (simp add: card_Diff_singleton_if)
qed

lemma accepted_sends_broadcast:
  "accepted_sends (xs @ ys) = accepted_sends xs @ accepted_sends ys"
  "accepted_sends (map (\<lambda>p. (p, msg)) ps) =
     (if m_code msg = code_int (Consensus_Code ACCEPTED) then map (\<lambda>p. (p, msg)) ps else [])"
  by (induction ps) (simp_all add: accepted_sends_def)

lemma sync_round_result:
  assumes L: "0 \<le> L" "L < n" and r: "is_int32 (generateUniqueId w1)" and v: "valid_utf8 v"
    and ctx: "\<And>p. 0 \<le> p \<Longrightarrow> p < n \<Longrightarrow> cs_context (nodes p) = consensus_context_init"
    and lower: "\<And>p. 0 \<le> p \<Longrightarrow> p < n \<Longrightarrow> p \<noteq> L \<Longrightarrow> cs_maxRoundId (nodes p) < generateUniqueId w1"
  shows "sync_round n ls L w1 w2 w3 v nodes =
    Inr (\<lambda>p. if p = L then (nodes p)\<lparr>cs_files := log_append (ls p) v (cs_files (nodes p))\<rparr>
             else if 0 \<le> p \<and> p < n
             then logged_state (ls p) v ((nodes p)\<lparr>cs_maxRoundId := generateUniqueId w1\<rparr>)
             else nodes p, True)"
proof -
  define ps where "ps = other_nodes n L"
  have ps: "distinct ps" "set ps = {0..<n} - {L}" "int (length ps) = n - 1"
    using other_nodes_length [OF L] by (auto simp: ps_def other_nodes_def)
  have bc: "broadcast_sends (messenger_start L n) msg = map (\<lambda>p. (p, msg)) ps" for msg
    using L by (simp add: ps_def broadcast_other_nodes)
  have maj: "majority_reached (messenger_start L n) (int (length ps))"
    using L ps(3) by (simp add: majority_reached_def messenger_start_def)
  let ?accs = "replicate (length ps) None :: (int \<times> string) option list"
  obtain tv where tv: "json_text [(''roundId'', JInt (generateUniqueId w1)), (''value'', JString v)] = Inr tv"
    using json_text_round_value_ok [OF v] by blast
  have wf: "accs_wf ?accs" "values_valid ?accs"
    by (simp_all add: accs_wf_def values_valid_def list_all_iff)
  have chosen: "chosen_value v (counted_context (generateUniqueId w1) ?accs) = v"
    using chosen_value_highest [of ?accs "consensus_context_init\<lparr>c_roundId := generateUniqueId w1\<rparr>" v] wf(1)
    by (simp add: counted_context_def consensus_context_init_def list_all_iff)
  from ask_prepare [of ps nodes w1 n ls w1 L] ps ctx lower obtain promises where
    promises: "ask_all n ls w1 L (map (\<lambda>p. (p, setMessage w1 (Consensus_Code PREPARE))) ps) nodes =
      Inr (\<lambda>p. if p \<in> set ps then (nodes p)\<lparr>cs_maxRoundId := generateUniqueId w1\<rparr> else nodes p, promises)"
    and count: "promises_of (generateUniqueId w1) ?accs promises"
    by auto
  let ?nodes1 = "\<lambda>p. if p \<in> set ps then (nodes p)\<lparr>cs_maxRoundId := generateUniqueId w1\<rparr> else nodes p"
  from ask_propose [OF ps(1) r _ tv, of ?nodes1 n ls w2 L w2] obtain accs where
    accs: "ask_all n ls w2 L (map (\<lambda>p. (p, setMessage_data w2 (Consensus_Code PROPOSE) tv)) ps) ?nodes1 =
      Inr (\<lambda>p. if p \<in> set ps then accepted_state (generateUniqueId w1) v (?nodes1 p) else ?nodes1 p, accs)"
    "accepts accs" "length accs = length ps"
    by auto
  let ?ctx0 = "consensus_context_init\<lparr>c_roundId := generateUniqueId w1\<rparr>"
  have prepare: "broadcastPrepare (messenger_start L n) w1 (cs_context (nodes L)) =
      (?ctx0, map (\<lambda>p. (p, setMessage w1 (Consensus_Code PREPARE))) ps)"
    using ctx [OF L] bc by (simp add: broadcastPrepare_def Let_def)
  have counted: "consensus_handle_all (messenger_start L n) (ls L) promises ((nodes L)\<lparr>cs_context := ?ctx0\<rparr>) =
      Inr ((nodes L)\<lparr>cs_context := counted_context (generateUniqueId w1) ?accs\<rparr>, [])"
    using handle_promises [OF count r wf(1), of "(nodes L)\<lparr>cs_context := ?ctx0\<rparr>"]
    by (simp add: counted_context_def consensus_context_init_def)
  have round_id: "c_roundId (counted_context (generateUniqueId w1) ?accs) = generateUniqueId w1"
    by (simp only: counted_context_def fold_count_promise_fields) (simp add: consensus_context_init_def)
  have propose: "broadcastPropose (messenger_start L n) w2 v (counted_context (generateUniqueId w1) ?accs) =
      Inr (map (\<lambda>p. (p, setMessage_data w2 (Consensus_Code PROPOSE) tv)) ps)"
    using tv chosen bc round_id by (simp add: broadcastPropose_def chosen_value_def [symmetric])
  note start = startConsensus_result [OF count accs(2) wf(1) r v wf(2) ctx [OF L],
      unfolded chosen, OF tv tv, of "messenger_start L n" "ls L" w2 w3]
  have sends: "accepted_sends (broadcast_sends (messenger_start L n) (setMessage w1 (Consensus_Code PREPARE)) @
      broadcast_sends (messenger_start L n) (setMessage_data w2 (Consensus_Code PROPOSE) tv) @
      broadcast_sends (messenger_start L n) (setMessage_data w3 (Consensus_Code ACCEPTED) tv)) =
      map (\<lambda>p. (p, setMessage_data w3 (Consensus_Code ACCEPTED) tv)) ps"
    by (simp add: bc accepted_sends_broadcast) (simp add: consensus_codes_def)
  note logged = ask_accepted [OF ps(1) r tv, of n ls w3 L w3
      "\<lambda>p. if p \<in> set ps then accepted_state (generateUniqueId w1) v (?nodes1 p) else ?nodes1 p"]
  have final: "(\<lambda>p. if p \<in> set ps then logged_state (ls p) v (if p \<in> set ps
        then accepted_state (generateUniqueId w1) v (?nodes1 p) else ?nodes1 p)
      else (if p \<in> set ps then accepted_state (generateUniqueId w1) v (?nodes1 p) else ?nodes1 p))
      (L := (nodes L)\<lparr>cs_files := log_append (ls L) v (cs_files (nodes L))\<rparr>) =
    (\<lambda>p. if p = L then (nodes p)\<lparr>cs_files := log_append (ls p) v (cs_files (nodes p))\<rparr>
             else if 0 \<le> p \<and> p < n
             then logged_state (ls p) v ((nodes p)\<lparr>cs_maxRoundId := generateUniqueId w1\<rparr>)
             else nodes p)"
    using ps(2) by (auto simp: fun_eq_iff logged_state_def accepted_state_def)
  have select: "cs_context ((nodes L)\<lparr>cs_context := c\<rparr>) = c" for c
    by simp
  show ?thesis
    using maj accs(3)
    by (simp only: select sync_round_def Let_def prepare split promises counted propose accs(1)
        res_bind_simps consensus_state.simps start length_replicate if_True simp_thms sends logged final)
qed



end
