(* ===== verification/Election_Manager.thy ===== *)
theory Election_Manager
  imports Receiver_Loop Network
begin

text \<open>
  \<open>election-manager.cc\<close>: the bully election. The receiver's handlers, the thread started by
  \<open>startElection\<close> and the thread an \<open>ALIVE\<close> message starts are modelled one block under the mutex at
  a time; a thread is the point it has reached. Clocks are arguments: \<open>wtime\<close> is MPI's clock for
  message ids and \<open>now\<close> that of \<open>std::chrono\<close>.
\<close>

section \<open>State\<close>

record election_state =
  e_leaderNodeId :: int
  e_aliveReceived :: bool
  e_start :: time_point

definition election_init :: election_state where
  "election_init = \<lparr>e_leaderNodeId = -1, e_aliveReceived = False, e_start = 0\<rparr>"

definition election_wait_duration :: int where
  "election_wait_duration = 2"

definition getLeaderNodeId :: "election_state \<Rightarrow> int" where
  "getLeaderNodeId st = e_leaderNodeId st"

definition setLeaderNodeId :: "int \<Rightarrow> election_state \<Rightarrow> election_state" where
  "setLeaderNodeId v st = st\<lparr>e_leaderNodeId := v\<rparr>"

definition gotLeader :: "election_state \<Rightarrow> bool" where
  "gotLeader st \<longleftrightarrow> e_leaderNodeId st \<noteq> -1"

definition setAliveReceived :: "bool \<Rightarrow> election_state \<Rightarrow> election_state" where
  "setAliveReceived v st = st\<lparr>e_aliveReceived := v\<rparr>"

section \<open>Operations\<close>

text \<open>\<open>ELECTION\<close> goes to the nodes with higher ids only.\<close>

definition broadcastElection ::
  "messenger \<Rightarrow> int \<Rightarrow> time_point \<Rightarrow> election_state \<Rightarrow> election_state \<times> sends" where
  "broadcastElection m wtime now st =
     (st\<lparr>e_aliveReceived := False, e_leaderNodeId := -1, e_start := now\<rparr>,
      map (\<lambda>i. (i, setMessage wtime (Leader_Election_Code ELECTION)))
        (broadcast_targets (m_rank m + 1) (-1) False m))"

definition declareVictory_sends :: "messenger \<Rightarrow> int \<Rightarrow> sends" where
  "declareVictory_sends m wtime = broadcast_sends m (setMessage wtime (Leader_Election_Code VICTORY))"

definition respondAlive :: "int \<Rightarrow> int \<Rightarrow> sends" where
  "respondAlive wtime srcNodeId = [(srcNodeId, setMessage wtime (Leader_Election_Code ALIVE))]"

text \<open>The condition of the loop in \<open>waitForVictory\<close>.\<close>

definition keepWaiting :: "time_point \<Rightarrow> election_state \<Rightarrow> bool" where
  "keepWaiting cur st \<longleftrightarrow>
     e_aliveReceived st \<or>
     e_leaderNodeId st = -1 \<and> elapsed_seconds cur (e_start st) < election_wait_duration"

text \<open>The third result says whether an \<open>aliveWait\<close> thread is started.\<close>

definition election_handleMessage ::
  "messenger \<Rightarrow> int \<Rightarrow> time_point \<Rightarrow> int \<Rightarrow> message \<Rightarrow> election_state \<Rightarrow>
   election_state \<times> sends \<times> bool" where
  "election_handleMessage m wtime now srcNodeId msg st =
     (case leader_election_code_of_int (m_code msg) of
        Some ELECTION \<Rightarrow>
          (let (st', out) = broadcastElection m wtime now st in
           (st', respondAlive wtime srcNodeId @ out, False))
      | Some ALIVE \<Rightarrow> (st, [], srcNodeId > m_rank m)
      | Some VICTORY \<Rightarrow> (setLeaderNodeId srcNodeId st, [], False)
      | _ \<Rightarrow> (st, [], False))"

definition election_stopReceiver :: "messenger \<Rightarrow> int \<Rightarrow> sends" where
  "election_stopReceiver m wtime =
     [(m_rank m, setMessage wtime (Leader_Election_Code Election_SHUTDOWN))]"

section \<open>Threads\<close>

text \<open>
  \<open>triggerElection\<close> is at \<open>Trigger\<close>, then in the loop of \<open>waitForVictory\<close>, then at the test after it,
  and, when it won, about to set itself as leader and to enable the clients. \<open>aliveWait\<close> is about to
  set the flag, asleep, or about to clear it.
\<close>

datatype election_thread =
    Trigger
  | Wait_Victory
  | Decide
  | Set_Leader
  | Enable_Clients
  | Alive_Set
  | Alive_Sleep
  | Alive_Clear
  | Thread_Done

definition election_thread_step ::
  "messenger \<Rightarrow> int \<Rightarrow> time_point \<Rightarrow> election_thread \<Rightarrow> election_state \<Rightarrow>
   election_thread \<times> election_state \<times> sends" where
  "election_thread_step m wtime now th st =
     (case th of
        Trigger \<Rightarrow> (let (st', out) = broadcastElection m wtime now st in (Wait_Victory, st', out))
      | Wait_Victory \<Rightarrow> (if keepWaiting now st then Wait_Victory else Decide, st, [])
      | Decide \<Rightarrow>
          if \<not> gotLeader st then (Set_Leader, st, declareVictory_sends m wtime)
          else (Thread_Done, st, [])
      | Set_Leader \<Rightarrow> (Enable_Clients, setLeaderNodeId (m_rank m) st, [])
      | Enable_Clients \<Rightarrow> (Thread_Done, st, [])
      | Alive_Set \<Rightarrow> (Alive_Sleep, setAliveReceived True st, [])
      | Alive_Sleep \<Rightarrow>
          if \<not> gotLeader st then
            (let (st', out) = broadcastElection m wtime now st in (Alive_Clear, st', out))
          else (Alive_Clear, st, [])
      | Alive_Clear \<Rightarrow> (Thread_Done, setAliveReceived False st, [])
      | Thread_Done \<Rightarrow> (Thread_Done, st, []))"

text \<open>\<open>startElection\<close>, also called by \<open>init\<close> and by the failure manager.\<close>

definition startElection :: "election_thread list \<Rightarrow> election_thread list" where
  "startElection ths = ths @ [Trigger]"

section \<open>The wait loop\<close>

text \<open>
  The loop of \<open>waitForVictory\<close> over the clock and the state it sees at each round: the number of
  rounds it takes, if it ends.
\<close>

fun wait_rounds :: "(time_point \<times> election_state) list \<Rightarrow> nat option" where
  "wait_rounds [] = None"
| "wait_rounds ((cur, st) # rounds) =
     (if keepWaiting cur st then map_option Suc (wait_rounds rounds) else Some 1)"

lemma wait_rounds_Some:
  "wait_rounds rounds = Some k \<longleftrightarrow>
     0 < k \<and> k \<le> length rounds \<and> \<not> keepWaiting (fst (rounds ! (k - 1))) (snd (rounds ! (k - 1))) \<and>
     (\<forall>i < k - 1. keepWaiting (fst (rounds ! i)) (snd (rounds ! i)))"
proof (induction rounds arbitrary: k rule: wait_rounds.induct)
  case (2 cur st rounds)
  show ?case
  proof (cases "keepWaiting cur st")
    case True
    show ?thesis
    proof (cases k)
      case (Suc j)
      with True 2 [OF True, of j] show ?thesis
        by (cases j) (auto simp: nth_Cons' less_Suc_eq_0_disj all_conj_distrib)
    qed (use True in simp)
  next
    case False
    then show ?thesis by (cases k) (auto simp: nth_Cons' all_conj_distrib)
  qed
qed auto

lemma pos_div_less:
  fixes s x j :: int
  assumes "0 < s"
  shows "x div s < j \<longleftrightarrow> x < j * s"
proof
  assume "x div s < j"
  then have "(x div s + 1) * s \<le> j * s" using assms by (intro mult_right_mono) auto
  moreover have "x < (x div s + 1) * s"
    using assms by (metis distrib_right div_mod_decomp_int mult_1 pos_mod_bound add_less_cancel_left)
  ultimately show "x < j * s" by linarith
next
  assume "x < j * s"
  then show "x div s < j"
    using assms by (metis not_less mult_right_mono order_le_less_trans less_imp_le
        div_mod_decomp_int le_add_same_cancel1 pos_mod_sign order_less_irrefl)
qed

text \<open>The polls of a loop that sees the same state each time, one every \<open>step\<close> nanoseconds.\<close>

definition polls :: "time_point \<Rightarrow> int \<Rightarrow> nat \<Rightarrow> election_state \<Rightarrow> (time_point \<times> election_state) list" where
  "polls t0 step k st = map (\<lambda>i. (t0 + int (i + 1) * step, st)) [0..<k]"

lemma wait_rounds_polls:
  assumes "e_start st = t0" "0 < step" "\<not> e_aliveReceived st" "e_leaderNodeId st = -1"
    and "k = nat ((2 * ns_per_second + step - 1) div step)" "k \<le> l"
  shows "wait_rounds (polls t0 step l st) = Some k"
proof -
  have wait: "keepWaiting (t0 + j * step) st \<longleftrightarrow> j * step < 2 * ns_per_second" if "0 \<le> j" for j
  proof -
    from that assms(2) have "0 \<le> j * step" by simp
    then have "2 \<le> elapsed_seconds (t0 + j * step) t0 \<longleftrightarrow> 2 * ns_per_second \<le> j * step"
      using elapsed_seconds_le_iff [of t0 "t0 + j * step" 2] by simp
    then show ?thesis
      using assms(1,3,4) by (auto simp: keepWaiting_def election_wait_duration_def)
  qed
  have le: "int k \<le> j \<longleftrightarrow> 2 * ns_per_second \<le> j * step" if "0 \<le> j" for j
  proof -
    have "(2 * ns_per_second + step - 1) div step \<le> j \<longleftrightarrow> 2 * ns_per_second \<le> j * step"
    proof -
      have "(2 * ns_per_second + step - 1) div step < j + 1 \<longleftrightarrow>
          2 * ns_per_second + step - 1 < (j + 1) * step"
        using assms(2) by (rule pos_div_less)
      then show ?thesis by (auto simp: distrib_right)
    qed
    moreover have "0 \<le> (2 * ns_per_second + step - 1) div step"
      using assms(2) by (simp add: pos_imp_zdiv_nonneg_iff ns_per_second_def)
    ultimately show ?thesis using assms(5) that by simp
  qed
  have "0 < k" using le [of 0] by (simp add: ns_per_second_def)
  moreover have "\<not> keepWaiting (t0 + int k * step) st"
    using wait [of "int k"] le [of "int k"] by simp
  moreover have "keepWaiting (t0 + int (i + 1) * step) st" if "i < k - 1" for i
    using wait [of "int (i + 1)"] le [of "int (i + 1)"] that by linarith
  ultimately show ?thesis
    using assms(6) by (auto simp: wait_rounds_Some polls_def)
qed

text \<open>
  A node that sent ELECTION, polls every \<open>step\<close> nanoseconds and hears neither ALIVE nor VICTORY
  leaves the wait loop at the first poll at least two seconds after the election started, and then
  announces itself to every other node and becomes its own leader; as long as the flag of a
  received ALIVE is set the loop never ends, and once a leader is known (and the flag is clear) it
  ends at the next poll without announcing anything.
\<close>

lemma waitForVictory_outcome:
  assumes "e_start st = t0" "0 < step" "\<not> e_aliveReceived st"
    and "nat ((2 * ns_per_second + step - 1) div step) \<le> l"
  shows "(e_leaderNodeId st = -1 \<longrightarrow>
      wait_rounds (polls t0 step l st) = Some (nat ((2 * ns_per_second + step - 1) div step)) \<and>
      election_thread_step m wtime now Decide st = (Set_Leader, st, declareVictory_sends m wtime) \<and>
      election_thread_step m wtime now Set_Leader st =
        (Enable_Clients, st\<lparr>e_leaderNodeId := m_rank m\<rparr>, [])) \<and>
    wait_rounds (polls t0 step l (st\<lparr>e_aliveReceived := True\<rparr>)) = None \<and>
    (e_leaderNodeId st \<noteq> -1 \<and> 0 < l \<longrightarrow>
      wait_rounds (polls t0 step l st) = Some 1 \<and>
      election_thread_step m wtime now Decide st = (Thread_Done, st, []))"
proof -
  have "wait_rounds (polls t0 step l (st\<lparr>e_aliveReceived := True\<rparr>)) = None"
    by (rule ccontr) (auto simp: wait_rounds_Some polls_def keepWaiting_def)
  moreover have "wait_rounds (polls t0 step l st) = Some 1" if "e_leaderNodeId st \<noteq> -1" "0 < l"
    using that assms(3) by (simp add: wait_rounds_Some polls_def keepWaiting_def)
  ultimately show ?thesis
    using wait_rounds_polls [OF assms(1-3) _ refl assms(4)]
    by (auto simp: election_thread_step_def gotLeader_def setLeaderNodeId_def)
qed

end
