(* ===== verification/Election_System.thy ===== *)
theory Election_System
  imports Election_Manager
begin

text \<open>
  The cluster of election managers: the nodes' states and threads, one FIFO channel per ordered pair
  of nodes, and arbitrary clocks. Messages may be lost, as those to and from nodes marked as failed
  are. \<open>el_declared\<close> is a history variable: the nodes that have announced themselves.
\<close>

section \<open>The system\<close>

record election_system =
  el_nodes :: "int \<Rightarrow> election_state"
  el_threads :: "int \<Rightarrow> election_thread list"
  el_net :: "int \<Rightarrow> int \<Rightarrow> message list"
  el_declared :: "int set"

text \<open>A step of the receivers, of a thread or of the network.\<close>

inductive election_step :: "int \<Rightarrow> election_system \<Rightarrow> election_system \<Rightarrow> bool" for n :: int where
  deliver:
    "el_net s src dst = msg # rest \<Longrightarrow>
     election_handleMessage (messenger_start dst n) wtime now src msg (el_nodes s dst) = (st', out, spawn) \<Longrightarrow>
     election_step n s
       (s\<lparr>el_nodes := (el_nodes s)(dst := st'),
          el_threads := (if spawn then (el_threads s)(dst := el_threads s dst @ [Alive_Set])
                         else el_threads s),
          el_net := enqueue dst out ((el_net s)(src := (el_net s src)(dst := rest)))\<rparr>)"
| thread:
    "0 \<le> p \<Longrightarrow> p < n \<Longrightarrow> i < length (el_threads s p) \<Longrightarrow>
     election_thread_step (messenger_start p n) wtime now (el_threads s p ! i) (el_nodes s p) =
       (th', st', out) \<Longrightarrow>
     election_step n s
       (s\<lparr>el_nodes := (el_nodes s)(p := st'),
          el_threads := (el_threads s)(p := (el_threads s p)[i := th']),
          el_net := enqueue p out (el_net s),
          el_declared := (if th' = Set_Leader then insert p (el_declared s) else el_declared s)\<rparr>)"
| lose:
    "el_net s src dst = msg # rest \<Longrightarrow>
     election_step n s (s\<lparr>el_net := (el_net s)(src := (el_net s src)(dst := rest))\<rparr>)"

text \<open>Any node may start an election at any time.\<close>

inductive election_system_step :: "int \<Rightarrow> election_system \<Rightarrow> election_system \<Rightarrow> bool" for n :: int where
  quiet: "election_step n s t \<Longrightarrow> election_system_step n s t"
| trigger:
    "0 \<le> p \<Longrightarrow> p < n \<Longrightarrow>
     election_system_step n s (s\<lparr>el_threads := (el_threads s)(p := startElection (el_threads s p))\<rparr>)"

definition election_start :: "int \<Rightarrow> election_system \<Rightarrow> bool" where
  "election_start n s \<longleftrightarrow>
     (\<forall>p. el_nodes s p = election_init \<and> el_threads s p = startElection []) \<and>
     (\<forall>p q. el_net s p q = [])"

inductive_cases election_system_stepE: "election_system_step n s t"

section \<open>What the messages say\<close>

abbreviation election_code :: "message \<Rightarrow> leader_election_code option" where
  "election_code msg \<equiv> leader_election_code_of_int (m_code msg)"

text \<open>
  A message a node \<open>p\<close> of the cluster may have in its channel to \<open>q\<close>: elections go up, answers go
  down, and a victory comes from a node that announced itself.
\<close>

definition message_legal :: "int \<Rightarrow> int set \<Rightarrow> int \<Rightarrow> int \<Rightarrow> message \<Rightarrow> bool" where
  "message_legal n declared p q msg \<longleftrightarrow>
     0 \<le> p \<and> p < n \<and> 0 \<le> q \<and> q < n \<and>
     (case election_code msg of
        Some ELECTION \<Rightarrow> p < q
      | Some ALIVE \<Rightarrow> q < p
      | Some VICTORY \<Rightarrow> p \<in> declared
      | _ \<Rightarrow> False)"

definition alive_thread :: "election_thread \<Rightarrow> bool" where
  "alive_thread th \<longleftrightarrow> th = Alive_Set \<or> th = Alive_Sleep \<or> th = Alive_Clear"

definition election_inv :: "int \<Rightarrow> election_system \<Rightarrow> bool" where
  "election_inv n s \<longleftrightarrow>
     (\<forall>p q msg. msg \<in> set (el_net s p q) \<longrightarrow> message_legal n (el_declared s) p q msg) \<and>
     (\<forall>p. e_leaderNodeId (el_nodes s p) \<noteq> -1 \<longrightarrow>
        e_leaderNodeId (el_nodes s p) \<in> el_declared s \<and>
        0 \<le> e_leaderNodeId (el_nodes s p) \<and> e_leaderNodeId (el_nodes s p) < n) \<and>
     (\<forall>p. Set_Leader \<in> set (el_threads s p) \<longrightarrow> p \<in> el_declared s) \<and>
     \<not> e_aliveReceived (el_nodes s (n - 1)) \<and>
     (\<forall>th \<in> set (el_threads s (n - 1)). \<not> alive_thread th)"

lemma broadcastElection_legal:
  assumes "broadcastElection (messenger_start p n) wtime now st = (st', out)" and "(q, msg) \<in> set out"
    and "0 \<le> p" "p < n"
  shows "message_legal n D p q msg"
  using assms
  by (auto simp: broadcastElection_def broadcast_targets_def messenger_start_def message_legal_def
      simp del: code_int.simps)

lemma declareVictory_legal:
  assumes "(q, msg) \<in> set (declareVictory_sends (messenger_start p n) wtime)"
    and "0 \<le> p" "p < n" "p \<in> D"
  shows "message_legal n D p q msg"
  using assms
  by (auto simp: declareVictory_sends_def broadcast_sends_def broadcast_targets_def
      messenger_start_def message_legal_def simp del: code_int.simps split: if_splits)

lemma message_legal_mono: "message_legal n D p q msg \<Longrightarrow> D \<subseteq> D' \<Longrightarrow> message_legal n D' p q msg"
  by (auto simp: message_legal_def split: option.splits leader_election_code.splits)

text \<open>One handler: what it sends, whom it takes as leader, and when it starts a thread.\<close>

lemma election_handle_props:
  assumes "election_handleMessage (messenger_start q n) wtime now p msg st = (st', out, spawn)"
    and "message_legal n D p q msg"
  shows "\<And>d x. (d, x) \<in> set out \<Longrightarrow> message_legal n D q d x"
    and "e_leaderNodeId st' \<in> {-1, e_leaderNodeId st} \<or> (e_leaderNodeId st' = p \<and> p \<in> D)"
    and "e_aliveReceived st' \<Longrightarrow> e_aliveReceived st"
    and "spawn \<Longrightarrow> q < p"
proof -
  have pq: "0 \<le> q" "q < n" "0 \<le> p" "p < n" using assms(2) by (auto simp: message_legal_def)
  obtain be out' where be: "broadcastElection (messenger_start q n) wtime now st = (be, out')"
    by (cases "broadcastElection (messenger_start q n) wtime now st")
  then have be': "e_leaderNodeId be = -1" "\<not> e_aliveReceived be"
    by (auto simp: broadcastElection_def)
  note legal = broadcastElection_legal [OF be _ pq(1,2), of _ _ D]
  have rank: "m_rank (messenger_start q n) = q" by (simp add: messenger_start_def)
  show "message_legal n D q d x" if "(d, x) \<in> set out" for d x
    using that assms pq legal [of d x]
    by (auto simp: election_handleMessage_def be Let_def respondAlive_def message_legal_def
        simp del: code_int.simps split: option.splits leader_election_code.splits)
  show "e_leaderNodeId st' \<in> {-1, e_leaderNodeId st} \<or> (e_leaderNodeId st' = p \<and> p \<in> D)"
    using assms be'
    by (auto simp: election_handleMessage_def be Let_def setLeaderNodeId_def message_legal_def
        split: option.splits leader_election_code.splits)
  show "e_aliveReceived st' \<Longrightarrow> e_aliveReceived st"
    using assms(1) be'
    by (auto simp: election_handleMessage_def be Let_def setLeaderNodeId_def
        split: option.splits leader_election_code.splits)
  show "spawn \<Longrightarrow> q < p"
    using assms(1) rank
    by (auto simp: election_handleMessage_def be Let_def
        split: option.splits leader_election_code.splits)
qed

lemma election_thread_props:
  assumes "election_thread_step (messenger_start p n) wtime now th st = (th', st', out)"
    and "0 \<le> p" "p < n"
  shows "\<And>d x. (d, x) \<in> set out \<Longrightarrow>
      message_legal n (if th' = Set_Leader then insert p D else D) p d x"
    and "e_leaderNodeId st' \<in> {-1, e_leaderNodeId st} \<or> (e_leaderNodeId st' = p \<and> th = Set_Leader)"
    and "e_aliveReceived st' \<Longrightarrow> e_aliveReceived st \<or> th = Alive_Set"
    and "alive_thread th' \<Longrightarrow> alive_thread th"
proof -
  obtain be out' where be: "broadcastElection (messenger_start p n) wtime now st = (be, out')"
    by (cases "broadcastElection (messenger_start p n) wtime now st")
  then have be': "e_leaderNodeId be = -1" "\<not> e_aliveReceived be"
    by (auto simp: broadcastElection_def)
  note legal = broadcastElection_legal [OF be _ assms(2,3)]
  have rank: "m_rank (messenger_start p n) = p" by (simp add: messenger_start_def)
  show "message_legal n (if th' = Set_Leader then insert p D else D) p d x" if "(d, x) \<in> set out" for d x
    using that assms legal [of d x] declareVictory_legal [of d x p n wtime "insert p D"]
    by (auto simp: election_thread_step_def be Let_def split: election_thread.splits if_splits)
  show "e_leaderNodeId st' \<in> {-1, e_leaderNodeId st} \<or> (e_leaderNodeId st' = p \<and> th = Set_Leader)"
    using assms(1) be' rank
    by (auto simp: election_thread_step_def be Let_def setLeaderNodeId_def setAliveReceived_def
        split: election_thread.splits if_splits)
  show "e_aliveReceived st' \<Longrightarrow> e_aliveReceived st \<or> th = Alive_Set"
    using assms(1) be'
    by (auto simp: election_thread_step_def be Let_def setLeaderNodeId_def setAliveReceived_def
        split: election_thread.splits if_splits)
  show "alive_thread th' \<Longrightarrow> alive_thread th"
    using assms(1)
    by (auto simp: election_thread_step_def be Let_def alive_thread_def
        split: election_thread.splits if_splits)
qed

section \<open>The invariant\<close>

lemma in_enqueue:
  "msg \<in> set (enqueue src out net p q) \<longleftrightarrow> msg \<in> set (net p q) \<or> (p = src \<and> (q, msg) \<in> set out)"
  by (force simp: enqueue_def)

lemma set_list_updateD: "x \<in> set (xs[i := y]) \<Longrightarrow> x \<in> set xs \<or> x = y"
  using set_update_subset_insert [of xs i y] by auto

lemma election_inv_start: "election_start n s \<Longrightarrow> election_inv n s"
  by (auto simp: election_start_def election_inv_def election_init_def startElection_def alive_thread_def)

lemma election_inv_step:
  assumes inv: "election_inv n s" and "election_step n s t"
  shows "election_inv n t"
  using assms(2)
proof (cases rule: election_step.cases)
  case (deliver src dst msg rest wtime now st' out spawn)
  from inv deliver(2) have legal: "message_legal n (el_declared s) src dst msg"
    by (auto simp: election_inv_def)
  note props = election_handle_props [OF deliver(3) legal]
  have range: "0 \<le> src" "src < n" using legal by (auto simp: message_legal_def)
  show ?thesis
    unfolding election_inv_def
  proof (intro conjI allI impI)
    fix p q x assume "x \<in> set (el_net t p q)"
    then have "x \<in> set (el_net s p q) \<or> p = dst \<and> (q, x) \<in> set out"
      using deliver(1,2) by (auto simp: in_enqueue split: if_splits)
    then show "message_legal n (el_declared t) p q x"
      using inv props(1) deliver(1) by (auto simp: election_inv_def)
  next
    fix p assume "e_leaderNodeId (el_nodes t p) \<noteq> -1"
    then show "e_leaderNodeId (el_nodes t p) \<in> el_declared t"
      and "0 \<le> e_leaderNodeId (el_nodes t p)" and "e_leaderNodeId (el_nodes t p) < n"
      using inv props(2) range deliver(1) by (auto simp: election_inv_def split: if_splits)
  next
    fix p assume "Set_Leader \<in> set (el_threads t p)"
    then show "p \<in> el_declared t"
      using inv deliver(1) by (auto simp: election_inv_def split: if_splits)
  next
    show "\<not> e_aliveReceived (el_nodes t (n - 1))"
      using inv props(3) deliver(1) by (auto simp: election_inv_def)
  next
    have "\<not> spawn \<or> dst \<noteq> n - 1" using props(4) range by auto
    then show "\<forall>th \<in> set (el_threads t (n - 1)). \<not> alive_thread th"
      using inv deliver(1) by (auto simp: election_inv_def)
  qed
next
  case (thread p i wtime now th' st' out)
  note props = election_thread_props [OF thread(5,2,3)]
  have th: "el_threads s p ! i \<in> set (el_threads s p)" using thread(4) by simp
  have D: "el_declared t = (if th' = Set_Leader then insert p (el_declared s) else el_declared s)"
    using thread(1) by simp
  then have mono: "el_declared s \<subseteq> el_declared t" by auto
  show ?thesis
    unfolding election_inv_def
  proof (intro conjI allI impI)
    fix a b x assume "x \<in> set (el_net t a b)"
    then consider "x \<in> set (el_net s a b)" | "a = p" "(b, x) \<in> set out"
      using thread(1) by (auto simp: in_enqueue)
    then show "message_legal n (el_declared t) a b x"
    proof cases
      case 1
      with inv have "message_legal n (el_declared s) a b x" by (auto simp: election_inv_def)
      then show ?thesis using mono by (rule message_legal_mono)
    next
      case 2
      with props(1) [of b x "el_declared s"] D show ?thesis by simp
    qed
  next
    fix q assume q: "e_leaderNodeId (el_nodes t q) \<noteq> -1"
    have "p \<in> el_declared s" if "el_threads s p ! i = Set_Leader"
      using that inv th by (auto simp: election_inv_def)
    with q show "e_leaderNodeId (el_nodes t q) \<in> el_declared t"
      and "0 \<le> e_leaderNodeId (el_nodes t q)" and "e_leaderNodeId (el_nodes t q) < n"
      using inv props(2) thread(1-3) mono by (auto simp: election_inv_def split: if_splits)
  next
    fix q assume "Set_Leader \<in> set (el_threads t q)"
    then show "q \<in> el_declared t"
      using inv thread(1) by (auto simp: election_inv_def split: if_splits dest!: set_list_updateD)
  next
    have "el_threads s p ! i \<noteq> Alive_Set" if "p = n - 1"
      using that inv th by (auto simp: election_inv_def alive_thread_def)
    then show "\<not> e_aliveReceived (el_nodes t (n - 1))"
      using inv props(3) thread(1) by (auto simp: election_inv_def)
  next
    have "\<not> alive_thread th'" if "p = n - 1"
      using that inv th props(4) by (auto simp: election_inv_def)
    then show "\<forall>th \<in> set (el_threads t (n - 1)). \<not> alive_thread th"
      using inv thread(1) by (auto simp: election_inv_def dest!: set_list_updateD)
  qed
next
  case (lose src dst msg rest)
  with inv show ?thesis by (auto simp: election_inv_def split: if_splits)
qed

lemma election_inv_system_step:
  "election_inv n s \<Longrightarrow> election_system_step n s t \<Longrightarrow> election_inv n t"
proof (elim election_system_stepE)
  fix p assume "election_inv n s"
    and "t = s\<lparr>el_threads := (el_threads s)(p := startElection (el_threads s p))\<rparr>"
  then show ?thesis by (auto simp: election_inv_def startElection_def alive_thread_def)
qed (rule election_inv_step)

interpretation election: step_invariant "election_start n" "election_system_step n" "election_inv n"
  by unfold_locales (auto intro: election_inv_start election_inv_system_step)

text \<open>
  C16. The order of the bully algorithm holds in every reachable state of the cluster, whatever is lost,
  delayed or triggered again: an ELECTION in a channel goes to a higher node, an ALIVE to a lower
  one, and a VICTORY comes from a node that announced itself. Therefore the highest node is never
  told to wait: its flag is never set and it never runs an \<open>aliveWait\<close> thread.
\<close>

theorem election_messages_ordered:
  assumes "reachable (election_start n) (election_system_step n) s"
    and "msg \<in> set (el_net s p q)"
  shows "(election_code msg = Some ELECTION \<longrightarrow> p < q) \<and>
    (election_code msg = Some ALIVE \<longrightarrow> q < p) \<and>
    (election_code msg = Some VICTORY \<longrightarrow> p \<in> el_declared s) \<and>
    \<not> e_aliveReceived (el_nodes s (n - 1)) \<and>
    filter alive_thread (el_threads s (n - 1)) = []"
proof -
  note inv = election.reachable_holds [OF assms(1)]
  then have "message_legal n (el_declared s) p q msg"
    using assms(2) by (simp add: election_inv_def)
  then show ?thesis
    using inv by (auto simp: election_inv_def message_legal_def filter_empty_conv
        split: option.splits leader_election_code.splits)
qed

definition election_fresh :: election_system where
  "election_fresh = \<lparr>el_nodes = (\<lambda>p. election_init), el_threads = (\<lambda>p. startElection []),
     el_net = (\<lambda>p q. []), el_declared = {}\<rparr>"

text \<open>Node 0 of two has sent its ELECTION message.\<close>

lemma election_sent:
  "\<exists>s. reachable (election_start 2) (election_system_step 2) s \<and>
     setMessage 0 (Leader_Election_Code ELECTION) \<in> set (el_net s 0 1) \<and>
     e_leaderNodeId (el_nodes s 0) = -1"
proof (intro exI conjI)
  let ?th = "election_thread_step (messenger_start 0 2) 0 0 (el_threads election_fresh 0 ! 0)
    (el_nodes election_fresh 0)"
  let ?s = "election_fresh\<lparr>el_nodes := (el_nodes election_fresh)(0 := fst (snd ?th)),
      el_threads := (el_threads election_fresh)(0 := (el_threads election_fresh 0)[0 := fst ?th]),
      el_net := enqueue 0 (snd (snd ?th)) (el_net election_fresh),
      el_declared := (if fst ?th = Set_Leader then insert 0 (el_declared election_fresh)
                      else el_declared election_fresh)\<rparr>"
  have "reachable (election_start 2) (election_system_step 2) election_fresh"
    by (rule reachable_start) (simp add: election_start_def election_fresh_def)
  then show "reachable (election_start 2) (election_system_step 2) ?s"
    by (rule reachable_step, intro quiet election_step.thread [of 0 2 0 _ 0 0])
      (simp_all add: election_fresh_def startElection_def)
  show "setMessage 0 (Leader_Election_Code ELECTION) \<in> set (el_net ?s 0 1)"
    by (simp add: in_enqueue election_fresh_def startElection_def election_thread_step_def
        broadcastElection_def broadcast_targets_def messenger_start_def)
  show "e_leaderNodeId (el_nodes ?s 0) = -1"
    by (simp add: election_fresh_def startElection_def election_thread_step_def broadcastElection_def)
qed

theorem election_messages_ordered_witness:
  "\<exists>s. reachable (election_start 2) (election_system_step 2) s \<and>
     setMessage 0 (Leader_Election_Code ELECTION) \<in> set (el_net s 0 1) \<and>
     \<not> e_aliveReceived (el_nodes s 1) \<and> filter alive_thread (el_threads s 1) = []"
proof -
  from election_sent obtain s where
    s: "reachable (election_start 2) (election_system_step 2) s"
      "setMessage 0 (Leader_Election_Code ELECTION) \<in> set (el_net s 0 1)"
    by blast
  from election_messages_ordered [OF s] s show ?thesis by auto
qed

text \<open>
  A node's leader is always either unknown (-1) or a node of the cluster that has announced itself
  as the winner of an election.
\<close>

lemma leader_was_declared:
  assumes "reachable (election_start n) (election_system_step n) s"
  shows "e_leaderNodeId (el_nodes s p) = -1 \<or>
    (0 \<le> e_leaderNodeId (el_nodes s p) \<and> e_leaderNodeId (el_nodes s p) < n \<and>
     e_leaderNodeId (el_nodes s p) \<in> el_declared s)"
  using election.reachable_holds [OF assms] by (auto simp: election_inv_def)

section \<open>Stability\<close>

text \<open>
  All nodes take \<open>L\<close> as leader, no election is being triggered or won, and the messages still under
  way are answers or \<open>L\<close>'s own announcement.
\<close>

definition settled_threads :: "election_thread set" where
  "settled_threads =
     {Wait_Victory, Decide, Enable_Clients, Alive_Set, Alive_Sleep, Alive_Clear, Thread_Done}"

definition settled :: "int \<Rightarrow> int \<Rightarrow> election_system \<Rightarrow> bool" where
  "settled n L s \<longleftrightarrow>
     0 \<le> L \<and> L < n \<and>
     (\<forall>p. 0 \<le> p \<and> p < n \<longrightarrow> e_leaderNodeId (el_nodes s p) = L) \<and>
     (\<forall>p q msg. msg \<in> set (el_net s p q) \<longrightarrow>
        election_code msg = Some ALIVE \<or> election_code msg = Some VICTORY \<and> p = L) \<and>
     (\<forall>p. set (el_threads s p) \<subseteq> settled_threads)"

lemma settled_step:
  assumes inv: "settled n L s" and "election_step n s t"
  shows "settled n L t"
  using assms(2)
proof (cases rule: election_step.cases)
  case (deliver src dst msg rest wtime now st' out spawn)
  have "msg \<in> set (el_net s src dst)" using deliver(2) by simp
  with inv have "election_code msg = Some ALIVE \<or> election_code msg = Some VICTORY \<and> src = L"
    unfolding settled_def by blast
  with deliver(3) have "out = []" and st': "st' = el_nodes s dst \<or> e_leaderNodeId st' = L"
    by (auto simp: election_handleMessage_def setLeaderNodeId_def)
  with deliver(1,2) have net: "msg' \<in> set (el_net s p q)" if "msg' \<in> set (el_net t p q)" for p q msg'
    using that by (auto simp: in_enqueue split: if_splits)
  have "set (el_threads t p) \<subseteq> insert Alive_Set (set (el_threads s p))" for p
    using deliver(1) by auto
  moreover have "Alive_Set \<in> settled_threads" by (simp add: settled_threads_def)
  ultimately have "set (el_threads t p) \<subseteq> settled_threads" for p
    using inv unfolding settled_def by blast
  moreover have "election_code msg' = Some ALIVE \<or> election_code msg' = Some VICTORY \<and> p = L"
    if "msg' \<in> set (el_net t p q)" for p q msg'
    using inv net [OF that] unfolding settled_def by blast
  moreover have "e_leaderNodeId (el_nodes t p) = L" if "0 \<le> p" "p < n" for p
    using inv that st' deliver(1) by (auto simp: settled_def)
  ultimately show ?thesis using inv unfolding settled_def by blast
next
  case (thread p i wtime now th' st' out)
  define th where "th = el_threads s p ! i"
  have th: "th \<in> settled_threads"
    using inv thread(4) nth_mem [OF thread(4)] unfolding settled_def th_def by blast
  have leader: "e_leaderNodeId (el_nodes s p) = L" "gotLeader (el_nodes s p)"
    using inv thread(2,3) by (auto simp: settled_def gotLeader_def)
  with th thread(5) have "out = []" "e_leaderNodeId st' = L"
    and th': "th' \<in> settled_threads"
    by (auto simp: th_def [symmetric] settled_threads_def election_thread_step_def setAliveReceived_def split: if_splits)
  moreover have "set (el_threads t q) \<subseteq> insert th' (set (el_threads s q))" for q
    using thread(1) by (auto dest: set_list_updateD)
  with th' have "set (el_threads t q) \<subseteq> settled_threads" for q
    using inv unfolding settled_def by blast
  ultimately show ?thesis
    using inv thread(1) unfolding settled_def by (auto simp: in_enqueue)
next
  case (lose src dst msg rest)
  then have net: "msg' \<in> set (el_net s p q)" if "msg' \<in> set (el_net t p q)" for p q msg'
    using that by (auto split: if_splits)
  have same: "el_nodes t = el_nodes s" "el_threads t = el_threads s" using lose by simp_all
  have "election_code msg' = Some ALIVE \<or> election_code msg' = Some VICTORY \<and> p = L"
    if "msg' \<in> set (el_net t p q)" for p q msg'
    using inv net [OF that] unfolding settled_def by blast
  with inv same show ?thesis unfolding settled_def by simp
qed

interpretation stable_leader: step_invariant "settled n L" "election_step n" "settled n L"
  by unfold_locales (auto intro: settled_step)

text \<open>
  An agreed leader is stable: once all nodes follow \<open>L\<close> and no election is under way, they follow
  \<open>L\<close> after any further steps of receivers, waiting threads and network, however late the remaining
  threads wake up, as long as no node triggers a new election.
\<close>

lemma agreed_leader_is_stable:
  assumes "(election_step n)\<^sup>*\<^sup>* s t" and "settled n L s" and "0 \<le> p" "p < n"
  shows "e_leaderNodeId (el_nodes t p) = L \<and> settled n L t"
  using stable_leader.steps_hold [OF assms(1,2)] assms(3,4) by (simp add: settled_def)

end
