(* ===== verification/Election_Timed.thy ===== *)
theory Election_Timed
  imports Election_System
begin

text \<open>
  The election managers with a clock. A message is delivered and a thread takes its next step within \<open>d\<close>
  nanoseconds; the wait for a victory and the sleep after an ALIVE are those of the code. The theory shows
  that an election that all nodes start ends with the highest node as everyone's leader, and that one that
  the highest node does not start itself never makes it the leader.
\<close>

declare code_int.simps [simp del]

section \<open>The system with a clock\<close>

text \<open>Messages carry the time they were sent at, threads the time they came to their present point at.\<close>

record timed_election =
  te_now :: time_point
  te_nodes :: "int \<Rightarrow> election_state"
  te_threads :: "int \<Rightarrow> (time_point \<times> election_thread) list"
  te_net :: "int \<Rightarrow> int \<Rightarrow> (time_point \<times> message) list"

definition timed_enqueue ::
  "time_point \<Rightarrow> int \<Rightarrow> sends \<Rightarrow> (int \<Rightarrow> int \<Rightarrow> (time_point \<times> message) list) \<Rightarrow> int \<Rightarrow> int \<Rightarrow> (time_point \<times> message) list" where
  "timed_enqueue now src out net p q =
     net p q @ (if p = src then map (\<lambda>x. (now, snd x)) (filter (\<lambda>x. fst x = q) out) else [])"

text \<open>The wait for a victory takes two seconds; \<open>aliveWait\<close> sleeps for \<open>ELECTION_WAIT_DURATION * 2\<close> seconds.\<close>

definition timeout :: time_point where
  "timeout = election_wait_duration * ns_per_second"

definition alive_sleep :: time_point where
  "alive_sleep = election_wait_duration * 2 * ns_per_second"

lemma timeout_pos: "0 < timeout" "alive_sleep = 2 * timeout"
  by (simp_all add: timeout_def alive_sleep_def election_wait_duration_def ns_per_second_def)

definition thread_limit :: "time_point \<Rightarrow> election_thread \<Rightarrow> time_point" where
  "thread_limit d th = (if th = Alive_Sleep then alive_sleep + d else d)"

text \<open>At \<open>now\<close> no message and no thread is late.\<close>

definition in_time :: "time_point \<Rightarrow> time_point \<Rightarrow> timed_election \<Rightarrow> bool" where
  "in_time d now s \<longleftrightarrow>
     (\<forall>p q. \<forall>x \<in> set (te_net s p q). now \<le> fst x + d) \<and>
     (\<forall>p. \<forall>x \<in> set (te_threads s p). snd x = Thread_Done \<or> now \<le> fst x + thread_limit d (snd x))"

inductive timed_step :: "int \<Rightarrow> time_point \<Rightarrow> timed_election \<Rightarrow> timed_election \<Rightarrow> bool"
  for n :: int and d :: time_point
where
  te_deliver:
    "te_net s src dst = (ts, msg) # rest \<Longrightarrow>
     election_handleMessage (messenger_start dst n) wtime (te_now s) src msg (te_nodes s dst) = (st', out, spawn) \<Longrightarrow>
     timed_step n d s
       (s\<lparr>te_nodes := (te_nodes s)(dst := st'),
          te_threads := (te_threads s)(dst := te_threads s dst @ (if spawn then [(te_now s, Alive_Set)] else [])),
          te_net := timed_enqueue (te_now s) dst out ((te_net s)(src := (te_net s src)(dst := rest)))\<rparr>)"
| te_thread:
    "0 \<le> p \<Longrightarrow> p < n \<Longrightarrow> i < length (te_threads s p) \<Longrightarrow> te_threads s p ! i = (t0, th) \<Longrightarrow>
     th = Alive_Sleep \<longrightarrow> t0 + alive_sleep \<le> te_now s \<Longrightarrow>
     election_thread_step (messenger_start p n) wtime (te_now s) th (te_nodes s p) = (th', st', out) \<Longrightarrow>
     timed_step n d s
       (s\<lparr>te_nodes := (te_nodes s)(p := st'),
          te_threads := (te_threads s)(p := (te_threads s p)[i := (te_now s, th')]),
          te_net := timed_enqueue (te_now s) p out (te_net s)\<rparr>)"
| te_tick:
    "te_now s \<le> now \<Longrightarrow> in_time d now s \<Longrightarrow> timed_step n d s (s\<lparr>te_now := now\<rparr>)"

text \<open>The nodes of \<open>P\<close> have called \<open>startElection\<close> at time 0.\<close>

definition timed_start :: "int set \<Rightarrow> timed_election \<Rightarrow> bool" where
  "timed_start P s \<longleftrightarrow> te_now s = 0 \<and> te_nodes s = (\<lambda>_. election_init) \<and>
     te_threads s = (\<lambda>p. if p \<in> P then [(0, Trigger)] else []) \<and> te_net s = (\<lambda>_ _. [])"

section \<open>Without the clock\<close>

definition untimed :: "int set \<Rightarrow> timed_election \<Rightarrow> election_system" where
  "untimed D s = \<lparr>el_nodes = te_nodes s, el_threads = (\<lambda>p. map snd (te_threads s p)),
     el_net = (\<lambda>p q. map snd (te_net s p q)), el_declared = D\<rparr>"

text \<open>Every step of the system with a clock is a step of \<open>Election_System\<close>, or time that passes.\<close>

lemma timed_step_untimed:
  assumes "timed_step n d s t"
  shows "untimed D t = untimed D s \<or> (\<exists>D'. election_step n (untimed D s) (untimed D' t) \<and>
    D' - D \<subseteq> {p. Set_Leader \<in> snd ` set (te_threads t p)})"
  using assms
proof (cases rule: timed_step.cases)
  case (te_deliver src dst ts msg rest wtime st' out spawn)
  have "el_net (untimed D s) src dst = msg # map snd rest"
    using te_deliver(2) by (simp add: untimed_def)
  moreover have "election_handleMessage (messenger_start dst n) wtime (te_now s) src msg
      (el_nodes (untimed D s) dst) = (st', out, spawn)"
    using te_deliver(3) by (simp add: untimed_def)
  ultimately have "election_step n (untimed D s) (untimed D t)"
    using election_step.deliver [of "untimed D s" src dst msg "map snd rest" n wtime "te_now s" st' out spawn]
    unfolding te_deliver(1)
    by (auto simp: untimed_def timed_enqueue_def enqueue_def comp_def fun_eq_iff elim!: back_subst [of "election_step n _"])
  then show ?thesis by blast
next
  case (te_thread p i t0 th wtime th' st' out)
  have "election_thread_step (messenger_start p n) wtime (te_now s) (el_threads (untimed D s) p ! i)
      (el_nodes (untimed D s) p) = (th', st', out)"
    using te_thread(4,5,7) by (simp add: untimed_def)
  moreover have "i < length (el_threads (untimed D s) p)" using te_thread(4) by (simp add: untimed_def)
  ultimately have "election_step n (untimed D s)
      (untimed (if th' = Set_Leader then insert p D else D) t)"
    using election_step.thread [of p n i "untimed D s" wtime "te_now s" th' st' out] te_thread(2,3)
    unfolding te_thread(1)
    by (auto simp: untimed_def timed_enqueue_def enqueue_def comp_def fun_eq_iff map_update elim!: back_subst [of "election_step n _"])
  moreover have "(te_now s, th') \<in> set (te_threads t p)"
    using te_thread(4) by (simp add: te_thread(1) set_update_memI)
  then have "(if th' = Set_Leader then insert p D else D) - D \<subseteq> {p. Set_Leader \<in> snd ` set (te_threads t p)}"
    by (auto split: if_splits intro: rev_image_eqI)
  ultimately show ?thesis by blast
next
  case (te_tick now)
  then show ?thesis by (simp add: untimed_def)
qed

section \<open>What one step adds\<close>

lemma in_timed_enqueue:
  "x \<in> set (timed_enqueue now src out net p q) \<longleftrightarrow>
     x \<in> set (net p q) \<or> p = src \<and> fst x = now \<and> (q, snd x) \<in> set out"
  by (cases x) (force simp: timed_enqueue_def)

abbreviation code_is :: "leader_election_code \<Rightarrow> time_point \<times> message \<Rightarrow> bool" where
  "code_is c x \<equiv> election_code (snd x) = Some c"

lemma broadcastElection_eq:
  "broadcastElection m wtime now st =
     (st\<lparr>e_aliveReceived := False, e_leaderNodeId := -1, e_start := now\<rparr>, snd (broadcastElection m wtime now st))"
  by (simp add: broadcastElection_def)

lemma broadcastElection_sends:
  "(q, msg) \<in> set (snd (broadcastElection (messenger_start p n) wtime now st)) \<longleftrightarrow>
     p < q \<and> q < n \<and> msg = setMessage wtime (Leader_Election_Code ELECTION)"
  by (auto simp: broadcastElection_def broadcast_targets_def messenger_start_def)

lemma declareVictory_sends_iff:
  "(q, msg) \<in> set (declareVictory_sends (messenger_start p n) wtime) \<longleftrightarrow>
     0 \<le> q \<and> q < n \<and> q \<noteq> p \<and> msg = setMessage wtime (Leader_Election_Code VICTORY)"
  by (auto simp: declareVictory_sends_def broadcast_sends_def broadcast_targets_def messenger_start_def)

lemma handle_election:
  assumes "election_code msg = Some ELECTION"
    and "election_handleMessage (messenger_start q n) wtime now src msg st = (st', out, spawn)"
  shows "st' = st\<lparr>e_aliveReceived := False, e_leaderNodeId := -1, e_start := now\<rparr>" and "\<not> spawn"
    and "(b, m) \<in> set out \<longleftrightarrow> b = src \<and> m = setMessage wtime (Leader_Election_Code ALIVE) \<or>
      q < b \<and> b < n \<and> m = setMessage wtime (Leader_Election_Code ELECTION)"
proof -
  let ?be = "broadcastElection (messenger_start q n) wtime now st"
  have "st' = fst ?be" "\<not> spawn" "out = respondAlive wtime src @ snd ?be"
    using assms by (auto simp: election_handleMessage_def split: prod.splits)
  then show "st' = st\<lparr>e_aliveReceived := False, e_leaderNodeId := -1, e_start := now\<rparr>" and "\<not> spawn"
    and "(b, m) \<in> set out \<longleftrightarrow> b = src \<and> m = setMessage wtime (Leader_Election_Code ALIVE) \<or>
      q < b \<and> b < n \<and> m = setMessage wtime (Leader_Election_Code ELECTION)"
    by (simp_all add: respondAlive_def broadcastElection_sends) (simp add: broadcastElection_def)
qed

lemma handle_alive:
  assumes "election_code msg = Some ALIVE"
    and "election_handleMessage (messenger_start q n) wtime now src msg st = (st', out, spawn)"
  shows "st' = st" "out = []" "spawn \<longleftrightarrow> q < src"
  using assms by (auto simp: election_handleMessage_def messenger_start_def)

lemma handle_victory:
  assumes "election_code msg = Some VICTORY"
    and "election_handleMessage (messenger_start q n) wtime now src msg st = (st', out, spawn)"
  shows "st' = st\<lparr>e_leaderNodeId := src\<rparr>" "out = []" "\<not> spawn"
  using assms by (auto simp: election_handleMessage_def setLeaderNodeId_def)

lemma election_codes_simps [simp]:
  "election_code (setMessage wtime (Leader_Election_Code c)) = Some c"
  by simp

lemma keepWaiting_iff:
  assumes "0 \<le> e_start st" "e_start st \<le> now"
  shows "keepWaiting now st \<longleftrightarrow> e_aliveReceived st \<or>
    e_leaderNodeId st = -1 \<and> now < e_start st + timeout"
  using elapsed_seconds_le_iff [OF assms(2), of election_wait_duration]
  by (auto simp: keepWaiting_def timeout_def)

section \<open>The invariant of an election that all nodes start\<close>

definition clock_ok :: "time_point \<Rightarrow> timed_election \<Rightarrow> bool" where
  "clock_ok d s \<longleftrightarrow> 0 \<le> te_now s \<and> in_time d (te_now s) s \<and>
     (\<forall>p. \<forall>x \<in> set (te_threads s p). 0 \<le> fst x \<and> fst x \<le> te_now s \<and>
        (snd x = Trigger \<longrightarrow> fst x = 0) \<and> (snd x = Alive_Clear \<longrightarrow> alive_sleep \<le> fst x)) \<and>
     (\<forall>p. 0 \<le> e_start (te_nodes s p) \<and> e_start (te_nodes s p) \<le> te_now s)"

text \<open>The ELECTION messages that answer others end after \<open>n\<close> hops: node \<open>p\<close> sends its last one by \<open>(p + 1) * d\<close>.\<close>

definition elections_ok :: "int \<Rightarrow> time_point \<Rightarrow> timed_election \<Rightarrow> bool" where
  "elections_ok n d s \<longleftrightarrow>
     (\<forall>p q. \<forall>x \<in> set (te_net s p q). code_is ELECTION x \<longrightarrow> fst x \<le> (p + 1) * d) \<and>
     (\<forall>p. 0 \<le> p \<and> p < n \<longrightarrow> e_start (te_nodes s p) \<le> (p + 1) * d)"

text \<open>Before the highest node has announced itself, and after it.\<close>

definition undecided :: "int \<Rightarrow> time_point \<Rightarrow> timed_election \<Rightarrow> time_point \<Rightarrow> election_thread \<Rightarrow> bool" where
  "undecided n d s t0 th \<longleftrightarrow>
     th \<in> {Trigger, Wait_Victory, Decide} \<and> (\<forall>p. 0 \<le> p \<and> p < n \<longrightarrow> e_leaderNodeId (te_nodes s p) = -1) \<and>
     (\<forall>p q. \<forall>x \<in> set (te_net s p q). \<not> code_is VICTORY x) \<and>
     (th = Wait_Victory \<longrightarrow> t0 \<le> n * d + timeout) \<and>
     (th = Decide \<longrightarrow> timeout \<le> t0 \<and> t0 \<le> n * d + timeout + d)"

definition decided :: "int \<Rightarrow> time_point \<Rightarrow> timed_election \<Rightarrow> time_point \<Rightarrow> election_thread \<Rightarrow> bool" where
  "decided n d s t0 th \<longleftrightarrow>
     th \<in> {Set_Leader, Enable_Clients, Thread_Done} \<and>
     (\<forall>p. 0 \<le> p \<and> p < n \<longrightarrow> e_leaderNodeId (te_nodes s p) \<in> {-1, n - 1}) \<and>
     (\<forall>p q. \<forall>x \<in> set (te_net s p q). code_is VICTORY x \<longrightarrow> p = n - 1) \<and>
     (th \<noteq> Set_Leader \<longrightarrow> e_leaderNodeId (te_nodes s (n - 1)) = n - 1) \<and>
     (\<exists>v. timeout \<le> v \<and> v \<le> n * d + timeout + 2 * d \<and> v \<le> te_now s \<and> (th = Set_Leader \<longrightarrow> t0 = v) \<and>
       (\<forall>p. 0 \<le> p \<and> p < n - 1 \<longrightarrow> e_leaderNodeId (te_nodes s p) = n - 1 \<or>
         (\<exists>x \<in> set (te_net s (n - 1) p). fst x = v \<and> code_is VICTORY x)))"

definition leader_ok :: "int \<Rightarrow> time_point \<Rightarrow> timed_election \<Rightarrow> bool" where
  "leader_ok n d s \<longleftrightarrow>
     (\<exists>t0 th. te_threads s (n - 1) = [(t0, th)] \<and> (undecided n d s t0 th \<or> decided n d s t0 th))"

text \<open>
  A lower node that has no leader yet has been told to wait since its last ELECTION message, or the answer
  of the highest node is on its way.
\<close>

definition answer_comes :: "int \<Rightarrow> time_point \<Rightarrow> timed_election \<Rightarrow> int \<Rightarrow> bool" where
  "answer_comes n d s p \<longleftrightarrow>
     (let start = e_start (te_nodes s p) in
      (\<exists>x \<in> set (te_net s p (n - 1)). fst x = start \<and> code_is ELECTION x) \<or>
      (\<exists>x \<in> set (te_net s (n - 1) p). fst x \<le> start + d \<and> code_is ALIVE x) \<or>
      (\<exists>x \<in> set (te_threads s p). fst x \<le> start + 2 * d \<and> snd x = Alive_Set) \<or>
      e_aliveReceived (te_nodes s p))"

lemma answer_comesI:
  "x \<in> set (te_net s p (n - 1)) \<Longrightarrow> fst x = e_start (te_nodes s p) \<Longrightarrow> code_is ELECTION x \<Longrightarrow> answer_comes n d s p"
  "x \<in> set (te_net s (n - 1) p) \<Longrightarrow> fst x \<le> e_start (te_nodes s p) + d \<Longrightarrow> code_is ALIVE x \<Longrightarrow> answer_comes n d s p"
  "y \<in> set (te_threads s p) \<Longrightarrow> fst y \<le> e_start (te_nodes s p) + 2 * d \<Longrightarrow> snd y = Alive_Set \<Longrightarrow> answer_comes n d s p"
  "e_aliveReceived (te_nodes s p) \<Longrightarrow> answer_comes n d s p"
  by (auto simp: answer_comes_def Let_def)

definition lower_ok :: "int \<Rightarrow> time_point \<Rightarrow> timed_election \<Rightarrow> int \<Rightarrow> bool" where
  "lower_ok n d s p \<longleftrightarrow>
     (\<exists>t0 th rest. te_threads s p = (t0, th) # rest \<and> th \<in> {Trigger, Wait_Victory, Decide, Thread_Done} \<and>
       (th = Decide \<longrightarrow> e_leaderNodeId (te_nodes s p) = n - 1) \<and>
       (\<forall>x \<in> set rest. alive_thread (snd x) \<or> snd x = Thread_Done) \<and>
       (e_leaderNodeId (te_nodes s p) = -1 \<longrightarrow> th = Trigger \<or> answer_comes n d s p))"

definition timed_inv :: "int \<Rightarrow> time_point \<Rightarrow> timed_election \<Rightarrow> bool" where
  "timed_inv n d s \<longleftrightarrow> (\<exists>D. election_inv n (untimed D s)) \<and> clock_ok d s \<and> elections_ok n d s \<and>
     leader_ok n d s \<and> (\<forall>p. 0 \<le> p \<and> p < n - 1 \<longrightarrow> lower_ok n d s p)"

section \<open>What the invariant says about the time\<close>

lemma in_time_message:
  "clock_ok d s \<Longrightarrow> x \<in> set (te_net s p q) \<Longrightarrow> te_now s \<le> fst x + d"
  by (simp add: clock_ok_def in_time_def)

lemma in_time_thread:
  "clock_ok d s \<Longrightarrow> (t0, th) \<in> set (te_threads s p) \<Longrightarrow> th \<noteq> Thread_Done \<Longrightarrow> te_now s \<le> t0 + thread_limit d th"
  by (fastforce simp: clock_ok_def in_time_def)

lemma thread_times:
  assumes "clock_ok d s" and "(t0, th) \<in> set (te_threads s p)"
  shows "0 \<le> t0" "t0 \<le> te_now s" "th = Trigger \<Longrightarrow> t0 = 0" "th = Alive_Clear \<Longrightarrow> alive_sleep \<le> t0"
  using assms by (fastforce simp: clock_ok_def)+

lemma legal_messages:
  assumes "timed_inv n d s" and "x \<in> set (te_net s p q)"
  shows "0 \<le> p \<and> p < n \<and> 0 \<le> q \<and> q < n \<and>
    (code_is ELECTION x \<and> p < q \<or> code_is ALIVE x \<and> q < p \<or> code_is VICTORY x)"
proof -
  obtain D where "election_inv n (untimed D s)" using assms(1) by (auto simp: timed_inv_def)
  moreover have "snd x \<in> set (el_net (untimed D s) p q)" using assms(2) by (simp add: untimed_def)
  ultimately have "message_legal n (el_declared (untimed D s)) p q (snd x)" unfolding election_inv_def by blast
  then show ?thesis
    by (auto simp: message_legal_def split: option.splits leader_election_code.splits)
qed

lemma highest_not_told_to_wait:
  assumes "timed_inv n d s"
  shows "\<not> e_aliveReceived (te_nodes s (n - 1))" and "x \<in> set (te_threads s (n - 1)) \<Longrightarrow> \<not> alive_thread (snd x)"
  using assms by (auto simp: timed_inv_def election_inv_def untimed_def)

lemma election_early:
  assumes inv: "timed_inv n d s" and "(n + 3) * d < timeout" "0 \<le> d"
    and x: "x \<in> set (te_net s p q)" "code_is ELECTION x"
  shows "te_now s \<le> (q + 1) * d" and "te_now s < timeout" and "p < q"
proof -
  have pq: "p < q" "q < n" using legal_messages [OF inv x(1)] x(2) by auto
  have "fst x \<le> (p + 1) * d" using inv x unfolding timed_inv_def elections_ok_def by blast
  moreover have "te_now s \<le> fst x + d" using inv x(1) by (auto simp: timed_inv_def in_time_message)
  ultimately have "te_now s \<le> (p + 2) * d" by (simp add: algebra_simps)
  also have "\<dots> \<le> (q + 1) * d" using pq(1) assms(3) by (intro mult_right_mono) auto
  finally show le: "te_now s \<le> (q + 1) * d" .
  also have "\<dots> \<le> (n + 3) * d" using pq(2) assms(3) by (intro mult_right_mono) auto
  finally show "te_now s < timeout" using assms(2) by simp
  show "p < q" by (rule pq(1))
qed

lemma early_undecided:
  assumes "timed_inv n d s" and "te_now s < timeout"
  obtains t0 th where "te_threads s (n - 1) = [(t0, th)]" "undecided n d s t0 th"
  using assms by (auto simp: timed_inv_def leader_ok_def decided_def)

lemma leaderless_early:
  assumes inv: "timed_inv n d s" and d: "0 \<le> d" "0 < n"
    and p: "0 \<le> p" "p < n" "e_leaderNodeId (te_nodes s p) = -1"
  shows "te_now s \<le> (n + 3) * d + timeout"
proof -
  have clock: "clock_ok d s" using inv by (simp add: timed_inv_def)
  define N where "N = n * d"
  have nd: "0 \<le> N" "(n + 3) * d = N + 3 * d" using d by (simp_all add: N_def algebra_simps)
  note timeout_pos(1)
  obtain t0 th where th: "te_threads s (n - 1) = [(t0, th)]" "undecided n d s t0 th \<or> decided n d s t0 th"
    using inv by (auto simp: timed_inv_def leader_ok_def)
  have limit: "th \<noteq> Thread_Done \<Longrightarrow> te_now s \<le> t0 + thread_limit d th"
    using in_time_thread [OF clock, of t0 th "n - 1"] th(1) by simp
  have t0: "th = Trigger \<Longrightarrow> t0 = 0" using thread_times(3) [OF clock, of t0 th "n - 1"] th(1) by simp
  from th(2) show ?thesis
  proof
    assume "undecided n d s t0 th"
    then show ?thesis
      using limit t0 d(1) nd \<open>0 < timeout\<close> unfolding undecided_def N_def [symmetric]
      by (auto simp: thread_limit_def)
  next
    assume dec: "decided n d s t0 th"
    then obtain v where v: "v \<le> N + timeout + 2 * d" "th = Set_Leader \<longrightarrow> t0 = v"
      "\<And>p. 0 \<le> p \<Longrightarrow> p < n - 1 \<Longrightarrow> e_leaderNodeId (te_nodes s p) = n - 1 \<or>
         (\<exists>x \<in> set (te_net s (n - 1) p). fst x = v \<and> code_is VICTORY x)"
      by (auto simp: decided_def N_def)
    show ?thesis
    proof (cases "p = n - 1")
      case True
      with dec p(3) d(2) have "th = Set_Leader" by (auto simp: decided_def)
      with limit v d nd show ?thesis by (simp add: thread_limit_def)
    next
      case False
      with v(3) [of p] p d(2) obtain x where "x \<in> set (te_net s (n - 1) p)" "fst x = v" by auto
      with in_time_message [OF clock] v(1) nd d show ?thesis by fastforce
    qed
  qed
qed

section \<open>Deliveries\<close>

text \<open>The delivery of the first message of a channel, and the state after it.\<close>

definition delivery ::
  "int \<Rightarrow> timed_election \<Rightarrow> int \<Rightarrow> int \<Rightarrow> time_point \<times> message \<Rightarrow> election_state \<Rightarrow> sends \<Rightarrow> bool \<Rightarrow> timed_election \<Rightarrow> bool" where
  "delivery n s src dst x st' out spawn t \<longleftrightarrow>
     (\<exists>wtime rest. te_net s src dst = x # rest \<and>
        election_handleMessage (messenger_start dst n) wtime (te_now s) src (snd x) (te_nodes s dst) = (st', out, spawn) \<and>
        t = s\<lparr>te_nodes := (te_nodes s)(dst := st'),
          te_threads := (te_threads s)(dst := te_threads s dst @ (if spawn then [(te_now s, Alive_Set)] else [])),
          te_net := timed_enqueue (te_now s) dst out ((te_net s)(src := (te_net s src)(dst := rest)))\<rparr>)"

lemma delivery_state:
  assumes "delivery n s src dst y st' out spawn t"
  shows "te_now t = te_now s" and "te_nodes t = (te_nodes s)(dst := st')"
    and "te_threads t = (te_threads s)(dst := te_threads s dst @ (if spawn then [(te_now s, Alive_Set)] else []))"
    and "y \<in> set (te_net s src dst)"
  using assms by (auto simp: delivery_def)

lemma delivery_net:
  assumes "delivery n s src dst y st' out spawn t"
  shows "x \<in> set (te_net t p q) \<Longrightarrow> x \<in> set (te_net s p q) \<or> p = dst \<and> fst x = te_now s \<and> (q, snd x) \<in> set out"
    and "x \<in> set (te_net s p q) \<Longrightarrow> x \<in> set (te_net t p q) \<or> p = src \<and> q = dst \<and> x = y"
    and "(q, m) \<in> set out \<Longrightarrow> (te_now s, m) \<in> set (te_net t dst q)"
  using assms by (auto simp: delivery_def in_timed_enqueue split: if_splits)

text \<open>The three kinds of messages.\<close>

lemma delivery_cases:
  assumes inv: "timed_inv n d s" and "delivery n s src dst x st' out spawn t"
  obtains "code_is ELECTION x" "src < dst" "\<not> spawn" "0 \<le> src" "dst < n"
      "st' = (te_nodes s dst)\<lparr>e_aliveReceived := False, e_leaderNodeId := -1, e_start := te_now s\<rparr>"
      "\<And>b m. (b, m) \<in> set out \<Longrightarrow> election_code m \<noteq> Some VICTORY"
      "\<And>b. b = src \<or> dst < b \<and> b < n \<Longrightarrow> \<exists>m. (b, m) \<in> set out \<and>
        election_code m = Some (if b = src then ALIVE else ELECTION)"
  | "code_is ALIVE x" "dst < src" "src < n" "spawn" "st' = te_nodes s dst" "out = []"
  | "code_is VICTORY x" "\<not> spawn" "st' = (te_nodes s dst)\<lparr>e_leaderNodeId := src\<rparr>" "out = []"
proof -
  obtain wtime where handle: "election_handleMessage (messenger_start dst n) wtime (te_now s) src (snd x)
      (te_nodes s dst) = (st', out, spawn)"
    using assms(2) by (auto simp: delivery_def)
  have legal: "0 \<le> src" "src < n" "dst < n" "code_is ELECTION x \<and> src < dst \<or> code_is ALIVE x \<and> dst < src \<or> code_is VICTORY x"
    using legal_messages [OF inv delivery_state(4) [OF assms(2)]] by auto
  from legal(4) consider "code_is ELECTION x" "src < dst" | "code_is ALIVE x" "dst < src" | "code_is VICTORY x" by blast
  then show thesis
  proof cases
    case 1
    note h = handle_election [OF 1(1) handle]
    have "\<exists>m. (b, m) \<in> set out \<and> election_code m = Some (if b = src then ALIVE else ELECTION)"
      if "b = src \<or> dst < b \<and> b < n" for b
      using that h(3) 1(2) by (auto intro!: exI [of _ "setMessage wtime (Leader_Election_Code (if b = src then ALIVE else ELECTION))"])
    moreover have "election_code m \<noteq> Some VICTORY" if "(b, m) \<in> set out" for b m
      using that h(3) by auto
    ultimately show thesis using that(1) 1 h(1,2) legal by blast
  next
    case 2
    with handle_alive [OF 2(1) handle] legal(2) show thesis by (auto intro: that(2))
  next
    case 3
    with handle_victory [OF 3 handle] show thesis by (auto intro: that(3))
  qed
qed

lemma delivered_election:
  assumes inv: "timed_inv n d s" and del: "delivery n s src dst x st' out spawn t" and "code_is ELECTION x"
    and "b = src \<or> dst < b \<and> b < n"
  shows "\<exists>m. (b, m) \<in> set out \<and> election_code m = Some (if b = src then ALIVE else ELECTION)"
  by (rule delivery_cases [OF inv del]) (use assms(3,4) in auto)

lemma in_time_extend:
  assumes "in_time d now s" and "0 \<le> d"
    and "\<And>p q x. x \<in> set (te_net t p q) \<Longrightarrow> x \<in> set (te_net s p q) \<or> fst x = now"
    and "\<And>p x. x \<in> set (te_threads t p) \<Longrightarrow> x \<in> set (te_threads s p) \<or> fst x = now"
  shows "in_time d now t"
proof -
  have "0 \<le> thread_limit d th" for th
    using assms(2) timeout_pos by (simp add: thread_limit_def)
  then show ?thesis
    using assms unfolding in_time_def by (smt (verit, best))
qed

lemma clock_delivery:
  assumes inv: "timed_inv n d s" and d: "0 \<le> d" and del: "delivery n s src dst x st' out spawn t"
  shows "clock_ok d t"
proof -
  have clock: "clock_ok d s" using inv by (simp add: timed_inv_def)
  have "e_start st' \<in> {e_start (te_nodes s dst), te_now s}"
    by (rule delivery_cases [OF inv del]) auto
  moreover have "in_time d (te_now s) t"
    by (rule in_time_extend [OF _ d]) (use clock delivery_net(1) [OF del] in
      \<open>auto simp: clock_ok_def delivery_state(3) [OF del] split: if_splits\<close>)
  ultimately show ?thesis
    using clock by (auto simp: clock_ok_def delivery_state [OF del])
qed

lemma elections_delivery:
  assumes inv: "timed_inv n d s" and d: "0 \<le> d" "(n + 3) * d < timeout"
    and del: "delivery n s src dst x st' out spawn t"
  shows "elections_ok n d t"
proof -
  have ok: "elections_ok n d s" using inv by (simp add: timed_inv_def)
  have bound: "te_now s \<le> (dst + 1) * d" if "code_is ELECTION x"
    using election_early(1) [OF inv d(2,1) delivery_state(4) [OF del] that] .
  have "fst y \<le> (p + 1) * d" if y: "y \<in> set (te_net t p q)" "code_is ELECTION y" for p q y
    using delivery_net(1) [OF del y(1)]
  proof
    assume "y \<in> set (te_net s p q)"
    with ok y(2) show ?thesis unfolding elections_ok_def by blast
  next
    assume *: "p = dst \<and> fst y = te_now s \<and> (q, snd y) \<in> set out"
    then have "code_is ELECTION x" by (auto intro: delivery_cases [OF inv del])
    with bound * show ?thesis by simp
  qed
  moreover have "e_start (te_nodes t p) \<le> (p + 1) * d" if "0 \<le> p" "p < n" for p
    by (rule delivery_cases [OF inv del])
      (use ok that bound in \<open>auto simp: elections_ok_def delivery_state(2) [OF del]\<close>)
  ultimately show ?thesis by (simp add: elections_ok_def)
qed

lemma decided_delivery:
  assumes inv: "timed_inv n d s" and d: "0 \<le> d" "(n + 3) * d < timeout"
    and del: "delivery n s src dst x st' out spawn t" and dec: "decided n d s t0 th"
  shows "decided n d t t0 th"
proof -
  have "timeout \<le> te_now s" using dec by (auto simp: decided_def)
  then have "\<not> code_is ELECTION x"
    using election_early(2) [OF inv d(2,1) delivery_state(4) [OF del]] by auto
  moreover have "src = n - 1" if "code_is VICTORY x"
    using that dec delivery_state(4) [OF del] unfolding decided_def by blast
  ultimately have st': "st' = te_nodes s dst \<or> e_leaderNodeId st' = n - 1" and out: "out = []"
    and victory: "code_is VICTORY x \<longrightarrow> e_leaderNodeId st' = n - 1"
    by (auto intro: delivery_cases [OF inv del])
  have net: "y \<in> set (te_net s p q)" if "y \<in> set (te_net t p q)" for y p q
    using delivery_net(1) [OF del that] out by auto
  from dec obtain v where v: "timeout \<le> v" "v \<le> n * d + timeout + 2 * d" "v \<le> te_now s" "th = Set_Leader \<longrightarrow> t0 = v"
    "\<And>p. 0 \<le> p \<Longrightarrow> p < n - 1 \<Longrightarrow> e_leaderNodeId (te_nodes s p) = n - 1 \<or>
       (\<exists>x \<in> set (te_net s (n - 1) p). fst x = v \<and> code_is VICTORY x)"
    by (auto simp: decided_def)
  have all: "e_leaderNodeId (te_nodes t p) = n - 1 \<or> (\<exists>x \<in> set (te_net t (n - 1) p). fst x = v \<and> code_is VICTORY x)"
    if "0 \<le> p" "p < n - 1" for p
    using v(5) [OF that]
  proof
    assume "e_leaderNodeId (te_nodes s p) = n - 1"
    with st' show ?thesis by (auto simp: delivery_state(2) [OF del])
  next
    assume "\<exists>y \<in> set (te_net s (n - 1) p). fst y = v \<and> code_is VICTORY y"
    then obtain y where y: "y \<in> set (te_net s (n - 1) p)" "fst y = v" "code_is VICTORY y" by blast
    from delivery_net(2) [OF del y(1)] show ?thesis
    proof
      assume "n - 1 = src \<and> p = dst \<and> y = x"
      with y(3) victory show ?thesis by (simp add: delivery_state(2) [OF del])
    qed (use y in blast)
  qed
  have leaders: "e_leaderNodeId (te_nodes t p) \<in> {e_leaderNodeId (te_nodes s p), n - 1}" for p
    using st' by (auto simp: delivery_state(2) [OF del])
  show ?thesis
    unfolding decided_def
  proof (intro conjI)
    show "th \<in> {Set_Leader, Enable_Clients, Thread_Done}" using dec by (simp add: decided_def)
    show "\<forall>p. 0 \<le> p \<and> p < n \<longrightarrow> e_leaderNodeId (te_nodes t p) \<in> {-1, n - 1}"
    proof (intro allI impI)
      fix p assume "0 \<le> p \<and> p < n"
      with dec have "e_leaderNodeId (te_nodes s p) \<in> {-1, n - 1}" by (simp add: decided_def)
      with leaders [of p] show "e_leaderNodeId (te_nodes t p) \<in> {-1, n - 1}" by auto
    qed
    show "\<forall>p q. \<forall>x \<in> set (te_net t p q). code_is VICTORY x \<longrightarrow> p = n - 1"
      using dec net unfolding decided_def by blast
    show "th \<noteq> Set_Leader \<longrightarrow> e_leaderNodeId (te_nodes t (n - 1)) = n - 1"
      using dec leaders [of "n - 1"] unfolding decided_def by auto
  qed (use v(1-4) all in \<open>auto simp: delivery_state(1) [OF del]\<close>)
qed

lemma leader_delivery:
  assumes inv: "timed_inv n d s" and d: "0 \<le> d" "(n + 3) * d < timeout"
    and del: "delivery n s src dst x st' out spawn t"
  shows "leader_ok n d t"
proof -
  obtain t0 th where th: "te_threads s (n - 1) = [(t0, th)]" "undecided n d s t0 th \<or> decided n d s t0 th"
    using inv by (auto simp: timed_inv_def leader_ok_def)
  have "\<not> (spawn \<and> dst = n - 1)" by (rule delivery_cases [OF inv del]) auto
  then have threads: "te_threads t (n - 1) = [(t0, th)]" using th(1) by (auto simp: delivery_state(3) [OF del])
  from th(2) have "undecided n d t t0 th \<or> decided n d t t0 th"
  proof
    assume un: "undecided n d s t0 th"
    then have "\<not> code_is VICTORY x" using delivery_state(4) [OF del] by (auto simp: undecided_def)
    then have "e_leaderNodeId st' = -1 \<or> st' = te_nodes s dst"
      and "\<And>b m. (b, m) \<in> set out \<Longrightarrow> election_code m \<noteq> Some VICTORY"
      by (auto intro: delivery_cases [OF inv del])
    with un delivery_net(1) [OF del] show ?thesis
      by (fastforce simp: undecided_def delivery_state(2) [OF del])
  qed (use decided_delivery [OF assms] in blast)
  with threads show ?thesis by (simp add: leader_ok_def)
qed

lemma victory_from_highest:
  assumes "timed_inv n d s" and "x \<in> set (te_net s p q)" "code_is VICTORY x"
  shows "p = n - 1"
proof -
  obtain t0 th where "undecided n d s t0 th \<or> decided n d s t0 th"
    using assms(1) by (auto simp: timed_inv_def leader_ok_def)
  with assms(2,3) show ?thesis unfolding undecided_def decided_def by blast
qed

lemma answer_delivery:
  assumes inv: "timed_inv n d s" and del: "delivery n s src dst x st' out spawn t"
    and p: "0 \<le> p" "p < n - 1" and answer: "answer_comes n d s p"
    and same: "dst = p \<Longrightarrow> code_is ALIVE x"
  shows "answer_comes n d t p"
proof -
  have clock: "clock_ok d s" using inv by (simp add: timed_inv_def)
  note now = in_time_message [OF clock delivery_state(4) [OF del]]
  have node: "te_nodes t p = te_nodes s p"
    by (rule delivery_cases [OF inv del]) (use same in \<open>auto simp: delivery_state(2) [OF del]\<close>)
  have threads: "set (te_threads s p) \<subseteq> set (te_threads t p)" by (auto simp: delivery_state(3) [OF del])
  from answer consider
      (election) y where "y \<in> set (te_net s p (n - 1))" "fst y = e_start (te_nodes s p)" "code_is ELECTION y"
    | (alive) y where "y \<in> set (te_net s (n - 1) p)" "fst y \<le> e_start (te_nodes s p) + d" "code_is ALIVE y"
    | (thread) y where "y \<in> set (te_threads s p)" "fst y \<le> e_start (te_nodes s p) + 2 * d" "snd y = Alive_Set"
    | (flag) "e_aliveReceived (te_nodes s p)"
    by (auto simp: answer_comes_def Let_def)
  then show ?thesis
  proof cases
    case election
    from delivery_net(2) [OF del election(1)] show ?thesis
    proof
      assume y: "p = src \<and> n - 1 = dst \<and> y = x"
      with election(3) obtain m where m: "(p, m) \<in> set out" "election_code m = Some ALIVE"
        using delivered_election [OF inv del, of p] by auto
      show ?thesis
        by (rule answer_comesI(2) [where x = "(te_now s, m)"])
          (use delivery_net(3) [OF del m(1)] y m(2) now election(2) node in simp_all)
    qed (rule answer_comesI(1), use election node in simp_all)
  next
    case alive
    from delivery_net(2) [OF del alive(1)] show ?thesis
    proof
      assume y: "n - 1 = src \<and> p = dst \<and> y = x"
      with alive(3) have spawn by (auto intro: delivery_cases [OF inv del])
      show ?thesis
        by (rule answer_comesI(3) [where y = "(te_now s, Alive_Set)"])
          (use y now alive(2) \<open>spawn\<close> node in \<open>simp_all add: delivery_state(3) [OF del]\<close>)
    qed (rule answer_comesI(2), use alive node in simp_all)
  next
    case thread
    show ?thesis by (rule answer_comesI(3)) (use thread threads node in auto)
  next
    case flag
    then show ?thesis by (intro answer_comesI(4)) (simp add: node)
  qed
qed

lemma lower_delivery:
  assumes inv: "timed_inv n d s" and d: "0 \<le> d" "(n + 3) * d < timeout"
    and del: "delivery n s src dst x st' out spawn t" and p: "0 \<le> p" "p < n - 1"
  shows "lower_ok n d t p"
proof -
  from inv p obtain t0 th rest where th: "te_threads s p = (t0, th) # rest"
    "th \<in> {Trigger, Wait_Victory, Decide, Thread_Done}" "th = Decide \<longrightarrow> e_leaderNodeId (te_nodes s p) = n - 1"
    "\<forall>x \<in> set rest. alive_thread (snd x) \<or> snd x = Thread_Done"
    "e_leaderNodeId (te_nodes s p) = -1 \<longrightarrow> th = Trigger \<or> answer_comes n d s p"
    by (auto simp: timed_inv_def lower_ok_def)
  obtain rest' where rest': "te_threads t p = (t0, th) # rest'" "\<forall>x \<in> set rest'. alive_thread (snd x) \<or> snd x = Thread_Done"
  proof
    show "te_threads t p = (t0, th) # rest @ (if p = dst \<and> spawn then [(te_now s, Alive_Set)] else [])"
      using th(1) by (auto simp: delivery_state(3) [OF del])
  qed (use th(4) in \<open>auto simp: alive_thread_def\<close>)
  consider (election) "dst = p" "code_is ELECTION x" | (victory) "dst = p" "code_is VICTORY x"
    | (other) "dst = p \<longrightarrow> code_is ALIVE x"
    by (rule delivery_cases [OF inv del]) auto
  then have "(th = Decide \<longrightarrow> e_leaderNodeId (te_nodes t p) = n - 1) \<and>
    (e_leaderNodeId (te_nodes t p) = -1 \<longrightarrow> th = Trigger \<or> answer_comes n d t p)"
  proof cases
    case election
    obtain u0 u where "undecided n d s u0 u"
      by (rule early_undecided [OF inv election_early(2) [OF inv d(2,1) delivery_state(4) [OF del] election(2)]])
    then have "e_leaderNodeId (te_nodes s p) = -1" using p by (simp add: undecided_def)
    with th(3) p have "th \<noteq> Decide" by auto
    moreover have "n - 1 \<noteq> src"
      using legal_messages [OF inv delivery_state(4) [OF del]] election by auto
    with election have "e_start st' = te_now s" "\<exists>m. (n - 1, m) \<in> set out \<and> election_code m = Some ELECTION"
      using p delivered_election [OF inv del election(2), of "n - 1"] by (auto intro: delivery_cases [OF inv del])
    then have "answer_comes n d t p"
      using delivery_net(3) [OF del, of "n - 1"] election(1)
      by (fastforce simp: answer_comes_def Let_def delivery_state(2) [OF del])
    ultimately show ?thesis by simp
  next
    case victory
    then have "e_leaderNodeId st' = n - 1"
      using victory_from_highest [OF inv delivery_state(4) [OF del]] by (auto intro: delivery_cases [OF inv del])
    with victory(1) p show ?thesis by (simp add: delivery_state(2) [OF del])
  next
    case other
    then have "te_nodes t p = te_nodes s p"
      by (auto simp: delivery_state(2) [OF del] intro: delivery_cases [OF inv del])
    with th(3,5) other answer_delivery [OF inv del p] show ?thesis by auto
  qed
  with rest' th(2) show ?thesis by (simp add: lower_ok_def)
qed

lemma timed_inv_delivery:
  assumes "timed_inv n d s" and "0 \<le> d" "(n + 3) * d < timeout"
    and "delivery n s src dst x st' out spawn t" and "\<exists>D. election_inv n (untimed D t)"
  shows "timed_inv n d t"
  using assms clock_delivery [OF assms(1,2,4)] elections_delivery [OF assms(1-4)] leader_delivery [OF assms(1-4)]
    lower_delivery [OF assms(1-4)]
  by (simp add: timed_inv_def)

section \<open>Threads\<close>

definition thread_moves ::
  "int \<Rightarrow> timed_election \<Rightarrow> int \<Rightarrow> nat \<Rightarrow> time_point \<Rightarrow> election_thread \<Rightarrow> election_thread \<Rightarrow> election_state \<Rightarrow> sends \<Rightarrow>
   timed_election \<Rightarrow> bool" where
  "thread_moves n s p i t0 th th' st' out t \<longleftrightarrow>
     (\<exists>wtime. 0 \<le> p \<and> p < n \<and> i < length (te_threads s p) \<and> te_threads s p ! i = (t0, th) \<and>
        (th = Alive_Sleep \<longrightarrow> t0 + alive_sleep \<le> te_now s) \<and>
        election_thread_step (messenger_start p n) wtime (te_now s) th (te_nodes s p) = (th', st', out) \<and>
        t = s\<lparr>te_nodes := (te_nodes s)(p := st'),
          te_threads := (te_threads s)(p := (te_threads s p)[i := (te_now s, th')]),
          te_net := timed_enqueue (te_now s) p out (te_net s)\<rparr>)"

lemma moves_state:
  assumes "thread_moves n s p i t0 th th' st' out t"
  shows "te_now t = te_now s" and "te_nodes t = (te_nodes s)(p := st')"
    and "te_threads t = (te_threads s)(p := (te_threads s p)[i := (te_now s, th')])"
    and "(t0, th) \<in> set (te_threads s p)" and "0 \<le> p" "p < n"
    and "x \<in> set (te_net t a b) \<longleftrightarrow> x \<in> set (te_net s a b) \<or> a = p \<and> fst x = te_now s \<and> (b, snd x) \<in> set out"
  using assms nth_mem [of i "te_threads s p"] by (auto simp: thread_moves_def in_timed_enqueue)

text \<open>What each thread does, as far as the invariant needs it.\<close>

lemma moves_cases:
  assumes inv: "timed_inv n d s" and "thread_moves n s p i t0 th th' st' out t"
  obtains
    (broadcast) "th = Trigger \<and> th' = Wait_Victory \<or> th = Alive_Sleep \<and> th' = Alive_Clear \<and> e_leaderNodeId (te_nodes s p) = -1"
      "st' = (te_nodes s p)\<lparr>e_aliveReceived := False, e_leaderNodeId := -1, e_start := te_now s\<rparr>"
      "\<And>b m. (b, m) \<in> set out \<Longrightarrow> p < b \<and> b < n \<and> election_code m = Some ELECTION"
      "\<And>b. p < b \<Longrightarrow> b < n \<Longrightarrow> \<exists>m. (b, m) \<in> set out"
  | (poll) "th = Wait_Victory" "th' = (if keepWaiting (te_now s) (te_nodes s p) then Wait_Victory else Decide)"
      "st' = te_nodes s p" "out = []"
  | (win) "th = Decide" "e_leaderNodeId (te_nodes s p) = -1" "th' = Set_Leader" "st' = te_nodes s p"
      "\<And>b m. (b, m) \<in> set out \<Longrightarrow> election_code m = Some VICTORY"
      "\<And>b. 0 \<le> b \<Longrightarrow> b < n \<Longrightarrow> b \<noteq> p \<Longrightarrow> \<exists>m. (b, m) \<in> set out"
  | (lead) "th = Set_Leader" "th' = Enable_Clients" "st' = (te_nodes s p)\<lparr>e_leaderNodeId := p\<rparr>" "out = []"
  | (flag) "th = Alive_Set" "th' = Alive_Sleep" "st' = (te_nodes s p)\<lparr>e_aliveReceived := True\<rparr>" "out = []"
  | (clear) "th = Alive_Clear" "th' = Thread_Done" "st' = (te_nodes s p)\<lparr>e_aliveReceived := False\<rparr>" "out = []"
  | (rest) "th = Decide \<and> e_leaderNodeId (te_nodes s p) \<noteq> -1 \<or> th = Enable_Clients \<or> th = Thread_Done"
      "th' = Thread_Done" "st' = te_nodes s p" "out = []"
  | (woken) "th = Alive_Sleep" "th' = Alive_Clear" "st' = te_nodes s p" "out = []" "e_leaderNodeId (te_nodes s p) \<noteq> -1"
proof -
  obtain wtime where step: "election_thread_step (messenger_start p n) wtime (te_now s) th (te_nodes s p) = (th', st', out)"
    using assms(2) by (auto simp: thread_moves_def)
  have be: "(b, m) \<in> set (snd (broadcastElection (messenger_start p n) wtime (te_now s) (te_nodes s p))) \<longleftrightarrow>
      p < b \<and> b < n \<and> m = setMessage wtime (Leader_Election_Code ELECTION)" for b m
    by (rule broadcastElection_sends)
  have state: "fst (broadcastElection (messenger_start p n) wtime (te_now s) (te_nodes s p)) =
      (te_nodes s p)\<lparr>e_aliveReceived := False, e_leaderNodeId := -1, e_start := te_now s\<rparr>"
    by (simp add: broadcastElection_def)
  have rank: "m_rank (messenger_start p n) = p" by (simp add: messenger_start_def)
  show thesis
  proof (cases th)
    case Trigger
    with step be state show thesis by (intro broadcast) (auto simp: election_thread_step_def split: prod.splits)
  next
    case Wait_Victory
    with step show thesis by (intro poll) (auto simp: election_thread_step_def)
  next
    case Decide
    show thesis
    proof (cases "e_leaderNodeId (te_nodes s p) = -1")
      case True
      with Decide step show thesis
        by (intro win) (auto simp: election_thread_step_def gotLeader_def declareVictory_sends_iff)
    next
      case False
      with Decide step show thesis by (intro rest) (auto simp: election_thread_step_def gotLeader_def)
    qed
  next
    case Set_Leader
    with step rank show thesis by (intro lead) (auto simp: election_thread_step_def setLeaderNodeId_def)
  next
    case Alive_Set
    with step show thesis by (intro flag) (auto simp: election_thread_step_def setAliveReceived_def)
  next
    case Alive_Sleep
    show thesis
    proof (cases "e_leaderNodeId (te_nodes s p) = -1")
      case True
      with Alive_Sleep step be state show thesis
        by (intro broadcast) (auto simp: election_thread_step_def gotLeader_def split: prod.splits)
    next
      case False
      with Alive_Sleep step show thesis by (intro woken) (auto simp: election_thread_step_def gotLeader_def)
    qed
  next
    case Alive_Clear
    with step show thesis by (intro clear) (auto simp: election_thread_step_def setAliveReceived_def)
  qed (use step in \<open>auto intro!: rest simp: election_thread_step_def\<close>)
qed

lemma asleep_has_leader:
  assumes inv: "timed_inv n d s" and d: "0 \<le> d" "(n + 3) * d < timeout" and n: "0 < n"
    and move: "thread_moves n s p i t0 th th' st' out t" and th: "th = Alive_Sleep \<or> th = Alive_Clear"
  shows "e_leaderNodeId (te_nodes s p) \<noteq> -1"
proof
  assume leader: "e_leaderNodeId (te_nodes s p) = -1"
  have clock: "clock_ok d s" using inv by (simp add: timed_inv_def)
  note t0 = thread_times [OF clock moves_state(4) [OF move]]
  have "t0 + alive_sleep \<le> te_now s \<or> alive_sleep \<le> t0" using move th t0(4) by (auto simp: thread_moves_def)
  then have "alive_sleep \<le> te_now s" using t0(1,2) by auto
  with leaderless_early [OF inv d(1) n moves_state(5,6) [OF move] leader] d(2) timeout_pos show False by simp
qed

lemma clock_moves:
  assumes inv: "timed_inv n d s" and d: "0 \<le> d" and move: "thread_moves n s p i t0 th th' st' out t"
  shows "clock_ok d t"
proof -
  have clock: "clock_ok d s" using inv by (simp add: timed_inv_def)
  have new: "x \<in> set (te_threads t q) \<Longrightarrow> x \<in> set (te_threads s q) \<or> q = p \<and> x = (te_now s, th')" for x q
    by (auto simp: moves_state(3) [OF move] split: if_splits dest!: set_list_updateD)
  have "e_start st' \<in> {e_start (te_nodes s p), te_now s}"
    by (rule moves_cases [OF inv move]) auto
  moreover have "in_time d (te_now s) t"
  proof (rule in_time_extend [OF _ d])
    show "in_time d (te_now s) s" using clock by (simp add: clock_ok_def)
  qed (use moves_state(7) [OF move] in blast, use new in fastforce)
  moreover have "th' \<noteq> Trigger" by (rule moves_cases [OF inv move]) auto
  moreover have "alive_sleep \<le> te_now s" if "th' = Alive_Clear"
  proof -
    have "th = Alive_Sleep" by (rule moves_cases [OF inv move]) (use that in \<open>auto split: if_splits\<close>)
    with move thread_times(1) [OF clock moves_state(4) [OF move]] show ?thesis by (auto simp: thread_moves_def)
  qed
  moreover have "0 \<le> fst x \<and> fst x \<le> te_now s \<and> (snd x = Trigger \<longrightarrow> fst x = 0) \<and> (snd x = Alive_Clear \<longrightarrow> alive_sleep \<le> fst x)"
    if "x \<in> set (te_threads t q)" for x q
    using new [OF that] clock calculation(3,4) by (auto simp: clock_ok_def)
  ultimately show ?thesis
    using clock by (auto simp: clock_ok_def moves_state(1,2) [OF move])
qed

lemma trigger_early:
  assumes inv: "timed_inv n d s" and d: "0 \<le> d" and move: "thread_moves n s p i t0 Trigger th' st' out t"
  shows "te_now s \<le> (p + 1) * d" and "te_now s \<le> d"
proof -
  have clock: "clock_ok d s" using inv by (simp add: timed_inv_def)
  show "te_now s \<le> d"
    using in_time_thread [OF clock moves_state(4) [OF move]] thread_times(3) [OF clock moves_state(4) [OF move]]
    by (simp add: thread_limit_def)
  also have "d \<le> (p + 1) * d" using d moves_state(5) [OF move] mult_right_mono [of 1 "p + 1" d] by simp
  finally show "te_now s \<le> (p + 1) * d" .
qed

lemma elections_moves:
  assumes inv: "timed_inv n d s" and d: "0 \<le> d" "(n + 3) * d < timeout" and n: "0 < n"
    and move: "thread_moves n s p i t0 th th' st' out t"
  shows "elections_ok n d t"
proof -
  have ok: "elections_ok n d s" using inv by (simp add: timed_inv_def)
  have new: "te_now s \<le> (p + 1) * d" if "e_start st' \<noteq> e_start (te_nodes s p) \<or> sends" "sends \<Longrightarrow> out \<noteq> [] \<and> th \<noteq> Decide" for sends
  proof (cases "th = Trigger")
    case True
    show ?thesis by (rule trigger_early(1) [OF inv d(1) move [unfolded True]])
  next
    case False
    show ?thesis
      by (rule moves_cases [OF inv move]) (use that False asleep_has_leader [OF inv d n move] in auto)
  qed
  have sends: "out \<noteq> [] \<and> th \<noteq> Decide" if "(b, m) \<in> set out" "election_code m = Some ELECTION" for b m
    by (rule moves_cases [OF inv move]) (use that in auto)
  have start: "e_start st' = te_now s \<or> e_start st' = e_start (te_nodes s p)"
    by (rule moves_cases [OF inv move]) auto
  have "fst x \<le> (a + 1) * d" if x: "x \<in> set (te_net t a b)" "code_is ELECTION x" for a b x
    using x(1) unfolding moves_state(7) [OF move]
  proof
    assume "x \<in> set (te_net s a b)"
    with ok x(2) show ?thesis unfolding elections_ok_def by blast
  qed (use x(2) new [of True] sends in auto)
  moreover have "e_start (te_nodes t q) \<le> (q + 1) * d" if "0 \<le> q" "q < n" for q
    using ok that start new [of False]
    by (cases "te_now s = e_start (te_nodes s p)") (auto simp: elections_ok_def moves_state(2) [OF move])
  ultimately show ?thesis by (simp add: elections_ok_def)
qed

lemma lower_threads:
  assumes "timed_inv n d s" and "(t0, th) \<in> set (te_threads s p)" and "0 \<le> p" "p < n - 1"
  shows "th \<noteq> Set_Leader" "th \<noteq> Enable_Clients" "th = Decide \<Longrightarrow> e_leaderNodeId (te_nodes s p) = n - 1"
proof -
  have "lower_ok n d s p" using assms by (simp add: timed_inv_def)
  then obtain u0 u rest where u: "te_threads s p = (u0, u) # rest" "u \<in> {Trigger, Wait_Victory, Decide, Thread_Done}"
    "u = Decide \<longrightarrow> e_leaderNodeId (te_nodes s p) = n - 1"
    and rest: "\<forall>x \<in> set rest. alive_thread (snd x) \<or> snd x = Thread_Done"
    by (auto simp: lower_ok_def)
  have "th = u \<or> alive_thread th \<or> th = Thread_Done" using assms(2) u(1) rest by fastforce
  with u(2,3) show "th \<noteq> Set_Leader" "th \<noteq> Enable_Clients" "th = Decide \<Longrightarrow> e_leaderNodeId (te_nodes s p) = n - 1"
    by (auto simp: alive_thread_def)
qed

lemma decided_keeps:
  assumes dec: "decided n d s t0 th" and now: "te_now t = te_now s"
    and leaders: "\<And>p. e_leaderNodeId (te_nodes t p) \<in> {e_leaderNodeId (te_nodes s p), n - 1}"
    and victory: "\<And>p q x. x \<in> set (te_net t p q) \<Longrightarrow> code_is VICTORY x \<Longrightarrow> x \<in> set (te_net s p q)"
    and keep: "\<And>p x. x \<in> set (te_net s (n - 1) p) \<Longrightarrow> x \<in> set (te_net t (n - 1) p)"
    and th': "th' = th \<and> t0' = t0 \<or> th' \<in> {Enable_Clients, Thread_Done} \<and> e_leaderNodeId (te_nodes t (n - 1)) = n - 1"
  shows "decided n d t t0' th'"
  unfolding decided_def
proof (intro conjI)
  show "th' \<in> {Set_Leader, Enable_Clients, Thread_Done}" using dec th' by (auto simp: decided_def)
  show "\<forall>p. 0 \<le> p \<and> p < n \<longrightarrow> e_leaderNodeId (te_nodes t p) \<in> {-1, n - 1}"
  proof (intro allI impI)
    fix p assume "0 \<le> p \<and> p < n"
    with dec have "e_leaderNodeId (te_nodes s p) \<in> {-1, n - 1}" by (simp add: decided_def)
    with leaders [of p] show "e_leaderNodeId (te_nodes t p) \<in> {-1, n - 1}" by auto
  qed
  show "\<forall>p q. \<forall>x \<in> set (te_net t p q). code_is VICTORY x \<longrightarrow> p = n - 1"
    using dec victory unfolding decided_def by blast
  show "th' \<noteq> Set_Leader \<longrightarrow> e_leaderNodeId (te_nodes t (n - 1)) = n - 1"
    using dec th' leaders [of "n - 1"] unfolding decided_def by auto
  from dec obtain v where v: "timeout \<le> v" "v \<le> n * d + timeout + 2 * d" "v \<le> te_now s" "th = Set_Leader \<longrightarrow> t0 = v"
    "\<And>p. 0 \<le> p \<Longrightarrow> p < n - 1 \<Longrightarrow> e_leaderNodeId (te_nodes s p) = n - 1 \<or>
       (\<exists>x \<in> set (te_net s (n - 1) p). fst x = v \<and> code_is VICTORY x)"
    by (auto simp: decided_def)
  moreover have "e_leaderNodeId (te_nodes t p) = n - 1 \<or> (\<exists>x \<in> set (te_net t (n - 1) p). fst x = v \<and> code_is VICTORY x)"
    if "0 \<le> p" "p < n - 1" for p
    using v(5) [OF that] leaders [of p] keep by fastforce
  ultimately show "\<exists>v. timeout \<le> v \<and> v \<le> n * d + timeout + 2 * d \<and> v \<le> te_now t \<and> (th' = Set_Leader \<longrightarrow> t0' = v) \<and>
       (\<forall>p. 0 \<le> p \<and> p < n - 1 \<longrightarrow> e_leaderNodeId (te_nodes t p) = n - 1 \<or>
         (\<exists>x \<in> set (te_net t (n - 1) p). fst x = v \<and> code_is VICTORY x))"
    using th' now by (intro exI [of _ v]) auto
qed

text \<open>A step of the highest node's thread.\<close>

lemma highest_moves:
  assumes inv: "timed_inv n d s" and d: "0 \<le> d" "(n + 3) * d < timeout" and n: "0 < n"
    and move: "thread_moves n s (n - 1) i t0 th th' st' out t"
    and old: "undecided n d s t0 th \<or> decided n d s t0 th"
  shows "undecided n d t (te_now s) th' \<or> decided n d t (te_now s) th'"
proof -
  have clock: "clock_ok d s" and els: "elections_ok n d s" using inv by (simp_all add: timed_inv_def)
  have late: "te_now s \<le> t0 + thread_limit d th" if "th \<noteq> Thread_Done"
    by (rule in_time_thread [OF clock moves_state(4) [OF move] that])
  note t0 = thread_times [OF clock moves_state(4) [OF move]]
  have nd: "0 \<le> n * d" "d \<le> n * d" using n d(1) mult_right_mono [of 1 n d] by simp_all
  have alive: "\<not> alive_thread th" using highest_not_told_to_wait(2) [OF inv moves_state(4) [OF move]] by simp
  have start: "0 \<le> e_start (te_nodes s (n - 1))" "e_start (te_nodes s (n - 1)) \<le> te_now s"
    "e_start (te_nodes s (n - 1)) \<le> n * d"
    using clock els n by (auto simp: clock_ok_def elections_ok_def dest!: spec [of _ "n - 1"])
  show ?thesis
  proof (rule moves_cases [OF inv move])
    assume b: "th = Trigger \<and> th' = Wait_Victory \<or> th = Alive_Sleep \<and> th' = Alive_Clear \<and> e_leaderNodeId (te_nodes s (n - 1)) = -1"
      "st' = (te_nodes s (n - 1))\<lparr>e_aliveReceived := False, e_leaderNodeId := -1, e_start := te_now s\<rparr>"
      "\<And>b m. (b, m) \<in> set out \<Longrightarrow> n - 1 < b \<and> b < n \<and> election_code m = Some ELECTION"
    then have trigger: "th = Trigger" "th' = Wait_Victory" using alive by (auto simp: alive_thread_def)
    then have "undecided n d s t0 Trigger" using old by (simp add: decided_def)
    moreover have "te_now s \<le> n * d + timeout"
      using trigger late t0(3) nd timeout_pos by (simp add: thread_limit_def)
    ultimately show ?thesis
      using b(2,3) trigger by (fastforce simp: undecided_def moves_state(2,7) [OF move])
  next
    assume b: "th = Wait_Victory" "th' = (if keepWaiting (te_now s) (te_nodes s (n - 1)) then Wait_Victory else Decide)"
      "st' = te_nodes s (n - 1)" "out = []"
    then have un: "undecided n d s t0 Wait_Victory" using old by (simp add: decided_def)
    then have "keepWaiting (te_now s) (te_nodes s (n - 1)) \<longleftrightarrow> te_now s < e_start (te_nodes s (n - 1)) + timeout"
      using highest_not_told_to_wait(1) [OF inv] start n by (simp add: keepWaiting_iff undecided_def)
    moreover have "te_now s \<le> t0 + d" using late b(1) by (simp add: thread_limit_def)
    ultimately show ?thesis
      using un b(2-4) start by (auto simp: undecided_def moves_state(2,7) [OF move])
  next
    assume b: "th = Decide" "th' = Set_Leader" "st' = te_nodes s (n - 1)"
      "\<And>b m. (b, m) \<in> set out \<Longrightarrow> election_code m = Some VICTORY"
      "\<And>b. 0 \<le> b \<Longrightarrow> b < n \<Longrightarrow> b \<noteq> n - 1 \<Longrightarrow> \<exists>m. (b, m) \<in> set out"
    then have un: "undecided n d s t0 Decide" using old by (simp add: decided_def)
    have "te_now s \<le> t0 + d" using late b(1) by (simp add: thread_limit_def)
    with un have v: "timeout \<le> te_now s" "te_now s \<le> n * d + timeout + 2 * d" using t0 by (auto simp: undecided_def)
    have "\<exists>x \<in> set (te_net t (n - 1) q). fst x = te_now s \<and> code_is VICTORY x" if q: "0 \<le> q" "q < n - 1" for q
    proof -
      obtain m where m: "(q, m) \<in> set out" using b(5) [of q] q by auto
      then show ?thesis using b(4) [OF m] by (intro bexI [of _ "(te_now s, m)"]) (simp_all add: moves_state(7) [OF move])
    qed
    moreover have "\<forall>p q. \<forall>x \<in> set (te_net t p q). code_is VICTORY x \<longrightarrow> p = n - 1"
      using un moves_state(7) [OF move, THEN iffD1] unfolding undecided_def by blast
    ultimately have "decided n d t (te_now s) Set_Leader"
      using un v b(3) unfolding decided_def undecided_def by (auto simp: moves_state(1,2) [OF move])
    with b(2) show ?thesis by simp
  next
    assume b: "th = Set_Leader" "th' = Enable_Clients" "st' = (te_nodes s (n - 1))\<lparr>e_leaderNodeId := n - 1\<rparr>" "out = []"
    then have "decided n d s t0 th" using old by (simp add: undecided_def)
    then have "decided n d t (te_now s) th'"
      by (rule decided_keeps) (use b in \<open>auto simp: moves_state(1,2,7) [OF move]\<close>)
    then show ?thesis ..
  next
    assume b: "th = Decide \<and> e_leaderNodeId (te_nodes s (n - 1)) \<noteq> -1 \<or> th = Enable_Clients \<or> th = Thread_Done"
      "th' = Thread_Done" "st' = te_nodes s (n - 1)" "out = []"
    then have dec: "decided n d s t0 th" using old n by (auto simp: undecided_def)
    then have "decided n d t (te_now s) th'"
      by (rule decided_keeps) (use b dec n in \<open>auto simp: moves_state(1,2,7) [OF move] decided_def\<close>)
    then show ?thesis ..
  qed (use alive in \<open>simp_all add: alive_thread_def\<close>)
qed

lemma leader_moves:
  assumes inv: "timed_inv n d s" and d: "0 \<le> d" "(n + 3) * d < timeout" and n: "0 < n"
    and move: "thread_moves n s p i t0 th th' st' out t"
  shows "leader_ok n d t"
proof -
  obtain u0 u where u: "te_threads s (n - 1) = [(u0, u)]" "undecided n d s u0 u \<or> decided n d s u0 u"
    using inv by (auto simp: timed_inv_def leader_ok_def)
  show ?thesis
  proof (cases "p = n - 1")
    case True
    with u(1) move have "i = 0" "t0 = u0" "th = u" "te_threads t (n - 1) = [(te_now s, th')]"
      by (auto simp: thread_moves_def)
    then show ?thesis
      using highest_moves [OF inv d n move [unfolded True]] u(2) True move by (auto simp: leader_ok_def)
  next
    case False
    then have p: "0 \<le> p" "p < n - 1" using moves_state(5,6) [OF move] by simp_all
    note lower = lower_threads [OF inv moves_state(4) [OF move] p]
    have st': "e_leaderNodeId st' = e_leaderNodeId (te_nodes s p) \<or> e_leaderNodeId st' = -1 \<and> th = Trigger"
      and out: "\<And>b m. (b, m) \<in> set out \<Longrightarrow> election_code m \<noteq> Some VICTORY"
      by (atomize (full), rule moves_cases [OF inv move])
        (use lower p asleep_has_leader [OF inv d n move] in auto)
    from u(2) have "undecided n d t u0 u \<or> decided n d t u0 u"
    proof
      assume "undecided n d s u0 u"
      with st' out have "undecided n d t u0 u"
        by (fastforce simp: undecided_def moves_state(2,7) [OF move])
      then show ?thesis ..
    next
      assume dec: "decided n d s u0 u"
      then have "timeout \<le> te_now s" by (auto simp: decided_def)
      then have "th \<noteq> Trigger" using trigger_early(2) [OF inv d(1)] move d n timeout_pos mult_right_mono [of 1 "n + 3" d] by fastforce
      with st' out have "decided n d t u0 u"
        by (intro decided_keeps [OF dec]) (auto simp: moves_state(1,2,7) [OF move])
      then show ?thesis ..
    qed
    with u(1) False show ?thesis by (simp add: leader_ok_def moves_state(3) [OF move])
  qed
qed

text \<open>A step of a lower node's thread.\<close>

lemma answer_keeps:
  assumes answer: "answer_comes n d s p" and node: "te_nodes t p = te_nodes s p"
    and net: "\<And>a b x. x \<in> set (te_net s a b) \<Longrightarrow> x \<in> set (te_net t a b)"
    and threads: "\<And>y. y \<in> set (te_threads s p) \<Longrightarrow> snd y = Alive_Set \<Longrightarrow> y \<in> set (te_threads t p)"
  shows "answer_comes n d t p"
  using answer net threads unfolding answer_comes_def Let_def node by blast

lemma update_keeps: "y \<in> set xs \<Longrightarrow> i < length xs \<Longrightarrow> xs ! i \<noteq> y \<Longrightarrow> y \<in> set (xs[i := z])"
  by (metis in_set_conv_nth length_list_update nth_list_update_neq)

lemma answer_moves:
  assumes "answer_comes n d s q" and move: "thread_moves n s p i t0 th th' st' out t"
    and "q = p \<Longrightarrow> st' = te_nodes s p \<and> th \<noteq> Alive_Set"
  shows "answer_comes n d t q"
proof (rule answer_keeps [OF assms(1)])
  show "te_nodes t q = te_nodes s q" using assms(3) by (auto simp: moves_state(2) [OF move])
  fix y assume "y \<in> set (te_threads s q)" "snd y = Alive_Set"
  then show "y \<in> set (te_threads t q)"
    using assms(3) move by (auto simp: moves_state(3) [OF move] thread_moves_def intro!: update_keeps)
qed (simp add: moves_state(7) [OF move])

lemma not_left_alone:
  assumes inv: "timed_inv n d s" and d: "0 \<le> d" "(n + 3) * d < timeout" and n: "0 < n"
    and answer: "answer_comes n d s p" and p: "0 \<le> p" "p < n"
    and wait: "\<not> keepWaiting (te_now s) (te_nodes s p)"
  shows "e_leaderNodeId (te_nodes s p) = n - 1"
proof -
  have clock: "clock_ok d s" using inv by (simp add: timed_inv_def)
  have "4 * d \<le> (n + 3) * d" using n d(1) by (intro mult_right_mono) auto
  then have timeout: "4 * d < timeout" using d(2) by simp
  have start: "0 \<le> e_start (te_nodes s p)" "e_start (te_nodes s p) \<le> te_now s"
    using clock by (auto simp: clock_ok_def)
  have left: "\<not> e_aliveReceived (te_nodes s p)" 
    "e_leaderNodeId (te_nodes s p) = -1 \<Longrightarrow> e_start (te_nodes s p) + timeout \<le> te_now s"
    using wait keepWaiting_iff [OF start] by auto
  have "e_leaderNodeId (te_nodes s p) \<noteq> -1"
  proof
    assume "e_leaderNodeId (te_nodes s p) = -1"
    note late = left(2) [OF this]
    from answer left(1) consider
        (message) a b y where "y \<in> set (te_net s a b)" "fst y \<le> e_start (te_nodes s p) + d"
      | (thread) y where "y \<in> set (te_threads s p)" "fst y \<le> e_start (te_nodes s p) + 2 * d" "snd y = Alive_Set"
      using d(1) by (fastforce simp: answer_comes_def Let_def)
    then show False
    proof cases
      case message
      with in_time_message [OF clock message(1)] late timeout d(1) show False by simp
    next
      case thread
      then have "(fst y, Alive_Set) \<in> set (te_threads s p)" by (metis prod.collapse)
      from in_time_thread [OF clock this] thread(2) late timeout d(1) show False by (simp add: thread_limit_def)
    qed
  qed
  moreover obtain t0 th where "undecided n d s t0 th \<or> decided n d s t0 th"
    using inv by (auto simp: timed_inv_def leader_ok_def)
  ultimately show ?thesis using p by (auto simp: undecided_def decided_def)
qed

lemma lower_moves:
  assumes inv: "timed_inv n d s" and d: "0 \<le> d" "(n + 3) * d < timeout" and n: "0 < n"
    and move: "thread_moves n s q i t0 th th' st' out t" and p: "0 \<le> p" "p < n - 1"
  shows "lower_ok n d t p"
proof -
  from inv p obtain u0 u rest where u: "te_threads s p = (u0, u) # rest"
    "u \<in> {Trigger, Wait_Victory, Decide, Thread_Done}" "u = Decide \<longrightarrow> e_leaderNodeId (te_nodes s p) = n - 1"
    and rest: "\<forall>x \<in> set rest. alive_thread (snd x) \<or> snd x = Thread_Done"
    and answer: "e_leaderNodeId (te_nodes s p) = -1 \<longrightarrow> u = Trigger \<or> answer_comes n d s p"
    by (auto simp: timed_inv_def lower_ok_def)
  show ?thesis
  proof (cases "q = p")
    case False
    then have "te_threads t p = (u0, u) # rest" "te_nodes t p = te_nodes s p"
      using u(1) by (simp_all add: moves_state(2,3) [OF move])
    moreover have "answer_comes n d s p \<longrightarrow> answer_comes n d t p" using answer_moves [OF _ move] False by blast
    ultimately show ?thesis using u(2,3) rest answer unfolding lower_ok_def by auto
  next
    case True
    note move = move [unfolded True]
    note asleep = asleep_has_leader [OF inv d n move]
    have node: "te_nodes t p = st'" by (simp add: moves_state(2) [OF move])
    show ?thesis
    proof (cases i)
      case 0
      then have th: "th = u" "te_threads t p = (te_now s, th') # rest"
        using move u(1) by (auto simp: thread_moves_def)
      have "th' \<in> {Trigger, Wait_Victory, Decide, Thread_Done} \<and> (th' = Decide \<longrightarrow> e_leaderNodeId st' = n - 1) \<and>
        (e_leaderNodeId st' = -1 \<longrightarrow> answer_comes n d t p)"
      proof (rule moves_cases [OF inv move])
        assume b: "th = Trigger \<and> th' = Wait_Victory \<or> th = Alive_Sleep \<and> th' = Alive_Clear \<and> e_leaderNodeId (te_nodes s p) = -1"
          "st' = (te_nodes s p)\<lparr>e_aliveReceived := False, e_leaderNodeId := -1, e_start := te_now s\<rparr>"
          "\<And>b m. (b, m) \<in> set out \<Longrightarrow> p < b \<and> b < n \<and> election_code m = Some ELECTION"
          "\<And>b. p < b \<Longrightarrow> b < n \<Longrightarrow> \<exists>m. (b, m) \<in> set out"
        then obtain m where m: "(n - 1, m) \<in> set out" "election_code m = Some ELECTION" using p(2) by fastforce
        have "answer_comes n d t p"
          by (rule answer_comesI(1) [where x = "(te_now s, m)"])
            (use m b(2) in \<open>simp_all add: moves_state(7) [OF move] node\<close>)
        then show ?thesis using b(1) th(1) u(2) by auto
      next
        assume b: "th = Wait_Victory" "th' = (if keepWaiting (te_now s) (te_nodes s p) then Wait_Victory else Decide)"
          "st' = te_nodes s p" "out = []"
        have "e_leaderNodeId st' = n - 1" if "th' = Decide"
        proof (cases "e_leaderNodeId (te_nodes s p) = -1")
          case True
          then have "answer_comes n d s p" using answer b(1) th(1) by simp
          from not_left_alone [OF inv d n this p(1)] that b(2,3) p(2) show ?thesis by (simp split: if_splits)
        next
          case False
          moreover obtain v0 v where "undecided n d s v0 v \<or> decided n d s v0 v"
            using inv by (auto simp: timed_inv_def leader_ok_def)
          ultimately show ?thesis using p b(3) by (auto simp: undecided_def decided_def)
        qed
        moreover have "answer_comes n d s p \<longrightarrow> answer_comes n d t p"
          using answer_moves [OF _ move] b(1,3) by blast
        ultimately show ?thesis using b th(1) answer by auto
      next
        assume b: "th = Decide \<and> e_leaderNodeId (te_nodes s p) \<noteq> -1 \<or> th = Enable_Clients \<or> th = Thread_Done"
          "th' = Thread_Done" "st' = te_nodes s p" "out = []"
        have "answer_comes n d s p \<longrightarrow> answer_comes n d t p"
          using answer_moves [OF _ move] b(1,3) by blast
        then show ?thesis using b th(1) answer u(2) by auto
      qed (use th(1) u(2,3) p in auto)
      with th(2) rest show ?thesis by (simp add: lower_ok_def node)
    next
      case (Suc j)
      then have j: "j < length rest" "rest ! j = (t0, th)" "te_threads t p = (u0, u) # rest[j := (te_now s, th')]"
        using move u(1) by (auto simp: thread_moves_def)
      then have alive: "alive_thread th \<or> th = Thread_Done" using rest nth_mem [OF j(1)] by auto
      have "(alive_thread th' \<or> th' = Thread_Done) \<and> (e_leaderNodeId st' = -1 \<longrightarrow> u = Trigger \<or> answer_comes n d t p) \<and>
        e_leaderNodeId st' = e_leaderNodeId (te_nodes s p)"
      proof (rule moves_cases [OF inv move])
        assume b: "th = Alive_Set" "th' = Alive_Sleep" "st' = (te_nodes s p)\<lparr>e_aliveReceived := True\<rparr>" "out = []"
        have "answer_comes n d t p" by (rule answer_comesI(4)) (simp add: node b(3))
        then show ?thesis using b by (simp add: alive_thread_def)
      next
        assume b: "th = Decide \<and> e_leaderNodeId (te_nodes s p) \<noteq> -1 \<or> th = Enable_Clients \<or> th = Thread_Done"
          "th' = Thread_Done" "st' = te_nodes s p" "out = []"
        have "answer_comes n d s p \<longrightarrow> answer_comes n d t p"
          using answer_moves [OF _ move] b(1,3) by blast
        then show ?thesis using b answer by auto
      qed (use alive asleep in \<open>auto simp: alive_thread_def\<close>)
      with j(3) u(2,3) rest show ?thesis
        unfolding lower_ok_def node by (auto dest!: set_list_updateD)
    qed
  qed
qed

lemma timed_inv_moves:
  assumes "timed_inv n d s" and "0 \<le> d" "(n + 3) * d < timeout" "0 < n"
    and "thread_moves n s p i t0 th th' st' out t" and "\<exists>D. election_inv n (untimed D t)"
  shows "timed_inv n d t"
  using assms clock_moves [OF assms(1,2,5)] elections_moves [OF assms(1-5)] leader_moves [OF assms(1-5)]
    lower_moves [OF assms(1-5)]
  by (simp add: timed_inv_def)

section \<open>Every step\<close>

lemma timed_inv_tick:
  assumes inv: "timed_inv n d s" and "te_now s \<le> now" and "in_time d now s"
  shows "timed_inv n d (s\<lparr>te_now := now\<rparr>)"
proof -
  let ?t = "s\<lparr>te_now := now\<rparr>"
  have clock: "clock_ok d s" using inv by (simp add: timed_inv_def)
  have "in_time d now ?t" using assms(3) by (simp add: in_time_def)
  then have "clock_ok d ?t"
    using clock assms(2) unfolding clock_ok_def by (auto intro: order_trans [OF _ assms(2)])
  moreover have "undecided n d ?t t0 th = undecided n d s t0 th" for t0 th by (simp add: undecided_def)
  moreover have "decided n d s t0 th \<longrightarrow> decided n d ?t t0 th" for t0 th
    using assms(2) by (auto simp: decided_def intro: order_trans [OF _ assms(2)])
  moreover have "answer_comes n d ?t p = answer_comes n d s p" for p by (simp add: answer_comes_def)
  ultimately show ?thesis
    using inv by (auto simp: timed_inv_def elections_ok_def leader_ok_def lower_ok_def untimed_def)
qed

lemma timed_inv_step:
  assumes inv: "timed_inv n d s" and d: "0 \<le> d" "(n + 3) * d < timeout" and n: "0 < n"
    and step: "timed_step n d s t"
  shows "timed_inv n d t"
proof -
  obtain D where "election_inv n (untimed D s)" using inv by (auto simp: timed_inv_def)
  with timed_step_untimed [OF step, of D] have untimed: "\<exists>D. election_inv n (untimed D t)"
    by (metis election_inv_step)
  from step show ?thesis
  proof (cases rule: timed_step.cases)
    case (te_deliver src dst ts msg rest wtime st' out spawn)
    then have "delivery n s src dst (ts, msg) st' out spawn t" by (auto simp: delivery_def)
    from timed_inv_delivery [OF inv d this untimed] show ?thesis .
  next
    case (te_thread p i t0 th wtime th' st' out)
    then have "thread_moves n s p i t0 th th' st' out t" by (auto simp: thread_moves_def)
    from timed_inv_moves [OF inv d n this untimed] show ?thesis .
  qed (use timed_inv_tick [OF inv] in simp)
qed

lemma timed_inv_start:
  assumes "timed_start {0..<n} s" and "0 \<le> d" "0 < n"
  shows "timed_inv n d s"
proof -
  have s: "te_now s = 0" "te_nodes s = (\<lambda>_. election_init)" "te_net s = (\<lambda>_ _. [])"
    "te_threads s = (\<lambda>p. if p \<in> {0..<n} then [(0, Trigger)] else [])"
    using assms(1) by (simp_all add: timed_start_def)
  have "election_inv n (untimed {} s)"
    using assms(3) by (auto simp: election_inv_def untimed_def s election_init_def alive_thread_def)
  moreover have "clock_ok d s"
    using assms(2) by (auto simp: clock_ok_def in_time_def thread_limit_def s election_init_def)
  moreover have "undecided n d s 0 Trigger" by (simp add: undecided_def s election_init_def)
  ultimately show ?thesis
    using assms(2,3) by (auto simp: timed_inv_def elections_ok_def leader_ok_def lower_ok_def s election_init_def)
qed

interpretation clocked_election: step_invariant "timed_start {0..<n}" "timed_step n d"
  "\<lambda>s. 0 < n \<and> 0 \<le> d \<and> (n + 3) * d < timeout \<longrightarrow> timed_inv n d s"
  by unfold_locales (auto intro: timed_inv_start timed_inv_step)

end
