(* ===== verification/Election_Runs.thy ===== *)
theory Election_Runs
  imports Election_Timed
begin

text \<open>
  Elections from their start to their end: one that all nodes start makes the highest node everyone's leader,
  with a concrete run, and one that the highest node does not start itself has no winner.
\<close>

text \<open>
  C14. An election that all \<open>n\<close> nodes start at time 0 ends: when every message is handled and every thread takes
  its next step within \<open>d\<close>, and \<open>n + 3\<close> such delays fit into the two seconds \<open>waitForVictory\<close> waits, then
  after \<open>ELECTION_WAIT_DURATION\<close> and \<open>n + 3\<close> delays every node has the node with the highest id as its
  leader.
\<close>

theorem election_completes_in_time:
  assumes "reachable (timed_start {0..<n}) (timed_step n d) s" and "0 \<le> d" "(n + 3) * d < timeout"
    and "timeout + (n + 3) * d < te_now s" and "0 \<le> p" "p < n"
  shows "e_leaderNodeId (te_nodes s p) = n - 1"
proof -
  have inv: "timed_inv n d s"
    using clocked_election.reachable_holds [OF assms(1)] assms(2,3,5,6) by simp
  have "e_leaderNodeId (te_nodes s p) \<noteq> -1"
    using leaderless_early [OF inv assms(2) _ assms(5,6)] assms(4-6) by fastforce
  moreover obtain t0 th where "undecided n d s t0 th \<or> decided n d s t0 th"
    using inv by (auto simp: timed_inv_def leader_ok_def)
  ultimately show ?thesis using assms(5,6) by (auto simp: undecided_def decided_def)
qed

section \<open>Runs by choices\<close>

text \<open>A run is a list of choices; the step relation allows each choice that the function carries out.\<close>

datatype election_choice = Deliver int int | Run_Thread int nat | Let_Pass time_point

definition in_time_upto :: "int \<Rightarrow> time_point \<Rightarrow> time_point \<Rightarrow> timed_election \<Rightarrow> bool" where
  "in_time_upto n d now s \<longleftrightarrow>
     (\<forall>p \<in> set [0..n - 1]. (\<forall>q \<in> set [0..n - 1]. \<forall>x \<in> set (te_net s p q). now \<le> fst x + d) \<and>
        (\<forall>x \<in> set (te_threads s p). snd x = Thread_Done \<or> now \<le> fst x + thread_limit d (snd x)))"

fun timed_choice :: "int \<Rightarrow> time_point \<Rightarrow> election_choice \<Rightarrow> timed_election \<Rightarrow> timed_election option" where
  "timed_choice n d (Deliver src dst) s =
     (case te_net s src dst of
        [] \<Rightarrow> None
      | x # rest \<Rightarrow>
          (case election_handleMessage (messenger_start dst n) 0 (te_now s) src (snd x) (te_nodes s dst) of
             (st', out, spawn) \<Rightarrow>
               Some (s\<lparr>te_nodes := (te_nodes s)(dst := st'),
                 te_threads := (te_threads s)(dst := te_threads s dst @ (if spawn then [(te_now s, Alive_Set)] else [])),
                 te_net := timed_enqueue (te_now s) dst out ((te_net s)(src := (te_net s src)(dst := rest)))\<rparr>)))"
| "timed_choice n d (Run_Thread p i) s =
     (if 0 \<le> p \<and> p < n \<and> i < length (te_threads s p) then
        (case te_threads s p ! i of (t0, th) \<Rightarrow>
           if th = Alive_Sleep \<and> te_now s < t0 + alive_sleep then None
           else
             (case election_thread_step (messenger_start p n) 0 (te_now s) th (te_nodes s p) of (th', st', out) \<Rightarrow>
                Some (s\<lparr>te_nodes := (te_nodes s)(p := st'),
                  te_threads := (te_threads s)(p := (te_threads s p)[i := (te_now s, th')]),
                  te_net := timed_enqueue (te_now s) p out (te_net s)\<rparr>)))
      else None)"
| "timed_choice n d (Let_Pass now) s =
     (if te_now s \<le> now \<and> in_time_upto n d now s then Some (s\<lparr>te_now := now\<rparr>) else None)"

fun timed_choices :: "int \<Rightarrow> time_point \<Rightarrow> election_choice list \<Rightarrow> timed_election \<Rightarrow> timed_election option" where
  "timed_choices n d [] s = Some s"
| "timed_choices n d (c # cs) s = Option.bind (timed_choice n d c s) (timed_choices n d cs)"

text \<open>Only the nodes of the cluster have threads and messages.\<close>

definition only_nodes :: "int \<Rightarrow> timed_election \<Rightarrow> bool" where
  "only_nodes n s \<longleftrightarrow> (\<forall>p q. te_net s p q \<noteq> [] \<longrightarrow> 0 \<le> p \<and> p < n \<and> 0 \<le> q \<and> q < n) \<and>
     (\<forall>p. te_threads s p \<noteq> [] \<longrightarrow> 0 \<le> p \<and> p < n)"

lemma only_nodesD:
  "only_nodes n s \<Longrightarrow> te_net s p q \<noteq> [] \<Longrightarrow> 0 \<le> p \<and> p < n \<and> 0 \<le> q \<and> q < n"
  "only_nodes n s \<Longrightarrow> te_threads s p \<noteq> [] \<Longrightarrow> 0 \<le> p \<and> p < n"
  unfolding only_nodes_def by blast+

lemma only_nodes_in_time: "only_nodes n s \<Longrightarrow> in_time_upto n d now s \<Longrightarrow> in_time d now s"
proof -
  assume nodes: "only_nodes n s" and upto: "in_time_upto n d now s"
  have node: "p \<in> set [0..n - 1]" if "0 \<le> p" "p < n" for p using that by simp
  have "now \<le> fst x + d" if x: "x \<in> set (te_net s p q)" for x p q
  proof -
    have "te_net s p q \<noteq> []" using x by auto
    from only_nodesD(1) [OF nodes this] x upto show ?thesis unfolding in_time_upto_def using node by blast
  qed
  moreover have "snd x = Thread_Done \<or> now \<le> fst x + thread_limit d (snd x)" if x: "x \<in> set (te_threads s p)" for x p
  proof -
    have "te_threads s p \<noteq> []" using x by auto
    from only_nodesD(2) [OF nodes this] x upto show ?thesis unfolding in_time_upto_def using node by blast
  qed
  ultimately show "in_time d now s" unfolding in_time_def by blast
qed

lemma enqueue_only_nodes:
  assumes "\<And>a b. net a b \<noteq> [] \<Longrightarrow> 0 \<le> a \<and> a < n \<and> 0 \<le> b \<and> b < n"
    and "\<And>b m. (b, m) \<in> set out \<Longrightarrow> 0 \<le> b \<and> b < n" and "0 \<le> p" "p < n"
    and "timed_enqueue now p out net a b \<noteq> []"
  shows "0 \<le> a \<and> a < n \<and> 0 \<le> b \<and> b < n"
proof -
  obtain x where "x \<in> set (timed_enqueue now p out net a b)" using assms(5) by (meson last_in_set)
  then consider "x \<in> set (net a b)" | "a = p" "(b, snd x) \<in> set out" by (auto simp: in_timed_enqueue)
  then show ?thesis
  proof cases
    case 1
    then have "net a b \<noteq> []" by auto
    with assms(1) show ?thesis by blast
  next
    case 2
    with assms(2) [OF 2(2)] assms(3,4) show ?thesis by simp
  qed
qed

lemma timed_choice_step:
  assumes nodes: "only_nodes n s" and run: "timed_choice n d c s = Some t"
  shows "timed_step n d s t" and "only_nodes n t"
proof -
  have "timed_step n d s t \<and> only_nodes n t"
  proof (cases c)
    case (Deliver src dst)
    with run obtain ts msg rest st' out spawn where del: "te_net s src dst = (ts, msg) # rest"
      "election_handleMessage (messenger_start dst n) 0 (te_now s) src msg (te_nodes s dst) = (st', out, spawn)"
      "t = s\<lparr>te_nodes := (te_nodes s)(dst := st'),
          te_threads := (te_threads s)(dst := te_threads s dst @ (if spawn then [(te_now s, Alive_Set)] else [])),
          te_net := timed_enqueue (te_now s) dst out ((te_net s)(src := (te_net s src)(dst := rest)))\<rparr>"
      by (auto split: list.splits prod.splits)
    have range: "0 \<le> src \<and> src < n \<and> 0 \<le> dst \<and> dst < n" using only_nodesD(1) [OF nodes, of src dst] del(1) by simp
    have channels: "0 \<le> a \<and> a < n \<and> 0 \<le> b \<and> b < n"
      if "((te_net s)(src := (te_net s src)(dst := rest))) a b \<noteq> []" for a b
      using that only_nodesD(1) [OF nodes, of a b] range by (simp split: if_splits)
    have sends: "0 \<le> b \<and> b < n" if "(b, m) \<in> set out" for b m
      using del(2) that range
      by (auto simp: election_handleMessage_def respondAlive_def broadcastElection_def broadcast_targets_def messenger_start_def
          split: option.splits leader_election_code.splits if_splits)
    have "only_nodes n t"
      unfolding only_nodes_def
    proof (intro conjI allI impI)
      fix a b assume "te_net t a b \<noteq> []"
      then have "timed_enqueue (te_now s) dst out ((te_net s)(src := (te_net s src)(dst := rest))) a b \<noteq> []"
        by (simp add: del(3))
      from enqueue_only_nodes [OF channels _ _ _ this] have "0 \<le> a \<and> a < n \<and> 0 \<le> b \<and> b < n"
        using range sends by blast
      then show "0 \<le> a" "a < n" "0 \<le> b" "b < n" by auto
    qed (use only_nodesD(2) [OF nodes] range del(3) in \<open>auto split: if_splits\<close>)
    with del show ?thesis using te_deliver by blast
  next
    case (Run_Thread p i)
    with run obtain t0 th th' st' out where th: "0 \<le> p" "p < n" "i < length (te_threads s p)" "te_threads s p ! i = (t0, th)"
      "th = Alive_Sleep \<longrightarrow> t0 + alive_sleep \<le> te_now s"
      "election_thread_step (messenger_start p n) 0 (te_now s) th (te_nodes s p) = (th', st', out)"
      "t = s\<lparr>te_nodes := (te_nodes s)(p := st'),
          te_threads := (te_threads s)(p := (te_threads s p)[i := (te_now s, th')]),
          te_net := timed_enqueue (te_now s) p out (te_net s)\<rparr>"
      by (auto split: prod.splits if_splits)
    have sends: "0 \<le> b \<and> b < n" if "(b, m) \<in> set out" for b m
      using th(1,2,6) that
      by (auto simp: election_thread_step_def declareVictory_sends_def broadcast_sends_def broadcastElection_def broadcast_targets_def
          messenger_start_def split: election_thread.splits prod.splits if_splits)
    have "only_nodes n t"
      unfolding only_nodes_def
    proof (intro conjI allI impI)
      fix a b assume "te_net t a b \<noteq> []"
      then have "timed_enqueue (te_now s) p out (te_net s) a b \<noteq> []" by (simp add: th(7))
      from enqueue_only_nodes [OF only_nodesD(1) [OF nodes] _ th(1,2) this] have "0 \<le> a \<and> a < n \<and> 0 \<le> b \<and> b < n"
        using sends by blast
      then show "0 \<le> a" "a < n" "0 \<le> b" "b < n" by auto
    qed (use only_nodesD(2) [OF nodes] th(1,2,7) in \<open>auto split: if_splits\<close>)
    with th show ?thesis using te_thread by blast
  next
    case (Let_Pass now)
    with run have t: "te_now s \<le> now" "in_time_upto n d now s" "t = s\<lparr>te_now := now\<rparr>" by (auto split: if_splits)
    with nodes show ?thesis
      using te_tick [OF t(1) only_nodes_in_time [OF nodes t(2)], of n] by (simp add: only_nodes_def)
  qed
  then show "timed_step n d s t" and "only_nodes n t" by blast+
qed

lemma timed_choices_reachable:
  "reachable (timed_start P) (timed_step n d) s \<Longrightarrow> only_nodes n s \<Longrightarrow> timed_choices n d cs s = Some t \<Longrightarrow>
   reachable (timed_start P) (timed_step n d) t"
proof (induction cs arbitrary: s)
  case (Cons c cs)
  then obtain u where u: "timed_choice n d c s = Some u" "timed_choices n d cs u = Some t"
    by (auto simp: bind_eq_Some_conv)
  from timed_choice_step [OF Cons.prems(2) u(1)] Cons.prems(1) have "reachable (timed_start P) (timed_step n d) u" "only_nodes n u"
    by (auto intro: reachable_step)
  with Cons.IH u(2) show ?case by blast
qed simp

definition timed_fresh :: "int list \<Rightarrow> timed_election" where
  "timed_fresh P = \<lparr>te_now = 0, te_nodes = (\<lambda>_. election_init),
     te_threads = (\<lambda>p. if p \<in> set P then [(0, Trigger)] else []), te_net = (\<lambda>_ _. [])\<rparr>"

lemma timed_fresh_start: "timed_start (set P) (timed_fresh P)"
  by (simp add: timed_start_def timed_fresh_def)

text \<open>
  Two nodes: both start an election at time 0, node 1 answers node 0, and the two poll until node 1 has waited
  for two seconds and declares its victory.
\<close>

definition two_nodes_elect :: "election_choice list" where
  "two_nodes_elect =
     [Run_Thread 0 0, Run_Thread 1 0, Deliver 0 1, Deliver 1 0, Run_Thread 0 1] @
     concat (map (\<lambda>now. [Let_Pass now, Run_Thread 0 0, Run_Thread 1 0])
       [390000000, 780000000, 1170000000, 1560000000, 1950000000, 2000000000]) @
     [Run_Thread 1 0, Run_Thread 1 0, Run_Thread 1 0, Deliver 1 0] @
     concat (map (\<lambda>now. [Let_Pass now, Run_Thread 0 0])
       [2390000000, 2780000000, 3170000000, 3560000000, 3950000000]) @ [Let_Pass 4000000000]"

lemma two_nodes_elected:
  "\<exists>s. timed_choices 2 390000000 two_nodes_elect (timed_fresh [0..1]) = Some s \<and>
     te_now s = 4000000000 \<and> e_leaderNodeId (te_nodes s 0) = 1"
proof -
  have "map_option (\<lambda>s. (te_now s, e_leaderNodeId (te_nodes s 0)))
     (timed_choices 2 390000000 two_nodes_elect (timed_fresh [0..1])) = Some (4000000000, 1)"
    by code_simp
  then show ?thesis by auto
qed

lemma fresh_only_nodes: "set P \<subseteq> {0..<n} \<Longrightarrow> only_nodes n (timed_fresh P)"
  by (auto simp: only_nodes_def timed_fresh_def split: if_splits)

lemma choices_run:
  assumes "set P \<subseteq> {0..<n}" and "timed_choices n d cs (timed_fresh P) = Some s"
  shows "reachable (timed_start (set P)) (timed_step n d) s"
proof (rule timed_choices_reachable [OF _ fresh_only_nodes [OF assms(1)] assms(2)])
  show "reachable (timed_start (set P)) (timed_step n d) (timed_fresh P)"
    by (rule reachable_start) (rule timed_fresh_start)
qed

theorem election_completes_in_time_witness:
  "\<exists>s. reachable (timed_start {0..<2}) (timed_step 2 390000000) s \<and> timeout + (2 + 3) * 390000000 < te_now s \<and>
     e_leaderNodeId (te_nodes s 0) = 2 - 1"
proof -
  obtain s where s: "timed_choices 2 390000000 two_nodes_elect (timed_fresh [0..1]) = Some s" "te_now s = 4000000000"
    using two_nodes_elected by blast
  have "reachable (timed_start (set [0..1])) (timed_step 2 390000000) s"
    by (rule choices_run [OF _ s(1)]) auto
  moreover have "set [0..1::int] = {0..<2}" by auto
  ultimately have run: "reachable (timed_start {0..<2}) (timed_step 2 390000000) s" by simp
  have late: "timeout + (2 + 3) * 390000000 < te_now s"
    by (simp add: s(2) timeout_def election_wait_duration_def ns_per_second_def)
  have "e_leaderNodeId (te_nodes s 0) = 2 - 1"
    by (rule election_completes_in_time [OF run _ _ late])
      (simp_all add: timeout_def election_wait_duration_def ns_per_second_def)
  with run late show ?thesis by blast
qed

section \<open>Elections the highest node does not start\<close>

text \<open>Only threads of nodes that started an election declare a victory.\<close>

definition starter_inv :: "int \<Rightarrow> int set \<Rightarrow> timed_election \<Rightarrow> bool" where
  "starter_inv n P s \<longleftrightarrow> (\<exists>D \<subseteq> P. election_inv n (untimed D s)) \<and>
     (\<forall>p. \<forall>th \<in> snd ` set (te_threads s p). th \<in> {Trigger, Wait_Victory, Decide, Set_Leader} \<longrightarrow> p \<in> P)"

lemma thread_step_starter:
  "election_thread_step m wtime now th st = (th', st', out) \<Longrightarrow> th' \<in> {Trigger, Wait_Victory, Decide, Set_Leader} \<Longrightarrow>
   th \<in> {Trigger, Wait_Victory, Decide, Set_Leader}"
  by (auto simp: election_thread_step_def split: election_thread.splits prod.splits if_splits)

lemma starter_inv_step:
  assumes inv: "starter_inv n P s" and step: "timed_step n d s t"
  shows "starter_inv n P t"
proof -
  have threads: "p \<in> P" if "th \<in> snd ` set (te_threads t p)" "th \<in> {Trigger, Wait_Victory, Decide, Set_Leader}" for p th
    using step
  proof (cases rule: timed_step.cases)
    case (te_thread q i t0 u wtime th' st' out)
    have u: "u \<in> snd ` set (te_threads s q)" using te_thread(4,5) by (metis image_eqI nth_mem snd_conv)
    from that(1) te_thread(1) have "th \<in> snd ` set (te_threads s p) \<or> p = q \<and> th = th'"
      by (auto split: if_splits dest!: set_list_updateD)
    then show ?thesis
      using thread_step_starter [OF te_thread(7)] inv that(2) u unfolding starter_inv_def by blast
  next
    case (te_deliver src dst ts msg rest wtime st' out spawn)
    with that have "th \<in> snd ` set (te_threads s p)" by (auto split: if_splits)
    with inv that(2) show ?thesis unfolding starter_inv_def by blast
  next
    case (te_tick now)
    with that have "th \<in> snd ` set (te_threads s p)" by simp
    with inv that(2) show ?thesis unfolding starter_inv_def by blast
  qed
  obtain D where D: "D \<subseteq> P" "election_inv n (untimed D s)" using inv by (auto simp: starter_inv_def)
  have "\<exists>D \<subseteq> P. election_inv n (untimed D t)"
  proof (cases "untimed D t = untimed D s")
    case False
    with timed_step_untimed [OF step, of D] obtain D' where D': "election_step n (untimed D s) (untimed D' t)"
      "D' - D \<subseteq> {p. Set_Leader \<in> snd ` set (te_threads t p)}" by blast
    have "D' \<subseteq> P" using D'(2) D(1) threads by blast
    with election_inv_step [OF D(2) D'(1)] show ?thesis by blast
  qed (use D in metis)
  with threads show ?thesis unfolding starter_inv_def by blast
qed

lemma starter_inv_start: "timed_start P s \<Longrightarrow> starter_inv n P s"
  by (auto simp: timed_start_def starter_inv_def election_inv_def untimed_def election_init_def alive_thread_def
      split: if_splits intro!: exI [of _ "{}"])

interpretation election_starters: step_invariant "timed_start P" "timed_step n d" "starter_inv n P"
  by unfold_locales (auto intro: starter_inv_start starter_inv_step)

text \<open>
  C15. Only a node that has itself called \<open>startElection\<close> ever becomes a leader: the ELECTION request of a
  lower node makes a higher one answer and ask the nodes above it, but starts no wait for a victory, so that a
  highest node that does not start an election of its own is never elected, although it silences the lower ones.
\<close>

theorem leader_started_an_election:
  assumes "reachable (timed_start P) (timed_step n d) s" and "e_leaderNodeId (te_nodes s p) \<noteq> -1"
  shows "e_leaderNodeId (te_nodes s p) \<in> P"
proof -
  obtain D where "D \<subseteq> P" "election_inv n (untimed D s)"
    using election_starters.reachable_holds [OF assms(1)] by (auto simp: starter_inv_def)
  with assms(2) show ?thesis by (auto simp: election_inv_def untimed_def)
qed

text \<open>
  Node 0 of two starts an election that node 1 answers. Four seconds later the thread of the first answer
  broadcasts the election again, and clears the flag after the second answer has set it: node 0 leads both
  nodes although node 1 is higher and has answered twice.
\<close>

definition lower_node_leads :: "election_choice list" where
  "lower_node_leads =
     [Run_Thread 0 0, Deliver 0 1, Deliver 1 0, Run_Thread 0 1] @
     concat (map (\<lambda>k. [Let_Pass (k * 390000000), Run_Thread 0 0]) [1..10]) @
     [Let_Pass 4000000000, Run_Thread 0 0, Run_Thread 0 1, Deliver 0 1, Deliver 1 0, Run_Thread 0 2, Run_Thread 0 1] @
     concat (map (\<lambda>k. [Let_Pass (4000000000 + k * 390000000), Run_Thread 0 0]) [1..5]) @
     [Let_Pass 6000000000, Run_Thread 0 0, Run_Thread 0 0, Run_Thread 0 0, Deliver 0 1]"

theorem leader_started_an_election_witness:
  "\<exists>s. reachable (timed_start {0}) (timed_step 2 390000000) s \<and>
     e_leaderNodeId (te_nodes s 0) = 0 \<and> e_leaderNodeId (te_nodes s 1) \<in> {0}"
proof -
  have "map_option (\<lambda>s. (e_leaderNodeId (te_nodes s 0), e_leaderNodeId (te_nodes s 1)))
     (timed_choices 2 390000000 lower_node_leads (timed_fresh [0])) = Some (0, 0)"
    by code_simp
  then obtain s where s: "timed_choices 2 390000000 lower_node_leads (timed_fresh [0]) = Some s"
    "e_leaderNodeId (te_nodes s 0) = 0" "e_leaderNodeId (te_nodes s 1) = 0" by auto
  have "reachable (timed_start {0}) (timed_step 2 390000000) s"
    using choices_run [OF _ s(1)] by simp
  moreover from this have "e_leaderNodeId (te_nodes s 1) \<in> {0}"
    by (rule leader_started_an_election) (simp add: s(3))
  ultimately show ?thesis using s(2) by blast
qed

end
