(* ===== verification/Failure_Manager.thy ===== *)
theory Failure_Manager
  imports Json_Text Election_Manager
begin

text \<open>
  \<open>failure-manager.cc\<close>: the ping thread and its time stamps, the detached threads that handle a
  failure and a recovery, and the receiver's handlers. The state includes the process's messenger and
  log files, which the manager writes; the leader is read from the election manager and is an
  argument. \<open>clientConnMutex\<close> is locked and unlocked by different threads, so its owner is kept.
\<close>

section \<open>Ids and indices\<close>

definition indexToId :: "int \<Rightarrow> int \<Rightarrow> int" where
  "indexToId nodeId index = (if index < nodeId then index else index + 1)"

definition idToIndex :: "int \<Rightarrow> int \<Rightarrow> int" where
  "idToIndex nodeId1 nodeId2 = (if nodeId2 < nodeId1 then nodeId2 else nodeId2 - 1)"

text \<open>A numbering of the nodes other than the own one without a gap.\<close>

locale other_node_index =
  fixes own :: int and to_index :: "int \<Rightarrow> int" and to_id :: "int \<Rightarrow> int"
  assumes to_id_to_index: "p \<noteq> own \<Longrightarrow> to_id (to_index p) = p"
    and to_index_to_id: "to_index (to_id i) = i"
    and to_id_other: "to_id i \<noteq> own"
begin

lemma to_index_inject: "p \<noteq> own \<Longrightarrow> q \<noteq> own \<Longrightarrow> to_index p = to_index q \<Longrightarrow> p = q"
  by (metis to_id_to_index)

lemma to_id_inject: "to_id i = to_id j \<Longrightarrow> i = j"
  by (metis to_index_to_id)

end

interpretation node_index: other_node_index own "idToIndex own" "indexToId own"
  by unfold_locales (auto simp: idToIndex_def indexToId_def)

lemma idToIndex_status: "idToIndex own p = node_status_index own p"
  by (simp add: idToIndex_def node_status_index_def)

section \<open>State\<close>

datatype mutex_owner =
    Free
  | Held_By_Client
  | Held_By_Recovery

record failure_state =
  f_timeStamps :: "time_point list"
  f_isAlive :: "bool list"
  f_curRecoveryId :: int
  f_clientConn :: mutex_owner
  f_pingThreadIsUp :: bool
  f_messenger :: messenger
  f_files :: files

definition failure_init :: "messenger \<Rightarrow> time_point \<Rightarrow> files \<Rightarrow> failure_state" where
  "failure_init m now fs =
     (let n = nat (m_clusterSize m - 1) in
      \<lparr>f_timeStamps = replicate n now, f_isAlive = replicate n True, f_curRecoveryId = -1,
       f_clientConn = Free, f_pingThreadIsUp = True, f_messenger = m, f_files = fs\<rparr>)"

abbreviation f_rank :: "failure_state \<Rightarrow> int" where
  "f_rank st \<equiv> m_rank (f_messenger st)"

abbreviation f_size :: "failure_state \<Rightarrow> int" where
  "f_size st \<equiv> m_clusterSize (f_messenger st)"

definition timeout_duration :: int where
  "timeout_duration = 1"

section \<open>The ping thread\<close>

definition broadcastPing :: "messenger \<Rightarrow> int \<Rightarrow> sends" where
  "broadcastPing m wtime = broadcast_sends m (setMessage wtime (Failure_Code PING))"

text \<open>The threads a check of the time stamps starts.\<close>

datatype check_action =
    Node_Failure int
  | Node_Recovery int

definition check_time_stamp ::
  "time_point \<Rightarrow> int \<Rightarrow> int \<Rightarrow> failure_state \<Rightarrow> check_action list res" where
  "check_time_stamp cur leader i st =
     res_bind (vec_get (f_timeStamps st) i) (\<lambda>lastSeen.
     res_bind (vec_get (f_isAlive st) i) (\<lambda>alive.
       let elapsed = elapsed_seconds cur lastSeen in
       if alive \<and> elapsed > timeout_duration then Inr [Node_Failure i]
       else if \<not> alive \<and> elapsed < timeout_duration then
         if f_curRecoveryId st = -1 \<and> leader = f_rank st then Inr [Node_Recovery i] else Inr []
       else Inr []))"

fun check_indices ::
  "(int \<Rightarrow> time_point) \<Rightarrow> int \<Rightarrow> int list \<Rightarrow> failure_state \<Rightarrow> check_action list res" where
  "check_indices cur leader [] st = Inr []"
| "check_indices cur leader (i # is) st =
     res_bind (check_time_stamp (cur i) leader i st) (\<lambda>as.
     res_bind (check_indices cur leader is st) (\<lambda>as'. Inr (as @ as')))"

text \<open>\<open>cur\<close> gives the clock at each round of the loop.\<close>

definition checkTimeStamps ::
  "(int \<Rightarrow> time_point) \<Rightarrow> int \<Rightarrow> failure_state \<Rightarrow> check_action list res" where
  "checkTimeStamps cur leader st = check_indices cur leader [0..f_size st - 2] st"

text \<open>
  One round of \<open>pingCheck\<close> after its sleeps: the threads it starts, its pings, and whether it goes on.
\<close>

definition ping_round ::
  "(int \<Rightarrow> time_point) \<Rightarrow> int \<Rightarrow> int \<Rightarrow> failure_state \<Rightarrow> (check_action list \<times> sends \<times> bool) res" where
  "ping_round cur wtime leader st =
     res_bind (checkTimeStamps cur leader st) (\<lambda>as.
       Inr (as, broadcastPing (f_messenger st) wtime, f_pingThreadIsUp st))"

section \<open>Failure and recovery threads\<close>

text \<open>The flag says whether the thread starts an election, two seconds later.\<close>

definition handleNodeFailure :: "int \<Rightarrow> int \<Rightarrow> failure_state \<Rightarrow> (failure_state \<times> bool) res" where
  "handleNodeFailure nodeIndex leader st =
     res_bind (vec_set (f_isAlive st) nodeIndex False) (\<lambda>alive.
     res_bind (setNodeStatus nodeIndex False (f_messenger st)) (\<lambda>m.
       Inr (st\<lparr>f_isAlive := alive, f_messenger := m\<rparr>,
            leader = indexToId (m_rank m) nodeIndex)))"

text \<open>\<open>None\<close>: the caller waits for the mutex.\<close>

definition allowRecovery :: "failure_state \<Rightarrow> failure_state res" where
  "allowRecovery st =
     (if f_clientConn st = Held_By_Client then Inr (st\<lparr>f_clientConn := Free\<rparr>)
      else Inl Undefined_Behaviour)"

definition disallowRecovery :: "failure_state \<Rightarrow> failure_state option" where
  "disallowRecovery st =
     (if f_clientConn st = Free then Some (st\<lparr>f_clientConn := Held_By_Client\<rparr>) else None)"

text \<open>
  \<open>handleNodeRecovery\<close> in its three blocks: the recovery id, then, holding the mutex of the client
  connection, the log as a STATE message, and after three seconds the end of the recovery round.
\<close>

definition recovery_begin :: "int \<Rightarrow> failure_state \<Rightarrow> failure_state \<times> message" where
  "recovery_begin wtime st =
     (let message = setMessage wtime (Failure_Code STATE) in
      (st\<lparr>f_curRecoveryId := m_id message\<rparr>, message))"

definition recovery_send ::
  "log_file_manager \<Rightarrow> int \<Rightarrow> message \<Rightarrow> failure_state \<Rightarrow> (failure_state \<times> sends) option res" where
  "recovery_send l nodeIndex message st =
     (if f_clientConn st \<noteq> Free then Inr None
      else
        res_bind (json_text [(''state'', JString (log_read l (f_files st) []))]) (\<lambda>jsonString.
          Inr (Some (st\<lparr>f_clientConn := Held_By_Recovery\<rparr>,
                     [(indexToId (f_rank st) nodeIndex, message_setData jsonString message)]))))"

definition recovery_end :: "failure_state \<Rightarrow> failure_state" where
  "recovery_end st = st\<lparr>f_curRecoveryId := -1, f_clientConn := Free\<rparr>"

section \<open>Handlers\<close>

definition broadcastRecovered :: "messenger \<Rightarrow> int \<Rightarrow> int \<Rightarrow> sends res" where
  "broadcastRecovered m wtime recoveredNodeId =
     res_bind (json_text [(''recoveredNodeId'', JInt recoveredNodeId)]) (\<lambda>jsonString.
       Inr (broadcast_sends m (setMessage_data wtime (Failure_Code RECOVERED) jsonString)))"

definition enableComm :: "int \<Rightarrow> failure_state \<Rightarrow> failure_state res" where
  "enableComm recoveredNodeId st =
     (let nodeIndex = idToIndex (f_rank st) recoveredNodeId in
      res_bind (setNodeStatus nodeIndex True (f_messenger st)) (\<lambda>m.
      res_bind (vec_set (f_isAlive st) nodeIndex True) (\<lambda>alive.
        Inr (st\<lparr>f_messenger := m, f_isAlive := alive\<rparr>))))"

text \<open>The integer member \<open>k\<close> of the object in a message's data.\<close>

definition data_int :: "string \<Rightarrow> message \<Rightarrow> int res" where
  "data_int k msg =
     res_bind (message_getData msg) (\<lambda>d.
     res_bind (json_parse d) (\<lambda>j.
     res_bind (json_at k j) json_get_int))"

definition handleStateUpdate ::
  "int \<Rightarrow> int \<Rightarrow> int \<Rightarrow> message \<Rightarrow> failure_state \<Rightarrow> failure_state handled" where
  "handleStateUpdate wtime leader srcNodeId msg st =
     res_bind (data_int ''recoveryId'' msg) (\<lambda>recoveryId.
     res_bind
       (if f_curRecoveryId st = recoveryId \<and> leader = f_rank st then
          res_bind (broadcastRecovered (f_messenger st) wtime srcNodeId) (\<lambda>out.
          res_bind (enableComm srcNodeId st) (\<lambda>st'. Inr (st', out)))
        else Inr (st, []))
       (\<lambda>(st', out).
         Inr (st', out @ [(srcNodeId, setMessage wtime (Leader_Election_Code VICTORY))])))"

fun stamp_indices :: "time_point \<Rightarrow> int list \<Rightarrow> time_point list \<Rightarrow> time_point list res" where
  "stamp_indices now [] ts = Inr ts"
| "stamp_indices now (i # is) ts = res_bind (vec_set ts i now) (stamp_indices now is)"

definition handleRecovered :: "time_point \<Rightarrow> message \<Rightarrow> failure_state \<Rightarrow> failure_state res" where
  "handleRecovered now msg st =
     res_bind (data_int ''recoveredNodeId'' msg) (\<lambda>recoveredNodeId.
       if f_rank st = recoveredNodeId then
         res_bind (stamp_indices now [0..f_size st - 2] (f_timeStamps st)) (\<lambda>ts.
           Inr (st\<lparr>f_timeStamps := ts\<rparr>))
       else enableComm recoveredNodeId st)"

definition handleState ::
  "log_file_manager \<Rightarrow> int \<Rightarrow> int \<Rightarrow> message \<Rightarrow> failure_state \<Rightarrow> failure_state handled" where
  "handleState l wtime srcNodeId msg st =
     res_bind (message_getData msg) (\<lambda>d.
     res_bind (json_parse d) (\<lambda>j.
     res_bind (json_at ''state'' j) (\<lambda>js.
     res_bind (json_get_string js) (\<lambda>logContents.
     res_bind (json_text [(''recoveryId'', JInt (m_id msg))]) (\<lambda>jsonString.
       Inr (st\<lparr>f_files := log_replace l logContents (f_files st)\<rparr>,
            [(srcNodeId, setMessage_data wtime (Failure_Code STATE_UPDATED) jsonString)]))))))"

definition handlePing :: "time_point \<Rightarrow> int \<Rightarrow> failure_state \<Rightarrow> failure_state res" where
  "handlePing now srcNodeId st =
     res_bind (vec_set (f_timeStamps st) (idToIndex (f_rank st) srcNodeId) now) (\<lambda>ts.
       Inr (st\<lparr>f_timeStamps := ts\<rparr>))"

definition failure_handleMessage ::
  "log_file_manager \<Rightarrow> int \<Rightarrow> time_point \<Rightarrow> int \<Rightarrow> int \<Rightarrow> message \<Rightarrow> failure_state \<Rightarrow>
   failure_state handled" where
  "failure_handleMessage l wtime now leader srcNodeId msg st =
     (case failure_code_of_int (m_code msg) of
        Some PING \<Rightarrow> res_bind (handlePing now srcNodeId st) (\<lambda>st'. Inr (st', []))
      | Some STATE \<Rightarrow> handleState l wtime srcNodeId msg st
      | Some STATE_UPDATED \<Rightarrow> handleStateUpdate wtime leader srcNodeId msg st
      | Some RECOVERED \<Rightarrow> res_bind (handleRecovered now msg st) (\<lambda>st'. Inr (st', []))
      | _ \<Rightarrow> Inr (st, []))"

text \<open>The ping thread is joined after this.\<close>

definition failure_stopReceiver :: "int \<Rightarrow> failure_state \<Rightarrow> failure_state \<times> sends" where
  "failure_stopReceiver wtime st =
     (st\<lparr>f_pingThreadIsUp := False\<rparr>,
      [(f_rank st, setMessage wtime (Failure_Code Failure_SHUTDOWN))])"

end
