(* ===== verification/Failure_Node.thy ===== *)
theory Failure_Node
  imports Failure_Manager
begin

text \<open>
  One node of the failure detector: the numbering of the other nodes, the agreement between the
  detector's flags and the messenger's, when a failure or a recovery is noticed, and what the
  handlers do to the flags.
\<close>

section \<open>The numbering\<close>

text \<open>
  \<open>idToIndex\<close> numbers the other nodes of a cluster of \<open>n\<close> nodes by \<open>0, ..., n - 2\<close> without gaps or
  repetitions, \<open>indexToId\<close> is its inverse, and it is the index \<open>messageShouldDrop\<close> computes for itself.
\<close>

lemma node_index_bijection:
  assumes "0 \<le> own" "own < n"
  shows "bij_betw (idToIndex own) ({0..<n} - {own}) {0..<n - 1} \<and>
    bij_betw (indexToId own) {0..<n - 1} ({0..<n} - {own}) \<and>
    (p \<noteq> own \<longrightarrow> indexToId own (idToIndex own p) = p) \<and>
    idToIndex own (indexToId own i) = i \<and> node_status_index own p = idToIndex own p"
proof -
  have "bij_betw (idToIndex own) ({0..<n} - {own}) {0..<n - 1}"
    by (rule bij_betw_byWitness [where f' = "indexToId own"])
      (use assms in \<open>auto simp: idToIndex_def indexToId_def\<close>)
  moreover have "bij_betw (indexToId own) {0..<n - 1} ({0..<n} - {own})"
    by (rule bij_betw_byWitness [where f' = "idToIndex own"])
      (use assms in \<open>auto simp: idToIndex_def indexToId_def\<close>)
  ultimately show ?thesis
    using node_index.to_id_to_index [of p own] node_index.to_index_to_id [of own i]
    by (simp add: idToIndex_status)
qed

section \<open>The invariant\<close>

definition failure_inv :: "failure_state \<Rightarrow> bool" where
  "failure_inv st \<longleftrightarrow>
     messenger_wf (f_messenger st) \<and> f_isAlive st = m_processIsAlive (f_messenger st) \<and>
     length (f_timeStamps st) = length (f_isAlive st)"

lemma failure_inv_init:
  "0 \<le> rank \<Longrightarrow> rank < n \<Longrightarrow> failure_inv (failure_init (messenger_start rank n) now fs)"
  by (simp add: failure_inv_def failure_init_def messenger_start_def messenger_wf_def Let_def)

lemma failure_inv_length: "failure_inv st \<Longrightarrow> int (length (f_isAlive st)) = f_size st - 1"
  by (simp add: failure_inv_def messenger_wf_def)

lemma setNodeStatus_eq:
  "setNodeStatus i a m = Inr m' \<longleftrightarrow>
     0 \<le> i \<and> i < int (length (m_processIsAlive m)) \<and>
     m' = m\<lparr>m_processIsAlive := (m_processIsAlive m)[nat i := a]\<rparr>"
  by (auto simp: setNodeStatus_def vec_set_eq_Inr)

lemma messenger_wf_update [simp]:
  "messenger_wf (m\<lparr>m_processIsAlive := (m_processIsAlive m)[i := a]\<rparr>) = messenger_wf m"
  by (simp add: messenger_wf_def)

lemma stamp_indices_length: "stamp_indices now is ts = Inr ts' \<Longrightarrow> length ts' = length ts"
  by (induction now "is" ts rule: stamp_indices.induct) (auto dest: vec_set_length)

lemma enableComm_inv:
  assumes "failure_inv st" and "enableComm p st = Inr st'"
  shows "failure_inv st' \<and> f_rank st' = f_rank st \<and> f_size st' = f_size st"
  using assms
  by (auto simp: enableComm_def Let_def failure_inv_def setNodeStatus_eq vec_set_eq_Inr)

lemma handlePing_inv:
  "failure_inv st \<Longrightarrow> handlePing now src st = Inr st' \<Longrightarrow>
   failure_inv st' \<and> f_messenger st' = f_messenger st"
  by (auto simp: handlePing_def failure_inv_def vec_set_eq_Inr)

lemma handleState_inv:
  "failure_inv st \<Longrightarrow> handleState l w src msg st = Inr (st', out) \<Longrightarrow>
   failure_inv st' \<and> f_messenger st' = f_messenger st"
  by (auto simp: handleState_def failure_inv_def)

lemma handleStateUpdate_inv:
  assumes "failure_inv st" and "handleStateUpdate w leader src msg st = Inr (st', out)"
  shows "failure_inv st' \<and> f_rank st' = f_rank st \<and> f_size st' = f_size st"
  using assms by (auto simp: handleStateUpdate_def split: if_splits dest: enableComm_inv)

lemma handleRecovered_inv:
  assumes "failure_inv st" and "handleRecovered now msg st = Inr st'"
  shows "failure_inv st' \<and> f_rank st' = f_rank st \<and> f_size st' = f_size st"
  using assms
  by (auto simp: handleRecovered_def split: if_splits dest: enableComm_inv)
    (auto simp: failure_inv_def dest: stamp_indices_length)

lemma failure_handleMessage_inv:
  assumes "failure_inv st" and "failure_handleMessage l w now leader src msg st = Inr (st', out)"
  shows "failure_inv st' \<and> f_rank st' = f_rank st \<and> f_size st' = f_size st"
proof (cases "failure_code_of_int (m_code msg)")
  case (Some c)
  then show ?thesis
    using assms
    by (cases c) (auto simp: failure_handleMessage_def
        dest: handlePing_inv handleState_inv handleStateUpdate_inv handleRecovered_inv)
qed (use assms in \<open>simp add: failure_handleMessage_def\<close>)

interpretation failure_handler: message_handler id
  "\<lambda>src msg (st, out). res_bind (failure_handleMessage l w now leader src msg st)
      (\<lambda>(st', out'). Inr (st', out @ out'))"
  "\<lambda>(st, out). failure_inv st"
  by unfold_locales (auto dest: failure_handleMessage_inv)

lemma handleNodeFailure_inv:
  assumes "failure_inv st" and "handleNodeFailure i leader st = Inr (st', e)"
  shows "failure_inv st' \<and> f_rank st' = f_rank st \<and> f_size st' = f_size st"
  using assms by (auto simp: handleNodeFailure_def failure_inv_def setNodeStatus_eq vec_set_eq_Inr)



section \<open>Detection\<close>

lemma check_time_stamp_eq:
  assumes "failure_inv st" "0 \<le> i" "i < f_size st - 1" and "f_timeStamps st ! nat i \<le> cur"
  shows "check_time_stamp cur leader i st = Inr
    (if f_isAlive st ! nat i \<and> 2 * ns_per_second \<le> cur - f_timeStamps st ! nat i then [Node_Failure i]
     else if \<not> f_isAlive st ! nat i \<and> cur - f_timeStamps st ! nat i < ns_per_second \<and>
       f_curRecoveryId st = -1 \<and> leader = f_rank st then [Node_Recovery i]
     else [])"
proof -
  have "i < int (length (f_isAlive st))" "i < int (length (f_timeStamps st))"
    using assms(1,3) failure_inv_length [OF assms(1)] by (simp_all add: failure_inv_def)
  moreover have "elapsed_seconds cur (f_timeStamps st ! nat i) > 1 \<longleftrightarrow>
      2 * ns_per_second \<le> cur - f_timeStamps st ! nat i"
    "elapsed_seconds cur (f_timeStamps st ! nat i) < 1 \<longleftrightarrow>
      cur - f_timeStamps st ! nat i < ns_per_second"
    using elapsed_seconds_le_iff [OF assms(4), of 2] elapsed_seconds_le_iff [OF assms(4), of 1] by auto
  ultimately show ?thesis
    using assms(2) by (auto simp: check_time_stamp_def timeout_duration_def Let_def)
qed

lemma check_indices_ok:
  assumes "\<And>i. i \<in> set is \<Longrightarrow> check_time_stamp (cur i) leader i st = Inr (f i)"
  shows "check_indices cur leader is st = Inr (concat (map f is))"
  using assms by (induction "is") simp_all

text \<open>
  One check of the time stamps notices exactly: as failed, the nodes marked alive that have been
  silent for at least two seconds; as recovering, if this node is the leader and no recovery round is
  open, the nodes marked failed that were heard less than one second ago. In particular a node whose
  last ping is younger than two seconds is never declared failed, and a failed node that was silent
  for between one and two seconds is left alone.
\<close>

lemma checkTimeStamps_detects:
  assumes "failure_inv st" and "\<And>i. 0 \<le> i \<Longrightarrow> i < f_size st - 1 \<Longrightarrow> f_timeStamps st ! nat i \<le> cur i"
    and "0 \<le> i" "i < f_size st - 1"
  shows "\<exists>as. checkTimeStamps cur leader st = Inr as \<and>
    (Node_Failure i \<in> set as \<longleftrightarrow>
       f_isAlive st ! nat i \<and> 2 * ns_per_second \<le> cur i - f_timeStamps st ! nat i) \<and>
    (Node_Recovery i \<in> set as \<longleftrightarrow>
       \<not> f_isAlive st ! nat i \<and> cur i - f_timeStamps st ! nat i < ns_per_second \<and>
       f_curRecoveryId st = -1 \<and> leader = f_rank st)"
proof -
  let ?f = "\<lambda>i. if f_isAlive st ! nat i \<and> 2 * ns_per_second \<le> cur i - f_timeStamps st ! nat i
      then [Node_Failure i]
      else if \<not> f_isAlive st ! nat i \<and> cur i - f_timeStamps st ! nat i < ns_per_second \<and>
        f_curRecoveryId st = -1 \<and> leader = f_rank st then [Node_Recovery i] else []"
  have "checkTimeStamps cur leader st = Inr (concat (map ?f [0..f_size st - 2]))"
    unfolding checkTimeStamps_def
    by (rule check_indices_ok, rule check_time_stamp_eq [OF assms(1)]) (use assms(2) in auto)
  moreover have "i \<in> set [0..f_size st - 2]" using assms(3,4) by simp
  ultimately show ?thesis by (auto split: if_splits)
qed

section \<open>The failure thread\<close>

lemma handleNodeFailure_ok:
  assumes "failure_inv st" and "0 \<le> i" "i < f_size st - 1"
  shows "handleNodeFailure i leader st =
    Inr (st\<lparr>f_isAlive := (f_isAlive st)[nat i := False],
             f_messenger := (f_messenger st)\<lparr>m_processIsAlive := (f_isAlive st)[nat i := False]\<rparr>\<rparr>,
         leader = indexToId (f_rank st) i)"
  using assms failure_inv_length [OF assms(1)]
  by (simp add: handleNodeFailure_def failure_inv_def setNodeStatus_def)

lemma node_alive_update:
  assumes "messenger_wf m" and "0 \<le> i" "i < m_clusterSize m - 1"
    and "0 \<le> p" "p < m_clusterSize m" "p \<noteq> m_rank m"
  shows "node_alive (m\<lparr>m_processIsAlive := (m_processIsAlive m)[nat i := a]\<rparr>) p =
    (if p = indexToId (m_rank m) i then a else node_alive m p)"
proof -
  have bounds: "0 \<le> idToIndex (m_rank m) p" "idToIndex (m_rank m) p < m_clusterSize m - 1"
    using assms node_status_index_bounds [of "m_rank m" "m_clusterSize m" p]
    by (simp_all add: messenger_wf_def idToIndex_status)
  have "p = indexToId (m_rank m) i \<longleftrightarrow> idToIndex (m_rank m) p = i"
    using node_index.to_id_to_index [OF assms(6)] node_index.to_index_to_id by metis
  then show ?thesis
    using assms(1-3) bounds
    by (auto simp: node_alive_def idToIndex_status [symmetric] nth_list_update messenger_wf_def nat_eq_iff)
qed

text \<open>
  The failure thread cuts off exactly the failed node: afterwards the messenger drops every
  message between this node and the failed one except those of the failure detector, and decides as
  before for every other node; an election follows iff the failed node was the leader.
\<close>

lemma failed_node_is_cut_off:
  assumes "failure_inv st" and "0 \<le> i" "i < f_size st - 1" and "0 \<le> p" "p < f_size st" "p \<noteq> f_rank st"
  shows "\<exists>st'. handleNodeFailure i leader st = Inr (st', leader = indexToId (f_rank st) i) \<and>
    messageShouldDrop (m_processIsAlive (f_messenger st')) (f_rank st') p Comm_World tag =
      (if p = indexToId (f_rank st) i then Inr (tag \<noteq> Some FAILURE_DETECTION)
       else messageShouldDrop (m_processIsAlive (f_messenger st)) (f_rank st) p Comm_World tag)"
proof -
  have m: "messenger_wf (f_messenger st)" "f_isAlive st = m_processIsAlive (f_messenger st)"
    using assms(1) by (simp_all add: failure_inv_def)
  let ?m' = "(f_messenger st)\<lparr>m_processIsAlive := (m_processIsAlive (f_messenger st))[nat i := False]\<rparr>"
  have "messenger_wf ?m'" using m(1) by simp
  from messageShouldDrop_eq [OF this, of p Comm_World tag] messageShouldDrop_eq [OF m(1) assms(4,5)]
    node_alive_update [OF m(1) assms(2-6)] assms(4-6)
  have "messageShouldDrop (m_processIsAlive ?m') (f_rank st) p Comm_World tag =
      (if p = indexToId (f_rank st) i then Inr (tag \<noteq> Some FAILURE_DETECTION)
       else messageShouldDrop (m_processIsAlive (f_messenger st)) (f_rank st) p Comm_World tag)"
    by simp
  then show ?thesis by (simp add: handleNodeFailure_ok [OF assms(1-3)] m(2))
qed

end
