(* ===== verification/Failure_System.thy ===== *)
theory Failure_System
  imports Failure_Node
begin

text \<open>
  The failure detectors of all nodes with the recovery threads and the client thread of the leader
  \<open>L\<close>: a step relation over FIFO channels, and the proof that a node is let back into the cluster
  only with the leader's log. Any number of recovery threads may overlap; the client thread logs
  entries only while it owns \<open>clientConnMutex\<close>. A recovering node's log changes only by STATE.
\<close>

section \<open>What the handlers exchange\<close>

abbreviation fcode :: "message \<Rightarrow> failure_code option" where
  "fcode m \<equiv> failure_code_of_int (m_code m)"

declare code_int.simps [simp del]

lemma failure_handleMessage_eq:
  assumes "fcode msg = c"
  shows "failure_handleMessage l w now leader src msg st =
    (if c = Some PING then res_bind (handlePing now src st) (\<lambda>st'. Inr (st', []))
     else if c = Some STATE then handleState l w src msg st
     else if c = Some STATE_UPDATED then handleStateUpdate w leader src msg st
     else if c = Some RECOVERED then res_bind (handleRecovered now msg st) (\<lambda>st'. Inr (st', []))
     else Inr (st, []))"
  using assms by (simp add: failure_handleMessage_def split: option.splits failure_code.splits)

lemma failure_handleMessage_control:
  assumes "failure_handleMessage l w now leader src msg st = Inr (st', out)"
  shows "f_curRecoveryId st' = f_curRecoveryId st \<and> f_clientConn st' = f_clientConn st \<and>
    (fcode msg \<noteq> Some STATE \<longrightarrow> f_files st' = f_files st)"
  using assms
  by (auto simp: failure_handleMessage_eq [OF refl] handlePing_def handleState_def
      handleStateUpdate_def handleRecovered_def enableComm_def Let_def split: if_splits)

lemma handleState_reply:
  assumes "fcode msg = Some STATE" and "carries msg [(''state'', JString c)]"
    and "failure_handleMessage l w now leader src msg st = Inr (st', out)"
  shows "log_read l (f_files st') [] = c \<and>
    (\<exists>m. out = [(src, m)] \<and> fcode m = Some STATE_UPDATED \<and> m_tag m = tag_int FAILURE_DETECTION \<and>
      carries m [(''recoveryId'', JInt (m_id msg))])"
proof -
  obtain d where "message_getData msg = Inr d" "json_parse d = Inr (json_object [(''state'', JString c)])"
    using carries_parse [OF assms(2)] by auto
  with assms(1,3) show ?thesis
    by (auto simp: failure_handleMessage_eq [OF assms(1)] handleState_def log_file.contents_replace carriesI)
qed

lemma data_int_carried:
  assumes "carries msg [(k, JInt r)]" and "is_int32 r"
  shows "data_int k msg = Inr r"
proof -
  have "list_all (\<lambda>(k, v). json_wf v) [(k, JInt r)]" using assms(2) by (simp add: int_fits_int32)
  from carries_parse [OF assms(1) this] obtain d
    where "message_getData msg = Inr d" "json_parse d = Inr (json_object [(k, JInt r)])" by auto
  with assms(2) show ?thesis by (simp add: data_int_def)
qed

lemma handleStateUpdate_effect:
  assumes "fcode msg = Some STATE_UPDATED" and "carries msg [(''recoveryId'', JInt r)]" "is_int32 r"
    and "failure_handleMessage l w now leader src msg st = Inr (st', out)"
  shows "if f_curRecoveryId st = r \<and> leader = f_rank st then enableComm src st = Inr st' else st' = st"
  using assms(1,4) data_int_carried [OF assms(2,3)]
  by (auto simp: failure_handleMessage_eq [OF assms(1)] handleStateUpdate_def split: if_splits)

lemma handleStateUpdate_out:
  assumes "fcode msg = Some STATE_UPDATED"
    and "failure_handleMessage l w now leader src msg st = Inr (st', out)" and "(q, m) \<in> set out"
  shows "m_tag m = tag_int LEADER_ELECTION \<or> q \<noteq> f_rank st \<and> fcode m = Some RECOVERED"
  using assms
  by (auto simp: failure_handleMessage_eq [OF assms(1)] handleStateUpdate_def broadcastRecovered_def
      broadcast_sends_def broadcast_targets_def split: if_splits)

lemma failure_handleMessage_silent:
  assumes "failure_handleMessage l w now leader src msg st = Inr (st', out)"
    and "fcode msg \<noteq> Some STATE" "fcode msg \<noteq> Some STATE_UPDATED"
  shows "out = []"
  using assms by (auto simp: failure_handleMessage_eq [OF refl] split: if_splits)

section \<open>The system\<close>

text \<open>
  \<open>fs_started\<close>: the indices of the recovery threads before their first block; \<open>fs_begun\<close>: the threads
  that have set the recovery id and wait for the mutex, with their messages; \<open>fs_asleep\<close>: the id of
  the thread that owns the mutex and the end of its sleep.
\<close>

record failure_system =
  fs_now :: time_point
  fs_nodes :: "int \<Rightarrow> failure_state"
  fs_net :: "int \<Rightarrow> int \<Rightarrow> message list"
  fs_started :: "int list"
  fs_begun :: "(int \<times> message) list"
  fs_asleep :: "(int \<times> time_point) option"

definition set_node :: "int \<Rightarrow> failure_state \<Rightarrow> failure_system \<Rightarrow> failure_system" where
  "set_node p st s = s\<lparr>fs_nodes := (fs_nodes s)(p := st)\<rparr>"

definition recovery_duration :: int where
  "recovery_duration = 3 * ns_per_second"

text \<open>The messages of an output that go to failure receivers.\<close>

definition failure_sends :: "sends \<Rightarrow> sends" where
  "failure_sends out = filter (\<lambda>(q, m). m_tag m = tag_int FAILURE_DETECTION) out"

text \<open>
  The steps: time passes, a ping, a handled message, a failure thread of any node; a recovery thread
  starts, begins, sends the state and ends; the client connection ends and starts, and an entry is
  logged while it is open. \<open>ld\<close> is what the election manager answers at that moment.
\<close>

inductive failure_step ::
  "int \<Rightarrow> (int \<Rightarrow> log_file_manager) \<Rightarrow> failure_system \<Rightarrow> failure_system \<Rightarrow> bool"
  for L :: int and l :: "int \<Rightarrow> log_file_manager"
where
  fs_tick: "fs_now s \<le> t \<Longrightarrow> t < 2 ^ 31 * ns_per_second \<Longrightarrow> failure_step L l s (s\<lparr>fs_now := t\<rparr>)"
| fs_ping: "failure_step L l s
     (s\<lparr>fs_net := enqueue p (broadcastPing (f_messenger (fs_nodes s p)) (fs_now s)) (fs_net s)\<rparr>)"
| fs_handle: "fs_net s p q = m # ms \<Longrightarrow>
     failure_handleMessage (l q) (fs_now s) (fs_now s) ld p m (fs_nodes s q) = Inr (st', out) \<Longrightarrow>
     failure_step L l s ((set_node q st' s)\<lparr>fs_net := enqueue q (failure_sends out)
       ((fs_net s)(p := (fs_net s p)(q := ms)))\<rparr>)"
| fs_failure: "handleNodeFailure i ld (fs_nodes s p) = Inr (st', e) \<Longrightarrow>
     failure_step L l s (set_node p st' s)"
| fs_detect: "check_time_stamp (fs_now s) ld i (fs_nodes s L) = Inr [Node_Recovery i] \<Longrightarrow>
     failure_step L l s (s\<lparr>fs_started := i # fs_started s\<rparr>)"
| fs_begin: "i \<in> set (fs_started s) \<Longrightarrow> recovery_begin (fs_now s) (fs_nodes s L) = (st', m) \<Longrightarrow>
     failure_step L l s ((set_node L st' s)
       \<lparr>fs_started := remove1 i (fs_started s), fs_begun := (i, m) # fs_begun s\<rparr>)"
| fs_send: "(i, m) \<in> set (fs_begun s) \<Longrightarrow>
     recovery_send (l L) i m (fs_nodes s L) = Inr (Some (st', out)) \<Longrightarrow>
     failure_step L l s ((set_node L st' s)
       \<lparr>fs_net := enqueue L out (fs_net s), fs_begun := remove1 (i, m) (fs_begun s),
        fs_asleep := Some (m_id m, fs_now s + recovery_duration)\<rparr>)"
| fs_end: "fs_asleep s = Some (r, t) \<Longrightarrow> t \<le> fs_now s \<Longrightarrow>
     failure_step L l s ((set_node L (recovery_end (fs_nodes s L)) s)\<lparr>fs_asleep := None\<rparr>)"
| fs_leave: "allowRecovery (fs_nodes s L) = Inr st' \<Longrightarrow> failure_step L l s (set_node L st' s)"
| fs_enter: "disallowRecovery (fs_nodes s L) = Some st' \<Longrightarrow> failure_step L l s (set_node L st' s)"
| fs_log: "f_clientConn (fs_nodes s L) = Held_By_Client \<Longrightarrow> fs_nodes s L = st \<Longrightarrow>
     failure_step L l s (set_node L (st\<lparr>f_files := log_append (l L) e (f_files st)\<rparr>) s)"

inductive_cases failure_stepE: "failure_step L l s t"

text \<open>
  The failure managers have started, no message is under way and no thread is running; what the nodes
  think of each other and what their logs hold is arbitrary.
\<close>

definition failure_system_start :: "int \<Rightarrow> failure_system \<Rightarrow> bool" where
  "failure_system_start L s \<longleftrightarrow>
     0 \<le> fs_now s \<and> fs_now s < 2 ^ 31 * ns_per_second \<and> fs_net s = (\<lambda>_ _. []) \<and>
     fs_started s = [] \<and> fs_begun s = [] \<and> fs_asleep s = None \<and>
     (\<forall>p. f_curRecoveryId (fs_nodes s p) = -1) \<and> f_clientConn (fs_nodes s L) = Free \<and>
     failure_inv (fs_nodes s L) \<and> f_rank (fs_nodes s L) = L"

section \<open>The invariant\<close>

abbreviation fs_leader :: "int \<Rightarrow> failure_system \<Rightarrow> failure_state" where
  "fs_leader L s \<equiv> fs_nodes s L"

definition fs_log :: "(int \<Rightarrow> log_file_manager) \<Rightarrow> failure_system \<Rightarrow> int \<Rightarrow> string" where
  "fs_log l s p = log_read (l p) (f_files (fs_nodes s p)) []"

text \<open>The id is not the current one, and cannot become it again.\<close>

definition stale_id :: "int \<Rightarrow> failure_system \<Rightarrow> int \<Rightarrow> bool" where
  "stale_id L s r \<longleftrightarrow>
     f_curRecoveryId (fs_leader L s) \<noteq> r \<and> r < fs_now s div ns_per_second"

definition open_id :: "failure_system \<Rightarrow> int \<Rightarrow> bool" where
  "open_id s r \<longleftrightarrow> (\<exists>t. fs_asleep s = Some (r, t))"

text \<open>A STATE message is from a closed round, or the last one under way and it carries the leader's log.\<close>

definition no_state :: "message list \<Rightarrow> bool" where
  "no_state ms \<longleftrightarrow> (\<forall>m \<in> set ms. fcode m \<noteq> Some STATE)"

definition good_id :: "int \<Rightarrow> bool" where
  "good_id r \<longleftrightarrow> 0 \<le> r \<and> is_int32 r"

fun states_ok :: "(int \<Rightarrow> bool) \<Rightarrow> (int \<Rightarrow> bool) \<Rightarrow> string \<Rightarrow> message list \<Rightarrow> bool" where
  "states_ok stale opened c [] = True"
| "states_ok stale opened c (m # ms) = (states_ok stale opened c ms \<and>
     (fcode m = Some STATE \<longrightarrow> good_id (m_id m) \<and> (\<exists>c'. carries m [(''state'', JString c')] \<and>
        (stale (m_id m) \<or> opened (m_id m) \<and> c' = c \<and> no_state ms))))"

definition answers_ok ::
  "(int \<Rightarrow> bool) \<Rightarrow> (int \<Rightarrow> bool) \<Rightarrow> bool \<Rightarrow> message list \<Rightarrow> bool" where
  "answers_ok stale opened synced ms \<longleftrightarrow>
     (\<forall>m \<in> set ms. fcode m = Some STATE_UPDATED \<longrightarrow>
        (\<exists>r. carries m [(''recoveryId'', JInt r)] \<and> good_id r \<and> (stale r \<or> opened r \<and> synced)))"

lemma no_state_simps [simp]:
  "no_state []" "no_state (m # ms) \<longleftrightarrow> fcode m \<noteq> Some STATE \<and> no_state ms"
  "no_state (ms @ ns) \<longleftrightarrow> no_state ms \<and> no_state ns"
  by (auto simp: no_state_def)

lemma states_ok_append_other:
  "no_state ns \<Longrightarrow> states_ok stale opened c (ms @ ns) \<longleftrightarrow> states_ok stale opened c ms"
proof (induction ms)
  case Nil
  then show ?case by (induction ns) auto
qed auto

lemma states_ok_mono:
  assumes "states_ok stale opened c ms" and "\<And>r. good_id r \<Longrightarrow> stale r \<Longrightarrow> stale' r"
    and "\<And>r. good_id r \<Longrightarrow> opened r \<Longrightarrow> stale' r \<or> opened' r \<and> c = c'"
  shows "states_ok stale' opened' c' ms"
  using assms(1)
proof (induction ms)
  case (Cons m ms)
  then show ?case using assms(2,3) [of "m_id m"] by fastforce
qed simp

lemma states_ok_closed:
  assumes "states_ok stale (\<lambda>_. False) c ms" and "\<And>r. stale r \<Longrightarrow> stale' r"
  shows "states_ok stale' opened c' ms"
  using assms(1) by (rule states_ok_mono) (auto simp: assms(2))

lemma states_ok_append_new:
  assumes "states_ok stale (\<lambda>_. False) c0 ms" and "good_id (m_id m)" and "opened (m_id m)"
    and "carries m [(''state'', JString c)]"
  shows "states_ok stale opened c (ms @ [m])"
  using assms(1)
proof (induction ms)
  case Nil
  then show ?case using assms by auto
next
  case (Cons m' ms)
  then show ?case by auto
qed

lemma answers_ok_mono:
  assumes "answers_ok stale opened synced ms" and "\<And>r. good_id r \<Longrightarrow> stale r \<Longrightarrow> stale' r"
    and "\<And>r. good_id r \<Longrightarrow> opened r \<Longrightarrow> synced \<Longrightarrow> stale' r \<or> opened' r \<and> synced'"
  shows "answers_ok stale' opened' synced' ms"
  using assms unfolding answers_ok_def by meson

definition control_inv :: "int \<Rightarrow> failure_system \<Rightarrow> bool" where
  "control_inv L s \<longleftrightarrow>
     0 \<le> fs_now s \<and> fs_now s < 2 ^ 31 * ns_per_second \<and>
     failure_inv (fs_leader L s) \<and> f_rank (fs_leader L s) = L \<and>
     (\<forall>p. p \<noteq> L \<longrightarrow> f_curRecoveryId (fs_nodes s p) = -1) \<and>
     (\<forall>im \<in> set (fs_begun s). fcode (snd im) = Some STATE \<and> good_id (m_id (snd im)) \<and>
        m_id (snd im) \<le> fs_now s div ns_per_second) \<and>
     (fs_asleep s = None \<longleftrightarrow> f_clientConn (fs_leader L s) \<noteq> Held_By_Recovery) \<and>
     (\<forall>r t. fs_asleep s = Some (r, t) \<longrightarrow> good_id r \<and> r < t div ns_per_second)"

definition legal_message :: "int \<Rightarrow> int \<Rightarrow> int \<Rightarrow> message \<Rightarrow> bool" where
  "legal_message L p q m \<longleftrightarrow>
     (fcode m = Some STATE \<or> fcode m = Some RECOVERED \<longrightarrow> p = L \<and> q \<noteq> L) \<and>
     (fcode m = Some STATE_UPDATED \<longrightarrow> p \<noteq> L \<and> q = L)"

definition message_inv :: "int \<Rightarrow> (int \<Rightarrow> log_file_manager) \<Rightarrow> failure_system \<Rightarrow> bool" where
  "message_inv L l s \<longleftrightarrow>
     (\<forall>p q. \<forall>m \<in> set (fs_net s p q). legal_message L p q m) \<and>
     (\<forall>q. states_ok (stale_id L s) (open_id s) (fs_log l s L) (fs_net s L q)) \<and>
     (\<forall>q. q \<noteq> L \<longrightarrow> answers_ok (stale_id L s) (open_id s)
        (no_state (fs_net s L q) \<and> fs_log l s q = fs_log l s L) (fs_net s q L))"

definition failure_system_inv :: "int \<Rightarrow> (int \<Rightarrow> log_file_manager) \<Rightarrow> failure_system \<Rightarrow> bool" where
  "failure_system_inv L l s \<longleftrightarrow> control_inv L s \<and> message_inv L l s"

definition quiet_message :: "int \<Rightarrow> int \<Rightarrow> int \<Rightarrow> message \<Rightarrow> bool" where
  "quiet_message L p q m \<longleftrightarrow> fcode m = Some PING \<or> fcode m = Some RECOVERED \<and> p = L \<and> q \<noteq> L"

lemma quiet_legal: "quiet_message L p q m \<Longrightarrow> legal_message L p q m"
  by (auto simp: quiet_message_def legal_message_def)

lemma quiet_no_state: "list_all (quiet_message L p q) ms \<Longrightarrow> no_state ms"
  by (induction ms) (auto simp: quiet_message_def)

lemma answers_ok_append_quiet:
  assumes "list_all (quiet_message L p q) ns"
  shows "answers_ok stale opened synced (ms @ ns) \<longleftrightarrow> answers_ok stale opened synced ms"
proof -
  have "fcode m \<noteq> Some STATE_UPDATED" if "m \<in> set ns" for m
    using assms that by (auto simp: quiet_message_def list_all_iff)
  then show ?thesis by (auto simp: answers_ok_def)
qed

text \<open>A step that changes no log and only adds quiet messages.\<close>

lemma message_inv_frame:
  assumes inv: "message_inv L l s"
    and net: "\<And>p q. fs_net t p q = fs_net s p q @ ns p q"
    and quiet: "\<And>p q. list_all (quiet_message L p q) (ns p q)"
    and logs: "\<And>p. fs_log l t p = fs_log l s p"
    and stale: "\<And>r. good_id r \<Longrightarrow> stale_id L s r \<Longrightarrow> stale_id L t r"
    and opened: "\<And>r. good_id r \<Longrightarrow> open_id s r \<Longrightarrow> stale_id L t r \<or> open_id t r"
  shows "message_inv L l t"
proof -
  have no: "no_state (ns p q)" for p q by (rule quiet_no_state) (rule quiet)
  have "legal_message L p q m" if "m \<in> set (fs_net t p q)" for p q m
    using that inv quiet [of p q] quiet_legal by (auto simp: net message_inv_def list_all_iff)
  moreover have "states_ok (stale_id L t) (open_id t) (fs_log l t L) (fs_net t L q)" for q
  proof -
    have "states_ok (stale_id L s) (open_id s) (fs_log l s L) (fs_net s L q)"
      using inv by (simp add: message_inv_def)
    then show ?thesis
      unfolding net states_ok_append_other [OF no]
      by (rule states_ok_mono) (use stale opened logs in auto)
  qed
  moreover have "answers_ok (stale_id L t) (open_id t)
      (no_state (fs_net t L q) \<and> fs_log l t q = fs_log l t L) (fs_net t q L)" if "q \<noteq> L" for q
  proof -
    have "answers_ok (stale_id L s) (open_id s)
        (no_state (fs_net s L q) \<and> fs_log l s q = fs_log l s L) (fs_net s q L)"
      using inv that by (simp add: message_inv_def)
    then show ?thesis
      unfolding net answers_ok_append_quiet [OF quiet]
      by (rule answers_ok_mono) (use stale opened logs no in auto)
  qed
  ultimately show ?thesis by (simp add: message_inv_def)
qed

lemma message_inv_same_net:
  assumes "message_inv L l s" and "fs_net t = fs_net s" and "\<And>p. fs_log l t p = fs_log l s p"
    and "\<And>r. good_id r \<Longrightarrow> stale_id L s r \<Longrightarrow> stale_id L t r"
    and "\<And>r. good_id r \<Longrightarrow> open_id s r \<Longrightarrow> stale_id L t r \<or> open_id t r"
  shows "message_inv L l t"
  by (rule message_inv_frame [where ns = "\<lambda>_ _. []", OF assms(1)]) (use assms(2-) in auto)

text \<open>The first message of a channel is taken.\<close>

lemma message_inv_pop:
  assumes "message_inv L l s" and "fs_net s p q = m # ms"
  shows "message_inv L l (s\<lparr>fs_net := (fs_net s)(p := (fs_net s p)(q := ms))\<rparr>)"
    (is "message_inv L l ?t")
proof -
  have same: "stale_id L ?t = stale_id L s" "open_id ?t = open_id s" "fs_log l ?t = fs_log l s"
    by (simp_all add: stale_id_def open_id_def fs_log_def fun_eq_iff)
  have net: "fs_net ?t a b = (if a = p \<and> b = q then ms else fs_net s a b)" for a b by simp
  have "set (fs_net ?t a b) \<subseteq> set (fs_net s a b)" for a b using assms(2) by (auto simp: net)
  then have "legal_message L a b m'" if "m' \<in> set (fs_net ?t a b)" for a b m'
    using that assms(1) unfolding message_inv_def by blast
  moreover have "states_ok (stale_id L ?t) (open_id ?t) (fs_log l ?t L) (fs_net ?t L b)" for b
  proof -
    have "states_ok (stale_id L s) (open_id s) (fs_log l s L) (fs_net s L b)"
      using assms(1) by (simp add: message_inv_def)
    then show ?thesis
      using assms(2) unfolding same net by (cases "L = p \<and> b = q") auto
  qed
  moreover have "answers_ok (stale_id L ?t) (open_id ?t)
      (no_state (fs_net ?t L b) \<and> fs_log l ?t b = fs_log l ?t L) (fs_net ?t b L)" if "b \<noteq> L" for b
  proof -
    have "answers_ok (stale_id L s) (open_id s)
        (no_state (fs_net s L b) \<and> fs_log l s b = fs_log l s L) (fs_net ?t b L)"
      using assms that by (auto simp: message_inv_def net answers_ok_def)
    moreover have "no_state (fs_net s L b) \<Longrightarrow> no_state (fs_net ?t L b)"
      using assms(2) by (auto simp: net no_state_def)
    ultimately show ?thesis unfolding same by (blast intro: answers_ok_mono)
  qed
  ultimately show ?thesis by (simp add: message_inv_def)
qed

text \<open>A node takes over the state: its answer is of a closed round, or its log is the leader's.\<close>

lemma answers_ok_append_answer:
  assumes "answers_ok stale opened False ms" and "fcode m = Some STATE_UPDATED"
    and "carries m [(''recoveryId'', JInt r)]" "good_id r" "stale r \<or> opened r \<and> synced"
  shows "answers_ok stale opened synced (ms @ [m])"
  using assms unfolding answers_ok_def by auto

lemma message_inv_legal:
  "message_inv L l s \<Longrightarrow> m \<in> set (fs_net s p q) \<Longrightarrow> legal_message L p q m"
  unfolding message_inv_def by blast

lemma message_inv_state:
  assumes inv: "message_inv L l s" and net: "fs_net s p q = m # ms" and m: "fcode m = Some STATE"
    and hm: "failure_handleMessage (l q) w now ld p m (fs_nodes s q) = Inr (st', out)"
  shows "message_inv L l ((set_node q st' s)\<lparr>fs_net := enqueue q (failure_sends out)
       ((fs_net s)(p := (fs_net s p)(q := ms)))\<rparr>)" (is "message_inv L l ?t")
proof -
  have pq: "p = L" "q \<noteq> L"
    using message_inv_legal [OF inv, of m p q] net m by (simp_all add: legal_message_def)
  have "states_ok (stale_id L s) (open_id s) (fs_log l s L) (fs_net s L q)"
    using inv by (simp add: message_inv_def)
  then obtain c where id: "good_id (m_id m)" and c: "carries m [(''state'', JString c)]"
    and case_id: "stale_id L s (m_id m) \<or> open_id s (m_id m) \<and> c = fs_log l s L \<and> no_state ms"
    using net m pq by auto
  from handleState_reply [OF m c hm] obtain a
    where log: "log_read (l q) (f_files st') [] = c" and out: "out = [(p, a)]"
      and a: "fcode a = Some STATE_UPDATED" "m_tag a = tag_int FAILURE_DETECTION"
        "carries a [(''recoveryId'', JInt (m_id m))]" by blast
  have logs: "fs_log l ?t b = (if b = q then c else fs_log l s b)" for b
    using log by (simp add: fs_log_def set_node_def)
  have same: "stale_id L ?t = stale_id L s" "open_id ?t = open_id s"
    using pq by (simp_all add: stale_id_def open_id_def set_node_def fun_eq_iff)
  have net_t: "fs_net ?t x y = (if x = p \<and> y = q then ms else fs_net s x y) @
      (if x = q \<and> y = L then [a] else [])" for x y
    using pq a(2) out by (simp add: enqueue_def failure_sends_def)
  let ?s = "s\<lparr>fs_net := (fs_net s)(p := (fs_net s p)(q := ms))\<rparr>"
  have inv': "message_inv L l ?s" by (rule message_inv_pop [OF inv net])
  have same': "stale_id L ?s = stale_id L s" "open_id ?s = open_id s" "fs_log l ?s = fs_log l s"
    by (simp_all add: stale_id_def open_id_def fs_log_def fun_eq_iff)
  have "legal_message L x y m'" if "m' \<in> set (fs_net ?t x y)" for x y m'
  proof -
    have "legal_message L q L a" using a(1) pq by (simp add: legal_message_def)
    moreover have "legal_message L x y m'" if "m' \<in> set (if x = p \<and> y = q then ms else fs_net s x y)"
      using message_inv_legal [OF inv', of m' x y] that
      by (cases "x = p") (auto split: if_splits)
    ultimately show ?thesis
      using that [unfolded net_t] by (auto split: if_splits)
  qed
  moreover have "states_ok (stale_id L ?t) (open_id ?t) (fs_log l ?t L) (fs_net ?t L y)" for y
  proof -
    have "states_ok (stale_id L s) (open_id s) (fs_log l s L) (fs_net ?s L y)"
      using inv' unfolding message_inv_def same' by blast
    then show ?thesis using pq unfolding same logs net_t by simp
  qed
  moreover have "answers_ok (stale_id L ?t) (open_id ?t)
      (no_state (fs_net ?t L y) \<and> fs_log l ?t y = fs_log l ?t L) (fs_net ?t y L)" if "y \<noteq> L" for y
  proof (cases "y = q")
    case True
    have "answers_ok (stale_id L s) (open_id s) False (fs_net s q L)"
      using inv net m pq unfolding message_inv_def by auto
    moreover have "stale_id L s (m_id m) \<or> open_id s (m_id m) \<and> no_state ms \<and> c = fs_log l s L"
      using case_id by blast
    ultimately have "answers_ok (stale_id L s) (open_id s) (no_state ms \<and> c = fs_log l s L)
        (fs_net s q L @ [a])"
      using answers_ok_append_answer a(1,3) id by blast
    then show ?thesis
      using pq True unfolding same logs net_t by simp
  next
    case False
    have "answers_ok (stale_id L s) (open_id s)
        (no_state (fs_net ?s L y) \<and> fs_log l s y = fs_log l s L) (fs_net ?s y L)"
      using inv' that unfolding message_inv_def same' by blast
    then show ?thesis using False pq that unfolding same logs net_t by simp
  qed
  ultimately show ?thesis by (simp add: message_inv_def)
qed

text \<open>Every other message leaves the logs alone and is answered by quiet messages at most.\<close>

lemma message_inv_handle:
  assumes inv: "failure_system_inv L l s" and net: "fs_net s p q = m # ms"
    and hm: "failure_handleMessage (l q) w now ld p m (fs_nodes s q) = Inr (st', out)"
  shows "message_inv L l ((set_node q st' s)\<lparr>fs_net := enqueue q (failure_sends out)
       ((fs_net s)(p := (fs_net s p)(q := ms)))\<rparr>)" (is "message_inv L l ?t")
proof (cases "fcode m = Some STATE")
  case True
  from inv have "message_inv L l s" by (simp add: failure_system_inv_def)
  then show ?thesis by (rule message_inv_state) (use net True hm in simp_all)
next
  case False
  have minv: "message_inv L l s" and cinv: "control_inv L s"
    using inv by (simp_all add: failure_system_inv_def)
  have legal: "legal_message L p q m" using message_inv_legal [OF minv, of m p q] net by simp
  have quiet: "list_all (quiet_message L q y) (map snd (filter (\<lambda>x. fst x = y) (failure_sends out)))" for y
  proof (cases "fcode m = Some STATE_UPDATED")
    case True
    then have "q = L" using legal by (simp add: legal_message_def)
    then have "f_rank (fs_nodes s q) = L" using cinv by (simp add: control_inv_def)
    then show ?thesis
      using \<open>q = L\<close>
      by (auto simp: list_all_iff failure_sends_def quiet_message_def
          dest!: handleStateUpdate_out [OF True hm])
  next
    case no: False
    from failure_handleMessage_silent [OF hm False no] show ?thesis by (simp add: failure_sends_def)
  qed
  have control: "f_curRecoveryId st' = f_curRecoveryId (fs_nodes s q)"
    "f_files st' = f_files (fs_nodes s q)"
    using failure_handleMessage_control [OF hm] False by simp_all
  show ?thesis
  proof (rule message_inv_frame [OF message_inv_pop [OF minv net]])
    show "list_all (quiet_message L x y)
        (if x = q then map snd (filter (\<lambda>x. fst x = y) (failure_sends out)) else [])" for x y
      using quiet by simp
  qed (use control in \<open>auto simp: enqueue_def set_node_def fs_log_def stale_id_def open_id_def\<close>)
qed


lemma control_inv_handle:
  assumes inv: "control_inv L s"
    and hm: "failure_handleMessage (l q) w now ld p m (fs_nodes s q) = Inr (st', out)"
  shows "control_inv L (set_node q st' s)"
proof -
  have "failure_inv (fs_nodes s L)" and "f_rank (fs_nodes s L) = L"
    using inv by (simp_all add: control_inv_def)
  then have "q = L \<Longrightarrow> failure_inv st' \<and> f_rank st' = L"
    using failure_handleMessage_inv [OF _ hm] by simp
  with inv failure_handleMessage_control [OF hm] show ?thesis
    by (auto simp: control_inv_def set_node_def)
qed

lemma control_inv_net [simp]: "control_inv L (s\<lparr>fs_net := net\<rparr>) = control_inv L s"
  by (simp add: control_inv_def)

lemma good_id_now:
  "0 \<le> now \<Longrightarrow> now < 2 ^ 31 * ns_per_second \<Longrightarrow> good_id (now div ns_per_second)"
  by (auto simp: good_id_def is_int32_def ns_per_second_def)

lemma control_inv_step:
  assumes inv: "control_inv L s" and step: "failure_step L l s t"
  shows "control_inv L t"
  using step
proof (cases rule: failure_step.cases)
  case (fs_tick now)
  then have "fs_now s div ns_per_second \<le> now div ns_per_second"
    by (simp add: zdiv_mono1 ns_per_second_def)
  with fs_tick inv show ?thesis by (fastforce simp: control_inv_def)
next
  case fs_handle
  with control_inv_handle [OF inv] show ?thesis by simp
next
  case (fs_failure i ld p st' e)
  have "failure_inv (fs_nodes s L)" and "f_rank (fs_nodes s L) = L"
    using inv by (simp_all add: control_inv_def)
  then have "p = L \<Longrightarrow> failure_inv st' \<and> f_rank st' = L"
    using handleNodeFailure_inv [OF _ fs_failure(2)] by simp
  moreover have "f_curRecoveryId st' = f_curRecoveryId (fs_nodes s p)"
    "f_clientConn st' = f_clientConn (fs_nodes s p)"
    using fs_failure by (auto simp: handleNodeFailure_def)
  ultimately show ?thesis
    using fs_failure inv by (auto simp: control_inv_def set_node_def)
next
  case (fs_begin i st' m)
  then have "fcode m = Some STATE" "m_id m = fs_now s div ns_per_second" "st' = (fs_nodes s L)\<lparr>f_curRecoveryId := m_id m\<rparr>"
    by (auto simp: recovery_begin_def Let_def generateUniqueId_def)
  then show ?thesis
    using fs_begin inv good_id_now [of "fs_now s"]
    by (auto simp: control_inv_def set_node_def failure_inv_def)
next
  case (fs_send i m st' out)
  have "m_id m < (fs_now s + recovery_duration) div ns_per_second" "good_id (m_id m)"
    using fs_send(2) inv by (auto simp: control_inv_def recovery_duration_def ns_per_second_def)
  with fs_send inv show ?thesis
    by (auto simp: control_inv_def set_node_def recovery_send_def failure_inv_def split: if_splits
        dest: in_set_remove1)
qed (use inv in \<open>auto simp: control_inv_def set_node_def recovery_end_def allowRecovery_def
      disallowRecovery_def failure_inv_def split: if_splits\<close>)


text \<open>While no recovery thread owns the mutex, every message is of a closed round.\<close>

lemma message_inv_closed:
  assumes "message_inv L l s" and "fs_asleep s = None"
  shows "states_ok (stale_id L s) (\<lambda>_. False) c (fs_net s L q)"
    and "q \<noteq> L \<Longrightarrow> answers_ok (stale_id L s) (\<lambda>_. False) False (fs_net s q L)"
proof -
  have "open_id s = (\<lambda>_. False)" using assms(2) by (simp add: open_id_def fun_eq_iff)
  then have st: "states_ok (stale_id L s) (\<lambda>_. False) (fs_log l s L) (fs_net s L q)"
    and an: "q \<noteq> L \<Longrightarrow> answers_ok (stale_id L s) (\<lambda>_. False)
      (no_state (fs_net s L q) \<and> fs_log l s q = fs_log l s L) (fs_net s q L)"
    using assms(1) by (simp_all add: message_inv_def)
  show "states_ok (stale_id L s) (\<lambda>_. False) c (fs_net s L q)"
    by (rule states_ok_closed [OF st])
  show "q \<noteq> L \<Longrightarrow> answers_ok (stale_id L s) (\<lambda>_. False) False (fs_net s q L)"
    by (drule an) (erule answers_ok_mono; simp)
qed

lemma message_inv_log:
  assumes inv: "message_inv L l s" and "fs_asleep s = None"
    and same: "fs_net t = fs_net s" "fs_asleep t = None" "stale_id L t = stale_id L s"
  shows "message_inv L l t"
proof -
  note closed = message_inv_closed [OF assms(1,2)]
  have "states_ok (stale_id L t) (open_id t) c (fs_net t L q)" for c q
    unfolding same by (rule states_ok_closed [OF closed(1)])
  moreover have "answers_ok (stale_id L t) (open_id t) b (fs_net t q L)" if "q \<noteq> L" for b q
    unfolding same by (rule answers_ok_mono [OF closed(2) [OF that]]) simp_all
  ultimately show ?thesis
    using message_inv_legal [OF inv] by (simp add: message_inv_def same)
qed

lemma message_inv_send:
  assumes inv: "message_inv L l s" and "control_inv L s" and "(i, m) \<in> set (fs_begun s)"
    and send: "recovery_send (l L) i m (fs_nodes s L) = Inr (Some (st', out))"
  shows "message_inv L l ((set_node L st' s)\<lparr>fs_net := enqueue L out (fs_net s),
    fs_begun := begun, fs_asleep := Some (m_id m, w)\<rparr>)" (is "message_inv L l ?t")
proof -
  let ?q = "indexToId L i"
  have rank: "f_rank (fs_nodes s L) = L" and id: "good_id (m_id m)" "fcode m = Some STATE"
    using assms(2,3) by (auto simp: control_inv_def)
  from send obtain x where x: "json_text [(''state'', JString (fs_log l s L))] = Inr x"
    and out: "out = [(?q, message_setData x m)]" and free: "f_clientConn (fs_nodes s L) = Free"
    and st': "st' = (fs_nodes s L)\<lparr>f_clientConn := Held_By_Recovery\<rparr>"
    by (auto simp: recovery_send_def rank fs_log_def split: if_splits)
  note closed = message_inv_closed [OF inv]
  have none: "fs_asleep s = None" using assms(2) free by (simp add: control_inv_def)
  have same: "stale_id L ?t = stale_id L s" "fs_log l ?t = fs_log l s" "open_id ?t (m_id m)"
    by (simp_all add: stale_id_def fs_log_def open_id_def set_node_def st' fun_eq_iff)
  let ?m = "message_setData x m"
  have m: "m_id ?m = m_id m" "carries ?m [(''state'', JString (fs_log l s L))]" "fcode ?m = fcode m"
    using x by (simp_all add: message_setData_def carries_def)
  have net_t: "fs_net ?t x y = fs_net s x y @ (if x = L \<and> y = ?q then [?m] else [])" for x y
    by (simp add: enqueue_def out)
  have q: "?q \<noteq> L" by (rule node_index.to_id_other)
  have "legal_message L x y m'" if "m' \<in> set (fs_net ?t x y)" for x y m'
    using that [unfolded net_t] message_inv_legal [OF inv, of m' x y] id(2) m(3) q
    by (auto simp: legal_message_def split: if_splits)
  moreover have "states_ok (stale_id L s) (open_id ?t) (fs_log l s L) (fs_net ?t L y)" for y
    using states_ok_append_new [of "stale_id L s" _ "fs_net s L ?q" ?m "open_id ?t", OF closed(1) [OF none]]
      states_ok_closed [OF closed(1) [OF none]] id(1) m same(3)
    unfolding net_t by auto
  moreover have "answers_ok (stale_id L s) (open_id ?t) b (fs_net ?t y L)" if "y \<noteq> L" for y b
    using answers_ok_mono [OF closed(2) [OF none that], where stale' = "stale_id L s"] that
    unfolding net_t by simp
  ultimately show ?thesis unfolding message_inv_def same by blast
qed

lemma message_inv_step:
  assumes inv: "failure_system_inv L l s" and step: "failure_step L l s t"
  shows "message_inv L l t"
proof -
  have minv: "message_inv L l s" and cinv: "control_inv L s"
    using inv by (simp_all add: failure_system_inv_def)
  note frame = message_inv_same_net [OF minv]
  from step show ?thesis
  proof (cases rule: failure_step.cases)
    case (fs_tick now)
    then have "fs_now s div ns_per_second \<le> now div ns_per_second"
      by (simp add: zdiv_mono1 ns_per_second_def)
    then show ?thesis
      unfolding fs_tick by (intro frame) (auto simp: stale_id_def open_id_def fs_log_def)
  next
    case (fs_ping p)
    let ?ns = "\<lambda>x y. if x = p then map snd (filter (\<lambda>x. fst x = y)
      (broadcastPing (f_messenger (fs_nodes s p)) (fs_now s))) else []"
    have "list_all (quiet_message L x y) (?ns x y)" for x y
      by (auto simp: list_all_iff broadcastPing_def broadcast_sends_def quiet_message_def)
    then show ?thesis
      unfolding fs_ping by (intro message_inv_frame [where ns = ?ns, OF minv])
        (simp_all add: enqueue_def stale_id_def open_id_def fs_log_def)
  next
    case fs_handle
    then show ?thesis using message_inv_handle [OF inv] by simp
  next
    case (fs_failure i ld p st' e)
    then have "f_curRecoveryId st' = f_curRecoveryId (fs_nodes s p)" "f_files st' = f_files (fs_nodes s p)"
      by (auto simp: handleNodeFailure_def)
    then show ?thesis
      unfolding fs_failure by (intro frame) (auto simp: stale_id_def open_id_def fs_log_def set_node_def)
  next
    case (fs_begin i st' m)
    then have "st' = (fs_nodes s L)\<lparr>f_curRecoveryId := fs_now s div ns_per_second\<rparr>"
      by (auto simp: recovery_begin_def Let_def generateUniqueId_def)
    then show ?thesis
      unfolding fs_begin by (intro frame) (auto simp: stale_id_def open_id_def fs_log_def set_node_def)
  next
    case fs_send
    then show ?thesis using message_inv_send [OF minv cinv] by simp
  next
    case (fs_end r w)
    have "r < w div ns_per_second" using cinv fs_end(2) by (simp add: control_inv_def)
    moreover have "w div ns_per_second \<le> fs_now s div ns_per_second"
      using fs_end(3) by (simp add: zdiv_mono1 ns_per_second_def)
    ultimately show ?thesis
      unfolding fs_end(1)
      by (intro frame) (use fs_end(2) in
        \<open>auto simp: stale_id_def open_id_def fs_log_def set_node_def recovery_end_def good_id_def\<close>)
  next
    case (fs_log st e)
    then have "fs_asleep s = None" using cinv by (simp add: control_inv_def)
    with minv show ?thesis
      unfolding fs_log(1)
      by (rule message_inv_log) (use fs_log \<open>fs_asleep s = None\<close> in
        \<open>simp_all add: stale_id_def set_node_def fun_eq_iff\<close>)
  qed (auto intro!: frame simp: stale_id_def open_id_def fs_log_def set_node_def allowRecovery_def
      disallowRecovery_def split: if_splits)
qed

interpretation failure_system: step_invariant "failure_system_start L" "failure_step L l"
  "failure_system_inv L l"
proof
  show "failure_system_inv L l s" if "failure_system_start L s" for s
    using that by (auto simp: failure_system_inv_def control_inv_def message_inv_def
        failure_system_start_def answers_ok_def)
  show "failure_system_inv L l t" if "failure_system_inv L l s" "failure_step L l s t" for s t
    using that control_inv_step [of L s l t] message_inv_step [OF that]
    by (simp add: failure_system_inv_def)
qed

text \<open>What turns a flag of the leader from failed to alive.\<close>

lemma revived_node:
  assumes inv: "failure_system_inv L l s" and net: "fs_net s q L = m # ms"
    and hm: "failure_handleMessage (l L) w now ld q m (fs_nodes s L) = Inr (st', out)"
    and flag: "\<not> f_isAlive (fs_nodes s L) ! i" "f_isAlive st' ! i"
  shows "idToIndex L q = int i \<and> fs_log l s q = fs_log l s L \<and>
    f_clientConn (fs_nodes s L) = Held_By_Recovery \<and> q \<noteq> L \<and> fcode m = Some STATE_UPDATED \<and>
    (\<exists>r. carries m [(''recoveryId'', JInt r)] \<and> good_id r \<and> \<not> stale_id L s r)"
proof -
  have minv: "message_inv L l s" and cinv: "control_inv L s"
    using inv by (simp_all add: failure_system_inv_def)
  have rank: "f_rank (fs_nodes s L) = L" using cinv by (simp add: control_inv_def)
  have legal: "legal_message L q L m" using message_inv_legal [OF minv, of m q L] net by simp
  have m: "fcode m = Some STATE_UPDATED"
    using hm flag legal
    by (auto simp: failure_handleMessage_eq [OF refl] handlePing_def legal_message_def split: if_splits)
  then have "q \<noteq> L" using legal by (simp add: legal_message_def)
  then obtain r where r: "carries m [(''recoveryId'', JInt r)]" "good_id r"
    and case_id: "stale_id L s r \<or> open_id s r \<and> fs_log l s q = fs_log l s L"
    using minv net m unfolding message_inv_def answers_ok_def by (metis list.set_intros(1))
  have "is_int32 r" using r(2) by (simp add: good_id_def)
  from handleStateUpdate_effect [OF m r(1) this hm] flag
  have *: "f_curRecoveryId (fs_nodes s L) = r" "enableComm q (fs_nodes s L) = Inr st'"
    by (auto split: if_splits)
  then have opened: "open_id s r \<and> fs_log l s q = fs_log l s L"
    using case_id by (simp add: stale_id_def)
  then have "f_clientConn (fs_nodes s L) = Held_By_Recovery"
    using cinv by (auto simp: control_inv_def open_id_def)
  moreover have upd: "f_isAlive st' = (f_isAlive (fs_nodes s L))[nat (idToIndex L q) := True]"
    "0 \<le> idToIndex L q"
    using *(2) by (auto simp: enableComm_def Let_def rank vec_set_eq_Inr)
  have "nat (idToIndex L q) = i" using flag unfolding upd(1) by (metis nth_list_update_neq)
  then have "idToIndex L q = int i" using upd(2) by simp
  ultimately show ?thesis using opened \<open>q \<noteq> L\<close> m r *(1) by (auto simp: stale_id_def)
qed

section \<open>A recovery round\<close>

text \<open>A step that is not an entry the client thread logs.\<close>

definition quiet_step ::
  "int \<Rightarrow> (int \<Rightarrow> log_file_manager) \<Rightarrow> failure_system \<Rightarrow> failure_system \<Rightarrow> bool" where
  "quiet_step L l s t \<longleftrightarrow> failure_step L l s t \<and> fs_log l t L = fs_log l s L"

lemma quiet_steps: "(quiet_step L l)\<^sup>*\<^sup>* s t \<Longrightarrow> (failure_step L l)\<^sup>*\<^sup>* s t"
  by (induction rule: rtranclp_induct) (auto simp: quiet_step_def intro: rtranclp.rtrancl_into_rtrancl)

lemma reachable_steps: "step\<^sup>*\<^sup>* s t \<Longrightarrow> reachable start step s \<Longrightarrow> reachable start step t"
  by (induction rule: rtranclp_induct) (auto intro: reachable_step)

lemma json_text_int_ok: "list_all plain_char k \<Longrightarrow> \<exists>t. json_text [(k, JInt r)] = Inr t"
  by (rule json_text_ok) simp

lemma handleState_ok:
  assumes "carries msg [(''state'', JString c)]" and "fcode msg = Some STATE"
  shows "\<exists>a. failure_handleMessage l w now ld src msg st =
    Inr (st\<lparr>f_files := log_replace l c (f_files st)\<rparr>, [(src, a)]) \<and> fcode a = Some STATE_UPDATED \<and>
    m_tag a = tag_int FAILURE_DETECTION \<and> carries a [(''recoveryId'', JInt (m_id msg))]"
proof -
  obtain d where "message_getData msg = Inr d" "json_parse d = Inr (json_object [(''state'', JString c)])"
    using carries_parse [OF assms(1)] by auto
  moreover obtain t where "json_text [(''recoveryId'', JInt (m_id msg))] = Inr t"
    using json_text_int_ok [of "''recoveryId''"] by (auto simp: plain_char_def)
  ultimately show ?thesis
    using assms(2) by (simp add: failure_handleMessage_eq handleState_def carriesI)
qed

lemma enableComm_ok:
  assumes "failure_inv st" and "0 \<le> i" "i < f_size st - 1"
  shows "\<exists>st'. enableComm (indexToId (f_rank st) i) st = Inr st' \<and> f_isAlive st' ! nat i \<and>
    node_alive (f_messenger st') (indexToId (f_rank st) i)"
proof -
  have "i < int (length (f_isAlive st))" and "f_isAlive st = m_processIsAlive (f_messenger st)"
    using assms(1,3) failure_inv_length [OF assms(1)] by (simp_all add: failure_inv_def)
  then show ?thesis
    using assms(2)
    by (simp add: enableComm_def setNodeStatus_def vec_set_def node_index.to_index_to_id node_alive_def
        idToIndex_status [symmetric] Let_def)
qed

lemma handleStateUpdate_ok:
  assumes "carries msg [(''recoveryId'', JInt r)]" "is_int32 r" and "fcode msg = Some STATE_UPDATED"
    and "f_curRecoveryId st = r" and "failure_inv st" "0 \<le> i" "i < f_size st - 1"
  shows "\<exists>st' out. failure_handleMessage l w now (f_rank st) (indexToId (f_rank st) i) msg st =
    Inr (st', out) \<and> f_isAlive st' ! nat i \<and> node_alive (f_messenger st') (indexToId (f_rank st) i)"
proof -
  obtain t where "json_text [(''recoveredNodeId'', JInt (indexToId (f_rank st) i))] = Inr t"
    using json_text_int_ok [of "''recoveredNodeId''"] by (auto simp: plain_char_def)
  then show ?thesis
    using enableComm_ok [OF assms(5-7)] data_int_carried [OF assms(1,2)] assms(3,4)
    by (auto simp: failure_handleMessage_eq handleStateUpdate_def broadcastRecovered_def)
qed

lemma recovery_sent:
  assumes start: "failure_system_start L s" and i: "0 \<le> i" "i < f_size (fs_nodes s L) - 1"
    and dead: "\<not> f_isAlive (fs_nodes s L) ! nat i"
    and heard: "f_timeStamps (fs_nodes s L) ! nat i \<le> fs_now s"
      "fs_now s - f_timeStamps (fs_nodes s L) ! nat i < ns_per_second"
    and utf8: "valid_utf8 (fs_log l s L)"
  shows "\<exists>t m. (quiet_step L l)\<^sup>*\<^sup>* s t \<and> fs_now t = fs_now s \<and>
    fs_nodes t = (fs_nodes s)(L := (fs_nodes s L)
      \<lparr>f_curRecoveryId := fs_now s div ns_per_second, f_clientConn := Held_By_Recovery\<rparr>) \<and>
    fs_net t = enqueue L [(indexToId L i, m)] (\<lambda>_ _. []) \<and> fcode m = Some STATE \<and>
    m_id m = fs_now s div ns_per_second \<and> carries m [(''state'', JString (fs_log l s L))]"
proof -
  let ?st = "fs_nodes s L" and ?q = "indexToId L i" and ?r = "fs_now s div ns_per_second"
  let ?m = "setMessage (fs_now s) (Failure_Code STATE)"
  have st: "failure_inv ?st" "f_rank ?st = L" "f_curRecoveryId ?st = -1" "f_clientConn ?st = Free"
    "fs_net s = (\<lambda>_ _. [])" "fs_started s = []" "fs_begun s = []"
    using start by (simp_all add: failure_system_start_def)
  define s1 where "s1 = s\<lparr>fs_started := [i]\<rparr>"
  have "check_time_stamp (fs_now s) L i ?st = Inr [Node_Recovery i]"
    unfolding check_time_stamp_eq [OF st(1) i heard(1)] using dead heard st by simp
  from fs_detect [of s L, OF this] have 1: "quiet_step L l s s1"
    by (simp add: quiet_step_def fs_log_def s1_def st)
  define s2 where "s2 = (set_node L (?st\<lparr>f_curRecoveryId := ?r\<rparr>) s)
    \<lparr>fs_started := [], fs_begun := [(i, ?m)]\<rparr>"
  have "recovery_begin (fs_now s1) (fs_nodes s1 L) = (?st\<lparr>f_curRecoveryId := ?r\<rparr>, ?m)"
    by (simp add: recovery_begin_def s1_def generateUniqueId_def)
  from fs_begin [of i s1, OF _ this] have 2: "quiet_step L l s1 s2"
    by (simp add: quiet_step_def fs_log_def s1_def s2_def st set_node_def)
  obtain x where x: "json_text [(''state'', JString (fs_log l s L))] = Inr x"
    using json_text_ok [of "[(''state'', JString (fs_log l s L))]"] utf8 by (auto simp: plain_char_def)
  let ?m' = "message_setData x ?m"
  let ?st3 = "?st\<lparr>f_curRecoveryId := ?r, f_clientConn := Held_By_Recovery\<rparr>"
  define s3 where "s3 = (set_node L ?st3 s2)\<lparr>fs_net := enqueue L [(?q, ?m')] (fs_net s2),
    fs_begun := remove1 (i, ?m) (fs_begun s2),
    fs_asleep := Some (m_id ?m, fs_now s2 + recovery_duration)\<rparr>"
  have "recovery_send (l L) i ?m (fs_nodes s2 L) = Inr (Some (?st3, [(?q, ?m')]))"
    using x st by (simp add: recovery_send_def s2_def set_node_def fs_log_def)
  then have "failure_step L l s2 s3"
    unfolding s3_def by (rule fs_send [rotated]) (simp add: s2_def)
  then have 3: "quiet_step L l s2 s3"
    by (simp add: quiet_step_def fs_log_def s3_def s2_def set_node_def)
  have "(quiet_step L l)\<^sup>*\<^sup>* s s3"
    using rtranclp.rtrancl_into_rtrancl [OF rtranclp.rtrancl_into_rtrancl [OF
        r_into_rtranclp [where r = "quiet_step L l"]], OF 1 2 3] .
  moreover have "fcode ?m' = Some STATE" "carries ?m' [(''state'', JString (fs_log l s L))]" "m_id ?m' = ?r"
    using x by (simp_all add: message_setData_def carries_def generateUniqueId_def)
  moreover have "fs_now s3 = fs_now s" "fs_nodes s3 = (fs_nodes s)(L := ?st3)"
    "fs_net s3 = enqueue L [(?q, ?m')] (\<lambda>_ _. [])"
    by (simp_all add: s3_def s2_def set_node_def st)
  ultimately show ?thesis by blast
qed

text \<open>
  The node takes over the log and answers, and the leader's receiver accepts the answer.
\<close>

lemma recovery_round:
  assumes start: "failure_system_start L s" and i: "0 \<le> i" "i < f_size (fs_nodes s L) - 1"
    and "\<not> f_isAlive (fs_nodes s L) ! nat i"
    and "f_timeStamps (fs_nodes s L) ! nat i \<le> fs_now s"
      "fs_now s - f_timeStamps (fs_nodes s L) ! nat i < ns_per_second"
    and "valid_utf8 (fs_log l s L)"
  shows "\<exists>t a st' out. (quiet_step L l)\<^sup>*\<^sup>* s t \<and> fs_net t (indexToId L i) L = [a] \<and>
    failure_handleMessage (l L) (fs_now t) (fs_now t) L (indexToId L i) a (fs_nodes t L) = Inr (st', out) \<and>
    \<not> f_isAlive (fs_nodes t L) ! nat i \<and> f_isAlive st' ! nat i \<and>
    node_alive (f_messenger st') (indexToId L i) \<and> fs_log l t L = fs_log l s L \<and>
    (\<exists>fs. fs_nodes t (indexToId L i) = (fs_nodes s (indexToId L i))\<lparr>f_files := fs\<rparr> \<and>
      log_read (l (indexToId L i)) fs [] = fs_log l s L)"
proof -
  let ?q = "indexToId L i" and ?r = "fs_now s div ns_per_second"
  let ?st3 = "(fs_nodes s L)\<lparr>f_curRecoveryId := ?r, f_clientConn := Held_By_Recovery\<rparr>"
  have q: "?q \<noteq> L" by (rule node_index.to_id_other)
  have st: "failure_inv (fs_nodes s L)" "f_rank (fs_nodes s L) = L"
    "0 \<le> fs_now s" "fs_now s < 2 ^ 31 * ns_per_second"
    using start by (simp_all add: failure_system_start_def)
  obtain u m where u: "(quiet_step L l)\<^sup>*\<^sup>* s u" and nodes: "fs_nodes u = (fs_nodes s)(L := ?st3)"
    and net: "fs_net u = enqueue L [(?q, m)] (\<lambda>_ _. [])"
    and m: "fcode m = Some STATE" "m_id m = ?r" "carries m [(''state'', JString (fs_log l s L))]"
    using recovery_sent [OF assms] by blast
  from handleState_ok [OF m(3,1), of "l ?q" "fs_now u" "fs_now u" L L "fs_nodes s ?q"]
  obtain a where
    a: "failure_handleMessage (l ?q) (fs_now u) (fs_now u) L L m (fs_nodes u ?q) =
      Inr ((fs_nodes s ?q)\<lparr>f_files := log_replace (l ?q) (fs_log l s L) (f_files (fs_nodes s ?q))\<rparr>,
        [(L, a)])"
      "fcode a = Some STATE_UPDATED" "m_tag a = tag_int FAILURE_DETECTION"
      "carries a [(''recoveryId'', JInt ?r)]"
    using q unfolding m(2) nodes by auto
  have net_u: "fs_net u L ?q = m # []" by (simp add: net enqueue_def)
  define t where "t = (set_node ?q ((fs_nodes s ?q)\<lparr>f_files := log_replace (l ?q) (fs_log l s L)
      (f_files (fs_nodes s ?q))\<rparr>) u)\<lparr>fs_net := enqueue ?q (failure_sends [(L, a)])
      ((fs_net u)(L := (fs_net u L)(?q := [])))\<rparr>"
  have L: "fs_nodes t L = ?st3" "fs_log l u L = fs_log l s L"
    using q by (simp_all add: t_def set_node_def nodes fs_log_def)
  have "failure_step L l u t" unfolding t_def by (rule fs_handle [where l = l and L = L, OF net_u a(1)])
  then have "quiet_step L l u t" using L by (simp add: quiet_step_def fs_log_def)
  with u have steps: "(quiet_step L l)\<^sup>*\<^sup>* s t" by (rule rtranclp.rtrancl_into_rtrancl)
  have "failure_inv ?st3" using st(1) by (simp add: failure_inv_def)
  moreover have "is_int32 ?r" using good_id_now st(3,4) by (simp add: good_id_def)
  ultimately obtain st' out where
    "failure_handleMessage (l L) (fs_now t) (fs_now t) L ?q a (fs_nodes t L) = Inr (st', out)"
    "f_isAlive st' ! nat i" "node_alive (f_messenger st') ?q"
    using handleStateUpdate_ok [OF a(4) _ a(2), of ?st3 i "l L" "fs_now t" "fs_now t"] i st(2) L by auto
  moreover have "fs_net t ?q L = [a]"
    using q a(3) by (simp add: t_def enqueue_def net set_node_def failure_sends_def)
  moreover have "\<exists>fs. fs_nodes t ?q = (fs_nodes s ?q)\<lparr>f_files := fs\<rparr> \<and>
      log_read (l ?q) fs [] = fs_log l s L"
    by (auto simp: t_def set_node_def log_file.contents_replace)
  moreover have "\<not> f_isAlive (fs_nodes t L) ! nat i" "fs_log l t L = fs_log l s L"
    using assms(4) L by (simp_all add: fs_log_def)
  ultimately show ?thesis using steps by blast
qed

lemma recovery_run:
  assumes "failure_system_start L s" and "0 \<le> i" "i < f_size (fs_nodes s L) - 1"
    and "\<not> f_isAlive (fs_nodes s L) ! nat i"
    and "f_timeStamps (fs_nodes s L) ! nat i \<le> fs_now s"
    and "fs_now s - f_timeStamps (fs_nodes s L) ! nat i < ns_per_second"
    and "valid_utf8 (fs_log l s L)"
  shows "\<exists>t. (quiet_step L l)\<^sup>*\<^sup>* s t \<and> f_isAlive (fs_nodes t L) ! nat i \<and>
    node_alive (f_messenger (fs_nodes t L)) (indexToId L i) \<and> fs_log l t L = fs_log l s L \<and>
    (\<exists>fs. fs_nodes t (indexToId L i) = (fs_nodes s (indexToId L i))\<lparr>f_files := fs\<rparr> \<and>
      log_read (l (indexToId L i)) fs [] = fs_log l s L)"
proof -
  obtain t a st' out where t: "(quiet_step L l)\<^sup>*\<^sup>* s t" and net: "fs_net t (indexToId L i) L = [a]"
    and hm: "failure_handleMessage (l L) (fs_now t) (fs_now t) L (indexToId L i) a (fs_nodes t L) =
      Inr (st', out)"
    and dead: "\<not> f_isAlive (fs_nodes t L) ! nat i"
    and alive: "f_isAlive st' ! nat i" "node_alive (f_messenger st') (indexToId L i)"
    and log: "fs_log l t L = fs_log l s L" and q: "\<exists>fs. fs_nodes t (indexToId L i) =
      (fs_nodes s (indexToId L i))\<lparr>f_files := fs\<rparr> \<and> log_read (l (indexToId L i)) fs [] = fs_log l s L"
    using recovery_round [OF assms] by blast
  let ?u = "(set_node L st' t)\<lparr>fs_net := enqueue L (failure_sends out)
    ((fs_net t)(indexToId L i := (fs_net t (indexToId L i))(L := [])))\<rparr>"
  have "failure_system_inv L l t"
    using failure_system.steps_hold [OF quiet_steps [OF t] failure_system.holds_start [OF assms(1)]] .
  from revived_node [OF this net hm dead alive(1)] have "fcode a \<noteq> Some STATE" by auto
  then have files: "f_files st' = f_files (fs_nodes t L)" using failure_handleMessage_control [OF hm] by blast
  have "quiet_step L l t ?u"
    using fs_handle [where l = l and L = L, OF net hm] files
    by (simp add: quiet_step_def fs_log_def set_node_def)
  with t have "(quiet_step L l)\<^sup>*\<^sup>* s ?u" by (rule rtranclp.rtrancl_into_rtrancl)
  moreover have "fs_nodes ?u L = st'" "fs_log l ?u L = fs_log l s L"
    "fs_nodes ?u (indexToId L i) = fs_nodes t (indexToId L i)"
    using log files node_index.to_id_other [of L i] by (simp_all add: set_node_def fs_log_def)
  ultimately show ?thesis using alive q by metis
qed

section \<open>Properties\<close>


definition demo_detectors :: failure_system where
  "demo_detectors =
     (let st = failure_init (messenger_start 0 2) 0 [''a.txt'' \<mapsto> ''x=1'']
      in \<lparr>fs_now = 0,
          fs_nodes = (\<lambda>p. if p = 0
            then st\<lparr>f_isAlive := [False], f_messenger := (f_messenger st)\<lparr>m_processIsAlive := [False]\<rparr>\<rparr>
            else failure_init (messenger_start 1 2) 0 Map.empty),
          fs_net = (\<lambda>_ _. []), fs_started = [], fs_begun = [], fs_asleep = None\<rparr>)"

abbreviation demo_files :: "int \<Rightarrow> log_file_manager" where
  "demo_files \<equiv> \<lambda>p. \<lparr>l_nodeId = p, l_logFilePath = ''a.txt''\<rparr>"

lemma demo_detectors_start: "failure_system_start 0 demo_detectors"
  by (simp add: failure_system_start_def demo_detectors_def failure_init_def messenger_start_def
      failure_inv_def messenger_wf_def Let_def ns_per_second_def)

lemmas demo_round = recovery_round [OF demo_detectors_start, where i = 0 and l = demo_files]

lemma demo_detectors_simps:
  "f_size (fs_nodes demo_detectors 0) = 2" "f_isAlive (fs_nodes demo_detectors 0) = [False]"
  "f_timeStamps (fs_nodes demo_detectors 0) = [0]" "fs_now demo_detectors = 0"
  "fs_log demo_files demo_detectors 0 = ''x=1''"
  by (simp_all add: demo_detectors_def failure_init_def messenger_start_def Let_def fs_log_def
      log_read_def)





text \<open>
  C21. Two recovery threads that have begun before either sends the state: the end of the first one
  clears the recovery id, so when the second one sends the state, the answer of its node is not
  accepted. The node gets a VICTORY message, but no flag changes and nobody is told that it is back.
\<close>

theorem overlapping_recovery_is_lost:
  assumes "recovery_begin w1 st = (st1, m1)" and "recovery_begin w2 st1 = (st2, m2)"
    and "0 \<le> w2" "w2 < 2 ^ 31 * ns_per_second"
    and "recovery_send l i m1 st2 = Inr (Some (st3, out1))"
    and "recovery_send l j m2 (recovery_end st3) = Inr (Some (st4, [(q, m)]))"
    and "failure_handleMessage l' w now ld p m sq = Inr (sq', [(p, a)])"
    and "failure_handleMessage l w' now' ld' q a st4 = Inr (st5, out2)"
  shows "f_isAlive st5 = f_isAlive st \<and> f_messenger st5 = f_messenger st \<and>
    out2 = [(q, setMessage w' (Leader_Election_Code VICTORY))]"
proof -
  have m2: "fcode m2 = Some STATE" "m_id m2 = w2 div ns_per_second"
    using assms(2) by (auto simp: recovery_begin_def Let_def generateUniqueId_def)
  have id: "good_id (m_id m2)" using good_id_now [OF assms(3,4)] m2(2) by simp
  have st4: "f_curRecoveryId st4 = -1" "f_isAlive st4 = f_isAlive st" "f_messenger st4 = f_messenger st"
    using assms(1,2,5,6) by (auto simp: recovery_begin_def Let_def recovery_send_def recovery_end_def
        split: if_splits)
  obtain x c where "json_text [(''state'', JString c)] = Inr x" and m: "m = message_setData x m2"
    using assms(6) by (auto simp: recovery_send_def split: if_splits)
  then have "fcode m = Some STATE" "carries m [(''state'', JString c)]" "m_id m = m_id m2"
    using m2(1) by (simp_all add: message_setData_def carries_def)
  from handleState_reply [OF this(1,2) assms(7)] this(3)
  have a: "fcode a = Some STATE_UPDATED" "carries a [(''recoveryId'', JInt (m_id m2))]" by auto
  have "is_int32 (m_id m2)" "m_id m2 \<noteq> -1" using id by (auto simp: good_id_def)
  then show ?thesis
    using assms(8) data_int_carried [OF a(2)] st4
    by (auto simp: failure_handleMessage_eq [OF a(1)] handleStateUpdate_def)
qed


definition demo_leader :: failure_state where
  "demo_leader = (let st = failure_init (messenger_start 0 3) 0 Map.empty in
     st\<lparr>f_isAlive := [False, False],
        f_messenger := (f_messenger st)\<lparr>m_processIsAlive := [False, False]\<rparr>\<rparr>)"

lemma demo_leader_simps [simp]:
  "f_isAlive demo_leader = [False, False]" "f_clientConn demo_leader = Free"
  "f_rank demo_leader = 0" "f_files demo_leader = Map.empty"
  by (simp_all add: demo_leader_def failure_init_def messenger_start_def Let_def)

theorem overlapping_recovery_is_lost_witness:
  "\<exists>st1 m1 st2 m2 st3 out1 st4 m sq' a st5 out2.
     recovery_begin 0 demo_leader = (st1, m1) \<and> recovery_begin 0 st1 = (st2, m2) \<and>
     recovery_send (demo_files 0) 0 m1 st2 = Inr (Some (st3, out1)) \<and>
     recovery_send (demo_files 0) 1 m2 (recovery_end st3) = Inr (Some (st4, [(2, m)])) \<and>
     failure_handleMessage (demo_files 2) 0 0 0 0 m demo_leader = Inr (sq', [(0, a)]) \<and>
     failure_handleMessage (demo_files 0) 0 0 0 2 a st4 = Inr (st5, out2) \<and>
     f_isAlive st5 = [False, False] \<and> out2 = [(2, setMessage 0 (Leader_Election_Code VICTORY))]"
proof -
  let ?m = "setMessage 0 (Failure_Code STATE)"
  let ?st2 = "demo_leader\<lparr>f_curRecoveryId := 0\<rparr>"
  let ?st3 = "?st2\<lparr>f_clientConn := Held_By_Recovery\<rparr>"
  let ?st4 = "demo_leader\<lparr>f_curRecoveryId := -1, f_clientConn := Held_By_Recovery\<rparr>"
  obtain x where x: "json_text [(''state'', JString [])] = Inr x"
    using json_text_ok [of "[(''state'', JString [])]"]
    by (auto simp: plain_char_def valid_utf8_plain)
  let ?mx = "message_setData x ?m"
  have b: "recovery_begin 0 demo_leader = (?st2, ?m)" "recovery_begin 0 ?st2 = (?st2, ?m)"
    by (simp_all add: recovery_begin_def generateUniqueId_def)
  have s: "recovery_send (demo_files 0) 0 ?m ?st2 = Inr (Some (?st3, [(1, ?mx)]))"
    "recovery_send (demo_files 0) 1 ?m (recovery_end ?st3) = Inr (Some (?st4, [(2, ?mx)]))"
    using x by (simp_all add: recovery_send_def recovery_end_def log_read_def indexToId_def)
  have mx: "carries ?mx [(''state'', JString [])]" "fcode ?mx = Some STATE" "m_id ?mx = 0"
    using x by (simp_all add: message_setData_def carries_def generateUniqueId_def)
  from handleState_ok [OF mx(1,2), of "demo_files 2" 0 0 0 0 demo_leader] obtain sq' a where
    a: "failure_handleMessage (demo_files 2) 0 0 0 0 ?mx demo_leader = Inr (sq', [(0, a)])"
      "fcode a = Some STATE_UPDATED" "carries a [(''recoveryId'', JInt 0)]"
    unfolding mx(3) by blast
  have "data_int ''recoveryId'' a = Inr 0" using data_int_carried [OF a(3)] by (simp add: is_int32_def)
  then have h: "failure_handleMessage (demo_files 0) 0 0 0 2 a ?st4 =
      Inr (?st4, [(2, setMessage 0 (Leader_Election_Code VICTORY))])"
    by (simp add: failure_handleMessage_eq [OF a(2)] handleStateUpdate_def)
  have "f_isAlive ?st4 = [False, False]"
    using overlapping_recovery_is_lost [OF b _ _ s a(1) h] by (simp add: ns_per_second_def)
  with b s a(1) h show ?thesis by blast
qed

end
