(* ===== verification/Client_Manager.thy ===== *)
theory Client_Manager
  imports Receiver_Loop Consensus_System Failure_System
begin

text \<open>
  \<open>client-manager.cc\<close>: the leader's side of a client connection. A session is the packets that arrive
  on one accepted connection; the consensus manager, the failure manager's mutex and the messenger are
  the models of the other theories. Ports are the strings MPI makes up.
\<close>

declare code_int.simps [simp del]

section \<open>Requests\<close>

text \<open>What \<open>startConsensus\<close> meets while it runs for one request: its clocks and its schedule.\<close>

record client_env =
  ce_w1 :: int
  ce_w2 :: int
  ce_w3 :: int
  ce_schedule :: schedule
  ce_wtime :: int

text \<open>The sends on \<open>MPI_COMM_WORLD\<close>, and those on the client's connection.\<close>

definition client_handleMessage ::
  "messenger \<Rightarrow> log_file_manager \<Rightarrow> client_env \<Rightarrow> int \<Rightarrow> message \<Rightarrow> consensus_state \<Rightarrow>
   (consensus_state \<times> sends \<times> sends) res" where
  "client_handleMessage m l env srcNodeId msg st =
     (case client_code_of_int (m_code msg) of
        Some REPLICATE \<Rightarrow>
          res_bind (message_getData msg) (\<lambda>d.
          res_bind (json_parse d) (\<lambda>j.
          res_bind (json_at ''value'' j) (\<lambda>jv.
          res_bind (json_get_string jv) (\<lambda>value.
          res_bind (startConsensus m l (ce_w1 env) (ce_w2 env) (ce_w3 env) (ce_schedule env) value st)
            (\<lambda>(st', out, consensusReached).
              Inr (st', out,
                   if consensusReached
                   then [(srcNodeId, setMessage (ce_wtime env) (Client_Code SUCCESS))] else []))))))
      | _ \<Rightarrow> Inr (st, [], []))"

section \<open>Sessions\<close>

datatype session_end =
    Session_Open
  | Session_Disconnected
  | Session_Shutdown

lemma receiveWithTagBlock_shorter:
  "receiveWithTagBlock tag conn m msg inbox = Inr (Some sm, rest) \<Longrightarrow> length rest < length inbox"
proof (induction tag conn m msg inbox rule: receiveWithTagBlock.induct)
  case (1 tag conn m msg inbox)
  show ?case
  proof (cases "take_tag (tag_int tag) inbox")
    case None
    with 1(2) show ?thesis by (simp add: receiveWithTagBlock.simps)
  next
    case (Some pr)
    obtain p ps where pr: "pr = (p, ps)" by (cases pr)
    have shorter: "length ps < length inbox" using take_tag_length Some pr by blast
    from 1(2) Some pr obtain src msg' valid d where
      *: "receive_packet p msg = Inr (src, msg', valid)"
      and d: "messageShouldDrop (m_processIsAlive m) (m_rank m) src conn (Some tag) = Inr d"
      by (auto simp: receiveWithTagBlock.simps)
    show ?thesis
    proof (cases "\<not> d \<or> \<not> valid")
      case True
      with 1(2) Some pr * d shorter show ?thesis by (simp add: receiveWithTagBlock.simps)
    next
      case False
      with 1(2) Some pr * d have "receiveWithTagBlock tag conn m msg' ps = Inr (Some sm, rest)"
        by (simp add: receiveWithTagBlock.simps)
      with 1(1) [OF Some pr [symmetric] * refl refl d _ this] False shorter show ?thesis by simp
    qed
  qed
qed

text \<open>
  The inner part of \<open>receivePendingMessages\<close>, for one connection; \<open>handle\<close> is \<open>handleMessage\<close> after the
  sleep of the REPL manager. \<open>Session_Open\<close>: the packets are used up and the next receive blocks.
\<close>

function client_session ::
  "(int \<Rightarrow> message \<Rightarrow> 's \<Rightarrow> ('s \<times> sends) res) \<Rightarrow> messenger \<Rightarrow> message \<Rightarrow> comm \<Rightarrow> packet list \<Rightarrow> 's \<Rightarrow>
   (session_end \<times> 's \<times> sends) res" where
  "client_session handle m received conn inbox s =
     (case receiveWithTagBlock CLIENT conn m received inbox of
        Inl e \<Rightarrow> Inl e
      | Inr (None, rest) \<Rightarrow> Inr (Session_Open, s, [])
      | Inr (Some (srcNodeId, msg), rest) \<Rightarrow>
          if m_code msg = 0 then Inr (Session_Shutdown, s, [])
          else if client_code_of_int (m_code msg) = Some DISCONNECT then Inr (Session_Disconnected, s, [])
          else
            res_bind (handle srcNodeId msg s) (\<lambda>(s', out).
            res_bind (client_session handle m received conn rest s') (\<lambda>(e, s'', out').
              Inr (e, s'', out @ out'))))"
  by pat_completeness auto
termination
  by (relation "measure (\<lambda>(handle, m, received, conn, inbox, s). length inbox)")
    (auto dest: receiveWithTagBlock_shorter)

declare client_session.simps [simp del]

text \<open>
  \<open>acceptConnection\<close>: the mutex is released, \<open>MPI_Comm_accept\<close> blocks while other threads run
  (\<open>meanwhile\<close>), and the mutex is taken again; \<open>None\<close> means that a recovery thread owns it then.
\<close>

definition acceptConnection ::
  "(failure_state \<Rightarrow> failure_state) \<Rightarrow> failure_state \<Rightarrow> failure_state option res" where
  "acceptConnection meanwhile f = res_bind (allowRecovery f) (\<lambda>f'. Inr (disallowRecovery (meanwhile f')))"

text \<open>
  \<open>receivePendingMessages\<close> over the connections clients make, one after the other, each with what
  happens before it is accepted. The result says whether the loop has ended with a SHUTDOWN; else the
  thread waits for a message, a connection or the mutex.
\<close>

fun receivePendingMessages ::
  "(int \<Rightarrow> message \<Rightarrow> 's \<Rightarrow> ('s \<times> sends) res) \<Rightarrow> messenger \<Rightarrow> message \<Rightarrow> nat \<Rightarrow> packet list \<Rightarrow>
   (packet list \<times> (failure_state \<Rightarrow> failure_state)) list \<Rightarrow> 's \<Rightarrow> failure_state \<Rightarrow>
   (bool \<times> 's \<times> sends \<times> failure_state) res" where
  "receivePendingMessages handle m received k inbox [] s f =
     res_bind (client_session handle m received (Inter_Comm k) inbox s) (\<lambda>(e, s', out).
       if e = Session_Disconnected then res_bind (allowRecovery f) (\<lambda>f'. Inr (False, s', out, f'))
       else Inr (e = Session_Shutdown, s', out, f))"
| "receivePendingMessages handle m received k inbox ((inbox', meanwhile) # sessions) s f =
     res_bind (client_session handle m received (Inter_Comm k) inbox s) (\<lambda>(e, s', out).
       if e = Session_Disconnected then
         res_bind (acceptConnection meanwhile f) (\<lambda>r.
           case r of
             None \<Rightarrow> res_bind (allowRecovery f) (\<lambda>f'. Inr (False, s', out, meanwhile f'))
           | Some f' \<Rightarrow>
               res_bind (receivePendingMessages handle m received (Suc k) inbox' sessions s' f')
                 (\<lambda>(down, s'', out', f''). Inr (down, s'', out @ out', f'')))
       else Inr (e = Session_Shutdown, s', out, f))"

text \<open>The part of \<open>startReceiver\<close> that serves clients, after the ports have been exchanged.\<close>

definition client_serve ::
  "(int \<Rightarrow> message \<Rightarrow> 's \<Rightarrow> ('s \<times> sends) res) \<Rightarrow> messenger \<Rightarrow> message \<Rightarrow>
   (failure_state \<Rightarrow> failure_state) \<Rightarrow> packet list \<Rightarrow>
   (packet list \<times> (failure_state \<Rightarrow> failure_state)) list \<Rightarrow> 's \<Rightarrow> failure_state \<Rightarrow>
   (bool \<times> 's \<times> sends \<times> failure_state) res" where
  "client_serve handle m received meanwhile inbox sessions s f =
     res_bind (acceptConnection meanwhile f) (\<lambda>r.
       case r of
         None \<Rightarrow> res_bind (allowRecovery f) (\<lambda>f'. Inr (False, s, [], meanwhile f'))
       | Some f' \<Rightarrow> receivePendingMessages handle m received 0 inbox sessions s f')"

section \<open>Ports and shutdown\<close>

definition prev_node :: "int \<Rightarrow> int \<Rightarrow> int" where
  "prev_node n nodeId = (if nodeId = 0 then n - 1 else nodeId - 1)"

definition sendPort :: "messenger \<Rightarrow> int \<Rightarrow> string \<Rightarrow> sends res" where
  "sendPort m wtime port =
     res_bind (json_text [(''port'', JString port)]) (\<lambda>messageString.
       Inr [(prev_node (m_clusterSize m) (m_rank m),
             setMessage_data wtime (Client_Code PORT) messageString)])"

definition receivePort :: "message \<Rightarrow> string res" where
  "receivePort msg =
     res_bind (message_getData msg) (\<lambda>d.
     res_bind (json_parse d) (\<lambda>j.
     res_bind (json_at ''port'' j) json_get_string))"

text \<open>
  \<open>exchangePorts\<close> as the steps of a thread: what it still has to do. Node 0 sends first, the others
  receive first.
\<close>

datatype port_phase =
    Send_Then_Receive
  | Receive_Then_Send
  | Must_Receive
  | Must_Send string
  | Exchanged string

definition exchange_start :: "int \<Rightarrow> port_phase" where
  "exchange_start nodeId = (if nodeId = 0 then Send_Then_Receive else Receive_Then_Send)"

text \<open>The node the thread shuts down after its own loop, if any.\<close>

definition shutdownNeighbor :: "messenger \<Rightarrow> int \<Rightarrow> int option" where
  "shutdownNeighbor m leader =
     (if leader \<noteq> (m_rank m + 1) mod m_clusterSize m
      then Some ((m_rank m + 1) mod m_clusterSize m) else None)"

definition enableClientConn :: "string \<Rightarrow> string option" where
  "enableClientConn port = publishPort port"

end
