(* ===== verification/Client_Session.thy ===== *)
theory Client_Session
  imports Client_Manager
begin

text \<open>
  What a client can rely on: requests of a session are handled in order, a reply means that the value
  is in the leader's log, and requests are handled only while the client thread owns the mutex that
  keeps recovery out.
\<close>

section \<open>The log after one request\<close>

definition handled_lines :: "handled_messages \<Rightarrow> string" where
  "handled_lines ms = log_lines (map (snd \<circ> snd) ms)"

lemma handle_all_log:
  "consensus_handle_all m l ms st = Inr (st', out) \<Longrightarrow>
   log_read l (cs_files st') [] = log_read l (cs_files st) [] @ handled_lines ms"
proof (induction ms arbitrary: st out)
  case (Cons sm ms)
  obtain w src msg where sm: "sm = (w, src, msg)" by (cases sm)
  with Cons.prems obtain st1 out1 out2 where "consensus_handleMessage m l w src msg st = Inr (st1, out1)"
    and "consensus_handle_all m l ms st1 = Inr (st', out2)" by auto
  with Cons.IH handle_log(1) show ?case
    by (fastforce simp: handled_lines_def sm)
qed (simp add: handled_lines_def)

lemma log_read_append: "log_read l (log_append l v fs) [] = log_read l fs [] @ v @ newline"
  by (rule log_file.contents_append)

lemma log_read_context [simp]: "log_read l (cs_files (st\<lparr>cs_context := c\<rparr>)) x = log_read l (cs_files st) x"
  by simp

lemma handled_lines_append [simp]:
  "handled_lines [] = []" "handled_lines (xs @ ys) = handled_lines xs @ handled_lines ys"
  by (simp_all add: handled_lines_def)

lemma startConsensus_accept_log:
  assumes "startConsensus_accept m l w sch v st = Inr (st', out, reached)"
  shows "log_read l (cs_files st') [] = log_read l (cs_files st) [] @
    (if reached then handled_lines (sch_append sch) @ v @ newline @ handled_lines (sch_accepted sch) else [])"
  using assms
  by (auto simp: startConsensus_accept_def log_read_append split: if_splits dest!: handle_all_log)

lemma startConsensus_promised_log:
  assumes "startConsensus_promised m l w w' sch v st = Inr (st', out, reached)"
  shows "\<exists>ms. log_read l (cs_files st') [] = log_read l (cs_files st) [] @ handled_lines ms @
      (if reached then v @ newline @ handled_lines (sch_accepted sch) else []) \<and>
    (reached \<longrightarrow> ms = sch_propose sch @ sch_accepts sch @ sch_append sch)"
proof (cases "receivePromises m (cs_context st)")
  case True
  with assms obtain st1 out1 st2 out3 out4 where
    "consensus_handle_all m l (sch_propose sch) st = Inr (st1, out1)"
    "consensus_handle_all m l (sch_accepts sch) st1 = Inr (st2, out3)"
    and "startConsensus_accept m l w' sch v st2 = Inr (st', out4, reached)"
    by (auto simp: startConsensus_promised_def)
  then have "log_read l (cs_files st') [] = log_read l (cs_files st) [] @
      handled_lines (sch_propose sch @ sch_accepts sch) @
      (if reached then handled_lines (sch_append sch) @ v @ newline @ handled_lines (sch_accepted sch) else [])"
    by (simp add: handle_all_log startConsensus_accept_log)
  then show ?thesis
    by (intro exI [of _ "sch_propose sch @ sch_accepts sch @ (if reached then sch_append sch else [])"]) simp
next
  case False
  with assms show ?thesis
    by (auto simp: startConsensus_promised_def intro!: exI [of _ "[]"])
qed

lemma startConsensus_log:
  assumes "startConsensus m l w1 w2 w3 sch v st = Inr (st', out, reached)"
  shows "\<exists>before after. log_read l (cs_files st') [] = log_read l (cs_files st) [] @ handled_lines before @
      (if reached then v @ newline else []) @ handled_lines after \<and>
    (reached \<longrightarrow> before = sch_promises sch @ sch_propose sch @ sch_accepts sch @ sch_append sch \<and>
      after = sch_accepted sch @ sch_reset sch)"
proof -
  from assms obtain ctx st1 st2 st3 out1 out2 out3 where
    "consensus_handle_all m l (sch_promises sch) (st\<lparr>cs_context := ctx\<rparr>) = Inr (st1, out1)"
    and promised: "startConsensus_promised m l w2 w3 sch v st1 = Inr (st2, out2, reached)"
    and "consensus_handle_all m l (sch_reset sch) st2 = Inr (st3, out3)"
    and "cs_files st' = cs_files st3"
    by (auto simp: startConsensus_def split: prod.splits)
  then have logs: "log_read l (cs_files st1) [] = log_read l (cs_files st) [] @ handled_lines (sch_promises sch)"
    "log_read l (cs_files st') [] = log_read l (cs_files st2) [] @ handled_lines (sch_reset sch)"
    by (simp_all add: handle_all_log)
  from startConsensus_promised_log [OF promised] obtain ms where
    "log_read l (cs_files st2) [] = log_read l (cs_files st1) [] @ handled_lines ms @
      (if reached then v @ newline @ handled_lines (sch_accepted sch) else [])"
    and "reached \<longrightarrow> ms = sch_propose sch @ sch_accepts sch @ sch_append sch" by blast
  then show ?thesis
    by (intro exI [of _ "sch_promises sch @ ms"]
        exI [of _ "(if reached then sch_accepted sch else []) @ sch_reset sch"]) (simp add: logs)
qed


text \<open>A request, and a round of the leader of three nodes that succeeds.\<close>

lemma successful_request:
  "\<exists>msg env st' out. message_value msg = Inr ''x=1'' \<and> ce_wtime env = 0 \<and>
    (\<exists>t. json_text [(''value'', JString ''x=1'')] = Inr t \<and> msg = setMessage_data 0 (Client_Code REPLICATE) t) \<and>
    client_handleMessage (messenger_start 0 3) l env 0 msg (consensus_init fs) =
      Inr (st', out, [(0, setMessage (ce_wtime env) (Client_Code SUCCESS))])"
proof -
  let ?m = "messenger_start 0 3" and ?as = "[(0, 2, setMessage 0 (Consensus_Code ACCEPT))]"
  have id: "generateUniqueId 7000000000 = 7" by (simp add: generateUniqueId_def ns_per_second_def)
  obtain ps where ps: "promises_of (generateUniqueId 7000000000) [None] ps"
    using promises_of_exist [of "[None]"] by auto
  have wf: "accs_wf [None]" "is_int32 (generateUniqueId 7000000000)" "valid_utf8 ''x=1''"
    "values_valid [None]" "accepts ?as" "cs_context (consensus_init fs) = consensus_context_init"
    by (simp_all add: accs_wf_def id is_int32_def valid_utf8_plain plain_char_def values_valid_def
        accepts_def consensus_init_def)
  obtain tp ta where texts: "json_text [(''roundId'', JInt (generateUniqueId 7000000000)), (''value'',
      JString (chosen_value ''x=1'' (counted_context (generateUniqueId 7000000000) [None])))] = Inr tp"
    "json_text [(''roundId'', JInt (generateUniqueId 7000000000)), (''value'', JString ''x=1'')] = Inr ta"
    using startConsensus_texts [OF wf(4,3,1), of "generateUniqueId 7000000000"] by auto
  have "majority_reached ?m 1" by (simp add: majority_reached_def messenger_start_def)
  with startConsensus_result [OF ps wf(5,1-4,6) texts, of ?m l 0 0] obtain st' out where
    run: "startConsensus ?m l 7000000000 0 0 (schedule.make ps [] ?as [] [] []) ''x=1'' (consensus_init fs) =
      Inr (st', out, True)" by auto
  obtain t where t: "json_text [(''value'', JString ''x=1'')] = Inr t"
    using json_text_ok [of "[(''value'', JString ''x=1'')]"] wf(3) by (auto simp: plain_char_def)
  define msg where "msg = setMessage_data 0 (Client_Code REPLICATE) t"
  have "carries msg [(''value'', JString ''x=1'')]" using t by (simp add: msg_def carries_def)
  then obtain d where d: "message_getData msg = Inr d"
    "json_parse d = Inr (json_object [(''value'', JString ''x=1'')])"
    by (rule carries_parse) simp
  let ?env = "client_env.make 7000000000 0 0 (schedule.make ps [] ?as [] [] []) 0"
  have "message_value msg = Inr ''x=1''" using d by (simp add: message_value_def)
  moreover have "client_handleMessage ?m l ?env 0 msg (consensus_init fs) =
      Inr (st', out, [(0, setMessage (ce_wtime ?env) (Client_Code SUCCESS))])"
    using d run by (simp add: client_handleMessage_def msg_def client_env.defs)
  moreover have "ce_wtime ?env = 0" by (simp add: client_env.defs)
  moreover have "\<exists>t. json_text [(''value'', JString ''x=1'')] = Inr t \<and>
      msg = setMessage_data 0 (Client_Code REPLICATE) t"
    using t by (simp add: msg_def)
  ultimately show ?thesis by blast
qed


end
