(* ===== verification/Client_Program.thy ===== *)
theory Client_Program
  imports Client_Manager Receiver_Manager
begin

text \<open>
  \<open>client.cc\<close>: one client process. MPI, the clocks and the file system are the environment: port names,
  packets and file contents at the time they are read are arguments.
\<close>

section \<open>Start and end\<close>

record client_state =
  cl_clientId :: int
  cl_clientCount :: int
  cl_baseDir :: string
  cl_receivers :: receiver_manager

definition repl_msg_base_filepath :: string where
  "repl_msg_base_filepath = ''etc/client/''"

definition client_baseDir :: "string \<Rightarrow> string" where
  "client_baseDir arg = repl_msg_base_filepath @ arg @ ''/''"

text \<open>The result also has the path of the REPL manager's file.\<close>

definition client_init :: "string list \<Rightarrow> (client_state \<times> string) res" where
  "client_init argv =
     res_bind (vec_get argv 1) (\<lambda>arg1.
     res_bind (cpp_stoi arg1) (\<lambda>clientId.
     res_bind (vec_get argv 2) (\<lambda>arg2.
     res_bind (cpp_stoi arg2) (\<lambda>clientCount.
     res_bind (rm_startReceiver REPL receiver_manager_init) (\<lambda>rm.
       Inr (\<lparr>cl_clientId = clientId, cl_clientCount = clientCount, cl_baseDir = client_baseDir arg1,
              cl_receivers = rm\<rparr>,
            client_baseDir arg1 @ ''repl.txt''))))))"

definition client_destroy :: "client_state \<Rightarrow> client_state res" where
  "client_destroy c =
     res_bind (rm_waitForReceiver REPL (cl_receivers c)) (\<lambda>rm. Inr (c\<lparr>cl_receivers := rm\<rparr>))"

section \<open>Connections\<close>

text \<open>
  A connection is the port it was made to and the messages sent on it, in order; each is to rank 0 of
  the remote group. \<open>connectMessenger\<close> reads the published port.
\<close>

type_synonym connection_log = "string \<times> message list"

definition connectMessenger :: "string option \<Rightarrow> connection_log" where
  "connectMessenger portFile = (lookupServerPort portFile, [])"

definition connection_send :: "message \<Rightarrow> connection_log \<Rightarrow> connection_log" where
  "connection_send msg c = (fst c, snd c @ [msg])"

definition client_disconnect :: "int \<Rightarrow> connection_log \<Rightarrow> connection_log" where
  "client_disconnect wtime c = connection_send (setMessage wtime (Client_Code DISCONNECT)) c"

definition shutdownServer :: "string option \<Rightarrow> int \<Rightarrow> int \<Rightarrow> connection_log" where
  "shutdownServer portFile w1 w2 =
     client_disconnect w2
       (connection_send (setMessage w1 (Client_Code Client_SHUTDOWN)) (connectMessenger portFile))"

section \<open>replicate\<close>

definition response_wait_duration :: int where
  "response_wait_duration = 40"

text \<open>
  The wait for a response. Each poll has the packets that have arrived on the connection since the last
  one and the clock after the sleep. \<open>None\<close>: the thread is still in the loop when the polls are used up,
  or blocked inside a receive.
\<close>

fun await_response ::
  "messenger \<Rightarrow> comm \<Rightarrow> time_point \<Rightarrow> (packet list \<times> time_point) list \<Rightarrow> packet list \<Rightarrow> int \<Rightarrow> message \<Rightarrow>
   message option res" where
  "await_response m conn start [] inbox src response = Inr None"
| "await_response m conn start ((arrived, cur) # ps) inbox src response =
     res_bind (receiveWithTag CLIENT conn m src response (inbox @ arrived)) (\<lambda>(r, rest).
       case r of
         None \<Rightarrow> Inr None
       | Some (messageReceived, src', response') \<Rightarrow>
           if \<not> messageReceived \<and> elapsed_seconds cur start < response_wait_duration
           then await_response m conn start ps rest src' response'
           else Inr (Some response'))"

text \<open>
  What one round of the loop of \<open>replicate\<close> meets. \<open>at_response\<close> is \<open>responseMessage\<close> before anything is
  assigned to it: a default message whose numbers are indeterminate.
\<close>

record attempt =
  at_port :: "string option"
  at_w1 :: int
  at_w2 :: int
  at_start :: time_point
  at_polls :: "(packet list \<times> time_point) list"
  at_response :: message

definition replicate_request :: "int \<Rightarrow> string \<Rightarrow> message res" where
  "replicate_request wtime data =
     res_bind (json_text [(''value'', JString data)]) (\<lambda>dataJsonString.
       Inr (setMessage_data wtime (Client_Code REPLICATE) dataJsonString))"

text \<open>One round: the connection it made and \<open>replicated\<close>, or \<open>None\<close> if it waits.\<close>

definition replicate_attempt ::
  "messenger \<Rightarrow> comm \<Rightarrow> string \<Rightarrow> attempt \<Rightarrow> (connection_log \<times> bool option) res" where
  "replicate_attempt m conn data a =
     res_bind (replicate_request (at_w1 a) data) (\<lambda>msg.
       let c = connection_send msg (connectMessenger (at_port a)) in
       res_bind (await_response m conn (at_start a) (at_polls a) [] 0 (at_response a)) (\<lambda>r.
         case r of
           None \<Rightarrow> Inr (c, None)
         | Some response \<Rightarrow>
             Inr (client_disconnect (at_w2 a) c,
                  Some (client_code_of_int (m_code response) = Some SUCCESS))))"

text \<open>The rounds, and whether the call has returned after them.\<close>

fun client_replicate ::
  "messenger \<Rightarrow> comm \<Rightarrow> string \<Rightarrow> attempt list \<Rightarrow> (connection_log list \<times> bool) res" where
  "client_replicate m conn data [] = Inr ([], False)"
| "client_replicate m conn data (a # as) =
     res_bind (replicate_attempt m conn data a) (\<lambda>(c, replicated).
       case replicated of
         None \<Rightarrow> Inr ([c], False)
       | Some True \<Rightarrow> Inr ([c], True)
       | Some False \<Rightarrow> res_bind (client_replicate m conn data as) (\<lambda>(cs, done). Inr (c # cs, done)))"

section \<open>Turns\<close>

text \<open>
  One round of \<open>waitForTurn\<close> at a position of the turn file: whether it goes on, and the new position.
\<close>

definition turn_poll :: "int \<Rightarrow> string \<Rightarrow> nat \<Rightarrow> (bool \<times> nat) res" where
  "turn_poll clientId content pos =
     (let (line, pos') = getTrailingLine content pos in
      if line \<noteq> [] then
        if line = ''shutdown'' then Inr (False, pos')
        else res_bind (cpp_stoi line) (\<lambda>i. Inr (i \<noteq> clientId, pos'))
      else Inr (True, pos'))"

text \<open>The loop over the contents of the file at each round.\<close>

fun waitForTurn :: "int \<Rightarrow> string list \<Rightarrow> nat \<Rightarrow> (bool \<times> nat) res" where
  "waitForTurn clientId [] pos = Inr (True, pos)"
| "waitForTurn clientId (content # contents) pos =
     res_bind (turn_poll clientId content pos) (\<lambda>(isUp, pos').
       if isUp then waitForTurn clientId contents pos' else Inr (False, pos'))"

text \<open>The remainder of C++ has the sign of the dividend.\<close>

definition c_remainder :: "int \<Rightarrow> int \<Rightarrow> int" where
  "c_remainder a b = sgn a * (\<bar>a\<bar> mod \<bar>b\<bar>)"

definition setTurn :: "int \<Rightarrow> int \<Rightarrow> string \<Rightarrow> string res" where
  "setTurn clientId clientCount content =
     (if clientCount = 0 \<or> \<not> is_int32 (clientId + 1) then Inl Undefined_Behaviour
      else Inr (content @ dump_integer (c_remainder (clientId + 1) clientCount) @ newline))"

section \<open>Commands\<close>

text \<open>
  \<open>std::getline\<close> without \<open>clear\<close>: the position, and whether the stream is good. On a stream that is
  not, the string keeps what it held; reaching the end of the file makes the stream bad.
\<close>

definition stream_getline :: "string \<Rightarrow> nat \<times> bool \<Rightarrow> string \<Rightarrow> string \<times> nat \<times> bool" where
  "stream_getline content st line =
     (case st of (pos, good) \<Rightarrow>
       if good then
         let (line', pos') = getTrailingLine content pos in
         (line', pos', pos + length line' < length content)
       else (line, pos, good))"

text \<open>The commands of the first \<open>k\<close> rounds of \<open>replicateCommands\<close>, and whether the loop goes on.\<close>

fun read_commands :: "nat \<Rightarrow> string \<Rightarrow> nat \<times> bool \<Rightarrow> string \<Rightarrow> string list \<times> bool" where
  "read_commands 0 content st line = ([], True)"
| "read_commands (Suc k) content st line =
     (let (line', st') = stream_getline content st line in
      if line' = [] then ([], False)
      else let (cs, up) = read_commands k content st' line' in (line' # cs, up))"

end
