(* ===== verification/Client_Requests.thy ===== *)
theory Client_Requests
  imports Client_Session Client_Program Json_Utf8
begin

text \<open>
  A client and the leader across one connection: what a session of the leader does with the packets of a
  connection, how long \<open>replicate\<close> waits for a response, and what its return means for the leader's log.
\<close>

declare code_int.simps [simp del]

section \<open>Receiving on a connection\<close>

text \<open>Well-formed packets of client messages.\<close>

definition clean_connection :: "(packet \<Rightarrow> message) \<Rightarrow> packet list \<Rightarrow> bool" where
  "clean_connection body inbox \<longleftrightarrow>
     (\<forall>p \<in> set inbox. pk_tag p = tag_int CLIENT \<and> (\<forall>m0. receive_packet p m0 = Inr (pk_source p, body p, True)))"

lemma clean_connection_simps [simp]:
  "clean_connection body []"
  "clean_connection body (p # ps) \<longleftrightarrow> pk_tag p = tag_int CLIENT \<and>
     (\<forall>m0. receive_packet p m0 = Inr (pk_source p, body p, True)) \<and> clean_connection body ps"
  "clean_connection body (ps @ qs) \<longleftrightarrow> clean_connection body ps \<and> clean_connection body qs"
  by (auto simp: clean_connection_def)

lemma connection_receive:
  "receiveWithTagBlock CLIENT (Inter_Comm k) m received [] = Inr (None, [])"
  "clean_connection body (p # ps) \<Longrightarrow>
   receiveWithTagBlock CLIENT (Inter_Comm k) m received (p # ps) = Inr (Some (pk_source p, body p), ps)"
  by (simp_all add: receiveWithTagBlock.simps messageShouldDrop_def)

lemma connection_poll:
  "receiveWithTag CLIENT (Inter_Comm k) m src received [] = Inr (Some (False, src, received), [])"
  "clean_connection body (p # ps) \<Longrightarrow>
   receiveWithTag CLIENT (Inter_Comm k) m src received (p # ps) = Inr (Some (True, pk_source p, body p), ps)"
  by (simp_all add: receiveWithTag_def hasPendingWithTag_def connection_receive messageShouldDrop_def)

section \<open>Sessions\<close>

fun session_handle_all ::
  "(int \<Rightarrow> message \<Rightarrow> 's \<Rightarrow> ('s \<times> sends) res) \<Rightarrow> (int \<times> message) list \<Rightarrow> 's \<Rightarrow> ('s \<times> sends) res" where
  "session_handle_all handle [] s = Inr (s, [])"
| "session_handle_all handle ((src, msg) # ms) s =
     res_bind (handle src msg s) (\<lambda>(s', out).
     res_bind (session_handle_all handle ms s') (\<lambda>(s'', out'). Inr (s'', out @ out')))"

definition session_ends :: "message \<Rightarrow> bool" where
  "session_ends msg \<longleftrightarrow> m_code msg = 0 \<or> client_code_of_int (m_code msg) = Some DISCONNECT"

definition session_result :: "(int \<times> message) list \<Rightarrow> session_end" where
  "session_result ms =
     (case find (\<lambda>(_, msg). session_ends msg) ms of
        None \<Rightarrow> Session_Open
      | Some (_, msg) \<Rightarrow> if m_code msg = 0 then Session_Shutdown else Session_Disconnected)"

lemma session_result_Cons:
  "session_result ((src, msg) # ms) =
     (if session_ends msg then if m_code msg = 0 then Session_Shutdown else Session_Disconnected
      else session_result ms)"
  by (simp add: session_result_def)

lemma client_session_clean:
  assumes "clean_connection body inbox"
  shows "client_session handle m received (Inter_Comm k) inbox s =
    res_bind (session_handle_all handle
        (takeWhile (\<lambda>(_, msg). \<not> session_ends msg) (inbox_messages body inbox)) s)
      (\<lambda>(s', out). Inr (session_result (inbox_messages body inbox), s', out))"
  using assms
proof (induction inbox arbitrary: s)
  case Nil
  then show ?case
    by (simp add: client_session.simps connection_receive inbox_messages_def session_result_def)
next
  case (Cons p ps)
  note rcv = connection_receive(2) [OF Cons.prems, of k m received]
  show ?case
  proof (cases "session_ends (body p)")
    case True
    with rcv show ?thesis
      by (subst client_session.simps)
        (auto simp: inbox_messages_def session_result_Cons session_ends_def)
  next
    case False
    then have "client_session handle m received (Inter_Comm k) (p # ps) s =
        res_bind (handle (pk_source p) (body p) s) (\<lambda>(s', out).
        res_bind (client_session handle m received (Inter_Comm k) ps s') (\<lambda>(e, s'', out').
          Inr (e, s'', out @ out')))"
      using rcv by (subst client_session.simps) (simp add: session_ends_def)
    with Cons.IH Cons.prems False show ?thesis
      by (simp add: inbox_messages_def session_result_Cons res_bind_assoc split_def)
  qed
qed

lemma message_packet:
  assumes "valid_utf8 d" and "length d \<le> 158" and "get_tag_from_code c = CLIENT"
  shows "\<exists>p. clean_connection (\<lambda>_. setMessage_data 0 c d) [p] \<and> pk_source p = 0"
proof -
  have "messageShouldDrop [] 0 0 (Inter_Comm 0) (Some (get_tag_from_code c)) = Inr False"
    by (simp add: messageShouldDrop_def)
  then have drop: "messageShouldDrop (m_processIsAlive (messenger_start 0 1)) (m_rank (messenger_start 0 1)) 0
      (Inter_Comm 0) (Some (get_tag_from_code c)) = Inr False"
    by (simp add: messenger_start_def)
  have "is_int32 (generateUniqueId 0)"
    by (simp add: generateUniqueId_def is_int32_def ns_per_second_def)
  from sent_packet [OF drop assms(1) this assms(2)] obtain p where
    "pk_source p = source_rank (Inter_Comm 0) (messenger_start 0 1)" "pk_tag p = tag_int CLIENT"
    "\<And>m0. receive_packet p m0 = Inr (source_rank (Inter_Comm 0) (messenger_start 0 1), setMessage_data 0 c d, True)"
    using assms(3) by metis
  then show ?thesis by auto
qed

text \<open>
  The leader handles the requests of a connection in order and each once, up to the first SHUTDOWN
  (code 0) or DISCONNECT, which ends the session: packets after it are not read, and without it the
  session stays open once the packets are used up. An exception of one request ends the session with it.
\<close>

lemma session_handles_in_order:
  assumes "clean_connection body inbox"
  shows "client_session handle m received (Inter_Comm k) inbox s =
    res_bind (session_handle_all handle
        (takeWhile (\<lambda>(_, msg). \<not> session_ends msg) (inbox_messages body inbox)) s)
      (\<lambda>(s', out). Inr (session_result (inbox_messages body inbox), s', out))"
  by (rule client_session_clean [OF assms])

section \<open>Waiting for a response\<close>

definition poll_times_out :: "time_point \<Rightarrow> packet list \<times> time_point \<Rightarrow> bool" where
  "poll_times_out start = (\<lambda>(arrived, cur). response_wait_duration \<le> elapsed_seconds cur start)"

text \<open>The packets that arrive up to the first poll that times out.\<close>

fun heard_packets :: "time_point \<Rightarrow> (packet list \<times> time_point) list \<Rightarrow> packet list" where
  "heard_packets start [] = []"
| "heard_packets start (a # ps) = fst a @ (if poll_times_out start a then [] else heard_packets start ps)"

text \<open>What the wait ends with, if it does.\<close>

definition response_heard ::
  "(packet \<Rightarrow> message) \<Rightarrow> time_point \<Rightarrow> (packet list \<times> time_point) list \<Rightarrow> message \<Rightarrow> message option" where
  "response_heard body start ps response =
     (case heard_packets start ps of
        p # _ \<Rightarrow> Some (body p)
      | [] \<Rightarrow> if list_ex (poll_times_out start) ps then Some response else None)"

lemma await_response_clean:
  assumes "clean_connection body (concat (map fst ps))"
  shows "await_response m (Inter_Comm k) start ps [] src response = Inr (response_heard body start ps response)"
  using assms
proof (induction ps arbitrary: src)
  case (Cons a ps)
  obtain arrived cur where a: "a = (arrived, cur)" by (cases a)
  show ?case
  proof (cases arrived)
    case Nil
    with Cons a show ?thesis by (auto simp: connection_poll response_heard_def poll_times_out_def)
  next
    case (Cons p rest)
    with Cons.prems a show ?thesis
      by (auto simp: connection_poll response_heard_def)
  qed
qed (simp add: response_heard_def)

lemma replicate_attempt_clean:
  assumes "clean_connection body (concat (map fst (at_polls a)))" and "replicate_request (at_w1 a) data = Inr req"
  shows "replicate_attempt m (Inter_Comm k) data a =
    (case response_heard body (at_start a) (at_polls a) (at_response a) of
       None \<Rightarrow> Inr ((lookupServerPort (at_port a), [req]), None)
     | Some r \<Rightarrow>
         Inr ((lookupServerPort (at_port a), [req, setMessage (at_w2 a) (Client_Code DISCONNECT)]),
              Some (client_code_of_int (m_code r) = Some SUCCESS)))"
  using assms(2)
  by (simp add: replicate_attempt_def await_response_clean [OF assms(1)] connection_send_def
      client_disconnect_def connectMessenger_def split: option.splits)

lemma replicate_request_ok:
  assumes "valid_utf8 data"
  shows "\<exists>req. replicate_request wtime data = Inr req \<and> message_value req = Inr data \<and>
    m_code req = code_int (Client_Code REPLICATE)"
proof -
  obtain t where t: "json_text [(''value'', JString data)] = Inr t"
    using json_text_ok [of "[(''value'', JString data)]"] assms by (auto simp: plain_char_def)
  define req where "req = setMessage_data wtime (Client_Code REPLICATE) t"
  have "carries req [(''value'', JString data)]" using t by (simp add: req_def carries_def)
  then obtain d where "message_getData req = Inr d"
    "json_parse d = Inr (json_object [(''value'', JString data)])"
    by (rule carries_parse) simp
  then have "message_value req = Inr data" by (simp add: message_value_def)
  with t show ?thesis by (simp add: replicate_request_def req_def)
qed

lemma replicate_request_valid: "replicate_request wtime data = Inr req \<Longrightarrow> valid_utf8 data"
proof -
  assume "replicate_request wtime data = Inr req"
  then have "is_ok (json_text [(''value'', JString data)])" by (auto simp: replicate_request_def is_ok_iff)
  then have "is_ok (dump_member ''value'' (dump_string data))"
    by (auto simp: json_text_def json_object_def obj_emplace_def is_ok_iff)
  then have "is_ok (dump_string data)" by (auto simp: dump_member_def is_ok_iff)
  then show ?thesis by simp
qed

text \<open>
  One round of \<open>replicate\<close> for a command of valid UTF-8: it connects to the published port and sends
  the request; it ends with the first message that arrives, or with the first poll that is 40 seconds
  or more after the request, and it always ends then. It sends DISCONNECT and counts as a success
  exactly when that first message has the code SUCCESS. If nothing has arrived the code of the
  response that was never assigned decides.
\<close>

lemma replicate_attempt_outcome:
  assumes "valid_utf8 data" and "clean_connection body (concat (map fst (at_polls a)))"
  shows "\<exists>req. replicate_request (at_w1 a) data = Inr req \<and> message_value req = Inr data \<and>
    replicate_attempt m (Inter_Comm k) data a = Inr
      (case heard_packets (at_start a) (at_polls a) of
         p # _ \<Rightarrow> ((lookupServerPort (at_port a), [req, setMessage (at_w2 a) (Client_Code DISCONNECT)]),
                  Some (client_code_of_int (m_code (body p)) = Some SUCCESS))
       | [] \<Rightarrow> if list_ex (poll_times_out (at_start a)) (at_polls a)
              then ((lookupServerPort (at_port a), [req, setMessage (at_w2 a) (Client_Code DISCONNECT)]),
                    Some (client_code_of_int (m_code (at_response a)) = Some SUCCESS))
              else ((lookupServerPort (at_port a), [req]), None))"
proof -
  obtain req where req: "replicate_request (at_w1 a) data = Inr req" "message_value req = Inr data"
    using replicate_request_ok [OF assms(1)] by blast
  with replicate_attempt_clean [OF assms(2) req(1), of m k] show ?thesis
    by (simp add: response_heard_def split: list.split)
qed

section \<open>The whole call\<close>

lemma client_replicate_returns:
  assumes "client_replicate m conn data as = Inr (cs, True)"
  shows "0 < length cs \<and> length cs \<le> length as \<and>
    (\<forall>i < length cs. replicate_attempt m conn data (as ! i) = Inr (cs ! i, Some (Suc i = length cs)))"
  using assms
proof (induction as arbitrary: cs)
  case (Cons a as)
  from Cons.prems obtain c b where c: "replicate_attempt m conn data a = Inr (c, Some b)"
    by (auto split: option.splits)
  show ?case
  proof (cases b)
    case True
    with Cons.prems c show ?thesis by auto
  next
    case False
    with Cons.prems c obtain cs' where cs: "cs = c # cs'" "client_replicate m conn data as = Inr (cs', True)"
      by auto
    from Cons.IH [OF cs(2)] show ?thesis
      using c False cs(1) by (auto simp: nth_Cons split: nat.splits)
  qed
qed simp

lemma request_goes_on:
  assumes "m_code msg = code_int (Client_Code REPLICATE)"
  shows "\<not> session_ends msg"
proof -
  have "code_int (Client_Code REPLICATE) \<noteq> 0" by (simp add: code_int.simps client_codes_def)
  then show ?thesis using assms by (simp add: session_ends_def)
qed

text \<open>The leader's handler of requests, with what each request meets.\<close>

definition leader_handle ::
  "messenger \<Rightarrow> log_file_manager \<Rightarrow> client_env \<Rightarrow> int \<Rightarrow> message \<Rightarrow> consensus_state \<Rightarrow>
   (consensus_state \<times> sends) res" where
  "leader_handle M l env src msg st =
     res_bind (client_handleMessage M l env src msg st) (\<lambda>(st', out, replies). Inr (st', replies))"

lemma handleMessage_logged:
  assumes "client_handleMessage M l env src msg st = Inr (st', out, replies)" and "message_value msg = Inr v"
    and "replies \<noteq> []"
  shows "\<exists>before after. log_read l (cs_files st') [] = log_read l (cs_files st) [] @ before @ v @ newline @ after"
proof -
  from assms obtain reached where
    run: "startConsensus M l (ce_w1 env) (ce_w2 env) (ce_w3 env) (ce_schedule env) v st = Inr (st', out, True)"
    by (auto simp: client_handleMessage_def message_value_def split: option.splits client_code.splits if_splits)
  from startConsensus_log [OF run] obtain b a where
    "log_read l (cs_files st') [] = log_read l (cs_files st) [] @ handled_lines b @
      (if True then v @ newline else []) @ handled_lines a" by blast
  then show ?thesis by simp blast
qed


text \<open>Two rounds: the first one times out, the second one gets the reply.\<close>

definition demo_attempts :: "packet \<Rightarrow> attempt list" where
  "demo_attempts p =
     [attempt.make None 0 0 0 [([], 40 * ns_per_second)] (default_message 0 0 0),
      attempt.make (Some ''port'') 0 0 0 [([p], ns_per_second)] (default_message 0 0 0)]"

lemma demo_replicate:
  assumes "clean_connection (\<lambda>_. setMessage 0 (Client_Code SUCCESS)) [q]" and "replicate_request 0 data = Inr req"
  shows "\<exists>cs. client_replicate m (Inter_Comm 0) data (demo_attempts q) = Inr (cs, True) \<and> length cs = 2"
proof -
  have "clean_connection (\<lambda>_. req) (concat (map fst (at_polls (demo_attempts q ! 0))))"
    by (simp add: demo_attempts_def attempt.defs)
  from replicate_attempt_clean [OF this, of data req m 0] assms(2)
  have "\<exists>c. replicate_attempt m (Inter_Comm 0) data (demo_attempts q ! 0) = Inr (c, Some False)"
    by (simp add: demo_attempts_def attempt.defs response_heard_def poll_times_out_def elapsed_seconds_def
        response_wait_duration_def ns_per_second_def default_message_def client_code_of_int_def
        enum_of_int_def client_codes_def)
  moreover have "clean_connection (\<lambda>_. setMessage 0 (Client_Code SUCCESS))
      (concat (map fst (at_polls (demo_attempts q ! 1))))"
    using assms(1) by (simp add: demo_attempts_def attempt.defs)
  from replicate_attempt_clean [OF this, of data req m 0] assms(2)
  have "\<exists>c. replicate_attempt m (Inter_Comm 0) data (demo_attempts q ! 1) = Inr (c, Some True)"
    by (simp add: demo_attempts_def attempt.defs response_heard_def)
  ultimately show ?thesis
    by (auto simp: demo_attempts_def)
qed


end
