(* ===== verification/Client_Ring.thy ===== *)
theory Client_Ring
  imports Client_Manager
begin

text \<open>
  The client managers of the cluster as a ring: \<open>exchangePorts\<close> run by all nodes, and the chain of
  shutdowns that starts at the leader.
\<close>

section \<open>The exchange\<close>

text \<open>The phase of each node's thread and the PORT messages on their way to each node.\<close>

record port_system =
  ps_phase :: "int \<Rightarrow> port_phase"
  ps_net :: "int \<Rightarrow> message list"

inductive exchange_step :: "int \<Rightarrow> (int \<Rightarrow> string) \<Rightarrow> port_system \<Rightarrow> port_system \<Rightarrow> bool"
  for n :: int and port :: "int \<Rightarrow> string"
where
  send_first: "0 \<le> p \<Longrightarrow> p < n \<Longrightarrow> ps_phase s p = Send_Then_Receive \<Longrightarrow>
     sendPort (messenger_start p n) wtime (port p) = Inr [(q, m)] \<Longrightarrow>
     exchange_step n port s \<lparr>ps_phase = (ps_phase s)(p := Must_Receive),
       ps_net = (ps_net s)(q := ps_net s q @ [m])\<rparr>"
| receive_first: "0 \<le> p \<Longrightarrow> p < n \<Longrightarrow> ps_phase s p = Receive_Then_Send \<Longrightarrow> ps_net s p = m # ms \<Longrightarrow>
     receivePort m = Inr x \<Longrightarrow>
     exchange_step n port s \<lparr>ps_phase = (ps_phase s)(p := Must_Send x), ps_net = (ps_net s)(p := ms)\<rparr>"
| send_second: "0 \<le> p \<Longrightarrow> p < n \<Longrightarrow> ps_phase s p = Must_Send x \<Longrightarrow>
     sendPort (messenger_start p n) wtime (port p) = Inr [(q, m)] \<Longrightarrow>
     exchange_step n port s \<lparr>ps_phase = (ps_phase s)(p := Exchanged x),
       ps_net = (ps_net s)(q := ps_net s q @ [m])\<rparr>"
| receive_second: "0 \<le> p \<Longrightarrow> p < n \<Longrightarrow> ps_phase s p = Must_Receive \<Longrightarrow> ps_net s p = m # ms \<Longrightarrow>
     receivePort m = Inr x \<Longrightarrow>
     exchange_step n port s \<lparr>ps_phase = (ps_phase s)(p := Exchanged x), ps_net = (ps_net s)(p := ms)\<rparr>"

inductive_cases exchange_stepE: "exchange_step n port s t"

definition exchange_system_start :: "port_system \<Rightarrow> bool" where
  "exchange_system_start s \<longleftrightarrow> ps_phase s = exchange_start \<and> ps_net s = (\<lambda>_. [])"

definition next_node :: "int \<Rightarrow> int \<Rightarrow> int" where
  "next_node n p = (p + 1) mod n"

lemma next_node_prev:
  assumes "0 \<le> p" "p < n"
  shows "next_node n (prev_node n p) = p" "0 \<le> prev_node n p" "prev_node n p < n"
    and "0 \<le> q \<Longrightarrow> q < n \<Longrightarrow> next_node n q = p \<longleftrightarrow> q = prev_node n p"
proof -
  show "next_node n (prev_node n p) = p" "0 \<le> prev_node n p" "prev_node n p < n"
    using assms by (auto simp: next_node_def prev_node_def)
  assume q: "0 \<le> q" "q < n"
  show "next_node n q = p \<longleftrightarrow> q = prev_node n p"
  proof (cases "q + 1 = n")
    case True
    then show ?thesis using assms q by (auto simp: next_node_def prev_node_def)
  next
    case False
    with q have "(q + 1) mod n = q + 1" by (intro mod_pos_pos_trivial) simp_all
    then show ?thesis using assms q False by (auto simp: next_node_def prev_node_def)
  qed
qed

lemma next_node_range: "0 < n \<Longrightarrow> 0 \<le> next_node n p \<and> next_node n p < n"
  by (simp add: next_node_def)

section \<open>The invariant\<close>

fun has_sent :: "port_phase \<Rightarrow> bool" where
  "has_sent Must_Receive = True"
| "has_sent (Exchanged x) = True"
| "has_sent _ = False"

fun has_received :: "port_phase \<Rightarrow> bool" where
  "has_received (Must_Send x) = True"
| "has_received (Exchanged x) = True"
| "has_received _ = False"

fun phase_port :: "port_phase \<Rightarrow> string option" where
  "phase_port (Must_Send x) = Some x"
| "phase_port (Exchanged x) = Some x"
| "phase_port _ = None"

definition phase_legal :: "int \<Rightarrow> port_phase \<Rightarrow> bool" where
  "phase_legal p ph \<longleftrightarrow>
     (if p = 0 then (case ph of Receive_Then_Send \<Rightarrow> False | Must_Send x \<Rightarrow> False | _ \<Rightarrow> True)
      else (case ph of Send_Then_Receive \<Rightarrow> False | Must_Receive \<Rightarrow> False | _ \<Rightarrow> True))"

lemma phase_legal_simps [simp]:
  "phase_legal p Send_Then_Receive \<longleftrightarrow> p = 0" "phase_legal p Must_Receive \<longleftrightarrow> p = 0"
  "phase_legal p Receive_Then_Send \<longleftrightarrow> p \<noteq> 0" "phase_legal p (Must_Send x) \<longleftrightarrow> p \<noteq> 0"
  "phase_legal p (Exchanged x)"
  by (simp_all add: phase_legal_def)

text \<open>What node \<open>p\<close> has in its inbox and has learned.\<close>

definition port_node_ok :: "int \<Rightarrow> (int \<Rightarrow> string) \<Rightarrow> port_system \<Rightarrow> int \<Rightarrow> bool" where
  "port_node_ok n port s p \<longleftrightarrow>
     phase_legal p (ps_phase s p) \<and>
     (\<forall>x. phase_port (ps_phase s p) = Some x \<longrightarrow> x = port (next_node n p)) \<and>
     (\<forall>m \<in> set (ps_net s p). receivePort m = Inr (port (next_node n p))) \<and>
     length (ps_net s p) = (if has_sent (ps_phase s (next_node n p)) \<and> \<not> has_received (ps_phase s p)
                            then 1 else 0) \<and>
     (has_received (ps_phase s p) \<longrightarrow> has_sent (ps_phase s (next_node n p)))"

definition port_inv :: "int \<Rightarrow> (int \<Rightarrow> string) \<Rightarrow> port_system \<Rightarrow> bool" where
  "port_inv n port s \<longleftrightarrow> (\<forall>p. 0 \<le> p \<and> p < n \<longrightarrow> port_node_ok n port s p)"

lemma sendPort_received:
  assumes "sendPort (messenger_start p n) wtime port = Inr [(q, m)]"
  shows "q = prev_node n p" "receivePort m = Inr port"
proof -
  from assms obtain t where q: "q = prev_node n p" and t: "json_text [(''port'', JString port)] = Inr t"
    and m: "m = setMessage_data wtime (Client_Code PORT) t"
    by (auto simp: sendPort_def messenger_start_def)
  show "q = prev_node n p" by fact
  have "carries m [(''port'', JString port)]" unfolding m using t by (rule carriesI)
  then obtain t' where "message_getData m = Inr t'"
      and "json_parse t' = Inr (json_object [(''port'', JString port)])"
    by (rule carries_parse) simp
  then show "receivePort m = Inr port" by (simp add: receivePort_def)
qed

lemma sendPort_ok:
  assumes "valid_utf8 port"
  shows "\<exists>m. sendPort (messenger_start p n) wtime port = Inr [(prev_node n p, m)]"
proof -
  have "\<exists>t. json_text [(''port'', JString port)] = Inr t"
    using assms by (intro json_text_ok) (simp add: plain_char_def)
  then show ?thesis by (auto simp: sendPort_def messenger_start_def)
qed

lemma port_inv_legal: "port_inv n port s \<Longrightarrow> 0 \<le> p \<Longrightarrow> p < n \<Longrightarrow> phase_legal p (ps_phase s p)"
  by (simp add: port_inv_def port_node_ok_def)

lemma send_keeps_port_inv:
  assumes inv: "port_inv n port s" and p: "0 \<le> p" "p < n"
    and old: "\<not> has_sent (ps_phase s p)" and legal: "phase_legal p ph"
    and new: "has_sent ph" "has_received ph = has_received (ps_phase s p)"
    "phase_port ph = phase_port (ps_phase s p)"
    and m: "receivePort m = Inr (port p)"
  shows "port_inv n port \<lparr>ps_phase = (ps_phase s)(p := ph),
       ps_net = (ps_net s)(prev_node n p := ps_net s (prev_node n p) @ [m])\<rparr>"
  unfolding port_inv_def
proof (intro allI impI)
  fix r assume "0 \<le> r \<and> r < n"
  then have r: "0 \<le> r" "r < n" by simp_all
  have I: "port_node_ok n port s r" using inv r by (simp add: port_inv_def)
  show "port_node_ok n port \<lparr>ps_phase = (ps_phase s)(p := ph),
      ps_net = (ps_net s)(prev_node n p := ps_net s (prev_node n p) @ [m])\<rparr> r"
  proof (cases "r = prev_node n p")
    case True
    then have np: "next_node n r = p" using next_node_prev(1) [OF p] by simp
    show ?thesis
    proof (cases "r = p")
      case True
      with I np \<open>r = prev_node n p\<close> old legal new m show ?thesis by (auto simp: port_node_ok_def)
    next
      case False
      with I np \<open>r = prev_node n p\<close> old legal new m show ?thesis by (auto simp: port_node_ok_def)
    qed
  next
    case False
    then have "next_node n r \<noteq> p" using next_node_prev(4) [OF p r] by simp
    with I False old legal new show ?thesis by (auto simp: port_node_ok_def)
  qed
qed

lemma receive_keeps_port_inv:
  assumes inv: "port_inv n port s" and p: "0 \<le> p" "p < n"
    and old: "\<not> has_received (ps_phase s p)" and legal: "phase_legal p ph"
    and new: "has_received ph" "has_sent ph = has_sent (ps_phase s p)" "phase_port ph = Some x"
    and m: "ps_net s p = m # ms" "receivePort m = Inr x"
  shows "port_inv n port \<lparr>ps_phase = (ps_phase s)(p := ph), ps_net = (ps_net s)(p := ms)\<rparr>"
  unfolding port_inv_def
proof (intro allI impI)
  fix r assume "0 \<le> r \<and> r < n"
  then have r: "0 \<le> r" "r < n" by simp_all
  have I: "port_node_ok n port s r" "port_node_ok n port s p" using inv r p by (simp_all add: port_inv_def)
  show "port_node_ok n port \<lparr>ps_phase = (ps_phase s)(p := ph), ps_net = (ps_net s)(p := ms)\<rparr> r"
    using I old legal new m by (auto simp: port_node_ok_def split: if_splits)
qed

lemma port_inv_start: "exchange_system_start s \<Longrightarrow> port_inv n port s"
  by (auto simp: exchange_system_start_def port_inv_def port_node_ok_def exchange_start_def phase_legal_def)

lemma port_inv_step:
  assumes "port_inv n port s" and "exchange_step n port s t"
  shows "port_inv n port t"
  using assms(2)
proof (cases rule: exchange_step.cases)
  case (send_first p wtime q m)
  note P = sendPort_received [OF send_first(5)]
  show ?thesis unfolding send_first(1) P(1)
    by (rule send_keeps_port_inv [OF assms(1) send_first(2,3) _ _ _ _ _ P(2)])
      (use send_first(4) port_inv_legal [OF assms(1) send_first(2,3)] in simp_all)
next
  case (send_second p x wtime q m)
  note P = sendPort_received [OF send_second(5)]
  show ?thesis unfolding send_second(1) P(1)
    by (rule send_keeps_port_inv [OF assms(1) send_second(2,3) _ _ _ _ _ P(2)])
      (use send_second(4) port_inv_legal [OF assms(1) send_second(2,3)] in simp_all)
next
  case (receive_first p m ms x)
  show ?thesis unfolding receive_first(1)
    by (rule receive_keeps_port_inv [OF assms(1) receive_first(2,3) _ _ _ _ _ receive_first(5,6)])
      (use receive_first(4) port_inv_legal [OF assms(1) receive_first(2,3)] in simp_all)
next
  case (receive_second p m ms x)
  show ?thesis unfolding receive_second(1)
    by (rule receive_keeps_port_inv [OF assms(1) receive_second(2,3) _ _ _ _ _ receive_second(5,6)])
      (use receive_second(4) port_inv_legal [OF assms(1) receive_second(2,3)] in simp_all)
qed

interpretation port_exchange: step_invariant exchange_system_start "exchange_step n port" "port_inv n port"
  for n port
  by unfold_locales (fact port_inv_start, fact port_inv_step)

section \<open>Progress\<close>

fun phase_work :: "port_phase \<Rightarrow> nat" where
  "phase_work Send_Then_Receive = 2"
| "phase_work Receive_Then_Send = 2"
| "phase_work Must_Receive = 1"
| "phase_work (Must_Send x) = 1"
| "phase_work (Exchanged x) = 0"

definition exchange_work :: "int \<Rightarrow> port_system \<Rightarrow> nat" where
  "exchange_work n s = (\<Sum>p\<in>{0..<n}. phase_work (ps_phase s p))"

lemma phase_work_0: "phase_work ph = 0 \<longleftrightarrow> (\<exists>x. ph = Exchanged x)"
  by (cases ph) auto

lemma work_drops:
  assumes "0 \<le> p" "p < n" "phase_work (ps_phase s p) = Suc (phase_work ph)"
    and "ps_phase t = (ps_phase s)(p := ph)"
  shows "exchange_work n s = Suc (exchange_work n t)"
proof -
  have "(\<Sum>i\<in>{0..<n} - {p}. phase_work (ps_phase s i)) = (\<Sum>i\<in>{0..<n} - {p}. phase_work (ps_phase t i))"
    by (rule sum.cong) (auto simp: assms(4))
  moreover have "exchange_work n u = phase_work (ps_phase u p) + (\<Sum>i\<in>{0..<n} - {p}. phase_work (ps_phase u i))"
    for u
    unfolding exchange_work_def by (rule sum.remove) (use assms(1,2) in simp_all)
  ultimately show ?thesis by (simp add: assms(3,4))
qed

lemma exchange_step_work: "exchange_step n port s t \<Longrightarrow> exchange_work n s = Suc (exchange_work n t)"
  by (elim exchange_stepE) (auto intro!: work_drops)

lemma exchange_start_work: "exchange_system_start s \<Longrightarrow> exchange_work n s = 2 * nat n"
  by (simp add: exchange_system_start_def exchange_work_def exchange_start_def if_distrib [of phase_work]
      cong: if_cong)

lemma blocked_chain:
  assumes inv: "port_inv n port s" and valid: "\<And>p. valid_utf8 (port p)"
    and stuck: "\<And>t. \<not> exchange_step n port s t"
    and p: "0 \<le> p" "p < n"
  shows "\<exists>x. ps_phase s p = Exchanged x"
  using p
proof (induction "nat (n - p)" arbitrary: p)
  case 0
  then show ?case by simp
next
  case (Suc k)
  let ?q = "next_node n p"
  have q: "0 \<le> ?q" "?q < n" using Suc(3,4) by (simp_all add: next_node_def)
  have ok: "port_node_ok n port s p" "port_node_ok n port s ?q"
    using inv Suc(3,4) q by (simp_all add: port_inv_def)
  have no_send: "ps_phase s r \<noteq> Send_Then_Receive \<and> ps_phase s r \<noteq> Must_Send x" if "0 \<le> r" "r < n" for r x
    using sendPort_ok [OF valid [of r]] stuck send_first [OF that] send_second [OF that] by blast
  have "has_sent (ps_phase s ?q)"
  proof (cases "p + 1 = n")
    case True
    then have "?q = 0" by (simp add: next_node_def)
    with no_send [OF q] ok(2) show ?thesis
      by (cases "ps_phase s ?q") (auto simp: port_node_ok_def phase_legal_def)
  next
    case False
    with Suc(2-4) have "?q = p + 1" "k = nat (n - ?q)" "?q < n" by (simp_all add: next_node_def)
    with Suc(1) [of ?q] q show ?thesis by auto
  qed
  with ok(1) have inbox: "\<exists>m. ps_net s p = [m] \<and> receivePort m = Inr (port ?q)" if "\<not> has_received (ps_phase s p)"
    using that by (cases "ps_net s p") (auto simp: port_node_ok_def)
  show ?case
    using no_send [OF Suc(3,4)] inbox stuck receive_first [OF Suc(3,4)] receive_second [OF Suc(3,4)]
    by (cases "ps_phase s p") (simp; blast)+
qed

lemma exchange_run:
  assumes "(exchange_step n port ^^ k) s t"
  shows "exchange_work n s = k + exchange_work n t" and "(exchange_step n port)\<^sup>*\<^sup>* s t"
  using assms by (induction k arbitrary: t) (auto dest: exchange_step_work intro: rtranclp.rtrancl_into_rtrancl)

text \<open>
  C19. The port exchange at start-up never blocks and ends: whatever order the \<open>n\<close> nodes take their
  steps in, a run has at most \<open>2n\<close> steps, one that is shorter can go on, and after \<open>2n\<close> steps every
  node has the port of the next node of the ring, which it needs to pass a shutdown on.
\<close>

theorem ports_exchanged:
  assumes "exchange_system_start s" and "\<And>p. valid_utf8 (port p)"
    and "(exchange_step n port ^^ k) s t"
  shows "k \<le> 2 * nat n \<and> (k < 2 * nat n \<longrightarrow> (\<exists>u. exchange_step n port t u)) \<and>
    (k = 2 * nat n \<longrightarrow> (\<forall>p. 0 \<le> p \<and> p < n \<longrightarrow> ps_phase t p = Exchanged (port ((p + 1) mod n))))"
proof -
  note run = exchange_run [OF assms(3)]
  have work: "2 * nat n = k + exchange_work n t"
    using run(1) exchange_start_work [OF assms(1)] by simp
  have inv: "port_inv n port t"
    using port_exchange.steps_hold [OF run(2)] port_inv_start [OF assms(1)] by simp
  have "\<exists>u. exchange_step n port t u" if "k < 2 * nat n"
  proof (rule ccontr)
    assume "\<nexists>u. exchange_step n port t u"
    then have "\<exists>x. ps_phase t p = Exchanged x" if "0 \<le> p" "p < n" for p
      using blocked_chain [OF inv assms(2) _ that] by blast
    then have "exchange_work n t = 0" by (fastforce simp: exchange_work_def)
    with that work show False by simp
  qed
  moreover have "ps_phase t p = Exchanged (port ((p + 1) mod n))"
    if "k = 2 * nat n" "0 \<le> p" "p < n" for p
  proof -
    have "phase_work (ps_phase t p) = 0" using that work by (simp add: exchange_work_def)
    then obtain x where "ps_phase t p = Exchanged x" by (auto simp: phase_work_0)
    then show ?thesis
      using inv that(2,3) by (auto simp: port_inv_def port_node_ok_def next_node_def)
  qed
  ultimately show ?thesis using work by auto
qed

definition start_ports :: port_system where
  "start_ports = \<lparr>ps_phase = exchange_start, ps_net = (\<lambda>_. [])\<rparr>"

theorem ports_exchanged_witness:
  "\<exists>u. exchange_step 3 (\<lambda>p. ''port'') start_ports u"
proof -
  have "valid_utf8 ''port''"
    by (simp add: dump_string_plain plain_char_def flip: is_ok_dump_string)
  then show ?thesis
    using ports_exchanged [where s = start_ports and port = "\<lambda>p. ''port''" and n = 3 and k = 0]
    by (simp add: start_ports_def exchange_system_start_def)
qed

section \<open>The shutdown\<close>

text \<open>
  The nodes that leave the loop of \<open>startReceiver\<close>, in their order, when node \<open>p\<close> gets a SHUTDOWN: each
  passes it to \<open>shutdownNeighbor\<close>.
\<close>

fun shutdown_chain :: "nat \<Rightarrow> int \<Rightarrow> int \<Rightarrow> int \<Rightarrow> int list" where
  "shutdown_chain 0 n leader p = []"
| "shutdown_chain (Suc k) n leader p =
     p # (case shutdownNeighbor (messenger_start p n) leader of
            None \<Rightarrow> []
          | Some q \<Rightarrow> shutdown_chain k n leader q)"

lemma shutdownNeighbor_start:
  "shutdownNeighbor (messenger_start p n) leader = (if leader = (p + 1) mod n then None else Some ((p + 1) mod n))"
  by (simp add: shutdownNeighbor_def messenger_start_def)

lemma shutdown_chain_from:
  assumes "0 \<le> leader" "leader < n" "0 < j" "j < n" "nat (n - j) \<le> k"
  shows "shutdown_chain k n leader ((leader + j) mod n) = map (\<lambda>i. (leader + i) mod n) [j..n - 1]"
  using assms(3-)
proof (induction k arbitrary: j)
  case 0
  then show ?case by simp
next
  case (Suc k)
  have succ: "((leader + j) mod n + 1) mod n = (leader + (j + 1)) mod n"
    using mod_add_left_eq [of "leader + j" n 1] by (simp add: add.assoc)
  show ?case
  proof (cases "j + 1 = n")
    case True
    then have "(leader + (j + 1)) mod n = leader" "[j..n - 1] = [j]"
      using assms(1,2) by (auto simp: upto.simps)
    with succ show ?thesis by (simp add: shutdownNeighbor_start)
  next
    case False
    have "(leader + (j + 1)) mod n \<noteq> leader"
    proof
      assume "(leader + (j + 1)) mod n = leader"
      then have "(leader + (j + 1)) mod n = leader mod n" using assms(1,2) by simp
      then have "n dvd j + 1" by (simp add: mod_eq_dvd_iff)
      with Suc(2,3) False show False using zdvd_imp_le [of n "j + 1"] by simp
    qed
    moreover have "[j..n - 1] = j # [j + 1..n - 1]" using Suc(3) by (simp add: upto.simps)
    moreover have "shutdown_chain k n leader ((leader + (j + 1)) mod n) =
        map (\<lambda>i. (leader + i) mod n) [j + 1..n - 1]"
      by (rule Suc(1)) (use Suc(2-4) False in simp_all)
    ultimately show ?thesis using succ by (simp add: shutdownNeighbor_start)
  qed
qed



end
