(* ===== verification/Client_Turns.thy ===== *)
theory Client_Turns
  imports Client_Program
begin

text \<open>
  The clients of \<open>client.cc\<close> together: each runs \<open>replicateCommands\<close> and they take turns through the
  turn file. The theory shows that turns keep two clients from replicating at once and give the
  commands a round-robin order, and where the scheme breaks down.
\<close>

section \<open>The system\<close>

datatype turn_phase =
    Reading
  | Turn_Waiting string
  | Turn_Replicating string
  | Turn_Finished

text \<open>
  \<open>ts_commands\<close> has the lines each client has not read from its command file, and \<open>ts_done\<close> the
  commands replicated so far.
\<close>

record turn_system =
  ts_file :: string
  ts_pos :: "int \<Rightarrow> nat"
  ts_phase :: "int \<Rightarrow> turn_phase"
  ts_commands :: "int \<Rightarrow> string list"
  ts_done :: "(int \<times> string) list"

fun next_command :: "string list \<Rightarrow> string \<times> string list" where
  "next_command [] = ([], [])"
| "next_command (l # ls) = (l, ls)"

text \<open>
  The steps of client \<open>c\<close>: the next command, a round of \<open>waitForTurn\<close>, and \<open>setTurn\<close> after \<open>replicate\<close> has
  returned.
\<close>

inductive turn_step :: "int \<Rightarrow> turn_system \<Rightarrow> turn_system \<Rightarrow> bool" for n :: int where
  turn_read: "0 \<le> c \<Longrightarrow> c < n \<Longrightarrow> ts_phase s c = Reading \<Longrightarrow> next_command (ts_commands s c) = (line, rest) \<Longrightarrow>
     turn_step n s (s\<lparr>ts_phase := (ts_phase s)(c := if line = [] then Turn_Finished else Turn_Waiting line),
       ts_commands := (ts_commands s)(c := rest)\<rparr>)"
| turn_wait: "0 \<le> c \<Longrightarrow> c < n \<Longrightarrow> ts_phase s c = Turn_Waiting line \<Longrightarrow>
     turn_poll c (ts_file s) (ts_pos s c) = Inr (isUp, pos') \<Longrightarrow>
     turn_step n s (s\<lparr>ts_pos := (ts_pos s)(c := pos'),
       ts_phase := (ts_phase s)(c := if isUp then Turn_Waiting line else Turn_Replicating line)\<rparr>)"
| turn_set: "0 \<le> c \<Longrightarrow> c < n \<Longrightarrow> ts_phase s c = Turn_Replicating line \<Longrightarrow>
     setTurn c n (ts_file s) = Inr f \<Longrightarrow>
     turn_step n s (s\<lparr>ts_file := f, ts_phase := (ts_phase s)(c := Reading),
       ts_done := ts_done s @ [(c, line)]\<rparr>)"

inductive_cases turn_stepE: "turn_step n s t"

definition turn_start :: "(int \<Rightarrow> string list) \<Rightarrow> turn_system \<Rightarrow> bool" where
  "turn_start cmds s \<longleftrightarrow> ts_file s = ''0'' @ newline \<and> ts_pos s = (\<lambda>_. 0) \<and> ts_phase s = (\<lambda>_. Reading) \<and>
     ts_commands s = cmds \<and> ts_done s = []"

text \<open>The operator's script appends a line at the end.\<close>

definition turn_shutdown :: "turn_system \<Rightarrow> turn_system" where
  "turn_shutdown s = s\<lparr>ts_file := ts_file s @ ''shutdown'' @ newline\<rparr>"

section \<open>The turn file\<close>

definition turn_lines :: "int \<Rightarrow> nat \<Rightarrow> string list" where
  "turn_lines n k = map (\<lambda>i. dump_integer (int i mod n)) [0..<k]"

definition turn_pos :: "int \<Rightarrow> nat \<Rightarrow> nat" where
  "turn_pos n j = length (unlines (turn_lines n j))"

lemma turn_lines_Suc: "turn_lines n (Suc k) = turn_lines n k @ [dump_integer (int k mod n)]"
  by (simp add: turn_lines_def)

lemma turn_lines_split:
  assumes "j < k"
  shows "\<exists>r. unlines (turn_lines n k) = unlines (turn_lines n j) @ dump_integer (int j mod n) @ newline @ r"
proof -
  have "[0..<k] = [0..<j] @ j # [Suc j..<k]"
    using assms upt_add_eq_append [of 0 j "k - j"] by (simp add: upt_conv_Cons)
  then show ?thesis by (simp add: turn_lines_def)
qed

lemma dump_integer_newline: "CHR 0x0A \<notin> set (dump_integer i)"
  using dump_integer_chars [of "CHR 0x0A" i] by (auto simp: is_digit_def)

lemma turn_poll_line:
  assumes "j < k" "0 < n" "n < 2 ^ 31"
  shows "turn_poll c (unlines (turn_lines n k) @ later) (turn_pos n j) = Inr (int j mod n \<noteq> c, turn_pos n (Suc j))"
proof -
  obtain r where r: "unlines (turn_lines n k) = unlines (turn_lines n j) @ dump_integer (int j mod n) @ newline @ r"
    using turn_lines_split [OF assms(1)] by blast
  have range: "0 \<le> int j mod n" "int j mod n < n" using assms(2) by simp_all
  then have "is_int32 (int j mod n)" using assms(3) unfolding is_int32_def by linarith
  then have num: "cpp_stoi (dump_integer (int j mod n)) = Inr (int j mod n)"
    using cpp_stoi_dump_integer [of "int j mod n" "[]"] by simp
  then have "dump_integer (int j mod n) \<noteq> ''shutdown''"
    by (auto simp: cpp_stoi_def cpp_isspace_def is_digit_def)
  with num show ?thesis
    using getTrailingLine_next [OF dump_integer_newline, of "turn_lines n j" "int j mod n" "r @ later"]
    by (simp add: turn_poll_def turn_pos_def r turn_lines_Suc)
qed

lemma turn_poll_end: "turn_poll c (unlines (turn_lines n k)) (turn_pos n k) = Inr (True, turn_pos n k)"
  by (simp add: turn_poll_def turn_pos_def getTrailingLine_end)

lemma setTurn_lines:
  assumes "int k mod n = c" "0 < n" "n < 2 ^ 31"
  shows "setTurn c n (unlines (turn_lines n (Suc k))) = Inr (unlines (turn_lines n (Suc (Suc k))))"
proof -
  have c: "0 \<le> c" "c < n" using assms(1,2) by auto
  then have "is_int32 (c + 1)" using assms(3) by (simp add: is_int32_def)
  moreover have "c_remainder (c + 1) n = int (Suc k) mod n"
    using c assms(1,2) mod_add_left_eq [of "int k" n 1] by (simp add: c_remainder_def add.commute)
  ultimately show ?thesis
    using assms(2) by (simp add: setTurn_def turn_lines_Suc [of n "Suc k"])
qed

section \<open>The invariant\<close>

fun pending_command :: "turn_phase \<Rightarrow> string list" where
  "pending_command (Turn_Waiting l) = [l]"
| "pending_command (Turn_Replicating l) = [l]"
| "pending_command _ = []"

fun is_replicating :: "turn_phase \<Rightarrow> bool" where
  "is_replicating (Turn_Replicating l) = True"
| "is_replicating _ = False"

definition commands_of :: "int \<Rightarrow> (int \<times> string) list \<Rightarrow> string list" where
  "commands_of c ds = map snd (filter (\<lambda>d. fst d = c) ds)"

lemma commands_of_append [simp]:
  "commands_of c [] = []" "commands_of c (ds @ [(d, l)]) = commands_of c ds @ (if d = c then [l] else [])"
  by (simp_all add: commands_of_def)

text \<open>
  With \<open>k\<close> commands replicated, client \<open>c\<close> has read the first \<open>j\<close> lines of the file: all of its own that
  were used up, and the current one only while it replicates.
\<close>

definition turn_client_ok :: "int \<Rightarrow> (int \<Rightarrow> string list) \<Rightarrow> turn_system \<Rightarrow> int \<Rightarrow> bool" where
  "turn_client_ok n cmds s c \<longleftrightarrow>
     (let k = length (ts_done s) in
      (\<exists>j \<le> Suc k. ts_pos s c = turn_pos n j \<and> (\<forall>i < k. int i mod n = c \<longrightarrow> i < j) \<and>
        (if is_replicating (ts_phase s c) then int k mod n = c \<and> j = Suc k else int k mod n = c \<longrightarrow> j \<le> k)) \<and>
      (\<exists>skipped. cmds c = commands_of c (ts_done s) @ pending_command (ts_phase s c) @ skipped @ ts_commands s c \<and>
        (if ts_phase s c = Turn_Finished then skipped = [[]] \<or> skipped = [] \<and> ts_commands s c = []
         else skipped = []) \<and>
        [] \<notin> set (pending_command (ts_phase s c))))"

definition turn_inv :: "int \<Rightarrow> (int \<Rightarrow> string list) \<Rightarrow> turn_system \<Rightarrow> bool" where
  "turn_inv n cmds s \<longleftrightarrow>
     ts_file s = unlines (turn_lines n (Suc (length (ts_done s)))) \<and>
     map fst (ts_done s) = map (\<lambda>i. int i mod n) [0..<length (ts_done s)] \<and>
     (\<forall>c. 0 \<le> c \<and> c < n \<longrightarrow> turn_client_ok n cmds s c)"

lemma turn_inv_start: "turn_start cmds s \<Longrightarrow> turn_inv n cmds s"
  by (auto simp: turn_start_def turn_inv_def turn_client_ok_def turn_lines_def turn_pos_def dump_integer_def
      Let_def intro!: exI [of _ "0 :: nat"])

text \<open>A client's part only depends on its own fields and on what is done.\<close>

lemma turn_client_ok_cong:
  assumes "ts_done s = ts_done t" "ts_pos s c = ts_pos t c" "ts_phase s c = ts_phase t c"
    "ts_commands s c = ts_commands t c"
  shows "turn_client_ok n cmds s c \<longleftrightarrow> turn_client_ok n cmds t c"
  using assms by (simp add: turn_client_ok_def)

lemma turn_client_okE:
  assumes "turn_client_ok n cmds s c"
  obtains j skipped where "j \<le> Suc (length (ts_done s))" "ts_pos s c = turn_pos n j"
    "\<forall>i < length (ts_done s). int i mod n = c \<longrightarrow> i < j"
    "if is_replicating (ts_phase s c) then int (length (ts_done s)) mod n = c \<and> j = Suc (length (ts_done s))
     else int (length (ts_done s)) mod n = c \<longrightarrow> j \<le> length (ts_done s)"
    "cmds c = commands_of c (ts_done s) @ pending_command (ts_phase s c) @ skipped @ ts_commands s c"
    "if ts_phase s c = Turn_Finished then skipped = [[]] \<or> skipped = [] \<and> ts_commands s c = [] else skipped = []"
    "[] \<notin> set (pending_command (ts_phase s c))"
  using assms by (auto simp: turn_client_ok_def Let_def)

lemma turn_client_okI:
  assumes "j \<le> Suc (length (ts_done s))" "ts_pos s c = turn_pos n j"
    "\<forall>i < length (ts_done s). int i mod n = c \<longrightarrow> i < j"
    "if is_replicating (ts_phase s c) then int (length (ts_done s)) mod n = c \<and> j = Suc (length (ts_done s))
     else int (length (ts_done s)) mod n = c \<longrightarrow> j \<le> length (ts_done s)"
    "cmds c = commands_of c (ts_done s) @ pending_command (ts_phase s c) @ skipped @ ts_commands s c"
    "if ts_phase s c = Turn_Finished then skipped = [[]] \<or> skipped = [] \<and> ts_commands s c = [] else skipped = []"
    "[] \<notin> set (pending_command (ts_phase s c))"
  shows "turn_client_ok n cmds s c"
  unfolding turn_client_ok_def Let_def using assms by blast

lemma turn_client_reads:
  assumes ok: "turn_client_ok n cmds s c" and phase: "ts_phase s c = Reading"
    and read: "next_command (ts_commands s c) = (line, rest)"
  shows "turn_client_ok n cmds (s\<lparr>ts_phase := (ts_phase s)(c := if line = [] then Turn_Finished
       else Turn_Waiting line), ts_commands := (ts_commands s)(c := rest)\<rparr>) c"
proof -
  from ok obtain j where j: "j \<le> Suc (length (ts_done s))" "ts_pos s c = turn_pos n j"
    "\<forall>i < length (ts_done s). int i mod n = c \<longrightarrow> i < j"
    "int (length (ts_done s)) mod n = c \<longrightarrow> j \<le> length (ts_done s)"
    "cmds c = commands_of c (ts_done s) @ ts_commands s c"
    by (elim turn_client_okE) (use phase in auto)
  consider "line = []" "ts_commands s c = []" "rest = []" | "line = []" "ts_commands s c = [] # rest"
    | "line \<noteq> []" "ts_commands s c = line # rest"
    using read by (cases "ts_commands s c") auto
  then show ?thesis
  proof cases
    case 2
    with j show ?thesis by (intro turn_client_okI [of j _ _ _ _ "[[]]"]) auto
  qed (use j in \<open>intro turn_client_okI [of j _ _ _ _ "[]"]; auto\<close>)+
qed

lemma turn_client_waits:
  assumes ok: "turn_client_ok n cmds s c" and content: "ts_file s = unlines (turn_lines n (Suc (length (ts_done s))))"
    and n: "0 < n" "n < 2 ^ 31" and phase: "ts_phase s c = Turn_Waiting line"
    and poll: "turn_poll c (ts_file s) (ts_pos s c) = Inr (isUp, pos')"
  shows "turn_client_ok n cmds (s\<lparr>ts_pos := (ts_pos s)(c := pos'),
       ts_phase := (ts_phase s)(c := if isUp then Turn_Waiting line else Turn_Replicating line)\<rparr>) c"
proof -
  let ?k = "length (ts_done s)"
  from ok obtain j skipped where j: "j \<le> Suc ?k" "ts_pos s c = turn_pos n j"
    "\<forall>i < ?k. int i mod n = c \<longrightarrow> i < j" "int ?k mod n = c \<longrightarrow> j \<le> ?k"
    and cmds: "cmds c = commands_of c (ts_done s) @ [line] @ ts_commands s c" "line \<noteq> []"
    by (elim turn_client_okE) (use phase in auto)
  show ?thesis
  proof (cases "j = Suc ?k")
    case True
    with poll content j(2) have "isUp" "pos' = turn_pos n j" by (simp_all add: turn_poll_end)
    with j cmds True show ?thesis by (intro turn_client_okI [of j _ _ _ _ "[]"]) auto
  next
    case False
    with j(1) have "j < Suc ?k" by simp
    from turn_poll_line [OF this n, of c "[]"] poll content j(2)
    have res: "isUp \<longleftrightarrow> int j mod n \<noteq> c" "pos' = turn_pos n (Suc j)" by auto
    have "\<not> j < ?k" if "int j mod n = c" using j(3) that by auto
    then have last: "j = ?k" if "int j mod n = c" using \<open>j < Suc ?k\<close> that by auto
    have "\<forall>i < ?k. int i mod n = c \<longrightarrow> i < Suc j" using j(3) by auto
    moreover have "Suc j \<le> ?k" if "int ?k mod n = c" "int j mod n \<noteq> c"
      using j(4) that by (cases "j = ?k") auto
    ultimately show ?thesis
      using j(1) cmds res last \<open>j < Suc ?k\<close> by (intro turn_client_okI [of "Suc j" _ _ _ _ "[]"]) auto
  qed
qed

lemma turn_client_sets:
  assumes ok: "turn_client_ok n cmds s d" and range: "0 < n"
    and turn: "int (length (ts_done s)) mod n = c" and phase: "ts_phase s c = Turn_Replicating line"
  shows "turn_client_ok n cmds (s\<lparr>ts_file := f, ts_phase := (ts_phase s)(c := Reading),
       ts_done := ts_done s @ [(c, line)]\<rparr>) d"
proof -
  let ?k = "length (ts_done s)"
  from ok obtain j skipped where j: "j \<le> Suc ?k" "ts_pos s d = turn_pos n j"
    "\<forall>i < ?k. int i mod n = d \<longrightarrow> i < j"
    "if is_replicating (ts_phase s d) then int ?k mod n = d \<and> j = Suc ?k else int ?k mod n = d \<longrightarrow> j \<le> ?k"
    "cmds d = commands_of d (ts_done s) @ pending_command (ts_phase s d) @ skipped @ ts_commands s d"
    "if ts_phase s d = Turn_Finished then skipped = [[]] \<or> skipped = [] \<and> ts_commands s d = [] else skipped = []"
    "[] \<notin> set (pending_command (ts_phase s d))"
    by (rule turn_client_okE)
  have "i < j" if "i < Suc ?k" "int i mod n = d" for i
    using j(1,3,4) that turn phase by (cases "i = ?k") (auto split: if_splits)
  then show ?thesis
    using j turn phase by (intro turn_client_okI [of j _ _ _ _ skipped]) (auto split: if_splits)
qed

lemma turn_inv_step:
  assumes n: "0 < n" "n < 2 ^ 31" and inv: "turn_inv n cmds s" and step: "turn_step n s t"
  shows "turn_inv n cmds t"
proof -
  from inv have content: "ts_file s = unlines (turn_lines n (Suc (length (ts_done s))))"
    and order: "map fst (ts_done s) = map (\<lambda>i. int i mod n) [0..<length (ts_done s)]"
    and ok: "\<And>c. 0 \<le> c \<Longrightarrow> c < n \<Longrightarrow> turn_client_ok n cmds s c"
    by (auto simp: turn_inv_def)
  from step show ?thesis
  proof (cases rule: turn_step.cases)
    case (turn_read c line rest)
    have "turn_client_ok n cmds t c"
      unfolding turn_read(1) by (rule turn_client_reads [OF ok [OF turn_read(2,3)] turn_read(4,5)])
    moreover have "turn_client_ok n cmds t d" if "0 \<le> d" "d < n" "d \<noteq> c" for d
      using ok [OF that(1,2)] that(3) unfolding turn_read(1)
      by (subst turn_client_ok_cong [where t = s]) simp_all
    ultimately have "turn_client_ok n cmds t d" if "0 \<le> d" "d < n" for d using that by blast
    then show ?thesis
      using content order unfolding turn_inv_def by (auto simp: turn_read(1))
  next
    case (turn_wait c line isUp pos')
    have "turn_client_ok n cmds t c"
      unfolding turn_wait(1) by (rule turn_client_waits [OF ok [OF turn_wait(2,3)] content n turn_wait(4,5)])
    moreover have "turn_client_ok n cmds t d" if "0 \<le> d" "d < n" "d \<noteq> c" for d
      using ok [OF that(1,2)] that(3) unfolding turn_wait(1)
      by (subst turn_client_ok_cong [where t = s]) simp_all
    ultimately have "turn_client_ok n cmds t d" if "0 \<le> d" "d < n" for d using that by blast
    then show ?thesis
      using content order unfolding turn_inv_def by (auto simp: turn_wait(1))
  next
    case (turn_set c line f)
    from ok [OF turn_set(2,3)] have turn: "int (length (ts_done s)) mod n = c"
      by (elim turn_client_okE) (simp add: turn_set(4))
    have "turn_client_ok n cmds t d" if "0 \<le> d" "d < n" for d
      unfolding turn_set(1) by (rule turn_client_sets [OF ok [OF that] n(1) turn turn_set(4)])
    moreover have "f = unlines (turn_lines n (Suc (Suc (length (ts_done s)))))"
      using turn_set(5) setTurn_lines [OF turn n] content by simp
    ultimately show ?thesis
      using order turn unfolding turn_inv_def by (auto simp: turn_set(1))
  qed
qed

interpretation client_turns: step_invariant "turn_start cmds" "turn_step n"
  "\<lambda>s. 0 < n \<and> n < 2 ^ 31 \<longrightarrow> turn_inv n cmds s" for cmds n
  by unfold_locales (blast intro: turn_inv_start turn_inv_step)+

section \<open>Progress\<close>

text \<open>Whatever follows the turns, a waiting client reaches the first of its own or the end of them.\<close>

lemma turn_polls:
  assumes n: "0 < n" "n < 2 ^ 31" and c: "0 \<le> c" "c < n"
    and content: "ts_file s = unlines (turn_lines n (Suc k)) @ later"
    and phase: "ts_phase s c = Turn_Waiting line" and pos: "ts_pos s c = turn_pos n j" and j: "j \<le> Suc k"
  shows "\<exists>t. (turn_step n)\<^sup>*\<^sup>* s t \<and> ts_file t = ts_file s \<and> ts_done t = ts_done s \<and>
    (\<forall>d. d \<noteq> c \<longrightarrow> ts_phase t d = ts_phase s d \<and> ts_pos t d = ts_pos s d) \<and>
    (if \<exists>i. j \<le> i \<and> i \<le> k \<and> int i mod n = c then ts_phase t c = Turn_Replicating line
     else ts_phase t c = Turn_Waiting line \<and> ts_pos t c = turn_pos n (Suc k))"
  using content phase pos j
proof (induction "Suc k - j" arbitrary: s j)
  case 0
  then have "j = Suc k" by simp
  with 0 show ?case by (intro exI [of _ s]) auto
next
  case (Suc x)
  then have "j < Suc k" by simp
  define u where "u = s\<lparr>ts_pos := (ts_pos s)(c := turn_pos n (Suc j)),
    ts_phase := (ts_phase s)(c := if int j mod n \<noteq> c then Turn_Waiting line else Turn_Replicating line)\<rparr>"
  have step: "turn_step n s u"
    unfolding u_def using turn_poll_line [OF \<open>j < Suc k\<close> n, of c later] Suc.prems(1,3)
    by (intro turn_wait [OF c Suc.prems(2)]) simp
  show ?case
  proof (cases "int j mod n = c")
    case True
    with \<open>j < Suc k\<close> have "\<exists>i. j \<le> i \<and> i \<le> k \<and> int i mod n = c" by (intro exI [of _ j]) simp
    with step True show ?thesis
      by (intro exI [of _ u]) (simp add: u_def)
  next
    case False
    then have ex: "(\<exists>i. j \<le> i \<and> i \<le> k \<and> int i mod n = c) \<longleftrightarrow> (\<exists>i. Suc j \<le> i \<and> i \<le> k \<and> int i mod n = c)"
      by (metis Suc_leD Suc_leI le_neq_implies_less)
    have "x = Suc k - Suc j" using Suc.hyps(2) by simp
    from Suc.hyps(1) [OF this, of u] Suc.prems False \<open>j < Suc k\<close> obtain t where
      "(turn_step n)\<^sup>*\<^sup>* u t" "ts_file t = ts_file u" "ts_done t = ts_done u"
      "\<forall>d. d \<noteq> c \<longrightarrow> ts_phase t d = ts_phase u d \<and> ts_pos t d = ts_pos u d"
      "if \<exists>i. Suc j \<le> i \<and> i \<le> k \<and> int i mod n = c then ts_phase t c = Turn_Replicating line
       else ts_phase t c = Turn_Waiting line \<and> ts_pos t c = turn_pos n (Suc k)"
      unfolding u_def by fastforce
    with step ex show ?thesis
      by (intro exI [of _ t]) (auto simp: u_def intro: converse_rtranclp_into_rtranclp)
  qed
qed

lemma turn_set_done:
  assumes n: "0 < n" "n < 2 ^ 31" and inv: "turn_inv n cmds s" and c: "0 \<le> c" "c < n"
    and phase: "ts_phase s c = Turn_Replicating line"
  shows "int (length (ts_done s)) mod n = c \<and> (\<exists>t. turn_step n s t \<and> ts_done t = ts_done s @ [(c, line)]) \<and>
    line \<noteq> [] \<and> (\<exists>rest. cmds c = commands_of c (ts_done s) @ line # rest)"
proof -
  from inv have content: "ts_file s = unlines (turn_lines n (Suc (length (ts_done s))))"
    and ok: "turn_client_ok n cmds s c" using c by (auto simp: turn_inv_def)
  from ok have turn: "int (length (ts_done s)) mod n = c" and "line \<noteq> []"
    and "\<exists>rest. cmds c = commands_of c (ts_done s) @ line # rest"
    by (elim turn_client_okE; auto simp: phase)+
  moreover have "setTurn c n (ts_file s) = Inr (unlines (turn_lines n (Suc (Suc (length (ts_done s))))))"
    using content setTurn_lines [OF turn n] by simp
  note step = turn_set [OF c phase this]
  have "\<exists>t. turn_step n s t \<and> ts_done t = ts_done s @ [(c, line)]"
    by (intro exI conjI, rule step) simp
  ultimately show ?thesis by blast
qed

lemma turn_taken:
  assumes n: "0 < n" "n < 2 ^ 31" and inv: "turn_inv n cmds s"
    and c: "c = int (length (ts_done s)) mod n"
    and left: "drop (length (commands_of c (ts_done s))) (cmds c) = line # rest" "line \<noteq> []"
  shows "\<exists>t. (turn_step n)\<^sup>*\<^sup>* s t \<and> ts_done t = ts_done s @ [(c, line)]"
proof -
  let ?k = "length (ts_done s)"
  have range: "0 \<le> c" "c < n" using n(1) c by simp_all
  have finish: "\<exists>t. (turn_step n)\<^sup>*\<^sup>* s t \<and> ts_done t = ts_done s @ [(c, line)]"
    if u: "(turn_step n)\<^sup>*\<^sup>* s u" "ts_done u = ts_done s" "ts_phase u c = Turn_Replicating line" for u
  proof -
    have "turn_inv n cmds u" using client_turns.steps_hold [OF u(1)] inv n by blast
    from turn_set_done [OF n this range u(3)] u(1,2) show ?thesis
      by (metis rtranclp.rtrancl_into_rtrancl)
  qed
  have wait: "\<exists>t. (turn_step n)\<^sup>*\<^sup>* s t \<and> ts_done t = ts_done s @ [(c, line)]"
    if u: "(turn_step n)\<^sup>*\<^sup>* s u" "ts_done u = ts_done s" "ts_phase u c = Turn_Waiting line" for u
  proof -
    have inv_u: "turn_inv n cmds u" using client_turns.steps_hold [OF u(1)] inv n by blast
    then have content: "ts_file u = unlines (turn_lines n (Suc ?k)) @ []"
      and ok: "turn_client_ok n cmds u c" using range u(2) by (auto simp: turn_inv_def)
    from ok obtain j where j: "ts_pos u c = turn_pos n j" "j \<le> ?k"
      by (elim turn_client_okE) (use u(2,3) c in auto)
    then have "\<exists>i. j \<le> i \<and> i \<le> ?k \<and> int i mod n = c" using c by (intro exI [of _ ?k]) simp
    with turn_polls [OF n range content u(3) j(1)] j(2) u(2) obtain t where
      "(turn_step n)\<^sup>*\<^sup>* u t" "ts_done t = ts_done s" "ts_phase t c = Turn_Replicating line" by auto
    with finish [of t] u(1) show ?thesis by (metis rtranclp_trans)
  qed
  from inv have ok: "turn_client_ok n cmds s c" using range by (auto simp: turn_inv_def)
  show ?thesis
  proof (cases "ts_phase s c")
    case Reading
    with ok left(1) have "next_command (ts_commands s c) = (line, rest)"
      by (elim turn_client_okE) auto
    note step = turn_read [OF range Reading this]
    show ?thesis
      by (rule wait [OF r_into_rtranclp, OF step]) (use left(2) in simp_all)
  next
    case (Turn_Waiting l)
    with ok left(1) have "l = line" by (elim turn_client_okE) auto
    with Turn_Waiting show ?thesis by (intro wait [of s]) auto
  next
    case (Turn_Replicating l)
    with ok left(1) have "l = line" by (elim turn_client_okE) auto
    with Turn_Replicating show ?thesis by (intro finish [of s]) auto
  next
    case Turn_Finished
    with ok left show ?thesis by (elim turn_client_okE) auto
  qed
qed

lemma turn_not_taken:
  assumes n: "0 < n" "n < 2 ^ 31" and inv: "turn_inv n cmds s"
    and c: "c = int (length (ts_done s)) mod n"
    and left: "drop (length (commands_of c (ts_done s))) (cmds c) = [] \<or>
      hd (drop (length (commands_of c (ts_done s))) (cmds c)) = []"
    and steps: "(turn_step n)\<^sup>*\<^sup>* s t"
  shows "ts_done t = ts_done s"
  using steps
proof (induction rule: rtranclp_induct)
  case (step t u)
  have inv_t: "turn_inv n cmds t" using client_turns.steps_hold [OF step(1)] inv n by blast
  from step(2) show ?case
  proof (cases rule: turn_step.cases)
    case (turn_set d line f)
    from turn_set_done [OF n inv_t turn_set(2-4)] step(3) c left show ?thesis by auto
  qed (use step(3) in simp_all)
qed simp

section \<open>Properties\<close>

definition turns_exclusive :: "int \<Rightarrow> turn_system \<Rightarrow> bool" where
  "turns_exclusive n s \<longleftrightarrow>
     (\<forall>c d. 0 \<le> c \<and> c < n \<and> 0 \<le> d \<and> d < n \<and> is_replicating (ts_phase s c) \<and> is_replicating (ts_phase s d) \<longrightarrow>
        c = d)"

definition idle_clients :: "(int \<Rightarrow> string list) \<Rightarrow> turn_system" where
  "idle_clients cmds = \<lparr>ts_file = ''0'' @ newline, ts_pos = (\<lambda>_. 0), ts_phase = (\<lambda>_. Reading),
     ts_commands = cmds, ts_done = []\<rparr>"

lemma idle_clients_reachable: "reachable (turn_start cmds) (turn_step n) (idle_clients cmds)"
  by (intro reachable_start) (simp add: turn_start_def idle_clients_def)

lemma turn_steps_reachable:
  "(turn_step n)\<^sup>*\<^sup>* s t \<Longrightarrow> reachable (turn_start cmds) (turn_step n) s \<Longrightarrow> reachable (turn_start cmds) (turn_step n) t"
  by (induction rule: rtranclp_induct) (auto intro: reachable_step)





lemma turn_poll_shutdown:
  "turn_poll c (unlines (turn_lines n k) @ ''shutdown'' @ newline) (turn_pos n k) =
    Inr (False, turn_pos n k + 9)"
  using getTrailingLine_next [of "''shutdown''" "turn_lines n k" "[]"]
  by (simp add: turn_poll_def turn_pos_def)

lemma shutdown_lets_go:
  assumes n: "0 < n" "n < 2 ^ 31" and inv: "turn_inv n cmds s"
    and u: "ts_file u = ts_file (turn_shutdown s)" "0 \<le> e" "e < n" "ts_phase u e = Turn_Waiting z"
      "ts_pos u e = ts_pos s e"
  shows "\<exists>t. (turn_step n)\<^sup>*\<^sup>* u t \<and> ts_file t = ts_file u \<and> ts_phase t e = Turn_Replicating z \<and>
      (\<forall>e'. e' \<noteq> e \<longrightarrow> ts_phase t e' = ts_phase u e' \<and> ts_pos t e' = ts_pos u e')"
proof -
  let ?k = "length (ts_done s)"
  have content: "ts_file u = unlines (turn_lines n (Suc ?k)) @ ''shutdown'' @ newline"
    using inv u(1) by (simp add: turn_inv_def turn_shutdown_def)
  obtain j where j: "ts_pos u e = turn_pos n j" "j \<le> Suc ?k"
    using inv u(2,3,5) by (auto simp: turn_inv_def elim!: turn_client_okE)
  from turn_polls [OF n u(2,3) content u(4) j] obtain t where
    t: "(turn_step n)\<^sup>*\<^sup>* u t" "ts_file t = ts_file u"
    "\<forall>d. d \<noteq> e \<longrightarrow> ts_phase t d = ts_phase u d \<and> ts_pos t d = ts_pos u d"
    and "ts_phase t e = Turn_Replicating z \<or> ts_phase t e = Turn_Waiting z \<and> ts_pos t e = turn_pos n (Suc ?k)"
    by (auto split: if_splits)
  from this(4) show ?thesis
  proof
    assume wait: "ts_phase t e = Turn_Waiting z \<and> ts_pos t e = turn_pos n (Suc ?k)"
    then have "turn_poll e (ts_file t) (ts_pos t e) = Inr (False, turn_pos n (Suc ?k) + 9)"
      using turn_poll_shutdown [of e n "Suc ?k"] content t(2) by simp
    note step = turn_wait [OF u(2,3) conjunct1 [OF wait] this]
    show ?thesis
      by (intro exI conjI, rule rtranclp.rtrancl_into_rtrancl [OF t(1) step]) (use t in simp_all)
  qed (use t in blast)
qed

text \<open>
  C24. A \<open>shutdown\<close> line does not stop a client that waits, it lets it go: every waiting client leaves
  \<open>waitForTurn\<close> and replicates its command without having the turn, so two of them can be in \<open>replicate\<close>
  at once, which the turn file is there to prevent.
\<close>

theorem shutdown_ends_turns:
  assumes "0 < n" "n < 2 ^ 31" and "reachable (turn_start cmds) (turn_step n) s"
    and "0 \<le> c" "c < n" "0 \<le> d" "d < n" "c \<noteq> d"
    and "ts_phase s c = Turn_Waiting x" "ts_phase s d = Turn_Waiting y"
  shows "\<exists>t. (turn_step n)\<^sup>*\<^sup>* (turn_shutdown s) t \<and> \<not> turns_exclusive n t"
proof -
  have inv: "turn_inv n cmds s" using client_turns.reachable_holds [OF assms(3)] assms(1,2) by blast
  note one = shutdown_lets_go [OF assms(1,2) inv]
  from one [of "turn_shutdown s" c x] assms(4,5,9) obtain t where
    t: "(turn_step n)\<^sup>*\<^sup>* (turn_shutdown s) t" "ts_file t = ts_file (turn_shutdown s)"
    "ts_phase t c = Turn_Replicating x"
    "\<forall>e. e \<noteq> c \<longrightarrow> ts_phase t e = ts_phase (turn_shutdown s) e \<and> ts_pos t e = ts_pos (turn_shutdown s) e"
    by (auto simp: turn_shutdown_def)
  from one [OF t(2) assms(6,7), of y] t(4) assms(8,10) obtain u where
    u: "(turn_step n)\<^sup>*\<^sup>* t u" "ts_phase u d = Turn_Replicating y" "ts_phase u c = Turn_Replicating x"
    using t(3) by (auto simp: turn_shutdown_def)
  then have "\<not> turns_exclusive n u"
    using assms(4-8) unfolding turns_exclusive_def by (metis is_replicating.simps(1))
  with t(1) u(1) show ?thesis by (meson rtranclp_trans)
qed

theorem shutdown_ends_turns_witness:
  "\<exists>s. reachable (turn_start (\<lambda>_. [''x=1''])) (turn_step 2) s \<and> ts_done s = [] \<and>
     (\<exists>t. (turn_step 2)\<^sup>*\<^sup>* (turn_shutdown s) t \<and> \<not> turns_exclusive 2 t)"
proof -
  let ?cmds = "\<lambda>_ :: int. [''x=1'']"
  let ?s0 = "idle_clients ?cmds"
  have "turn_step 2 ?s0 (?s0\<lparr>ts_phase := (ts_phase ?s0)(0 := if ''x=1'' = [] then Turn_Finished else Turn_Waiting ''x=1''),
      ts_commands := (ts_commands ?s0)(0 := [])\<rparr>)" (is "turn_step 2 _ ?s1")
    by (rule turn_read) (simp_all add: idle_clients_def)
  moreover have "turn_step 2 ?s1 (?s1\<lparr>ts_phase := (ts_phase ?s1)(1 := if ''x=1'' = [] then Turn_Finished
      else Turn_Waiting ''x=1''), ts_commands := (ts_commands ?s1)(1 := [])\<rparr>)" (is "turn_step 2 _ ?s2")
    by (rule turn_read) (simp_all add: idle_clients_def)
  ultimately have reach: "reachable (turn_start ?cmds) (turn_step 2) ?s2"
    by (blast intro: reachable_step idle_clients_reachable)
  have "ts_phase ?s2 0 = Turn_Waiting ''x=1''" "ts_phase ?s2 1 = Turn_Waiting ''x=1''" by simp_all
  with shutdown_ends_turns [OF _ _ reach, of 0 1 "''x=1''" "''x=1''"]
  have "\<exists>t. (turn_step 2)\<^sup>*\<^sup>* (turn_shutdown ?s2) t \<and> \<not> turns_exclusive 2 t" by simp
  moreover have "ts_done ?s2 = []" by (simp add: idle_clients_def)
  ultimately show ?thesis using reach by blast
qed

section \<open>The command file\<close>

lemma read_commands_stuck:
  "line \<noteq> [] \<Longrightarrow> read_commands k content (pos, False) line = (replicate k line, True)"
  by (induction k) (simp_all add: stream_getline_def)

lemma read_commands_lines:
  assumes "\<forall>l \<in> set ls'. l \<noteq> [] \<and> CHR 0x0A \<notin> set l" and "CHR 0x0A \<notin> set l"
  shows "read_commands (length ls' + Suc k) (unlines (ls @ ls') @ l) (length (unlines ls), True) line =
    (if l = [] then (ls', False) else (ls' @ replicate (Suc k) l, True))"
  using assms(1)
proof (induction ls' arbitrary: ls line)
  case Nil
  have line: "takeWhile (\<lambda>c. c \<noteq> CHR 0x0A) l = l" using assms(2) by (simp add: takeWhile_eq_all_conv) blast
  have "getTrailingLine (unlines ls @ l) (length (unlines ls)) = (l, length (unlines ls) + length l)"
    by (simp add: getTrailingLine_def line)
  then show ?case by (simp add: stream_getline_def read_commands_stuck)
next
  case (Cons a ls')
  have "getTrailingLine (unlines (ls @ a # ls') @ l) (length (unlines ls)) = (a, length (unlines (ls @ [a])))"
    using getTrailingLine_next [of a ls "unlines ls' @ l"] Cons.prems by simp
  moreover have "length (unlines ls) + length a < length (unlines (ls @ a # ls') @ l)" by simp
  ultimately show ?case
    using Cons.IH [of "ls @ [a]" a] Cons.prems by (simp add: stream_getline_def)
qed

text \<open>
  \<open>replicateCommands\<close> reads the lines of its command file in order and stops after the last one, if
  the file ends with a newline. If it does not, the loop never ends: \<open>getline\<close> leaves the string as it is
  on a stream that has reached its end, so the last command is replicated again and again.
\<close>

lemma command_file_replicated:
  assumes "\<forall>l \<in> set ls. l \<noteq> [] \<and> CHR 0x0A \<notin> set l" and "CHR 0x0A \<notin> set l"
  shows "read_commands (length ls + Suc k) (unlines ls @ l) (0, True) [] =
    (if l = [] then (ls, False) else (ls @ replicate (Suc k) l, True))"
  using read_commands_lines [OF assms, of k "[]" "[]"] by simp

end
