(* ===== verification/Main_Programs.thy ===== *)
theory Main_Programs
  imports Client_Turns Client_Requests
begin

text \<open>
  The three programs: \<open>server-main.cc\<close>, \<open>client-main.cc\<close> with the loop \<open>Client::replicateCommands\<close>, and
  \<open>shutdown-client-main.cc\<close>. What a program waits for is an argument, in the order it asks for it.
\<close>

section \<open>The server\<close>

text \<open>\<open>Node::init\<close>; \<open>Node::destroy\<close> only leaves MPI. The result is the table of receivers and the exit status.\<close>

definition node_init :: "receiver_manager res" where
  "node_init = res_bind node_start node_wait"

definition server_main :: "(receiver_manager \<times> int) res" where
  "server_main = res_bind node_init (\<lambda>rm. Inr (rm, 0))"

section \<open>The client\<close>

text \<open>
  What one round of \<open>replicateCommands\<close> meets: the turn file at each poll, the attempts of \<open>replicate\<close>, the turn
  file when it is appended to, and the state of the REPL manager when \<open>sleep\<close> looks at it for the last time.
\<close>

record command_env =
  co_polls :: "string list"
  co_attempts :: "attempt list"
  co_turn_file :: string
  co_repl :: repl_state

text \<open>A command that has been replicated: the connections made for it and the turn file it leaves.\<close>

type_synonym command_done = "string \<times> connection_log list \<times> string"

text \<open>
  The loop with the stream and the string of the last \<open>getline\<close>, and the position in the turn file; the flag
  says whether it has ended.
\<close>

fun replicateCommands ::
  "client_state \<Rightarrow> messenger \<Rightarrow> comm \<Rightarrow> string \<Rightarrow> command_env list \<Rightarrow> nat \<times> bool \<Rightarrow> string \<Rightarrow> nat \<Rightarrow>
   (command_done list \<times> bool) res" where
  "replicateCommands c m conn content [] st line pos = Inr ([], fst (stream_getline content st line) = [])"
| "replicateCommands c m conn content (e # es) st line pos =
     (case stream_getline content st line of (line', st') \<Rightarrow>
        if line' = [] then Inr ([], True)
        else
          res_bind (waitForTurn (cl_clientId c) (co_polls e) pos) (\<lambda>(isUp, pos').
          if isUp then Inr ([], False)
          else
            res_bind (client_replicate m conn line' (co_attempts e)) (\<lambda>(cs, replicated).
            if \<not> replicated then Inr ([], False)
            else
              res_bind (setTurn (cl_clientId c) (cl_clientCount c) (co_turn_file e)) (\<lambda>turn_file.
              if repl_sleep (co_repl e) = None then Inr ([(line', cs, turn_file)], False)
              else
                res_bind (replicateCommands c m conn content es st' line' pos') (\<lambda>(ds, done).
                  Inr ((line', cs, turn_file) # ds, done))))))"

text \<open>\<open>getReceiver\<close> has to give the REPL manager, whose \<open>sleep\<close> the loop calls.\<close>

definition client_commands ::
  "client_state \<Rightarrow> messenger \<Rightarrow> comm \<Rightarrow> string \<Rightarrow> command_env list \<Rightarrow> (command_done list \<times> bool) res" where
  "client_commands c m conn content es =
     res_bind (rm_getReceiver REPL (cl_receivers c)) (\<lambda>r.
       if r = None then Inl Undefined_Behaviour
       else replicateCommands c m conn content es (0, True) [] 0)"

text \<open>
  \<open>client-main.cc\<close>: \<open>start\<close> is the REPL manager's state when \<open>init\<close> has slept, \<open>ended\<close> says whether the REPL
  receiver has ended, which \<open>destroy\<close> waits for. The exit status is \<open>None\<close> while the program runs.
\<close>

definition client_main ::
  "messenger \<Rightarrow> comm \<Rightarrow> string list \<Rightarrow> string \<Rightarrow> repl_state \<Rightarrow> command_env list \<Rightarrow> bool \<Rightarrow>
   (command_done list \<times> int option) res" where
  "client_main m conn argv content start es ended =
     res_bind (client_init argv) (\<lambda>(c, replFilePath).
       if repl_sleep start = None then Inr ([], None)
       else
         res_bind (client_commands c m conn content es) (\<lambda>(ds, done).
           if \<not> done \<or> \<not> ended then Inr (ds, None)
           else res_bind (client_destroy c) (\<lambda>c'. Inr (ds, Some 0))))"

section \<open>The shutdown client\<close>

definition shutdown_client_main :: "string option \<Rightarrow> int \<Rightarrow> int \<Rightarrow> connection_log \<times> int" where
  "shutdown_client_main portFile w1 w2 = (shutdownServer portFile w1 w2, 0)"

section \<open>Properties\<close>


text \<open>What the loop has done when it ends.\<close>

lemma replicateCommands_done:
  assumes "replicateCommands c m conn content es st line pos = Inr (ds, True)"
  shows "length ds \<le> length es \<and> read_commands (Suc (length ds)) content st line = (map fst ds, False) \<and>
    (\<forall>i < length ds. client_replicate m conn (fst (ds ! i)) (co_attempts (es ! i)) = Inr (fst (snd (ds ! i)), True) \<and>
       setTurn (cl_clientId c) (cl_clientCount c) (co_turn_file (es ! i)) = Inr (snd (snd (ds ! i))))"
  using assms
proof (induction es arbitrary: st line pos ds)
  case Nil
  then show ?case by (auto split: prod.splits)
next
  case (Cons e es)
  obtain line' st' where line': "stream_getline content st line = (line', st')"
    by (cases "stream_getline content st line")
  show ?case
  proof (cases "line' = []")
    case True
    with Cons.prems line' show ?thesis by auto
  next
    case False
    with Cons.prems line' obtain pos' cs turn_file ds' where run:
      "client_replicate m conn line' (co_attempts e) = Inr (cs, True)"
      "setTurn (cl_clientId c) (cl_clientCount c) (co_turn_file e) = Inr turn_file"
      "replicateCommands c m conn content es st' line' pos' = Inr (ds', True)"
      "ds = (line', cs, turn_file) # ds'"
      by (auto split: if_splits prod.splits)
    from Cons.IH [OF run(3)] run(1,2,4) False line' show ?thesis
      by (auto simp: nth_Cons split: nat.splits prod.splits)
  qed
qed

lemma read_commands_more:
  "read_commands k content st line = (cs, False) \<Longrightarrow> read_commands (k + j) content st line = (cs, False)"
  by (induction k arbitrary: st line cs) (auto split: prod.splits if_splits)

lemma read_commands_end:
  assumes "\<forall>l \<in> set ls. l \<noteq> [] \<and> CHR 0x0A \<notin> set l" and "CHR 0x0A \<notin> set l"
    and "read_commands k (unlines ls @ l) (0, True) [] = (cs, False)"
  shows "l = [] \<and> cs = ls"
proof -
  have "read_commands (length ls + Suc k) (unlines ls @ l) (0, True) [] = (cs, False)"
    using read_commands_more [OF assms(3), of "length ls + 1"] by (simp add: ac_simps)
  with read_commands_lines [OF assms(1,2), of k "[]" "[]"] show ?thesis by (simp split: if_splits)
qed

lemma client_main_done:
  assumes "client_main m conn argv content start es ended = Inr (ds, Some status)"
  obtains c replFilePath where "client_init argv = Inr (c, replFilePath)" "status = 0" "ended"
    "replicateCommands c m conn content es (0, True) [] 0 = Inr (ds, True)"
  using assms by (auto simp: client_main_def client_commands_def split: if_splits)



text \<open>
  The shutdown client ends the session it is connected to with a shutdown: its first message has code 0, and
  what follows it is not read.
\<close>

lemma shutdown_client_ends_session:
  assumes "clean_connection body inbox"
    and "map body inbox = snd (fst (shutdown_client_main portFile w1 w2))"
  shows "client_session handle m received (Inter_Comm k) inbox s = Inr (Session_Shutdown, s, [])"
proof -
  have "map body inbox = [setMessage w1 (Client_Code Client_SHUTDOWN), setMessage w2 (Client_Code DISCONNECT)]"
    using assms(2) by (simp add: shutdown_client_main_def shutdownServer_def client_disconnect_def connection_send_def
        connectMessenger_def)
  then obtain p q where inbox: "inbox = [p, q]" "body p = setMessage w1 (Client_Code Client_SHUTDOWN)"
    by (auto simp: map_eq_Cons_conv)
  have ends: "session_ends (body p)" "m_code (body p) = 0"
    by (simp_all add: inbox(2) session_ends_def code_int.simps client_codes_def)
  show ?thesis
    using client_session_clean [OF assms(1), of handle m received k s] ends
    by (simp add: inbox(1) inbox_messages_def session_result_Cons)
qed

end
