(* ===== verification/Cluster_System.thy ===== *)
theory Cluster_System
  imports Consensus_System Failure_System
begin

text \<open>
  Replication and failure detection together, for a cluster whose leader \<open>L\<close> clients use. A node's log and
  its messenger's flags are shared by the two managers: rounds are run while nodes are marked failed, and a
  node that is let back in has the log the leader sent it. Each manager has its own tag, so the messages
  of the two managers between two nodes are two channels, and nothing orders one against the other.
\<close>

declare code_int.simps [simp del]

section \<open>The system\<close>

text \<open>
  The files of a node are those of its failure manager. \<open>cl_net\<close> are the channels of the consensus
  managers, \<open>cl_thread\<close> is what the leader's client thread does next (\<open>Consensus_System\<close>).
\<close>

record cluster =
  cl_failure :: failure_system
  cl_context :: "int \<Rightarrow> consensus_context"
  cl_maxRoundId :: "int \<Rightarrow> int"
  cl_net :: "int \<Rightarrow> int \<Rightarrow> message list"
  cl_thread :: proposer

abbreviation cl_node :: "cluster \<Rightarrow> int \<Rightarrow> failure_state" where
  "cl_node s p \<equiv> fs_nodes (cl_failure s) p"

abbreviation cl_messenger :: "cluster \<Rightarrow> int \<Rightarrow> messenger" where
  "cl_messenger s p \<equiv> f_messenger (cl_node s p)"

abbreviation cl_log :: "(int \<Rightarrow> log_file_manager) \<Rightarrow> cluster \<Rightarrow> int \<Rightarrow> string" where
  "cl_log l s p \<equiv> fs_log l (cl_failure s) p"

text \<open>The consensus manager of a node, and the node after it.\<close>

definition consensus_view :: "cluster \<Rightarrow> int \<Rightarrow> consensus_state" where
  "consensus_view s p =
     \<lparr>cs_context = cl_context s p, cs_maxRoundId = cl_maxRoundId s p, cs_files = f_files (cl_node s p)\<rparr>"

definition set_consensus :: "int \<Rightarrow> consensus_state \<Rightarrow> cluster \<Rightarrow> cluster" where
  "set_consensus p st s =
     s\<lparr>cl_failure := set_node p ((cl_node s p)\<lparr>f_files := cs_files st\<rparr>) (cl_failure s),
       cl_context := (cl_context s)(p := cs_context st),
       cl_maxRoundId := (cl_maxRoundId s)(p := cs_maxRoundId st)\<rparr>"

definition set_round :: "int \<Rightarrow> consensus_context \<Rightarrow> cluster \<Rightarrow> cluster" where
  "set_round p ctx s = s\<lparr>cl_context := (cl_context s)(p := ctx)\<rparr>"

text \<open>A message is dropped by its sender and by its receiver, each by its own flags.\<close>

definition dropped :: "messenger \<Rightarrow> int \<Rightarrow> bool" where
  "dropped m q \<longleftrightarrow>
     messageShouldDrop (m_processIsAlive m) (m_rank m) q Comm_World (Some CONSENSUS) \<noteq> Inr False"

definition cluster_send :: "int \<Rightarrow> sends \<Rightarrow> cluster \<Rightarrow> cluster" where
  "cluster_send p out s =
     s\<lparr>cl_net := enqueue p (filter (\<lambda>(q, msg). \<not> dropped (cl_messenger s p) q) out) (cl_net s)\<rparr>"

definition take_message :: "int \<Rightarrow> int \<Rightarrow> cluster \<Rightarrow> cluster" where
  "take_message p q s = s\<lparr>cl_net := (cl_net s)(p := (cl_net s p)(q := tl (cl_net s p q)))\<rparr>"

text \<open>
  The steps of the failure detectors are those of \<open>Failure_System\<close>, except that entries are logged by the
  rounds only, and that the client thread keeps the mutex as long as it is in a round.
\<close>

inductive cluster_step ::
  "int \<Rightarrow> (int \<Rightarrow> log_file_manager) \<Rightarrow> cluster \<Rightarrow> cluster \<Rightarrow> bool"
  for L :: int and l :: "int \<Rightarrow> log_file_manager"
where
  cl_other: "quiet_step L l (cl_failure s) f \<Longrightarrow>
     cl_thread s \<noteq> Idle \<longrightarrow> f_clientConn (fs_nodes f L) = Held_By_Client \<Longrightarrow>
     cluster_step L l s (s\<lparr>cl_failure := f\<rparr>)"
| cl_deliver: "cl_net s p q = msg # rest \<Longrightarrow> \<not> dropped (cl_messenger s q) p \<Longrightarrow>
     consensus_handleMessage (cl_messenger s q) (l q) wtime p msg (consensus_view s q) = Inr (st, out) \<Longrightarrow>
     cluster_step L l s (cluster_send q out (set_consensus q st (take_message p q s)))"
| cl_drop: "cl_net s p q = msg # rest \<Longrightarrow> dropped (cl_messenger s q) p \<Longrightarrow>
     cluster_step L l s (take_message p q s)"
| cl_prepare: "cl_thread s = Idle \<Longrightarrow> f_clientConn (cl_node s L) = Held_By_Client \<Longrightarrow>
     is_int32 (generateUniqueId wtime) \<Longrightarrow>
     broadcastPrepare (cl_messenger s L) wtime (cl_context s L) = (ctx, out) \<Longrightarrow>
     cluster_step L l s ((cluster_send L out (set_round L ctx s))\<lparr>cl_thread := Await_Promises v\<rparr>)"
| cl_promised: "cl_thread s = Await_Promises v \<Longrightarrow>
     cluster_step L l s (s\<lparr>cl_thread :=
       (if receivePromises (cl_messenger s L) (cl_context s L) then Propose v else Reset)\<rparr>)"
| cl_propose: "cl_thread s = Propose v \<Longrightarrow>
     broadcastPropose (cl_messenger s L) wtime v (cl_context s L) = Inr out \<Longrightarrow>
     cluster_step L l s ((cluster_send L out s)\<lparr>cl_thread := Await_Accepts v\<rparr>)"
| cl_accepted: "cl_thread s = Await_Accepts v \<Longrightarrow>
     cluster_step L l s (s\<lparr>cl_thread :=
       (if receiveAccepts (cl_messenger s L) (cl_context s L) then Append v else Reset)\<rparr>)"
| cl_append: "cl_thread s = Append v \<Longrightarrow>
     cluster_step L l s ((set_consensus L ((consensus_view s L)
       \<lparr>cs_files := log_append (l L) v (f_files (cl_node s L))\<rparr>) s)\<lparr>cl_thread := Announce v\<rparr>)"
| cl_announce: "cl_thread s = Announce v \<Longrightarrow>
     broadcastAccepted (cl_messenger s L) wtime v (cl_context s L) = Inr out \<Longrightarrow>
     cluster_step L l s ((cluster_send L out s)\<lparr>cl_thread := Reset\<rparr>)"
| cl_reset: "cl_thread s = Reset \<Longrightarrow>
     cluster_step L l s ((set_round L consensus_context_init s)\<lparr>cl_thread := Idle\<rparr>)"

inductive_cases cluster_stepE: "cluster_step L l s t"

definition node_ok :: "int \<Rightarrow> int \<Rightarrow> failure_state \<Rightarrow> bool" where
  "node_ok n p st \<longleftrightarrow> failure_inv st \<and> f_rank st = p \<and> f_size st = n"

definition cluster_start :: "int \<Rightarrow> int \<Rightarrow> (int \<Rightarrow> log_file_manager) \<Rightarrow> cluster \<Rightarrow> bool" where
  "cluster_start n L l s \<longleftrightarrow>
     0 \<le> L \<and> L < n \<and> failure_system_start L (cl_failure s) \<and> cl_net s = (\<lambda>_ _. []) \<and>
     cl_thread s = Idle \<and> c_roundId (cl_context s L) = -1 \<and>
     (\<forall>p. 0 \<le> p \<and> p < n \<longrightarrow> node_ok n p (cl_node s p) \<and> cl_log l s p = cl_log l s L)"

text \<open>
  What the time-outs are meant to ensure: no other node takes the leader for failed; while a STATE is on its
  way its sender still sleeps, and the entries that were sent to the node before have arrived.
\<close>

definition timely :: "int \<Rightarrow> int \<Rightarrow> cluster \<Rightarrow> bool" where
  "timely n L s \<longleftrightarrow>
     (\<forall>q. 0 \<le> q \<and> q < n \<and> q \<noteq> L \<longrightarrow> node_alive (cl_messenger s q) L) \<and>
     (\<forall>q. no_state (fs_net (cl_failure s) L q) \<or>
        fs_asleep (cl_failure s) \<noteq> None \<and> log_lines (cl_net s L q) = [])"

abbreviation timely_start :: "int \<Rightarrow> int \<Rightarrow> (int \<Rightarrow> log_file_manager) \<Rightarrow> cluster \<Rightarrow> bool" where
  "timely_start n L l s \<equiv> cluster_start n L l s \<and> timely n L s"

abbreviation timely_step ::
  "int \<Rightarrow> int \<Rightarrow> (int \<Rightarrow> log_file_manager) \<Rightarrow> cluster \<Rightarrow> cluster \<Rightarrow> bool" where
  "timely_step n L l s t \<equiv> cluster_step L l s t \<and> timely n L t"

section \<open>What the steps of the failure detectors change\<close>

lemma node_ok_step:
  assumes "failure_step L l s t" and "\<And>p. 0 \<le> p \<Longrightarrow> p < n \<Longrightarrow> node_ok n p (fs_nodes s p)"
    and "0 \<le> p" "p < n"
  shows "node_ok n p (fs_nodes t p)"
proof -
  note old = assms(2) [OF assms(3,4)]
  from assms(1) show ?thesis
  proof (cases rule: failure_step.cases)
    case (fs_handle p' q m ms ld st' out)
    then show ?thesis
      using old failure_handleMessage_inv [of "fs_nodes s q"] by (auto simp: set_node_def node_ok_def)
  next
    case (fs_failure i ld q st' e)
    then show ?thesis
      using old handleNodeFailure_inv [of "fs_nodes s q"] by (auto simp: set_node_def node_ok_def)
  qed (use old in \<open>auto simp: set_node_def node_ok_def recovery_begin_def recovery_send_def recovery_end_def
      allowRecovery_def disallowRecovery_def failure_inv_def Let_def split: if_splits\<close>)
qed

lemma stale_id_step:
  assumes "failure_step L l s t" and "control_inv L s" and "good_id r" "stale_id L s r"
  shows "stale_id L t r"
  using assms(1)
proof (cases rule: failure_step.cases)
  case (fs_tick now)
  then have "fs_now s div ns_per_second \<le> now div ns_per_second"
    by (simp add: zdiv_mono1 ns_per_second_def)
  with fs_tick assms(4) show ?thesis by (simp add: stale_id_def)
next
  case (fs_handle p q m ms ld st' out)
  from failure_handleMessage_control [OF fs_handle(3)] fs_handle assms(4) show ?thesis
    by (auto simp: stale_id_def set_node_def)
qed (use assms(3,4) in \<open>auto simp: stale_id_def good_id_def set_node_def recovery_begin_def recovery_send_def
    recovery_end_def handleNodeFailure_def allowRecovery_def disallowRecovery_def generateUniqueId_def Let_def
    split: if_splits\<close>)

text \<open>The log of a node other than the leader changes by a STATE message only.\<close>

lemma carries_string_unique:
  assumes "carries m [(k, JString c)]" and "carries m [(k, JString c')]"
  shows "c = c'"
proof -
  obtain d where "message_getData m = Inr d" "json_parse d = Inr (json_object [(k, JString c)])"
    using carries_parse [OF assms(1)] by auto
  moreover obtain d' where "message_getData m = Inr d'" "json_parse d' = Inr (json_object [(k, JString c')])"
    using carries_parse [OF assms(2)] by auto
  ultimately have "json_object [(k, JString c)] = json_object [(k, JString c')]" by simp
  from arg_cong [OF this, of "json_at k"] show ?thesis by simp
qed

lemma other_log_step:
  assumes step: "failure_step L l s t" and minv: "message_inv L l s" and "q \<noteq> L"
  shows "fs_log l t q = fs_log l s q \<or>
    (\<exists>m ms. fs_net s L q = m # ms \<and> fcode m = Some STATE \<and>
      carries m [(''state'', JString (fs_log l t q))])"
  using step
proof (cases rule: failure_step.cases)
  case (fs_handle p q' m ms ld st' out)
  show ?thesis
  proof (cases "q' = q \<and> fcode m = Some STATE")
    case True
    have "p = L" using message_inv_legal [OF minv, of m p q'] fs_handle(2) True by (simp add: legal_message_def)
    have "states_ok (stale_id L s) (open_id s) (fs_log l s L) (fs_net s L q)"
      using minv by (simp add: message_inv_def)
    then obtain c where c: "carries m [(''state'', JString c)]"
      using fs_handle(2) True \<open>p = L\<close> by auto
    from handleState_reply [OF _ c fs_handle(3)] True have "fs_log l t q = c"
      using fs_handle(1) by (simp add: fs_log_def set_node_def)
    with True fs_handle(2) \<open>p = L\<close> c show ?thesis by blast
  next
    case False
    with failure_handleMessage_control [OF fs_handle(3)] fs_handle(1) show ?thesis
      by (auto simp: fs_log_def set_node_def)
  qed
qed (use assms(3) in \<open>auto simp: fs_log_def set_node_def handleNodeFailure_def\<close>)

lemma enqueue_set: "m \<in> set (enqueue src out net p q) \<longleftrightarrow> m \<in> set (net p q) \<or> p = src \<and> (q, m) \<in> set out"
  by (force simp: enqueue_def)

lemma new_state_message:
  assumes step: "failure_step L l s t" and inv: "failure_system_inv L l s"
    and m: "m \<in> set (fs_net t L q)" "fcode m = Some STATE"
  shows "m \<in> set (fs_net s L q) \<or>
    fs_asleep s = None \<and> carries m [(''state'', JString (fs_log l s L))]"
proof -
  have minv: "message_inv L l s" and cinv: "control_inv L s"
    using inv by (simp_all add: failure_system_inv_def)
  from step show ?thesis
  proof (cases rule: failure_step.cases)
    case (fs_ping p)
    with m show ?thesis
      by (auto simp: enqueue_set broadcastPing_def broadcast_sends_def)
  next
    case (fs_handle p q' m' ms ld st' out)
    have legal: "legal_message L p q' m'" using message_inv_legal [OF minv, of m' p q'] fs_handle(2) by simp
    have "fcode m \<noteq> Some STATE" if "q' = L" "(q, m) \<in> set out" "m_tag m = tag_int FAILURE_DETECTION"
    proof (cases "fcode m' = Some STATE_UPDATED")
      case True
      from handleStateUpdate_out [OF this fs_handle(3) that(2)] that(3) show ?thesis by auto
    next
      case False
      with failure_handleMessage_silent [OF fs_handle(3)] legal that show ?thesis
        by (auto simp: legal_message_def)
    qed
    with m fs_handle show ?thesis
      by (auto simp: enqueue_set failure_sends_def set_node_def split: if_splits)
  next
    case (fs_send i m0 st' out)
    have "f_rank (fs_nodes s L) = L" using cinv by (simp add: control_inv_def)
    with fs_send(3) m fs_send(1) cinv show ?thesis
      by (auto simp: enqueue_set recovery_send_def fs_log_def control_inv_def carries_def
          message_setData_def set_node_def split: if_splits)
  qed (use m in \<open>auto simp: set_node_def\<close>)
qed

lemma new_answer:
  assumes step: "failure_step L l s t" and inv: "failure_system_inv L l s" and "q \<noteq> L"
    and m: "m \<in> set (fs_net t q L)" "fcode m = Some STATE_UPDATED"
  shows "m \<in> set (fs_net s q L) \<or>
    \<not> no_state (fs_net s L q) \<and> (\<exists>r. good_id r \<and> carries m [(''recoveryId'', JInt r)])"
proof -
  have minv: "message_inv L l s" and cinv: "control_inv L s"
    using inv by (simp_all add: failure_system_inv_def)
  from step show ?thesis
  proof (cases rule: failure_step.cases)
    case (fs_ping p)
    with m show ?thesis
      by (auto simp: enqueue_set broadcastPing_def broadcast_sends_def)
  next
    case (fs_handle p q' m' ms ld st' out)
    show ?thesis
    proof (cases "fcode m' = Some STATE \<and> q' = q")
      case True
      have legal: "legal_message L p q' m'" using message_inv_legal [OF minv, of m' p q'] fs_handle(2) by simp
      then have "p = L" using True by (simp add: legal_message_def)
      have "states_ok (stale_id L s) (open_id s) (fs_log l s L) (fs_net s L q)"
        using minv by (simp add: message_inv_def)
      then obtain c where c: "carries m' [(''state'', JString c)]" "good_id (m_id m')"
        using fs_handle(2) True \<open>p = L\<close> by auto
      from handleState_reply [OF _ c(1) fs_handle(3)] True obtain a where
        "out = [(p, a)]" "carries a [(''recoveryId'', JInt (m_id m'))]" by blast
      with m fs_handle(1,2) True \<open>p = L\<close> c(2) show ?thesis
        by (auto simp: enqueue_set failure_sends_def set_node_def no_state_def split: if_splits)
    next
      case False
      have "fcode m \<noteq> Some STATE_UPDATED" if "q' = q" "(L, m) \<in> set out" "m_tag m = tag_int FAILURE_DETECTION"
        using handleStateUpdate_out [OF _ fs_handle(3) that(2)] failure_handleMessage_silent [OF fs_handle(3)]
          that False by (cases "fcode m' = Some STATE_UPDATED") auto
      with m fs_handle show ?thesis
        by (auto simp: enqueue_set failure_sends_def set_node_def split: if_splits)
    qed
  next
    case (fs_send i m0 st' out)
    with m \<open>q \<noteq> L\<close> show ?thesis by (auto simp: enqueue_set set_node_def)
  qed (use m in \<open>auto simp: set_node_def\<close>)
qed

text \<open>A node the leader marks alive has answered, and its log is the leader's.\<close>

lemma leader_flags_step:
  assumes step: "failure_step L l s t" and inv: "failure_system_inv L l s"
    and flag: "\<not> f_isAlive (fs_nodes s L) ! i" "f_isAlive (fs_nodes t L) ! i"
  shows "\<exists>q m. idToIndex L q = int i \<and> q \<noteq> L \<and> fs_log l s q = fs_log l s L \<and> fs_log l t q = fs_log l s q \<and>
    f_clientConn (fs_nodes s L) = Held_By_Recovery \<and> m \<in> set (fs_net s q L) \<and>
    fcode m = Some STATE_UPDATED \<and>
    (\<exists>r. carries m [(''recoveryId'', JInt r)] \<and> good_id r \<and> \<not> stale_id L s r)"
  using step
proof (cases rule: failure_step.cases)
  case (fs_handle p q m ms ld st' out)
  have "q = L" using fs_handle(1) flag by (auto simp: set_node_def split: if_splits)
  then have "f_isAlive st' ! i" using fs_handle(1) flag by (simp add: set_node_def)
  from revived_node [OF inv _ _ flag(1) this] fs_handle(2,3) \<open>q = L\<close>
  have "idToIndex L p = int i \<and> fs_log l s p = fs_log l s L \<and>
    f_clientConn (fs_nodes s L) = Held_By_Recovery \<and> p \<noteq> L \<and> fcode m = Some STATE_UPDATED \<and>
    (\<exists>r. carries m [(''recoveryId'', JInt r)] \<and> good_id r \<and> \<not> stale_id L s r)" by blast
  then show ?thesis
    using fs_handle(1,2) \<open>q = L\<close>
    by (intro exI [of _ p] exI [of _ m]) (auto simp: fs_log_def set_node_def)
next
  case (fs_failure i' ld p st' e)
  with flag show ?thesis
    by (auto simp: set_node_def handleNodeFailure_def vec_set_eq_Inr nth_list_update split: if_splits)
qed (use flag in \<open>auto simp: set_node_def recovery_begin_def recovery_send_def recovery_end_def
    allowRecovery_def disallowRecovery_def Let_def split: if_splits\<close>)

section \<open>The invariant\<close>

text \<open>STATE messages carry the leader's log, and while an answer counts, no entry is on its way to its sender.\<close>

definition transfers_ok :: "int \<Rightarrow> (int \<Rightarrow> log_file_manager) \<Rightarrow> cluster \<Rightarrow> bool" where
  "transfers_ok L l s \<longleftrightarrow>
     (\<forall>q. \<forall>m \<in> set (fs_net (cl_failure s) L q). fcode m = Some STATE \<longrightarrow>
        carries m [(''state'', JString (cl_log l s L))]) \<and>
     (\<forall>q. q \<noteq> L \<longrightarrow> answers_ok (stale_id L (cl_failure s)) (\<lambda>_. True) (log_lines (cl_net s L q) = [])
        (fs_net (cl_failure s) q L))"

definition alive_agree :: "int \<Rightarrow> int \<Rightarrow> (int \<Rightarrow> log_file_manager) \<Rightarrow> cluster \<Rightarrow> bool" where
  "alive_agree n L l s \<longleftrightarrow>
     (\<forall>q. 0 \<le> q \<and> q < n \<and> q \<noteq> L \<and> node_alive (cl_messenger s L) q \<longrightarrow>
        cl_log l s L = cl_log l s q @ log_lines (cl_net s L q) @ pending_line (cl_thread s))"

definition rounds_ok :: "int \<Rightarrow> cluster \<Rightarrow> bool" where
  "rounds_ok L s \<longleftrightarrow>
     (cl_thread s \<noteq> Idle \<longrightarrow> f_clientConn (cl_node s L) = Held_By_Client) \<and>
     (\<forall>p q. p \<noteq> L \<or> q = L \<longrightarrow> log_lines (cl_net s p q) = []) \<and> int_fits (c_roundId (cl_context s L))"

definition cluster_inv :: "int \<Rightarrow> int \<Rightarrow> (int \<Rightarrow> log_file_manager) \<Rightarrow> cluster \<Rightarrow> bool" where
  "cluster_inv n L l s \<longleftrightarrow>
     0 \<le> L \<and> L < n \<and> failure_system_inv L l (cl_failure s) \<and>
     (\<forall>p. 0 \<le> p \<and> p < n \<longrightarrow> node_ok n p (cl_node s p)) \<and> timely n L s \<and> rounds_ok L s \<and>
     transfers_ok L l s \<and> alive_agree n L l s"

lemma cluster_inv_start:
  assumes "timely_start n L l s"
  shows "cluster_inv n L l s"
proof -
  have start: "failure_system_start L (cl_failure s)" and net: "cl_net s = (\<lambda>_ _. [])"
    and thread: "cl_thread s = Idle" "c_roundId (cl_context s L) = -1" and L: "0 \<le> L" "L < n"
    and nodes: "\<forall>p. 0 \<le> p \<and> p < n \<longrightarrow> node_ok n p (cl_node s p)"
    and logs: "\<And>p. 0 \<le> p \<Longrightarrow> p < n \<Longrightarrow> cl_log l s p = cl_log l s L" and timely: "timely n L s"
    using assms unfolding cluster_start_def by blast+
  have "fs_net (cl_failure s) = (\<lambda>_ _. [])" using start by (simp add: failure_system_start_def)
  then have "transfers_ok L l s" by (simp add: transfers_ok_def answers_ok_def)
  moreover have "failure_system_inv L l (cl_failure s)" by (rule failure_system.holds_start [OF start])
  moreover have "rounds_ok L s" by (simp add: rounds_ok_def int_fits_def thread net)
  moreover have "alive_agree n L l s"
    using logs [symmetric] by (simp add: alive_agree_def pending_line_def thread net)
  ultimately show ?thesis using L nodes timely by (simp add: cluster_inv_def)
qed

lemma node_alive_flag:
  assumes "node_ok n p st"
  shows "node_alive (f_messenger st) q = f_isAlive st ! nat (idToIndex p q)"
  using assms by (simp add: node_alive_def node_ok_def failure_inv_def idToIndex_status)

lemma idle_while_recovering:
  assumes "cluster_inv n L l s" and "fs_asleep (cl_failure s) \<noteq> None \<or> f_clientConn (cl_node s L) = Held_By_Recovery"
  shows "pending_line (cl_thread s) = []"
  using assms
  by (cases "cl_thread s") (auto simp: cluster_inv_def failure_system_inv_def control_inv_def rounds_ok_def
      pending_line_def)

text \<open>A step of the failure detectors.\<close>

lemma transfers_ok_other:
  assumes inv: "cluster_inv n L l s" and step: "quiet_step L l (cl_failure s) f"
  shows "transfers_ok L l (s\<lparr>cl_failure := f\<rparr>)"
proof -
  let ?f = "cl_failure s"
  have fstep: "failure_step L l ?f f" and log: "fs_log l f L = fs_log l ?f L"
    using step by (simp_all add: quiet_step_def)
  have finv: "failure_system_inv L l ?f" and cinv: "control_inv L ?f" and ok: "transfers_ok L l s"
    and timely: "timely n L s"
    using inv by (simp_all add: cluster_inv_def failure_system_inv_def)
  have "carries m [(''state'', JString (fs_log l ?f L))]" if "m \<in> set (fs_net f L q)" "fcode m = Some STATE" for m q
    using new_state_message [OF fstep finv that] ok that(2) by (auto simp: transfers_ok_def)
  moreover have "answers_ok (stale_id L f) (\<lambda>_. True) (log_lines (cl_net s L q) = []) (fs_net f q L)"
    if "q \<noteq> L" for q
    unfolding answers_ok_def
  proof (intro ballI impI)
    fix m assume m: "m \<in> set (fs_net f q L)" "fcode m = Some STATE_UPDATED"
    from new_answer [OF fstep finv that m] consider "m \<in> set (fs_net ?f q L)"
      | r where "\<not> no_state (fs_net ?f L q)" "good_id r" "carries m [(''recoveryId'', JInt r)]" by blast
    then show "\<exists>r. carries m [(''recoveryId'', JInt r)] \<and> good_id r \<and>
      (stale_id L f r \<or> True \<and> log_lines (cl_net s L q) = [])"
    proof cases
      case 1
      with ok that m(2) obtain r where "carries m [(''recoveryId'', JInt r)]" "good_id r"
        "stale_id L ?f r \<or> log_lines (cl_net s L q) = []"
        unfolding transfers_ok_def answers_ok_def by blast
      with stale_id_step [OF fstep cinv] show ?thesis by blast
    next
      case 2
      with timely show ?thesis unfolding timely_def by blast
    qed
  qed
  ultimately show ?thesis by (simp add: transfers_ok_def log)
qed

lemma alive_agree_other:
  assumes inv: "cluster_inv n L l s" and step: "quiet_step L l (cl_failure s) f"
  shows "alive_agree n L l (s\<lparr>cl_failure := f\<rparr>)"
  unfolding alive_agree_def
proof (intro allI impI)
  let ?f = "cl_failure s" and ?t = "s\<lparr>cl_failure := f\<rparr>"
  fix q assume q: "0 \<le> q \<and> q < n \<and> q \<noteq> L \<and> node_alive (cl_messenger ?t L) q"
  have fstep: "failure_step L l ?f f" and log: "fs_log l f L = fs_log l ?f L"
    using step by (simp_all add: quiet_step_def)
  have finv: "failure_system_inv L l ?f" and minv: "message_inv L l ?f" and agree: "alive_agree n L l s"
    and nodes: "\<And>p. 0 \<le> p \<Longrightarrow> p < n \<Longrightarrow> node_ok n p (fs_nodes ?f p)" and L: "0 \<le> L" "L < n"
    and timely: "timely n L s" and ok: "transfers_ok L l s"
    using inv by (simp_all add: cluster_inv_def failure_system_inv_def)
  have flags: "node_alive (cl_messenger s L) q = f_isAlive (fs_nodes ?f L) ! nat (idToIndex L q)"
    "f_isAlive (fs_nodes f L) ! nat (idToIndex L q)"
    using node_alive_flag [OF nodes [OF L]] node_alive_flag [OF node_ok_step [OF fstep nodes L]] q by simp_all
  have "fs_log l ?f L = fs_log l f q @ log_lines (cl_net s L q) @ pending_line (cl_thread s)"
  proof (cases "node_alive (cl_messenger s L) q")
    case True
    with agree q have old: "fs_log l ?f L = fs_log l ?f q @ log_lines (cl_net s L q) @ pending_line (cl_thread s)"
      by (simp add: alive_agree_def)
    from other_log_step [OF fstep minv] q consider "fs_log l f q = fs_log l ?f q"
      | m ms where "fs_net ?f L q = m # ms" "fcode m = Some STATE" "carries m [(''state'', JString (fs_log l f q))]"
      by blast
    then show ?thesis
    proof cases
      case 2
      then have "carries m [(''state'', JString (fs_log l ?f L))]"
        using ok unfolding transfers_ok_def by (metis list.set_intros(1))
      then have "fs_log l f q = fs_log l ?f L" by (rule carries_string_unique [OF 2(3)])
      moreover have "\<not> no_state (fs_net ?f L q)" using 2 by simp
      then have "fs_asleep ?f \<noteq> None" "log_lines (cl_net s L q) = []"
        using timely unfolding timely_def by blast+
      ultimately show ?thesis using idle_while_recovering [OF inv] by simp
    qed (use old in simp)
  next
    case False
    from leader_flags_step [OF fstep finv _ flags(2)] False flags(1) q obtain q' m r where
      "idToIndex L q' = int (nat (idToIndex L q))" "q' \<noteq> L" and
      *: "fs_log l ?f q' = fs_log l ?f L" "fs_log l f q' = fs_log l ?f q'"
        "f_clientConn (fs_nodes ?f L) = Held_By_Recovery" "m \<in> set (fs_net ?f q' L)"
        "fcode m = Some STATE_UPDATED" "carries m [(''recoveryId'', JInt r)]" "good_id r" "\<not> stale_id L ?f r"
      by blast
    moreover have "0 \<le> idToIndex L q" using q L by (auto simp: idToIndex_def)
    ultimately have "q' = q" using node_index.to_index_inject [of q' L q] q by simp
    have "log_lines (cl_net s L q) = []"
    proof -
      obtain r' where r': "carries m [(''recoveryId'', JInt r')]" "good_id r'"
        "stale_id L ?f r' \<or> log_lines (cl_net s L q) = []"
        using ok q *(4,5) \<open>q' = q\<close> unfolding transfers_ok_def answers_ok_def by blast
      have "r' = r"
        using data_int_carried [OF r'(1)] data_int_carried [OF *(6)] r'(2) *(7) by (simp add: good_id_def)
      with r'(3) *(8) show ?thesis by blast
    qed
    with * \<open>q' = q\<close> idle_while_recovering [OF inv] show ?thesis by simp
  qed
  then show "cl_log l ?t L = cl_log l ?t q @ log_lines (cl_net ?t L q) @ pending_line (cl_thread ?t)"
    by (simp add: log)
qed

lemma cluster_inv_other:
  assumes inv: "cluster_inv n L l s" and step: "quiet_step L l (cl_failure s) f"
    and "cl_thread s \<noteq> Idle \<longrightarrow> f_clientConn (fs_nodes f L) = Held_By_Client"
    and "timely n L (s\<lparr>cl_failure := f\<rparr>)"
  shows "cluster_inv n L l (s\<lparr>cl_failure := f\<rparr>)"
proof -
  have fstep: "failure_step L l (cl_failure s) f" using step by (simp add: quiet_step_def)
  have finv: "failure_system_inv L l f"
    using failure_system.holds_step [OF _ fstep] inv by (simp add: cluster_inv_def)
  moreover have "node_ok n p (fs_nodes f p)" if "0 \<le> p" "p < n" for p
    using node_ok_step [OF fstep _ that] inv by (simp add: cluster_inv_def)
  moreover note transfers_ok_other [OF inv step] alive_agree_other [OF inv step]
  ultimately show ?thesis
    using inv assms(3,4) by (simp add: cluster_inv_def rounds_ok_def)
qed

section \<open>Steps of the rounds\<close>

lemma dropped_iff:
  assumes "node_ok n p st" and "0 \<le> q" "q < n" "q \<noteq> p"
  shows "dropped (f_messenger st) q \<longleftrightarrow> \<not> node_alive (f_messenger st) q"
  using assms messageShouldDrop_eq [of "f_messenger st" q Comm_World "Some CONSENSUS"]
  by (auto simp: dropped_def node_ok_def failure_inv_def)

lemma log_lines_send:
  assumes "\<And>q msg. (q, msg) \<in> set out \<Longrightarrow> accepted_line msg = []"
  shows "log_lines (cl_net (cluster_send p out s) a b) = log_lines (cl_net s a b)"
proof -
  have "log_lines (map snd (filter (\<lambda>x. fst x = b) (filter (\<lambda>(q, msg). \<not> dropped (cl_messenger s p) q) out))) = []"
    by (rule log_lines_none) (auto dest: assms)
  then show ?thesis by (simp add: cluster_send_def enqueue_def)
qed

lemma cluster_send_simps [simp]:
  "cl_failure (cluster_send p out s) = cl_failure s" "cl_context (cluster_send p out s) = cl_context s"
  "cl_thread (cluster_send p out s) = cl_thread s"
  by (simp_all add: cluster_send_def)

lemma take_message_simps [simp]:
  "cl_failure (take_message p q s) = cl_failure s" "cl_context (take_message p q s) = cl_context s"
  "cl_thread (take_message p q s) = cl_thread s" "cl_maxRoundId (take_message p q s) = cl_maxRoundId s"
  "cl_net (take_message p q s) a b = (if a = p \<and> b = q then tl (cl_net s p q) else cl_net s a b)"
  by (simp_all add: take_message_def)

lemma set_consensus_simps [simp]:
  "cl_failure (set_consensus p st s) = set_node p ((cl_node s p)\<lparr>f_files := cs_files st\<rparr>) (cl_failure s)"
  "cl_net (set_consensus p st s) = cl_net s" "cl_thread (set_consensus p st s) = cl_thread s"
  "cl_context (set_consensus p st s) = (cl_context s)(p := cs_context st)"
  by (simp_all add: set_consensus_def)

lemma set_round_simps [simp]:
  "cl_failure (set_round p ctx s) = cl_failure s" "cl_net (set_round p ctx s) = cl_net s"
  "cl_thread (set_round p ctx s) = cl_thread s" "cl_context (set_round p ctx s) = (cl_context s)(p := ctx)"
  by (simp_all add: set_round_def)

text \<open>Nothing is logged, and no entry is sent or received.\<close>

lemma cluster_inv_silent:
  assumes inv: "cluster_inv n L l s" and failure: "cl_failure t = cl_failure s"
    and net: "\<And>p q. log_lines (cl_net t p q) = log_lines (cl_net s p q)"
    and "pending_line (cl_thread t) = pending_line (cl_thread s)"
    and "cl_thread t \<noteq> Idle \<Longrightarrow> f_clientConn (cl_node s L) = Held_By_Client"
    and "int_fits (c_roundId (cl_context t L))"
  shows "cluster_inv n L l t"
proof -
  have "timely n L t" using inv by (simp add: cluster_inv_def timely_def failure net)
  moreover have "rounds_ok L t"
    using inv assms(5,6) by (simp add: cluster_inv_def rounds_ok_def failure net)
  moreover have "transfers_ok L l t" using inv by (simp add: cluster_inv_def transfers_ok_def failure net)
  moreover have "alive_agree n L l t"
    using inv assms(4) by (simp add: cluster_inv_def alive_agree_def failure net)
  ultimately show ?thesis using inv by (simp add: cluster_inv_def failure)
qed

lemma cluster_inv_fits: "cluster_inv n L l s \<Longrightarrow> int_fits (c_roundId (cl_context s L))"
  by (simp add: cluster_inv_def rounds_ok_def)

lemma cluster_inv_thread:
  "cluster_inv n L l s \<Longrightarrow> cl_thread s \<noteq> Idle \<Longrightarrow> f_clientConn (cl_node s L) = Held_By_Client"
  by (simp add: cluster_inv_def rounds_ok_def)

text \<open>A node's files change: its log is the same, or no answer of it counts any more.\<close>

lemma failure_inv_write:
  assumes inv: "failure_system_inv L l s"
    and log: "log_read (l q) fs [] = fs_log l s q \<or>
      q \<noteq> L \<and> answers_ok (stale_id L s) (\<lambda>_. True) False (fs_net s q L)"
  shows "failure_system_inv L l (set_node q ((fs_nodes s q)\<lparr>f_files := fs\<rparr>) s)"
    (is "failure_system_inv L l ?t")
proof -
  have minv: "message_inv L l s" and cinv: "control_inv L s"
    using inv by (simp_all add: failure_system_inv_def)
  have same: "stale_id L ?t = stale_id L s" "open_id ?t = open_id s" "fs_net ?t = fs_net s"
    by (simp_all add: stale_id_def open_id_def set_node_def fun_eq_iff)
  have logs: "fs_log l ?t p = (if p = q then log_read (l q) fs [] else fs_log l s p)" for p
    by (simp add: fs_log_def set_node_def)
  have "control_inv L ?t" using cinv by (auto simp: control_inv_def set_node_def failure_inv_def)
  moreover have "message_inv L l ?t"
  proof (cases "log_read (l q) fs [] = fs_log l s q")
    case True
    then show ?thesis by (intro message_inv_same_net [OF minv]) (simp_all add: same logs)
  next
    case False
    with log have q: "q \<noteq> L" and stale: "answers_ok (stale_id L s) (\<lambda>_. True) False (fs_net s q L)" by auto
    have "answers_ok (stale_id L s) (open_id s) synced (fs_net s q L)" for synced
      by (rule answers_ok_mono [OF stale]) simp_all
    then show ?thesis using minv q unfolding message_inv_def same logs by auto
  qed
  ultimately show ?thesis by (simp add: failure_system_inv_def)
qed

lemma node_ok_write:
  assumes "\<forall>p. 0 \<le> p \<and> p < n \<longrightarrow> node_ok n p (fs_nodes s p)"
  shows "\<forall>p. 0 \<le> p \<and> p < n \<longrightarrow> node_ok n p (fs_nodes (set_node q ((fs_nodes s q)\<lparr>f_files := fs\<rparr>) s) p)"
  using assms by (simp add: set_node_def node_ok_def failure_inv_def)

lemma log_lines_tl: "log_lines ms = [] \<Longrightarrow> log_lines (tl ms) = []"
  by (cases ms) simp_all

lemma deliver_line:
  assumes "cluster_inv n L l s" and "cl_net s p q = msg # rest" and "accepted_line msg \<noteq> []"
  shows "p = L \<and> q \<noteq> L \<and> log_lines (cl_net s L q) \<noteq> []"
proof -
  have "log_lines (cl_net s p q) \<noteq> []" using assms(2,3) by simp
  moreover from this have "p = L \<and> q \<noteq> L"
    using assms(1) unfolding cluster_inv_def rounds_ok_def by blast
  ultimately show ?thesis by blast
qed

lemma cluster_inv_deliver:
  assumes inv: "cluster_inv n L l s" and msg: "cl_net s p q = msg # rest"
    and handle: "consensus_handleMessage (cl_messenger s q) (l q) wtime p msg (consensus_view s q) = Inr (st, out)"
    and "timely n L (cluster_send q out (set_consensus q st (take_message p q s)))" (is "timely n L ?t")
  shows "cluster_inv n L l ?t"
proof -
  let ?f = "cl_failure s" and ?line = "accepted_line msg"
  note h = handle_log [OF handle]
  have net: "log_lines (cl_net ?t a b) =
      log_lines (if a = p \<and> b = q then rest else cl_net s a b)" for a b
    using msg by (simp add: log_lines_send [OF h(3)])
  have files: "cl_failure ?t = set_node q ((fs_nodes ?f q)\<lparr>f_files := cs_files st\<rparr>) ?f" by simp
  have logs: "cl_log l ?t a = cl_log l s a @ (if a = q then ?line else [])" for a
    using h(1) by (simp add: fs_log_def set_node_def consensus_view_def)
  note line = deliver_line [OF inv msg]
  have "log_read (l q) (cs_files st) [] = fs_log l ?f q \<or>
      q \<noteq> L \<and> answers_ok (stale_id L ?f) (\<lambda>_. True) False (fs_net ?f q L)"
  proof (cases "?line = []")
    case True
    then show ?thesis using h(1) by (simp add: fs_log_def consensus_view_def)
  next
    case False
    from line [OF this] inv show ?thesis unfolding cluster_inv_def transfers_ok_def by metis
  qed
  then have "failure_system_inv L l (cl_failure ?t)"
    unfolding files using inv by (intro failure_inv_write) (simp_all add: cluster_inv_def)
  moreover have "\<forall>a. 0 \<le> a \<and> a < n \<longrightarrow> node_ok n a (cl_node ?t a)"
    unfolding files using inv by (intro node_ok_write) (simp add: cluster_inv_def)
  moreover have "rounds_ok L ?t"
  proof -
    have "log_lines (cl_net ?t a b) = []" if "a \<noteq> L \<or> b = L" for a b
      using that inv msg unfolding net cluster_inv_def rounds_ok_def
      by (metis log_lines_tl list.sel(3))
    moreover have "int_fits (c_roundId (cl_context ?t L))"
      using h(2) cluster_inv_fits [OF inv] by (auto simp: consensus_view_def int_fits_def)
    ultimately show ?thesis
      using inv by (auto simp: cluster_inv_def rounds_ok_def set_node_def)
  qed
  moreover have "transfers_ok L l ?t"
  proof -
    have lines: "log_lines (cl_net s L a) = [] \<Longrightarrow> log_lines (cl_net ?t L a) = []" for a
      unfolding net using msg by (auto dest: log_lines_tl)
    have log: "cl_log l ?t L = cl_log l s L" unfolding logs using line by auto
    have same: "stale_id L (cl_failure ?t) = stale_id L ?f" "fs_net (cl_failure ?t) = fs_net ?f"
      by (auto simp: stale_id_def set_node_def fun_eq_iff)
    have "answers_ok (stale_id L ?f) (\<lambda>_. True) (log_lines (cl_net ?t L a) = []) (fs_net ?f a L)"
      if "a \<noteq> L" for a
      using inv that lines unfolding cluster_inv_def transfers_ok_def by (blast intro: answers_ok_mono)
    then show ?thesis
      using inv unfolding cluster_inv_def transfers_ok_def log same by blast
  qed
  moreover have "alive_agree n L l ?t"
    unfolding alive_agree_def
  proof (intro allI impI)
    fix a assume a: "0 \<le> a \<and> a < n \<and> a \<noteq> L \<and> node_alive (cl_messenger ?t L) a"
    then have "cl_log l s L = cl_log l s a @ log_lines (cl_net s L a) @ pending_line (cl_thread s)"
      using inv by (simp add: cluster_inv_def alive_agree_def set_node_def split: if_splits)
    moreover have "cl_log l ?t L = cl_log l s L" unfolding logs using line by auto
    moreover have "cl_log l s a @ log_lines (cl_net s L a) = cl_log l ?t a @ log_lines (cl_net ?t L a)"
      unfolding logs net using msg line by auto
    ultimately show "cl_log l ?t L =
        cl_log l ?t a @ log_lines (cl_net ?t L a) @ pending_line (cl_thread ?t)" by simp
  qed
  ultimately show ?thesis using inv assms(4) by (simp add: cluster_inv_def)
qed

lemma cluster_inv_drop:
  assumes inv: "cluster_inv n L l s" and msg: "cl_net s p q = msg # rest"
    and "dropped (cl_messenger s q) p"
  shows "cluster_inv n L l (take_message p q s)" (is "cluster_inv n L l ?t")
proof -
  have "\<not> (p = L \<and> 0 \<le> q \<and> q < n \<and> q \<noteq> L)"
    using inv dropped_iff [of n q "cl_node s q" L] assms(3) unfolding cluster_inv_def timely_def by blast
  then have in_range: "log_lines (cl_net ?t L b) = log_lines (cl_net s L b)"
    if "0 \<le> b" "b < n" "b \<noteq> L" for b
    using that by auto
  have none: "log_lines (cl_net s a b) = [] \<Longrightarrow> log_lines (cl_net ?t a b) = []" for a b
    by (auto dest: log_lines_tl)
  have "timely n L ?t" using inv none unfolding cluster_inv_def timely_def take_message_simps(1) by blast
  moreover have "rounds_ok L ?t" using inv none unfolding cluster_inv_def rounds_ok_def by simp
  moreover have "transfers_ok L l ?t"
    using inv none unfolding cluster_inv_def transfers_ok_def take_message_simps(1)
    by (blast intro: answers_ok_mono)
  moreover have "alive_agree n L l ?t"
    using inv in_range by (simp add: cluster_inv_def alive_agree_def)
  ultimately show ?thesis using inv by (simp add: cluster_inv_def)
qed

lemma not_recovering:
  assumes "cluster_inv n L l s" and "cl_thread s \<noteq> Idle"
  shows "fs_asleep (cl_failure s) = None" and "no_state (fs_net (cl_failure s) L q)"
proof -
  show "fs_asleep (cl_failure s) = None"
    using assms cluster_inv_thread [OF assms] by (simp add: cluster_inv_def failure_system_inv_def control_inv_def)
  with assms(1) show "no_state (fs_net (cl_failure s) L q)"
    unfolding cluster_inv_def timely_def by blast
qed

lemma cluster_inv_append:
  assumes inv: "cluster_inv n L l s" and thread: "cl_thread s = Append v"
  shows "cluster_inv n L l ((set_consensus L ((consensus_view s L)
       \<lparr>cs_files := log_append (l L) v (f_files (cl_node s L))\<rparr>) s)\<lparr>cl_thread := Announce v\<rparr>)"
    (is "cluster_inv n L l ?t")
proof -
  let ?f = "cl_failure s"
  have mutex: "f_clientConn (cl_node s L) = Held_By_Client"
    using cluster_inv_thread [OF inv] thread by simp
  note quiet = not_recovering [OF inv] thread
  have failure: "cl_failure ?t = set_node L ((fs_nodes ?f L)
      \<lparr>f_files := log_append (l L) v (f_files (fs_nodes ?f L))\<rparr>) ?f" by simp
  have "failure_system_inv L l (cl_failure ?t)"
    unfolding failure using inv
    by (intro failure_system.holds_step [OF _ fs_log [OF mutex refl]]) (simp add: cluster_inv_def)
  moreover have "\<forall>a. 0 \<le> a \<and> a < n \<longrightarrow> node_ok n a (cl_node ?t a)"
    unfolding failure using inv by (intro node_ok_write) (simp add: cluster_inv_def)
  moreover have "timely n L ?t"
    using inv by (simp add: cluster_inv_def timely_def set_node_def)
  moreover have "rounds_ok L ?t"
    using inv by (auto simp: cluster_inv_def rounds_ok_def set_node_def consensus_view_def mutex)
  moreover have "transfers_ok L l ?t"
  proof -
    have "stale_id L (cl_failure ?t) = stale_id L ?f" by (simp add: stale_id_def set_node_def fun_eq_iff)
    moreover have "fcode m \<noteq> Some STATE" if "m \<in> set (fs_net ?f L q)" for m q
      using quiet(2) [of q] thread that by (simp add: no_state_def)
    ultimately show ?thesis
      using inv by (simp add: cluster_inv_def transfers_ok_def set_node_def)
  qed
  moreover have "alive_agree n L l ?t"
    using inv thread
    by (simp add: cluster_inv_def alive_agree_def set_node_def fs_log_def log_file.contents_append
        pending_line_def)
  ultimately show ?thesis using inv by (simp add: cluster_inv_def)
qed

lemma broadcast_sends_node:
  "node_ok n L st \<Longrightarrow> broadcast_sends (f_messenger st) msg = broadcast_sends (messenger_start L n) msg"
  by (simp add: node_ok_def broadcast_sends_def broadcast_targets_def messenger_start_def)

lemma broadcast_cluster_net:
  assumes "node_ok n L (cl_node s L)" and "0 \<le> q" "q < n" "q \<noteq> L"
  shows "cl_net (cluster_send L (broadcast_sends (cl_messenger s L) msg) s) L q =
    cl_net s L q @ (if node_alive (cl_messenger s L) q then [msg] else [])"
proof -
  let ?out = "broadcast_sends (cl_messenger s L) msg" and ?P = "\<lambda>(q, msg). \<not> dropped (cl_messenger s L) q"
  have "filter (\<lambda>x. fst x = q) (filter ?P ?out) =
      (if node_alive (cl_messenger s L) q then filter (\<lambda>x. fst x = q) ?out else [])"
    using dropped_iff [OF assms] by (auto simp: filter_empty_conv intro!: filter_cong)
  moreover have "map snd (filter (\<lambda>x. fst x = q) ?out) = [msg]"
    using assms broadcast_sends_to [of q L n msg] by (simp add: broadcast_sends_node [OF assms(1)])
  ultimately show ?thesis by (simp add: cluster_send_def enqueue_def)
qed

lemma cluster_inv_announce:
  assumes inv: "cluster_inv n L l s" and thread: "cl_thread s = Announce v"
    and ann: "broadcastAccepted (cl_messenger s L) wtime v (cl_context s L) = Inr out"
  shows "cluster_inv n L l ((cluster_send L out s)\<lparr>cl_thread := Reset\<rparr>)" (is "cluster_inv n L l ?t")
proof -
  let ?f = "cl_failure s"
  have mutex: "f_clientConn (cl_node s L) = Held_By_Client"
    using cluster_inv_thread [OF inv] thread by simp
  note quiet = not_recovering [OF inv] thread
  have node: "node_ok n L (cl_node s L)" and minv: "message_inv L l ?f"
    using inv by (simp_all add: cluster_inv_def failure_system_inv_def)
  from ann obtain ta where
    ta: "json_text [(''roundId'', JInt (c_roundId (cl_context s L))), (''value'', JString v)] = Inr ta"
    and out: "out = broadcast_sends (cl_messenger s L) (setMessage_data wtime (Consensus_Code ACCEPTED) ta)"
    by (auto simp: broadcastAccepted_def)
  note line = accepted_line_accepted [OF ta cluster_inv_fits [OF inv], of wtime]
  have to: "(q, msg) \<in> set out \<Longrightarrow> q \<noteq> L" for q msg
    using node by (auto simp: out broadcast_sends_def broadcast_targets_def node_ok_def)
  have other: "cl_net ?t a b = cl_net s a b" if "a \<noteq> L \<or> b = L" for a b
    using that by (auto simp: cluster_send_def enqueue_def filter_empty_conv dest: to)
  have "timely n L ?t" using inv quiet(2) thread by (simp add: cluster_inv_def timely_def)
  moreover have "rounds_ok L ?t"
    using inv other mutex unfolding cluster_inv_def rounds_ok_def by simp
  moreover have "transfers_ok L l ?t"
  proof -
    have "answers_ok (stale_id L ?f) (\<lambda>_. True) b (fs_net ?f q L)" if "q \<noteq> L" for q b
      by (rule answers_ok_mono [OF message_inv_closed(2) [OF minv quiet(1) that]]) (simp_all add: thread)
    moreover have "fcode m \<noteq> Some STATE" if "m \<in> set (fs_net ?f L q)" for m q
      using quiet(2) [of q] thread that by (simp add: no_state_def)
    ultimately show ?thesis by (simp add: transfers_ok_def)
  qed
  moreover have "alive_agree n L l ?t"
    using inv broadcast_cluster_net [OF node] line thread
    by (simp add: cluster_inv_def alive_agree_def out pending_line_def)
  ultimately show ?thesis using inv by (simp add: cluster_inv_def)
qed

lemma cluster_inv_step:
  assumes inv: "cluster_inv n L l s" and step: "cluster_step L l s t" and timely: "timely n L t"
  shows "cluster_inv n L l t"
  using step
proof (cases rule: cluster_step.cases)
  case (cl_other f)
  with cluster_inv_other [OF inv] timely show ?thesis by simp
next
  case (cl_deliver p q msg rest wtime st out)
  with cluster_inv_deliver [OF inv] timely show ?thesis by simp
next
  case (cl_drop p q msg rest)
  with cluster_inv_drop [OF inv] show ?thesis by simp
next
  case (cl_prepare wtime ctx out v)
  then have "ctx = (cl_context s L)\<lparr>c_roundId := generateUniqueId wtime\<rparr>"
    "out = broadcast_sends (cl_messenger s L) (setMessage wtime (Consensus_Code PREPARE))"
    by (auto simp: broadcastPrepare_def Let_def)
  moreover from this have "accepted_line msg = []" if "(q, msg) \<in> set out" for q msg
    using that by (auto simp: broadcast_sends_def setMessage_def)
  ultimately show ?thesis
    using cl_prepare
    by (intro cluster_inv_silent [OF inv]) (auto simp: log_lines_send pending_line_def int_fits_int32)
next
  case (cl_promised v)
  then show ?thesis
    using cluster_inv_thread [OF inv] cluster_inv_fits [OF inv]
    by (intro cluster_inv_silent [OF inv]) (auto simp: pending_line_def)
next
  case (cl_propose v wtime out)
  then have "accepted_line msg = []" if "(q, msg) \<in> set out" for q msg
    using that by (auto simp: broadcastPropose_def broadcast_sends_def Let_def)
  with cl_propose show ?thesis
    using cluster_inv_thread [OF inv] cluster_inv_fits [OF inv]
    by (intro cluster_inv_silent [OF inv]) (auto simp: log_lines_send pending_line_def)
next
  case (cl_accepted v)
  then show ?thesis
    using cluster_inv_thread [OF inv] cluster_inv_fits [OF inv]
    by (intro cluster_inv_silent [OF inv]) (auto simp: pending_line_def)
next
  case (cl_append v)
  with cluster_inv_append [OF inv] show ?thesis by simp
next
  case (cl_announce v wtime out)
  with cluster_inv_announce [OF inv] show ?thesis by simp
next
  case cl_reset
  then show ?thesis
    by (intro cluster_inv_silent [OF inv])
      (auto simp: pending_line_def consensus_context_init_def int_fits_def)
qed

interpretation whole_cluster: step_invariant "timely_start n L l" "timely_step n L l" "cluster_inv n L l"
  by unfold_locales (use cluster_inv_start cluster_inv_step in blast)+

end
