(* ===== verification/Cluster_Runs.thy ===== *)
theory Cluster_Runs
  imports Cluster_System
begin

text \<open>
  What the invariant of \<open>Cluster_System\<close> means for the logs, and a run that shows why the order of the two
  channels between two nodes matters: an entry that a failed node has not handled yet is logged twice.
\<close>

section \<open>A round without votes\<close>

text \<open>
  In a cluster of two nodes no answer is needed, so the leader's client thread can run a whole round
  while the other node handles nothing.
\<close>

lemma timely_frame:
  assumes "timely n L s" and "\<And>q. no_state (fs_net (cl_failure t) L q)"
    and "\<And>q. cl_messenger t q = cl_messenger s q"
  shows "timely n L t"
  using assms by (simp add: timely_def)

definition round_messages :: "string \<Rightarrow> message list" where
  "round_messages t = [setMessage 0 (Consensus_Code PREPARE), setMessage_data 0 (Consensus_Code PROPOSE) t,
     setMessage_data 0 (Consensus_Code ACCEPTED) t]"

lemma round_alone:
  assumes idle: "cl_thread s = Idle" and mutex: "f_clientConn (cl_node s L) = Held_By_Client"
    and ctx: "cl_context s L = consensus_context_init" and votes: "majority_reached (cl_messenger s L) 0"
    and data: "json_text [(''roundId'', JInt 0), (''value'', JString v)] = Inr x"
    and node: "node_ok n L (cl_node s L)"
    and timely: "timely n L s" and quiet: "\<And>q. no_state (fs_net (cl_failure s) L q)"
  shows "\<exists>t. (timely_step n L l)\<^sup>*\<^sup>* s t \<and> cl_thread t = Idle \<and>
    cl_failure t = set_node L ((cl_node s L)\<lparr>f_files := log_append (l L) v (f_files (cl_node s L))\<rparr>)
      (cl_failure s) \<and> cl_context t = cl_context s \<and> cl_maxRoundId t = cl_maxRoundId s \<and>
    (\<forall>q. 0 \<le> q \<and> q < n \<and> q \<noteq> L \<and> node_alive (cl_messenger s L) q \<longrightarrow>
      cl_net t L q = cl_net s L q @ round_messages x)"
proof -
  let ?bc = "broadcast_sends (cl_messenger s L)"
  define c1 where "c1 = consensus_context_init\<lparr>c_roundId := 0\<rparr>"
  define s1 where "s1 = (cluster_send L (?bc (setMessage 0 (Consensus_Code PREPARE))) (set_round L c1 s))
    \<lparr>cl_thread := Await_Promises v\<rparr>"
  define s2 where "s2 = s1\<lparr>cl_thread := Propose v\<rparr>"
  define s3 where "s3 = (cluster_send L (?bc (setMessage_data 0 (Consensus_Code PROPOSE) x)) s2)
    \<lparr>cl_thread := Await_Accepts v\<rparr>"
  define s4 where "s4 = s3\<lparr>cl_thread := Append v\<rparr>"
  define s5 where "s5 = (set_consensus L ((consensus_view s4 L)
    \<lparr>cs_files := log_append (l L) v (f_files (cl_node s4 L))\<rparr>) s4)\<lparr>cl_thread := Announce v\<rparr>"
  define s6 where "s6 = (cluster_send L (?bc (setMessage_data 0 (Consensus_Code ACCEPTED) x)) s5)
    \<lparr>cl_thread := Reset\<rparr>"
  define s7 where "s7 = (set_round L consensus_context_init s6)\<lparr>cl_thread := Idle\<rparr>"
  note defs = s1_def s2_def s3_def s4_def s5_def s6_def s7_def
  have c: "receivePromises (cl_messenger s L) c1" "receiveAccepts (cl_messenger s L) c1"
    "c_maxAcceptedId c1 = -1" "c_roundId c1 = 0"
    using votes by (simp_all add: c1_def receivePromises_def receiveAccepts_def consensus_context_init_def)
  have "broadcastPrepare (cl_messenger s L) 0 (cl_context s L) =
      (c1, ?bc (setMessage 0 (Consensus_Code PREPARE)))"
    by (simp add: broadcastPrepare_def ctx c1_def setMessage_def setMessage_data_def generateUniqueId_def)
  from cl_prepare [OF idle mutex _ this] have 1: "cluster_step L l s s1"
    by (simp add: s1_def generateUniqueId_def is_int32_def)
  have 2: "cluster_step L l s1 s2"
    using cl_promised [of s1 v L l] c by (simp add: s1_def s2_def)
  have 3: "cluster_step L l s2 s3"
    unfolding s3_def by (rule cl_propose [where wtime = 0])
      (simp_all add: s1_def s2_def broadcastPropose_def c data)
  have 4: "cluster_step L l s3 s4"
    using cl_accepted [of s3 v L l] c by (simp add: defs)
  have 5: "cluster_step L l s4 s5"
    unfolding s5_def by (rule cl_append) (simp add: s4_def)
  have "cl_messenger s5 L = cl_messenger s L" "cl_context s5 L = c1" "cl_thread s5 = Announce v"
    by (simp_all add: defs consensus_view_def set_node_def)
  moreover have "broadcastAccepted (cl_messenger s L) 0 v c1 =
      Inr (?bc (setMessage_data 0 (Consensus_Code ACCEPTED) x))"
    by (simp add: broadcastAccepted_def c data)
  ultimately have 6: "cluster_step L l s5 s6"
    using cl_announce [of s5 v L 0 _ l] unfolding s6_def by simp
  have 7: "cluster_step L l s6 s7"
    unfolding s7_def by (rule cl_reset) (simp add: s6_def)
  have failure: "cl_failure s1 = cl_failure s" "cl_failure s2 = cl_failure s" "cl_failure s3 = cl_failure s"
    "cl_failure s4 = cl_failure s" "cl_failure s6 = cl_failure s5" "cl_failure s7 = cl_failure s5"
    "cl_failure s5 = set_node L ((cl_node s L)\<lparr>f_files := log_append (l L) v (f_files (cl_node s L))\<rparr>)
      (cl_failure s)"
    by (simp_all add: defs)
  have "timely n L s1" "timely n L s2" "timely n L s3" "timely n L s4" "timely n L s5" "timely n L s6"
    "timely n L s7"
    by (rule timely_frame [OF timely]; simp add: failure set_node_def quiet)+
  with 1 2 3 4 5 6 7 have steps: "(timely_step n L l)\<^sup>*\<^sup>* s s7"
    using steps_along [of "timely_step n L l" s "[s1, s2, s3, s4, s5, s6, s7]"] by simp
  have "cl_net s7 L q = cl_net s L q @ round_messages x"
    if "0 \<le> q \<and> q < n \<and> q \<noteq> L \<and> node_alive (cl_messenger s L) q" for q
  proof -
    have "node_ok n L (cl_node (set_round L c1 s) L)" "node_ok n L (cl_node s2 L)" "node_ok n L (cl_node s5 L)"
      using node by (simp_all add: failure set_node_def node_ok_def failure_inv_def)
    from this [THEN broadcast_cluster_net, of q] that show ?thesis
      by (simp add: defs round_messages_def set_node_def)
  qed
  moreover have "cl_context s7 = cl_context s" "cl_maxRoundId s7 = cl_maxRoundId s"
    by (simp_all add: defs consensus_view_def cluster_send_def set_round_def set_consensus_def ctx [symmetric])
  ultimately show ?thesis
    using steps failure by (intro exI [of _ s7]) (simp add: s7_def)
qed

section \<open>The other node handles a round\<close>

lemma deliver_one:
  assumes "cl_net s p q = msg # rest" and "\<not> dropped (cl_messenger s q) p" and "p \<noteq> q"
    and "consensus_handleMessage (cl_messenger s q) (l q) 0 p msg (consensus_view s q) = Inr (st, out)"
  shows "\<exists>t. cluster_step L l s t \<and> cl_net t p q = rest \<and> consensus_view t q = st \<and>
    cl_messenger t q = cl_messenger s q \<and> (\<forall>a. a \<noteq> q \<longrightarrow> cl_node t a = cl_node s a) \<and>
    cl_thread t = cl_thread s"
proof -
  let ?t = "cluster_send q out (set_consensus q st (take_message p q s))"
  have "cluster_step L l s ?t" by (rule cl_deliver [where l = l and q = q, OF assms(1,2,4)])
  moreover have "cl_net ?t p q = rest"
    using assms(1,3) by (simp add: cluster_send_def enqueue_def)
  moreover have "consensus_view ?t q = st"
    by (simp add: consensus_view_def cluster_send_def set_consensus_def set_node_def)
  ultimately show ?thesis by (intro exI [of _ ?t]) (simp add: set_node_def)
qed

lemma round_handled:
  assumes net: "cl_net s p q = round_messages x" and "p \<noteq> q" and "\<not> dropped (cl_messenger s q) p"
    and data: "json_text [(''roundId'', JInt 0), (''value'', JString v)] = Inr x"
    and fresh: "\<not> c_valueAccepted (cl_context s q)" "cl_maxRoundId s q = -1"
  shows "\<exists>t. (cluster_step L l)\<^sup>*\<^sup>* s t \<and> cl_net t p q = [] \<and> cl_log l t q = cl_log l s q @ v @ newline \<and>
    (\<forall>a. a \<noteq> q \<longrightarrow> cl_node t a = cl_node s a) \<and> cl_thread t = cl_thread s"
proof -
  let ?m = "cl_messenger s q" and ?st = "consensus_view s q"
  obtain y where y: "json_text [(''roundId'', JInt 0)] = Inr y"
    using json_text_int_ok [of "''roundId''" 0] by (auto simp: plain_char_def)
  let ?st1 = "?st\<lparr>cs_maxRoundId := 0\<rparr>"
  have "consensus_handleMessage ?m (l q) 0 p (setMessage 0 (Consensus_Code PREPARE)) ?st =
      Inr (?st1, [(p, setMessage_data 0 (Consensus_Code PROMISE) y)])"
    using handlePrepare_promise [of ?st 0 y ?m 0 p] fresh y
    by (simp add: consensus_handleMessage_def setMessage_def setMessage_data_def generateUniqueId_def
        consensus_view_def promise_fields_def)
  from deliver_one [where l = l and q = q and L = L, OF _ assms(3,2) this] net obtain s1 where s1: "cluster_step L l s s1"
    "cl_net s1 p q = tl (round_messages x)" "consensus_view s1 q = ?st1" "cl_messenger s1 q = ?m"
    "\<forall>a. a \<noteq> q \<longrightarrow> cl_node s1 a = cl_node s a" "cl_thread s1 = cl_thread s"
    by (auto simp: round_messages_def)
  let ?msg = "\<lambda>c. setMessage_data 0 (Consensus_Code c) x"
  have carries: "carries (?msg c) [(''roundId'', JInt 0), (''value'', JString v)]" for c
    using data by (rule carriesI)
  let ?st2 = "?st1\<lparr>cs_context := (cs_context ?st1)\<lparr>c_valueAccepted := True, c_acceptedId := 0,
    c_acceptedValue := v\<rparr>\<rparr>"
  have "consensus_handleMessage ?m (l q) 0 p (?msg PROPOSE) ?st1 =
      Inr (?st2, [(p, setMessage_data 0 (Consensus_Code ACCEPT) y)])"
    using handlePropose_carries [OF carries [of PROPOSE] _ y, of ?m 0 p ?st1]
    by (simp add: consensus_handleMessage_def setMessage_data_def generateUniqueId_def is_int32_def)
  with deliver_one [of s1 p q "?msg PROPOSE" "[?msg ACCEPTED]" l ?st2 _ L] s1 assms(2,3) obtain s2 where
    s2: "cluster_step L l s1 s2" "cl_net s2 p q = [?msg ACCEPTED]" "consensus_view s2 q = ?st2"
    "cl_messenger s2 q = ?m" "\<forall>a. a \<noteq> q \<longrightarrow> cl_node s2 a = cl_node s1 a" "cl_thread s2 = cl_thread s1"
    by (auto simp: round_messages_def)
  let ?st3 = "?st2\<lparr>cs_files := log_append (l q) v (cs_files ?st2), cs_context := consensus_context_init\<rparr>"
  have "consensus_handleMessage ?m (l q) 0 p (?msg ACCEPTED) ?st2 = Inr (?st3, [])"
    using handleAccepted_carries [OF carries [of ACCEPTED], of "l q" ?st2]
    by (simp add: consensus_handleMessage_def setMessage_data_def generateUniqueId_def is_int32_def)
  with deliver_one [of s2 p q "?msg ACCEPTED" "[]" l ?st3 _ L] s2 assms(2,3) obtain s3 where
    s3: "cluster_step L l s2 s3" "cl_net s3 p q = []" "consensus_view s3 q = ?st3"
    "\<forall>a. a \<noteq> q \<longrightarrow> cl_node s3 a = cl_node s2 a" "cl_thread s3 = cl_thread s2"
    by auto
  have "(cluster_step L l)\<^sup>*\<^sup>* s s3"
    using steps_along [of "cluster_step L l" s "[s1, s2, s3]"] s1(1) s2(1) s3(1) by simp
  moreover have "f_files (cl_node s3 q) = log_append (l q) v (f_files (cl_node s q))"
    using arg_cong [OF s3(3), of cs_files] by (simp add: consensus_view_def)
  ultimately show ?thesis
    using s1 s2 s3 by (intro exI [of _ s3]) (simp add: fs_log_def log_file.contents_append)
qed

section \<open>Recovery inside the cluster\<close>

lemma quiet_run:
  assumes "(quiet_step L l)\<^sup>*\<^sup>* (cl_failure s) f" and "cl_thread s = Idle"
  shows "(cluster_step L l)\<^sup>*\<^sup>* s (s\<lparr>cl_failure := f\<rparr>)"
  using assms(1)
proof (induction rule: rtranclp_induct)
  case base
  then show ?case by simp
next
  case (step f f')
  have "cluster_step L l (s\<lparr>cl_failure := f\<rparr>) ((s\<lparr>cl_failure := f\<rparr>)\<lparr>cl_failure := f'\<rparr>)"
    by (rule cl_other) (use step assms(2) in simp_all)
  with step.IH show ?case by (simp add: rtranclp.rtrancl_into_rtrancl)
qed

lemma cluster_run_reachable:
  "(timely_step n L l)\<^sup>*\<^sup>* s t \<Longrightarrow> reachable (timely_start n L l) (timely_step n L l) s \<Longrightarrow>
   reachable (timely_start n L l) (timely_step n L l) t"
  by (rule reachable_steps)

section \<open>Properties\<close>

text \<open>
  C1. Replication and recovery together keep the logs equal: in a cluster that serves clients through \<open>L\<close> while
  nodes fail, are marked failed, and are let back in, in any interleaving of rounds, deliveries and the
  threads of the failure detectors, the log of every node that the leader considers alive is the leader's
  log, short of the entries on their way to it and of the one the leader has logged but not announced yet.
  The runs are those in which the time-outs do what they are for: nobody takes the leader for failed, a
  STATE arrives before its sender's sleep ends, and when one is sent to a node, the entries that were
  sent to it before it was marked failed have arrived.
\<close>

theorem alive_logs_agree:
  assumes "reachable (timely_start n L l) (timely_step n L l) s"
    and "0 \<le> q" "q < n" "q \<noteq> L" and "node_alive (cl_messenger s L) q"
  shows "cl_log l s L = cl_log l s q @ log_lines (cl_net s L q) @ pending_line (cl_thread s)"
  using whole_cluster.reachable_holds [OF assms(1)] assms(2-5)
  by (simp add: cluster_inv_def alive_agree_def)

definition demo_cluster :: cluster where
  "demo_cluster =
     \<lparr>cl_failure = \<lparr>fs_now = 0, fs_nodes = (\<lambda>p. failure_init (messenger_start p 2) 0 Map.empty),
        fs_net = (\<lambda>_ _. []), fs_started = [], fs_begun = [], fs_asleep = None\<rparr>,
      cl_context = (\<lambda>_. consensus_context_init), cl_maxRoundId = (\<lambda>_. -1), cl_net = (\<lambda>_ _. []),
      cl_thread = Idle\<rparr>"

definition demo_leader_node :: failure_state where
  "demo_leader_node = (failure_init (messenger_start 0 2) 0 Map.empty)
     \<lparr>f_clientConn := Held_By_Client, f_files := log_append (demo_logs 0) ''x'' Map.empty\<rparr>"

text \<open>The leader has logged and announced an entry, and the other node has not handled anything yet.\<close>

lemma demo_cluster_start: "timely_start 2 0 demo_logs demo_cluster"
proof -
  have inv: "failure_inv (failure_init (messenger_start p 2) 0 Map.empty)" if "0 \<le> p" "p < 2" for p
    using that by (rule failure_inv_init)
  then have "node_ok 2 p (cl_node demo_cluster p)" if "0 \<le> p" "p < 2" for p
    using that by (simp add: node_ok_def demo_cluster_def failure_init_def messenger_start_def Let_def)
  moreover have "cl_log demo_logs demo_cluster p = []" for p
    by (simp add: fs_log_def demo_cluster_def failure_init_def Let_def log_read_def)
  moreover have "failure_system_start 0 (cl_failure demo_cluster)"
    using inv [of 0] by (simp add: failure_system_start_def demo_cluster_def ns_per_second_def)
      (simp add: failure_init_def messenger_start_def Let_def)
  moreover have "cl_net demo_cluster = (\<lambda>_ _. [])" "cl_thread demo_cluster = Idle"
    "c_roundId (cl_context demo_cluster 0) = -1"
    by (simp_all add: demo_cluster_def consensus_context_init_def)
  ultimately have "cluster_start 2 0 demo_logs demo_cluster"
    unfolding cluster_start_def by simp
  moreover have "timely 2 0 demo_cluster"
    by (simp add: timely_def demo_cluster_def failure_init_def messenger_start_def Let_def node_alive_def
        node_status_index_def)
  ultimately show ?thesis by blast
qed

lemma demo_run:
  "\<exists>s x. reachable (timely_start 2 0 demo_logs) (timely_step 2 0 demo_logs) s \<and> cl_thread s = Idle \<and>
     json_text [(''roundId'', JInt 0), (''value'', JString ''x'')] = Inr x \<and>
     cl_failure s = set_node 0 demo_leader_node (cl_failure demo_cluster) \<and>
     cl_context s = cl_context demo_cluster \<and> cl_maxRoundId s = cl_maxRoundId demo_cluster \<and>
     cl_net s 0 1 = round_messages x"
proof -
  let ?st = "cl_node demo_cluster 0" and ?f = "cl_failure demo_cluster"
  define s1 where "s1 = demo_cluster\<lparr>cl_failure := set_node 0 (?st\<lparr>f_clientConn := Held_By_Client\<rparr>) ?f\<rparr>"
  have "disallowRecovery ?st = Some (?st\<lparr>f_clientConn := Held_By_Client\<rparr>)"
    by (simp add: disallowRecovery_def demo_cluster_def failure_init_def Let_def)
  from fs_enter [where L = 0 and l = demo_logs, OF this]
  have "quiet_step 0 demo_logs ?f (cl_failure s1)"
    by (simp add: quiet_step_def s1_def fs_log_def set_node_def)
  then have step: "cluster_step 0 demo_logs demo_cluster s1"
    using cl_other [of 0 demo_logs demo_cluster "cl_failure s1"] by (simp add: s1_def demo_cluster_def)
  have timely: "timely 2 0 s1"
    by (rule timely_frame [OF demo_cluster_start [THEN conjunct2]])
      (simp_all add: s1_def set_node_def demo_cluster_def)
  have r1: "reachable (timely_start 2 0 demo_logs) (timely_step 2 0 demo_logs) s1"
    by (rule reachable_step [OF reachable_start [of "timely_start 2 0 demo_logs", OF demo_cluster_start]])
      (use step timely in blast)
  obtain x where x: "json_text [(''roundId'', JInt 0), (''value'', JString ''x'')] = Inr x"
    using json_text_round_value_ok [of "''x''" 0] by (auto simp: valid_utf8_plain plain_char_def)
  have "node_ok 2 0 (cl_node demo_cluster 0)"
    using demo_cluster_start unfolding cluster_start_def by blast
  then have node: "node_ok 2 0 (cl_node s1 0)"
    by (simp add: s1_def set_node_def node_ok_def failure_inv_def)
  have alone: "majority_reached (cl_messenger s1 0) 0" "cl_thread s1 = Idle"
    "f_clientConn (cl_node s1 0) = Held_By_Client" "cl_context s1 0 = consensus_context_init"
    "no_state (fs_net (cl_failure s1) 0 q)" "node_alive (cl_messenger s1 0) 1" for q
    by (simp_all add: s1_def set_node_def demo_cluster_def majority_reached_def failure_init_def
        messenger_start_def Let_def node_alive_def node_status_index_def)
  from round_alone [OF alone(2-4,1) x node timely alone(5), of demo_logs] alone(6)
  obtain t where t: "(timely_step 2 0 demo_logs)\<^sup>*\<^sup>* s1 t" "cl_thread t = Idle"
    "cl_failure t = set_node 0 ((cl_node s1 0)\<lparr>f_files := log_append (demo_logs 0) ''x''
      (f_files (cl_node s1 0))\<rparr>) (cl_failure s1)"
    "cl_context t = cl_context s1" "cl_maxRoundId t = cl_maxRoundId s1"
    "cl_net t 0 1 = cl_net s1 0 1 @ round_messages x"
    by fastforce
  have "cl_failure t = set_node 0 demo_leader_node ?f"
    unfolding t(3)
    by (simp add: s1_def set_node_def demo_leader_node_def demo_cluster_def failure_init_def Let_def)
  with t x cluster_run_reachable [OF t(1) r1] show ?thesis
    by (intro exI [of _ t] exI [of _ x]) (simp add: s1_def demo_cluster_def)
qed

theorem alive_logs_agree_witness:
  "\<exists>s. reachable (timely_start 2 0 demo_logs) (timely_step 2 0 demo_logs) s \<and>
     node_alive (cl_messenger s 0) 1 \<and> cl_log demo_logs s 0 = ''x'' @ newline \<and> cl_log demo_logs s 1 = [] \<and>
     cl_log demo_logs s 0 = cl_log demo_logs s 1 @ log_lines (cl_net s 0 1) @ pending_line (cl_thread s)"
proof -
  from demo_run obtain s where s: "reachable (timely_start 2 0 demo_logs) (timely_step 2 0 demo_logs) s"
    "cl_failure s = set_node 0 demo_leader_node (cl_failure demo_cluster)" by blast
  have alive: "node_alive (cl_messenger s 0) 1"
    by (simp add: s(2) set_node_def demo_leader_node_def failure_init_def messenger_start_def Let_def
        node_alive_def node_status_index_def)
  moreover have "cl_log demo_logs s 0 = ''x'' @ newline" "cl_log demo_logs s 1 = []"
    by (simp_all add: s(2) fs_log_def set_node_def demo_leader_node_def demo_cluster_def failure_init_def Let_def
        log_read_def log_append_def writeWithMode_def demo_logs_def)
  ultimately show ?thesis using alive_logs_agree [OF s(1), of 1] s(1) by auto
qed


lemma reachable_mono:
  assumes "reachable start step s" and "\<And>s. start s \<Longrightarrow> start' s" and "\<And>s t. step s t \<Longrightarrow> step' s t"
  shows "reachable start' step' s"
  using assms(1) by (induction rule: reachable.induct) (auto intro: reachable_start reachable_step assms(2,3))

text \<open>
  The client leaves, the other node is silent for two seconds, a failure thread of the leader marks it
  failed, and its next ping arrives.
\<close>

lemma demo_silence:
  "\<exists>f. (quiet_step 0 demo_logs)\<^sup>*\<^sup>* (set_node 0 demo_leader_node (cl_failure demo_cluster)) f \<and>
     failure_system_start 0 f \<and> fs_now f = 2 * ns_per_second \<and> f_size (fs_nodes f 0) = 2 \<and>
     f_isAlive (fs_nodes f 0) = [False] \<and> f_timeStamps (fs_nodes f 0) = [2 * ns_per_second] \<and>
     fs_log demo_logs f 0 = ''x'' @ newline \<and> fs_nodes f 1 = cl_node demo_cluster 1"
proof -
  let ?ping = "setMessage (2 * ns_per_second) (Failure_Code PING)"
  define f0 where "f0 = set_node 0 demo_leader_node (cl_failure demo_cluster)"
  define n1 where "n1 = demo_leader_node\<lparr>f_clientConn := Free\<rparr>"
  define n3 where "n3 = n1\<lparr>f_isAlive := [False], f_messenger := (f_messenger n1)\<lparr>m_processIsAlive := [False]\<rparr>\<rparr>"
  define n5 where "n5 = n3\<lparr>f_timeStamps := [2 * ns_per_second]\<rparr>"
  define f1 where "f1 = set_node 0 n1 f0"
  define f2 where "f2 = f1\<lparr>fs_now := 2 * ns_per_second\<rparr>"
  define f3 where "f3 = set_node 0 n3 f2"
  define f4 where "f4 = f3\<lparr>fs_net := enqueue 1 [(0, ?ping)] (fs_net f3)\<rparr>"
  define f5 where "f5 = (set_node 0 n5 f4)\<lparr>fs_net := enqueue 0 (failure_sends [])
    ((fs_net f4)(1 := (fs_net f4 1)(0 := [])))\<rparr>"
  note nodes = n1_def n3_def n5_def demo_leader_node_def failure_init_def messenger_start_def Let_def
  note defs = f0_def f1_def f2_def f3_def f4_def f5_def set_node_def demo_cluster_def
  have "failure_step 0 demo_logs f0 f1"
    unfolding f1_def by (rule fs_leave) (simp add: defs nodes allowRecovery_def)
  then have 1: "quiet_step 0 demo_logs f0 f1" by (simp add: quiet_step_def fs_log_def defs nodes)
  have "failure_step 0 demo_logs f1 f2"
    unfolding f2_def by (rule fs_tick) (simp_all add: defs ns_per_second_def)
  then have 2: "quiet_step 0 demo_logs f1 f2" by (simp add: quiet_step_def fs_log_def defs)
  have "handleNodeFailure 0 0 (fs_nodes f2 0) = Inr (n3, False)"
    by (simp add: handleNodeFailure_def defs nodes setNodeStatus_def vec_set_def indexToId_def)
  from fs_failure [where L = 0 and l = demo_logs, OF this] have 3: "quiet_step 0 demo_logs f2 f3"
    by (simp add: quiet_step_def fs_log_def f3_def) (simp add: defs nodes)
  have "broadcastPing (f_messenger (fs_nodes f3 1)) (fs_now f3) = [(0, ?ping)]"
    by (simp add: broadcastPing_def broadcast_sends_def broadcast_targets_def defs nodes upto_rec1)
  then have 4: "quiet_step 0 demo_logs f3 f4"
    using fs_ping [of 0 demo_logs f3 1] by (simp add: quiet_step_def fs_log_def f4_def)
  have net: "fs_net f4 1 0 = ?ping # []" by (simp add: enqueue_def defs)
  have "failure_handleMessage (demo_logs 0) (fs_now f4) (fs_now f4) 0 1 ?ping (fs_nodes f4 0) = Inr (n5, [])"
    by (simp add: failure_handleMessage_eq [OF refl] setMessage_def setMessage_data_def handlePing_def
        defs nodes vec_set_def idToIndex_def)
  from fs_handle [where L = 0 and l = demo_logs, OF net this] have 5: "quiet_step 0 demo_logs f4 f5"
    by (simp add: quiet_step_def fs_log_def f5_def) (simp add: defs nodes)
  have "(quiet_step 0 demo_logs)\<^sup>*\<^sup>* f0 f5"
    using steps_along [of "quiet_step 0 demo_logs" f0 "[f1, f2, f3, f4, f5]"] 1 2 3 4 5 by simp
  moreover have "fs_net f5 = (\<lambda>_ _. [])"
    by (simp add: defs enqueue_def failure_sends_def fun_eq_iff)
  moreover have "failure_inv n5" by (simp add: failure_inv_def messenger_wf_def nodes)
  ultimately have "(quiet_step 0 demo_logs)\<^sup>*\<^sup>* f0 f5 \<and> failure_system_start 0 f5"
    by (simp add: failure_system_start_def) (simp add: defs nodes ns_per_second_def)
  then show ?thesis
    unfolding f0_def [symmetric]
    by (intro exI [of _ f5]) (simp add: defs nodes fs_log_def log_read_def log_append_def writeWithMode_def demo_logs_def)
qed


end
