(* ===== verification/Cluster_Failover.thy ===== *)
theory Cluster_Failover
  imports Cluster_Runs
begin

text \<open>
  A change of the leader: what becomes of an entry that the old leader has logged, announced and answered for,
  when the node that leads next has not handled the announcement before it takes the old leader for failed.
\<close>

declare code_int.simps [simp del]

section \<open>Messages of a failed node\<close>

text \<open>A node takes the messages of a node it has marked as failed out of the channel and drops them.\<close>

lemma channel_dropped:
  assumes "dropped (cl_messenger s q) p"
  shows "(cluster_step L l)\<^sup>*\<^sup>* s (s\<lparr>cl_net := (cl_net s)(p := (cl_net s p)(q := []))\<rparr>)"
  using assms
proof (induction "cl_net s p q" arbitrary: s)
  case Nil
  then have same: "(cl_net s)(p := (cl_net s p)(q := [])) = cl_net s" by (auto simp: fun_eq_iff)
  show ?case unfolding same by simp
next
  case (Cons msg rest)
  have step: "cluster_step L l s (take_message p q s)"
    using Cons.hyps(2) [symmetric] Cons.prems by (rule cl_drop)
  have "rest = cl_net (take_message p q s) p q"
    using Cons.hyps(2) [symmetric] by (simp add: take_message_def)
  from Cons.hyps(1) [OF this] Cons.prems have "(cluster_step L l)\<^sup>*\<^sup>* (take_message p q s)
      ((take_message p q s)\<lparr>cl_net := (cl_net (take_message p q s))(p := (cl_net (take_message p q s) p)(q := []))\<rparr>)"
    by (simp add: take_message_def)
  with step show ?case
    using converse_rtranclp_into_rtranclp [of "cluster_step L l" s] by (simp add: take_message_def)
qed


section \<open>A run\<close>

text \<open>
  The leader's client leaves, the other node does not hear the leader for two seconds, marks it as failed, and
  then gets its next ping.
\<close>

lemma demo_leader_failed:
  "\<exists>f. (quiet_step 0 demo_logs)\<^sup>*\<^sup>* (set_node 0 demo_leader_node (cl_failure demo_cluster)) f \<and>
     failure_system_start 1 f \<and> fs_now f = 2 * ns_per_second \<and> f_size (fs_nodes f 1) = 2 \<and>
     f_isAlive (fs_nodes f 1) = [False] \<and> f_timeStamps (fs_nodes f 1) = [2 * ns_per_second] \<and>
     fs_log demo_logs f 1 = [] \<and> fs_log demo_logs f 0 = ''x'' @ newline \<and>
     m_processIsAlive (f_messenger (fs_nodes f 1)) = [False] \<and> m_rank (f_messenger (fs_nodes f 1)) = 1"
proof -
  let ?ping = "setMessage (2 * ns_per_second) (Failure_Code PING)"
  define f0 where "f0 = set_node 0 demo_leader_node (cl_failure demo_cluster)"
  define n1 where "n1 = demo_leader_node\<lparr>f_clientConn := Free\<rparr>"
  define m0 where "m0 = failure_init (messenger_start 1 2) 0 Map.empty"
  define m3 where "m3 = m0\<lparr>f_isAlive := [False], f_messenger := (f_messenger m0)\<lparr>m_processIsAlive := [False]\<rparr>\<rparr>"
  define m5 where "m5 = m3\<lparr>f_timeStamps := [2 * ns_per_second]\<rparr>"
  define f1 where "f1 = set_node 0 n1 f0"
  define f2 where "f2 = f1\<lparr>fs_now := 2 * ns_per_second\<rparr>"
  define f3 where "f3 = set_node 1 m3 f2"
  define f4 where "f4 = f3\<lparr>fs_net := enqueue 0 [(1, ?ping)] (fs_net f3)\<rparr>"
  define f5 where "f5 = (set_node 1 m5 f4)\<lparr>fs_net := enqueue 1 (failure_sends [])
    ((fs_net f4)(0 := (fs_net f4 0)(1 := [])))\<rparr>"
  note nodes = n1_def m0_def m3_def m5_def demo_leader_node_def failure_init_def messenger_start_def Let_def
  note defs = f0_def f1_def f2_def f3_def f4_def f5_def set_node_def demo_cluster_def
  have "failure_step 0 demo_logs f0 f1"
    unfolding f1_def by (rule fs_leave) (simp add: defs nodes allowRecovery_def)
  then have 1: "quiet_step 0 demo_logs f0 f1" by (simp add: quiet_step_def fs_log_def defs nodes)
  have "failure_step 0 demo_logs f1 f2"
    unfolding f2_def by (rule fs_tick) (simp_all add: defs ns_per_second_def)
  then have 2: "quiet_step 0 demo_logs f1 f2" by (simp add: quiet_step_def fs_log_def defs)
  have "handleNodeFailure 0 0 (fs_nodes f2 1) = Inr (m3, True)"
    by (simp add: handleNodeFailure_def defs nodes setNodeStatus_def vec_set_def indexToId_def)
  from fs_failure [where L = 0 and l = demo_logs, OF this] have 3: "quiet_step 0 demo_logs f2 f3"
    by (simp add: quiet_step_def fs_log_def f3_def) (simp add: defs nodes)
  have "broadcastPing (f_messenger (fs_nodes f3 0)) (fs_now f3) = [(1, ?ping)]"
    by (simp add: broadcastPing_def broadcast_sends_def broadcast_targets_def defs nodes upto_rec1)
  then have 4: "quiet_step 0 demo_logs f3 f4"
    using fs_ping [of 0 demo_logs f3 0] by (simp add: quiet_step_def fs_log_def f4_def)
  have net: "fs_net f4 0 1 = ?ping # []" by (simp add: enqueue_def defs)
  have "failure_handleMessage (demo_logs 1) (fs_now f4) (fs_now f4) 0 0 ?ping (fs_nodes f4 1) = Inr (m5, [])"
    by (simp add: failure_handleMessage_eq [OF refl] setMessage_def setMessage_data_def handlePing_def
        defs nodes vec_set_def idToIndex_def)
  from fs_handle [where L = 0 and l = demo_logs, OF net this] have 5: "quiet_step 0 demo_logs f4 f5"
    by (simp add: quiet_step_def fs_log_def f5_def) (simp add: defs nodes)
  have "(quiet_step 0 demo_logs)\<^sup>*\<^sup>* f0 f5"
    using steps_along [of "quiet_step 0 demo_logs" f0 "[f1, f2, f3, f4, f5]"] 1 2 3 4 5 by simp
  moreover have "fs_net f5 = (\<lambda>_ _. [])"
    by (simp add: defs enqueue_def failure_sends_def fun_eq_iff)
  moreover have "failure_inv m5" by (simp add: failure_inv_def messenger_wf_def nodes)
  ultimately have "(quiet_step 0 demo_logs)\<^sup>*\<^sup>* f0 f5 \<and> failure_system_start 1 f5"
    by (simp add: failure_system_start_def) (simp add: defs nodes ns_per_second_def)
  then show ?thesis
    unfolding f0_def [symmetric]
    by (intro exI [of _ f5]) (simp add: defs nodes fs_log_def log_read_def log_append_def writeWithMode_def demo_logs_def)
qed


end
