(* ===== verification/Consensus_Calls.thy ===== *)
theory Consensus_Calls
  imports Consensus_System
begin

text \<open>
  The two models of the proposing thread agree: \<open>startConsensus\<close> is one call with the messages its node handles
  in the gaps between its blocks as an argument, \<open>Consensus_System\<close> has every block as a step among those of the
  whole cluster. Each round of the cluster is a call.
\<close>

section \<open>What a node handles\<close>

definition handled :: "messenger \<Rightarrow> log_file_manager \<Rightarrow> consensus_state \<Rightarrow> consensus_state \<Rightarrow> bool" where
  "handled m l st st' \<longleftrightarrow> (\<exists>ms out. consensus_handle_all m l ms st = Inr (st', out))"

lemma handledI: "consensus_handle_all m l ms st = Inr (st', out) \<Longrightarrow> handled m l st st'"
  by (auto simp: handled_def)

lemma handled_refl [simp, intro]: "handled m l st st"
  by (rule handledI [of _ _ "[]"]) simp

lemma consensus_handle_all_append:
  assumes "consensus_handle_all m l ms st = Inr (st', out)" and "consensus_handle_all m l ms' st' = Inr (st'', out')"
  shows "consensus_handle_all m l (ms @ ms') st = Inr (st'', out @ out')"
  using assms by (induction m l ms st arbitrary: out rule: consensus_handle_all.induct) auto

lemma handled_step:
  assumes "handled m l st st'" and "consensus_handleMessage m l wtime src msg st' = Inr (st'', out)"
  shows "handled m l st st''"
proof -
  obtain ms out' where "consensus_handle_all m l ms st = Inr (st', out')" using assms(1) by (auto simp: handled_def)
  with assms(2) show ?thesis
    using consensus_handle_all_append [of m l ms st st' out' "[(wtime, src, msg)]"]
    by (intro handledI [of _ _ "ms @ [(wtime, src, msg)]"]) simp
qed

section \<open>The states of a round\<close>

text \<open>What the node's state can be at each point of the thread, from the state \<open>st0\<close> the call begins in.\<close>

definition promised_at :: "messenger \<Rightarrow> log_file_manager \<Rightarrow> consensus_state \<Rightarrow> consensus_state \<Rightarrow> bool" where
  "promised_at m l st0 st \<longleftrightarrow>
     (\<exists>wtime. handled m l (st0\<lparr>cs_context := fst (broadcastPrepare m wtime (cs_context st0))\<rparr>) st)"

definition proposed_at :: "messenger \<Rightarrow> log_file_manager \<Rightarrow> consensus_state \<Rightarrow> consensus_state \<Rightarrow> bool" where
  "proposed_at m l st0 st \<longleftrightarrow>
     (\<exists>st1. promised_at m l st0 st1 \<and> receivePromises m (cs_context st1) \<and> handled m l st1 st)"

definition accepts_at :: "messenger \<Rightarrow> log_file_manager \<Rightarrow> string \<Rightarrow> consensus_state \<Rightarrow> consensus_state \<Rightarrow> bool" where
  "accepts_at m l v st0 st \<longleftrightarrow>
     (\<exists>st1 wtime. proposed_at m l st0 st1 \<and> is_ok (broadcastPropose m wtime v (cs_context st1)) \<and> handled m l st1 st)"

definition accepted_at :: "messenger \<Rightarrow> log_file_manager \<Rightarrow> string \<Rightarrow> consensus_state \<Rightarrow> consensus_state \<Rightarrow> bool" where
  "accepted_at m l v st0 st \<longleftrightarrow>
     (\<exists>st1. accepts_at m l v st0 st1 \<and> receiveAccepts m (cs_context st1) \<and> handled m l st1 st)"

definition appended_at :: "messenger \<Rightarrow> log_file_manager \<Rightarrow> string \<Rightarrow> consensus_state \<Rightarrow> consensus_state \<Rightarrow> bool" where
  "appended_at m l v st0 st \<longleftrightarrow>
     (\<exists>st1. accepted_at m l v st0 st1 \<and> handled m l (st1\<lparr>cs_files := log_append l v (cs_files st1)\<rparr>) st)"

text \<open>At the end, with the result of the call.\<close>

definition ended_at :: "messenger \<Rightarrow> log_file_manager \<Rightarrow> string \<Rightarrow> consensus_state \<Rightarrow> bool \<Rightarrow> consensus_state \<Rightarrow> bool" where
  "ended_at m l v st0 reached st \<longleftrightarrow>
     (if reached then
        (\<exists>st1 wtime. appended_at m l v st0 st1 \<and> is_ok (broadcastAccepted m wtime v (cs_context st1)) \<and> handled m l st1 st)
      else
        (\<exists>st1. promised_at m l st0 st1 \<and> \<not> receivePromises m (cs_context st1) \<and> handled m l st1 st) \<or>
        (\<exists>st1. accepts_at m l v st0 st1 \<and> \<not> receiveAccepts m (cs_context st1) \<and> handled m l st1 st))"

fun in_round :: "messenger \<Rightarrow> log_file_manager \<Rightarrow> string \<Rightarrow> consensus_state \<Rightarrow> proposer \<Rightarrow> consensus_state \<Rightarrow> bool" where
  "in_round m l v st0 Idle st \<longleftrightarrow> False"
| "in_round m l v st0 (Await_Promises u) st \<longleftrightarrow> u = v \<and> promised_at m l st0 st"
| "in_round m l v st0 (Propose u) st \<longleftrightarrow> u = v \<and> proposed_at m l st0 st"
| "in_round m l v st0 (Await_Accepts u) st \<longleftrightarrow> u = v \<and> accepts_at m l v st0 st"
| "in_round m l v st0 (Append u) st \<longleftrightarrow> u = v \<and> accepted_at m l v st0 st"
| "in_round m l v st0 (Announce u) st \<longleftrightarrow> u = v \<and> appended_at m l v st0 st"
| "in_round m l v st0 Reset st \<longleftrightarrow> (\<exists>reached. ended_at m l v st0 reached st)"

lemmas round_defs = promised_at_def proposed_at_def accepts_at_def accepted_at_def appended_at_def ended_at_def

text \<open>The receiver's thread handles a message.\<close>

lemma points_handle:
  assumes "consensus_handleMessage m l wtime src msg st = Inr (st', out)"
  shows "promised_at m l st0 st \<Longrightarrow> promised_at m l st0 st'" "proposed_at m l st0 st \<Longrightarrow> proposed_at m l st0 st'"
    "accepts_at m l v st0 st \<Longrightarrow> accepts_at m l v st0 st'" "accepted_at m l v st0 st \<Longrightarrow> accepted_at m l v st0 st'"
    "appended_at m l v st0 st \<Longrightarrow> appended_at m l v st0 st'"
    "ended_at m l v st0 reached st \<Longrightarrow> ended_at m l v st0 reached st'"
proof -
  have h: "handled m l st1 st \<Longrightarrow> handled m l st1 st'" for st1 by (rule handled_step [OF _ assms])
  show "promised_at m l st0 st \<Longrightarrow> promised_at m l st0 st'" unfolding promised_at_def using h by blast
  show "proposed_at m l st0 st \<Longrightarrow> proposed_at m l st0 st'" unfolding proposed_at_def using h by blast
  show "accepts_at m l v st0 st \<Longrightarrow> accepts_at m l v st0 st'" unfolding accepts_at_def using h by blast
  show "accepted_at m l v st0 st \<Longrightarrow> accepted_at m l v st0 st'" unfolding accepted_at_def using h by blast
  show "appended_at m l v st0 st \<Longrightarrow> appended_at m l v st0 st'" unfolding appended_at_def using h by blast
  show "ended_at m l v st0 reached st \<Longrightarrow> ended_at m l v st0 reached st'"
    unfolding ended_at_def using h by (cases reached) (simp, blast, simp, blast)
qed

lemma in_round_handles:
  assumes "in_round m l v st0 th st" and "consensus_handleMessage m l wtime src msg st = Inr (st', out)"
  shows "in_round m l v st0 th st'"
  using assms(1) points_handle [OF assms(2)] by (cases th) (simp_all, blast+)

section \<open>The cluster's steps\<close>

text \<open>A step of the cluster within a round of \<open>L\<close> leaves the node in the round.\<close>

lemma in_round_step:
  assumes step: "consensus_step n ls L s t" and busy: "sys_thread t \<noteq> Idle"
    and round: "in_round (messenger_start L n) (ls L) v st0 (sys_thread s) (sys_nodes s L)"
  shows "in_round (messenger_start L n) (ls L) v st0 (sys_thread t) (sys_nodes t L)"
  using step
proof (cases rule: consensus_step.cases)
  case (deliver src dst msg rest wtime st' out)
  then show ?thesis using round in_round_handles [OF round] by auto
next
  case (promised u)
  with round show ?thesis by (auto simp: proposed_at_def ended_at_def sys_context_def)
next
  case (propose u wtime out)
  with round show ?thesis by (auto simp: accepts_at_def sys_context_def is_ok_iff)
next
  case (accepted u)
  with round show ?thesis by (auto simp: accepted_at_def ended_at_def sys_context_def)
next
  case (append u)
  with round show ?thesis by (auto simp: appended_at_def)
next
  case (announce u wtime out)
  with round have "ended_at (messenger_start L n) (ls L) v st0 True (sys_nodes s L)"
    by (auto simp: ended_at_def sys_context_def is_ok_iff)
  with announce show ?thesis by auto
qed (use round busy in simp_all)

text \<open>The end of a round is the end of a call.\<close>

lemma accepts_at_call:
  assumes "accepts_at m l v st0 st4"
  obtains w1 ms1 o1 st2 w2 ms2 o2 st3 o3 ms3 o4 where
    "consensus_handle_all m l ms1 (st0\<lparr>cs_context := fst (broadcastPrepare m w1 (cs_context st0))\<rparr>) = Inr (st2, o1)"
    "receivePromises m (cs_context st2)" "consensus_handle_all m l ms2 st2 = Inr (st3, o2)"
    "broadcastPropose m w2 v (cs_context st3) = Inr o3" "consensus_handle_all m l ms3 st3 = Inr (st4, o4)"
  using assms unfolding accepts_at_def proposed_at_def promised_at_def handled_def is_ok_iff by blast

lemma ended_at_call:
  assumes "ended_at m l v st0 reached st"
  shows "\<exists>w1 w2 w3 sch out. startConsensus m l w1 w2 w3 sch v st0 = Inr (st\<lparr>cs_context := consensus_context_init\<rparr>, out, reached)"
proof -
  consider (logged) st5 st6 st7 w3 msA oA msB oB msR oR o5 where "reached" "accepts_at m l v st0 st5" "receiveAccepts m (cs_context st5)"
      "consensus_handle_all m l msA st5 = Inr (st6, oA)"
      "consensus_handle_all m l msB (st6\<lparr>cs_files := log_append l v (cs_files st6)\<rparr>) = Inr (st7, oB)"
      "broadcastAccepted m w3 v (cs_context st7) = Inr o5" "consensus_handle_all m l msR st7 = Inr (st, oR)"
    | (rejected) st5 msR oR where "\<not> reached" "accepts_at m l v st0 st5" "\<not> receiveAccepts m (cs_context st5)"
      "consensus_handle_all m l msR st5 = Inr (st, oR)"
    | (unpromised) w1 ms1 o1 st2 msR oR where "\<not> reached"
      "consensus_handle_all m l ms1 (st0\<lparr>cs_context := fst (broadcastPrepare m w1 (cs_context st0))\<rparr>) = Inr (st2, o1)"
      "\<not> receivePromises m (cs_context st2)" "consensus_handle_all m l msR st2 = Inr (st, oR)"
  proof (cases reached)
    case True
    with assms show ?thesis
      unfolding ended_at_def appended_at_def accepted_at_def handled_def is_ok_iff using logged by auto
  next
    case False
    with assms show ?thesis
      unfolding ended_at_def promised_at_def handled_def using rejected unpromised by auto
  qed
  then show ?thesis
  proof cases
    case logged
    from accepts_at_call [OF logged(2)] obtain w1 ms1 o1 st2 w2 ms2 o2 st3 o3 ms3 o4 where
      "consensus_handle_all m l ms1 (st0\<lparr>cs_context := fst (broadcastPrepare m w1 (cs_context st0))\<rparr>) = Inr (st2, o1)"
      "receivePromises m (cs_context st2)" "consensus_handle_all m l ms2 st2 = Inr (st3, o2)"
      "broadcastPropose m w2 v (cs_context st3) = Inr o3" "consensus_handle_all m l ms3 st3 = Inr (st5, o4)" .
    with logged have "startConsensus m l w1 w2 w3 \<lparr>sch_promises = ms1, sch_propose = ms2, sch_accepts = ms3,
        sch_append = msA, sch_accepted = msB, sch_reset = msR\<rparr> v st0 =
      Inr (st\<lparr>cs_context := consensus_context_init\<rparr>,
        snd (broadcastPrepare m w1 (cs_context st0)) @ o1 @ (o2 @ o3 @ o4 @ oA @ oB @ o5) @ oR, True)"
      by (simp add: startConsensus_def startConsensus_promised_def startConsensus_accept_def split_def)
    with logged(1) show ?thesis by simp blast
  next
    case rejected
    from accepts_at_call [OF rejected(2)] obtain w1 ms1 o1 st2 w2 ms2 o2 st3 o3 ms3 o4 where
      "consensus_handle_all m l ms1 (st0\<lparr>cs_context := fst (broadcastPrepare m w1 (cs_context st0))\<rparr>) = Inr (st2, o1)"
      "receivePromises m (cs_context st2)" "consensus_handle_all m l ms2 st2 = Inr (st3, o2)"
      "broadcastPropose m w2 v (cs_context st3) = Inr o3" "consensus_handle_all m l ms3 st3 = Inr (st5, o4)" .
    with rejected have "startConsensus m l w1 w2 0 \<lparr>sch_promises = ms1, sch_propose = ms2, sch_accepts = ms3,
        sch_append = [], sch_accepted = [], sch_reset = msR\<rparr> v st0 =
      Inr (st\<lparr>cs_context := consensus_context_init\<rparr>,
        snd (broadcastPrepare m w1 (cs_context st0)) @ o1 @ (o2 @ o3 @ o4) @ oR, False)"
      by (simp add: startConsensus_def startConsensus_promised_def startConsensus_accept_def split_def)
    with rejected(1) show ?thesis by simp blast
  next
    case unpromised
    then have "startConsensus m l w1 0 0 \<lparr>sch_promises = ms1, sch_propose = [], sch_accepts = [],
        sch_append = [], sch_accepted = [], sch_reset = msR\<rparr> v st0 =
      Inr (st\<lparr>cs_context := consensus_context_init\<rparr>, snd (broadcastPrepare m w1 (cs_context st0)) @ o1 @ oR, False)"
      by (simp add: startConsensus_def startConsensus_promised_def split_def)
    with unpromised(1) show ?thesis by simp blast
  qed
qed


text \<open>A round of two nodes, where no vote of the other one is needed.\<close>

lemma demo_round:
  fixes s0 s1 :: consensus_system
  defines "s0 \<equiv> fresh_system Map.empty"
    and "s1 \<equiv> (set_context 0 (consensus_context_init\<lparr>c_roundId := 0\<rparr>) (fresh_system Map.empty))
      \<lparr>sys_net := enqueue 0 (broadcast_sends (messenger_start 0 2) (setMessage 0 (Consensus_Code PREPARE))) (\<lambda>_ _. []),
       sys_thread := Await_Promises ''x''\<rparr>"
  shows "consensus_step 2 demo_logs 0 s0 s1 \<and>
    (\<exists>t' t. (\<lambda>a b. consensus_step 2 demo_logs 0 a b \<and> sys_thread b \<noteq> Idle)\<^sup>*\<^sup>* s1 t' \<and>
      consensus_step 2 demo_logs 0 t' t \<and> sys_thread t = Idle \<and> node_log demo_logs t 0 = ''x'' @ newline)"
proof -
  let ?step = "consensus_step 2 demo_logs 0" and ?m = "messenger_start 0 2"
  let ?busy = "\<lambda>a b. ?step a b \<and> sys_thread b \<noteq> Idle"
  let ?ctx = "consensus_context_init\<lparr>c_roundId := 0\<rparr>"
  obtain x where x: "json_text [(''roundId'', JInt 0), (''value'', JString ''x'')] = Inr x"
    using json_text_round_value_ok [of "''x''" 0] by (auto simp: valid_utf8_plain plain_char_def)
  let ?bc = "\<lambda>c. broadcast_sends ?m (setMessage_data 0 (Consensus_Code c) x)"
  define s2 where "s2 = s1\<lparr>sys_thread := Propose ''x''\<rparr>"
  define s3 where "s3 = s2\<lparr>sys_net := enqueue 0 (?bc PROPOSE) (sys_net s2), sys_thread := Await_Accepts ''x''\<rparr>"
  define s4 where "s4 = s3\<lparr>sys_thread := Append ''x''\<rparr>"
  define s5 where "s5 = s4\<lparr>sys_nodes := (sys_nodes s4)(0 := (sys_nodes s4 0)
      \<lparr>cs_files := log_append (demo_logs 0) ''x'' (cs_files (sys_nodes s4 0))\<rparr>), sys_thread := Announce ''x''\<rparr>"
  define s6 where "s6 = s5\<lparr>sys_net := enqueue 0 (?bc ACCEPTED) (sys_net s5), sys_thread := Reset\<rparr>"
  define s7 where "s7 = (set_context 0 consensus_context_init s6)\<lparr>sys_thread := Idle\<rparr>"
  note states = s2_def s3_def s4_def s5_def s6_def s7_def
  have start: "sys_thread s0 = Idle" "sys_net s0 = (\<lambda>_ _. [])" "sys_context s0 0 = consensus_context_init"
    by (simp_all add: s0_def fresh_system_def sys_context_def consensus_init_def)
  have vote: "receivePromises ?m ctx" "receiveAccepts ?m ctx" if "ctx = ?ctx" for ctx
    using that by (simp_all add: receivePromises_def receiveAccepts_def majority_reached_def
        messenger_start_def consensus_context_init_def)
  have ctx: "sys_context s1 0 = ?ctx" "sys_context s2 0 = ?ctx" "sys_context s3 0 = ?ctx" "sys_context s5 0 = ?ctx"
    by (simp_all add: states s1_def set_context_def sys_context_def)
  have id0: "generateUniqueId 0 = 0" by (simp add: generateUniqueId_def)
  have prep: "broadcastPrepare ?m 0 (sys_context s0 0) = (?ctx, broadcast_sends ?m (setMessage 0 (Consensus_Code PREPARE)))"
    by (simp add: broadcastPrepare_def start(3) Let_def id0)
  have "is_int32 (generateUniqueId 0)" by (simp add: id0 is_int32_def)
  from consensus_step.prepare [OF start(1) this prep, where v = "''x''" and ls = demo_logs]
  have 1: "?step s0 s1" by (simp add: s1_def start(2) s0_def [symmetric])
  have threads: "sys_thread s1 = Await_Promises ''x''" "sys_thread s2 = Propose ''x''" "sys_thread s3 = Await_Accepts ''x''"
    "sys_thread s4 = Append ''x''" "sys_thread s5 = Announce ''x''" "sys_thread s6 = Reset"
    by (simp_all add: states s1_def)
  have 2: "?busy s1 s2"
    using consensus_step.promised [OF threads(1), of 2 demo_logs 0] vote(1) [OF ctx(1)] threads(2) by (simp add: s2_def)
  have "broadcastPropose ?m 0 ''x'' (sys_context s2 0) = Inr (?bc PROPOSE)"
    by (simp add: broadcastPropose_def ctx(2) consensus_context_init_def x)
  then have 3: "?busy s2 s3"
    using consensus_step.propose [OF threads(2)] threads(3) by (simp add: s3_def)
  have 4: "?busy s3 s4"
    using consensus_step.accepted [OF threads(3), of 2 demo_logs 0] vote(2) [OF ctx(3)] threads(4) by (simp add: s4_def)
  have 5: "?busy s4 s5"
    using consensus_step.append [OF threads(4), of 2 demo_logs 0] threads(5) by (simp add: s5_def)
  have "broadcastAccepted ?m 0 ''x'' (sys_context s5 0) = Inr (?bc ACCEPTED)"
    by (simp add: broadcastAccepted_def ctx(4) consensus_context_init_def x)
  then have 6: "?busy s5 s6"
    using consensus_step.announce [OF threads(5)] threads(6) by (simp add: s6_def)
  have 7: "?step s6 s7"
    using consensus_step.reset [OF threads(6), of 2 demo_logs 0] by (simp add: s7_def)
  have "?busy\<^sup>*\<^sup>* s1 s6"
    using steps_along [of ?busy s1 "[s2, s3, s4, s5, s6]"] 2 3 4 5 6 by simp
  moreover have "sys_thread s7 = Idle" "node_log demo_logs s7 0 = ''x'' @ newline"
    by (simp_all add: states s1_def node_log_def set_context_def fresh_system_def consensus_init_def log_read_def
        log_append_def writeWithMode_def demo_logs_def)
  ultimately show ?thesis using 1 7 by blast
qed


end
