(* ===== verification/Json_Serializer.thy ===== *)
theory Json_Serializer
  imports Json_Utf8
begin

text \<open>
  The strings of the class \<open>serializer\<close> with its options and its buffer: \<open>dump_escaped\<close> collects its output in
  512 bytes that are written when fewer than 13 are left, can escape everything that is not ASCII, and can
  replace or leave out ill-formed UTF-8. With the options that \<open>json::dump()\<close> has it is the \<open>dump_escaped\<close> of
  \<open>Json_Dump\<close>.
\<close>

section \<open>The string buffer\<close>

datatype error_handler =
    Strict
  | Replace
  | Ignore

text \<open>
  \<open>es_buffer\<close>: the first \<open>bytes\<close> bytes of \<open>string_buffer\<close>, the rest is never read. \<open>es_last_accept\<close> and
  \<open>es_undumped\<close> are \<open>bytes_after_last_accept\<close> and \<open>undumped_chars\<close>.
\<close>

record escaper =
  es_out :: string
  es_buffer :: string
  es_last_accept :: nat
  es_undumped :: nat
  es_state :: nat
  es_codep :: nat

abbreviation string_buffer_size :: nat where
  "string_buffer_size \<equiv> 512"

text \<open>Stores \<open>t\<close>; \<open>n\<close> bytes are written, the terminator of \<open>snprintf\<close> included.\<close>

definition put_bytes :: "nat \<Rightarrow> string \<Rightarrow> escaper \<Rightarrow> escaper res" where
  "put_bytes n t e =
     (if length (es_buffer e) + n \<le> string_buffer_size
      then Inr (e\<lparr>es_buffer := es_buffer e @ t\<rparr>) else Inl Undefined_Behaviour)"

definition flush_buffer :: "escaper \<Rightarrow> escaper" where
  "flush_buffer e =
     (if string_buffer_size - length (es_buffer e) < 13
      then e\<lparr>es_out := es_out e @ es_buffer e, es_buffer := []\<rparr> else e)"

definition u_escape :: "nat \<Rightarrow> string" where
  "u_escape n = [backslash_char, CHR ''u''] @ hex4 n"

text \<open>What is stored for a complete code point whose last byte is \<open>c\<close>, and how many bytes that writes.\<close>

definition escape_text :: "bool \<Rightarrow> nat \<Rightarrow> char \<Rightarrow> nat \<times> string" where
  "escape_text ensure_ascii cp c =
     (if cp = 8 then (2, [backslash_char, CHR ''b''])
      else if cp = 9 then (2, [backslash_char, CHR ''t''])
      else if cp = 10 then (2, [backslash_char, CHR ''n''])
      else if cp = 12 then (2, [backslash_char, CHR ''f''])
      else if cp = 13 then (2, [backslash_char, CHR ''r''])
      else if cp = 34 then (2, [backslash_char, quote_char])
      else if cp = 92 then (2, [backslash_char, backslash_char])
      else if cp \<le> 31 \<or> ensure_ascii \<and> 127 \<le> cp then
        if cp \<le> 65535 then (7, u_escape cp)
        else (13, u_escape (55232 + cp div 1024) @ u_escape (56320 + cp mod 1024))
      else (1, [c]))"

definition replacement :: "bool \<Rightarrow> string" where
  "replacement ensure_ascii =
     (if ensure_ascii then backslash_char # ''ufffd'' else [CHR 0xEF, CHR 0xBF, CHR 0xBD])"

text \<open>
  A rejected byte, with \<open>replace\<close> or \<open>ignore\<close>: the bytes of the sequence that had begun are taken back.
\<close>

definition drop_sequence :: "error_handler \<Rightarrow> bool \<Rightarrow> escaper \<Rightarrow> escaper res" where
  "drop_sequence handler ensure_ascii e =
     (let e1 = e\<lparr>es_buffer := take (es_last_accept e) (es_buffer e)\<rparr> in
      if handler = Replace then
        res_bind (put_bytes (length (replacement ensure_ascii)) (replacement ensure_ascii) e1) (\<lambda>e2.
          let e3 = flush_buffer e2 in Inr (e3\<lparr>es_last_accept := length (es_buffer e3)\<rparr>))
      else Inr e1)"

text \<open>
  The loop over the string. On a byte that is rejected inside a sequence the index goes back by one, so that
  the byte is looked at again from the accepting state.
\<close>

function dump_escaped_loop :: "error_handler \<Rightarrow> bool \<Rightarrow> escaper \<Rightarrow> string \<Rightarrow> escaper res" where
  "dump_escaped_loop handler ensure_ascii e [] = Inr e"
| "dump_escaped_loop handler ensure_ascii e (c # s) =
     (case utf8_decode (es_state e) (es_codep e) (byte c) of (state, codep) \<Rightarrow>
        let e1 = e\<lparr>es_state := state, es_codep := codep\<rparr> in
        if state = 0 then
          (case escape_text ensure_ascii codep c of (n, t) \<Rightarrow>
             res_bind (put_bytes n t e1) (\<lambda>e2.
               let e3 = flush_buffer e2 in
               dump_escaped_loop handler ensure_ascii
                 (e3\<lparr>es_last_accept := length (es_buffer e3), es_undumped := 0\<rparr>) s))
        else if state = 1 then
          if handler = Strict then Inl Json_Invalid_Utf8
          else
            res_bind (drop_sequence handler ensure_ascii e1)
              (\<lambda>e2. dump_escaped_loop handler ensure_ascii (e2\<lparr>es_undumped := 0, es_state := 0\<rparr>)
                 (if es_undumped e > 0 then c # s else s))
        else
          res_bind (if ensure_ascii then Inr e1 else put_bytes 1 [c] e1) (\<lambda>e2.
            dump_escaped_loop handler ensure_ascii (e2\<lparr>es_undumped := es_undumped e2 + 1\<rparr>) s))"
  by pat_completeness auto
termination
  by (relation "measure (\<lambda>(handler, ensure_ascii, e, s). 2 * length s + (if es_undumped e > 0 then 1 else 0))")
    (auto split: if_splits)

declare dump_escaped_loop.simps [simp del]

text \<open>After the loop; what is written to the output stream.\<close>

definition serialize_end :: "error_handler \<Rightarrow> bool \<Rightarrow> escaper \<Rightarrow> string res" where
  "serialize_end handler ensure_ascii e =
     (if es_state e = 0 then Inr (es_out e @ es_buffer e)
      else
        let accepted = es_out e @ take (es_last_accept e) (es_buffer e) in
        (case handler of
           Strict \<Rightarrow> Inl Json_Invalid_Utf8
         | Ignore \<Rightarrow> Inr accepted
         | Replace \<Rightarrow> Inr (accepted @ replacement ensure_ascii)))"

definition serialize_string :: "error_handler \<Rightarrow> bool \<Rightarrow> string \<Rightarrow> string res" where
  "serialize_string handler ensure_ascii s =
     res_bind (dump_escaped_loop handler ensure_ascii
         \<lparr>es_out = [], es_buffer = [], es_last_accept = 0, es_undumped = 0, es_state = 0, es_codep = 0\<rparr> s)
       (serialize_end handler ensure_ascii)"

section \<open>The same without a buffer\<close>

text \<open>\<open>pend\<close> are the bytes of the sequence that has begun.\<close>

function escape_spec :: "error_handler \<Rightarrow> bool \<Rightarrow> nat \<Rightarrow> nat \<Rightarrow> string \<Rightarrow> string \<Rightarrow> string res" where
  "escape_spec handler ensure_ascii state codep pend [] =
     (if state = 0 then Inr []
      else case handler of
        Strict \<Rightarrow> Inl Json_Invalid_Utf8 | Ignore \<Rightarrow> Inr [] | Replace \<Rightarrow> Inr (replacement ensure_ascii))"
| "escape_spec handler ensure_ascii state codep pend (c # s) =
     (case utf8_decode state codep (byte c) of (state', codep') \<Rightarrow>
        if state' = 0 then
          res_bind (escape_spec handler ensure_ascii 0 codep' [] s) (\<lambda>t.
            Inr ((if ensure_ascii then [] else pend) @ snd (escape_text ensure_ascii codep' c) @ t))
        else if state' = 1 then
          if handler = Strict then Inl Json_Invalid_Utf8
          else
            res_bind (escape_spec handler ensure_ascii 0 codep' [] (if pend = [] then s else c # s)) (\<lambda>t.
              Inr ((if handler = Replace then replacement ensure_ascii else []) @ t))
        else escape_spec handler ensure_ascii state' codep' (pend @ [c]) s)"
  by pat_completeness auto
termination
  by (relation "measure (\<lambda>(handler, ensure_ascii, state, codep, pend, s). 2 * length s + (if pend = [] then 0 else 1))")
    (auto split: if_splits)

declare escape_spec.simps [simp del]

text \<open>How many bytes a sequence still needs at least, by the state of the automaton.\<close>

definition missing_bytes :: "nat \<Rightarrow> nat" where
  "missing_bytes state = (if state = 2 then 1 else if state \<in> {3, 4, 5} then 2 else 3)"

lemma utf8_states:
  assumes "state \<in> {0, 2, 3, 4, 5, 6, 7, 8}" and "utf8_decode state codep (byte c) = (state', codep')"
    and "state' \<noteq> 0" "state' \<noteq> 1"
  shows "state' \<in> {2, 3, 4, 5, 6, 7, 8} \<and> (state \<noteq> 0 \<longrightarrow> missing_bytes state' + 1 \<le> missing_bytes state)"
proof -
  have "byte c < 256" by simp
  note nxt = utf8_next_0 [OF this, of codep] utf8_next_cont [OF this, of codep]
  have state': "state' = fst (utf8_decode state codep (byte c))" using assms(2) by simp
  from assms(1) consider "state = 0" | "state = 2" | "state = 3" | "state = 4" | "state = 5" | "state = 6"
    | "state = 7" | "state = 8" by blast
  then show ?thesis
    using assms(3,4) nxt unfolding state'
    by cases (simp_all add: missing_bytes_def split: if_splits)
qed

definition escaper_ok :: "bool \<Rightarrow> string \<Rightarrow> string \<Rightarrow> escaper \<Rightarrow> bool" where
  "escaper_ok ensure_ascii accepted pend e \<longleftrightarrow>
     es_buffer e = accepted @ (if ensure_ascii then [] else pend) \<and> length accepted = es_last_accept e \<and>
     es_last_accept e \<le> 499 \<and> es_undumped e = length pend \<and>
     (es_state e = 0 \<and> pend = [] \<or>
      es_state e \<in> {2, 3, 4, 5, 6, 7, 8} \<and> pend \<noteq> [] \<and> length pend + missing_bytes (es_state e) \<le> 4)"

lemma escape_text_size: "fst (escape_text ensure_ascii cp c) \<le> (if ensure_ascii then 13 else 7)"
  by (simp add: escape_text_def)

lemma escape_text_length: "length (snd (escape_text ensure_ascii cp c)) \<le> fst (escape_text ensure_ascii cp c)"
  by (simp add: escape_text_def u_escape_def hex4_def)

text \<open>Flushing changes nothing but where the bytes are.\<close>

lemma flush_buffer_props:
  assumes "length (es_buffer e) \<le> string_buffer_size"
  shows "es_out (flush_buffer e) @ es_buffer (flush_buffer e) = es_out e @ es_buffer e \<and>
    length (es_buffer (flush_buffer e)) \<le> 499 \<and> es_state (flush_buffer e) = es_state e \<and>
    es_codep (flush_buffer e) = es_codep e \<and> es_undumped (flush_buffer e) = es_undumped e"
  using assms by (auto simp: flush_buffer_def)

lemma escaper_ok_accepted:
  assumes "length (es_buffer e) \<le> 499" and "es_state e = 0"
  shows "escaper_ok ensure_ascii (es_buffer e) [] (e\<lparr>es_last_accept := length (es_buffer e), es_undumped := 0\<rparr>)"
  using assms by (simp add: escaper_ok_def)

lemma serialize_accept:
  assumes ok: "escaper_ok ensure_ascii accepted pend e"
    and "escape_text ensure_ascii codep c = (n, t)"
  shows "\<exists>e2. put_bytes n t (e\<lparr>es_state := 0, es_codep := codep\<rparr>) = Inr e2 \<and>
    length (es_buffer e2) \<le> string_buffer_size \<and> es_state e2 = 0 \<and> es_codep e2 = codep \<and> es_out e2 = es_out e \<and>
    es_buffer e2 = accepted @ (if ensure_ascii then [] else pend) @ t"
proof -
  have "n \<le> (if ensure_ascii then 13 else 7)" "length t \<le> n"
    using assms(2) escape_text_size [of ensure_ascii codep c] escape_text_length [of ensure_ascii codep c]
    by simp_all
  moreover have "length pend \<le> 3"
    using ok by (auto simp: escaper_ok_def missing_bytes_def split: if_splits)
  ultimately show ?thesis
    using ok by (auto simp: escaper_ok_def put_bytes_def)
qed

lemma serialize_incomplete:
  assumes ok: "escaper_ok ensure_ascii accepted pend e"
    and d: "utf8_decode (es_state e) (es_codep e) (byte c) = (state, codep)" "state \<noteq> 0" "state \<noteq> 1"
  shows "\<exists>e2. (if ensure_ascii then Inr (e\<lparr>es_state := state, es_codep := codep\<rparr>)
      else put_bytes 1 [c] (e\<lparr>es_state := state, es_codep := codep\<rparr>)) = Inr e2 \<and>
    es_out e2 = es_out e \<and> es_state e2 = state \<and> es_codep e2 = codep \<and>
    escaper_ok ensure_ascii accepted (pend @ [c]) (e2\<lparr>es_undumped := es_undumped e2 + 1\<rparr>)"
proof -
  have "es_state e \<in> {0, 2, 3, 4, 5, 6, 7, 8}" using ok by (auto simp: escaper_ok_def)
  from utf8_states [OF this d] have st: "state \<in> {2, 3, 4, 5, 6, 7, 8}"
    "es_state e \<noteq> 0 \<longrightarrow> missing_bytes state + 1 \<le> missing_bytes (es_state e)" by blast+
  have "missing_bytes state \<le> 3" by (simp add: missing_bytes_def)
  then have "length (pend @ [c]) + missing_bytes state \<le> 4"
    using st(2) ok by (auto simp: escaper_ok_def)
  moreover from this have "length pend \<le> 2" by (simp add: missing_bytes_def split: if_splits)
  ultimately show ?thesis
    using ok st(1) by (auto simp: escaper_ok_def put_bytes_def)
qed

lemma serialize_reject:
  assumes ok: "escaper_ok ensure_ascii accepted pend e"
  shows "\<exists>e2 accepted'. drop_sequence handler ensure_ascii (e\<lparr>es_state := state, es_codep := codep\<rparr>) = Inr e2 \<and>
    es_codep e2 = codep \<and> escaper_ok ensure_ascii accepted' [] (e2\<lparr>es_undumped := 0, es_state := 0\<rparr>) \<and>
    es_out e2 @ accepted' = es_out e @ accepted @ (if handler = Replace then replacement ensure_ascii else [])"
proof -
  let ?e1 = "e\<lparr>es_state := state, es_codep := codep, es_buffer := accepted\<rparr>"
  have buf: "take (es_last_accept e) (es_buffer e) = accepted" "es_last_accept e = length accepted"
    "length accepted \<le> 499"
    using ok by (simp_all add: escaper_ok_def)
  show ?thesis
  proof (cases "handler = Replace")
    case True
    let ?r = "replacement ensure_ascii"
    let ?e3 = "?e1\<lparr>es_buffer := accepted @ ?r\<rparr>"
    have "length ?r \<le> 6" by (simp add: replacement_def)
    then have put: "put_bytes (length ?r) ?r ?e1 = Inr ?e3" and "length (es_buffer ?e3) \<le> string_buffer_size"
      using buf by (simp_all add: put_bytes_def)
    from flush_buffer_props [OF this(2)] put True buf show ?thesis
      by (intro exI [of _ "(flush_buffer ?e3)\<lparr>es_last_accept := length (es_buffer (flush_buffer ?e3))\<rparr>"]
          exI [of _ "es_buffer (flush_buffer ?e3)"]) (simp add: drop_sequence_def Let_def escaper_ok_def)
  next
    case False
    with buf show ?thesis
      by (intro exI [of _ ?e1] exI [of _ accepted]) (simp add: drop_sequence_def escaper_ok_def)
  qed
qed

lemma dump_escaped_loop_spec:
  assumes "escaper_ok ensure_ascii accepted pend e"
  shows "res_bind (dump_escaped_loop handler ensure_ascii e s) (serialize_end handler ensure_ascii) =
    res_bind (escape_spec handler ensure_ascii (es_state e) (es_codep e) pend s) (\<lambda>t. Inr (es_out e @ accepted @ t))"
  using assms
proof (induction handler ensure_ascii e s arbitrary: accepted pend rule: dump_escaped_loop.induct)
  case (1 handler ensure_ascii e)
  then show ?case
    by (auto simp: dump_escaped_loop.simps escape_spec.simps serialize_end_def escaper_ok_def
        split: error_handler.splits)
next
  case (2 handler ensure_ascii e c s)
  obtain state codep where d: "utf8_decode (es_state e) (es_codep e) (byte c) = (state, codep)"
    by (cases "utf8_decode (es_state e) (es_codep e) (byte c)")
  let ?e1 = "e\<lparr>es_state := state, es_codep := codep\<rparr>"
  consider "state = 0" | "state = 1" "handler = Strict" | "state = 1" "handler \<noteq> Strict"
    | "state \<noteq> 0" "state \<noteq> 1" by blast
  then show ?case
  proof cases
    case st: 1
    obtain n t where t: "escape_text ensure_ascii codep c = (n, t)"
      by (cases "escape_text ensure_ascii codep c")
    from serialize_accept [OF "2.prems" t] st obtain e2 where
      e2: "put_bytes n t ?e1 = Inr e2" "length (es_buffer e2) \<le> string_buffer_size" "es_state e2 = 0"
        "es_codep e2 = codep" "es_out e2 = es_out e"
        "es_buffer e2 = accepted @ (if ensure_ascii then [] else pend) @ t" by auto
    let ?e3 = "flush_buffer e2"
    note fl = flush_buffer_props [OF e2(2)]
    have "escaper_ok ensure_ascii (es_buffer ?e3) []
        (?e3\<lparr>es_last_accept := length (es_buffer ?e3), es_undumped := 0\<rparr>)"
      using fl e2(3) by (intro escaper_ok_accepted) simp_all
    from "2.IH"(1) [OF d [symmetric] refl st t [symmetric] e2(1) refl this]
    show ?thesis
      using d st t e2 fl
      by (subst dump_escaped_loop.simps, subst escape_spec.simps)
        (simp add: Let_def res_bind_assoc flip: append_assoc)
  next
    case 2
    with d show ?thesis
      by (subst dump_escaped_loop.simps, subst escape_spec.simps) simp
  next
    case st: 3
    from serialize_reject [OF "2.prems", where handler = handler and state = state and codep = codep] obtain e2 accepted' where
      e2: "drop_sequence handler ensure_ascii ?e1 = Inr e2" "es_codep e2 = codep"
        "escaper_ok ensure_ascii accepted' [] (e2\<lparr>es_undumped := 0, es_state := 0\<rparr>)"
        "es_out e2 @ accepted' = es_out e @ accepted @ (if handler = Replace then replacement ensure_ascii else [])"
      by blast
    have undumped: "0 < es_undumped e \<longleftrightarrow> pend \<noteq> []" using "2.prems" by (simp add: escaper_ok_def)
    have "state \<noteq> 0" using st(1) by simp
    note ih = "2.IH"(2) [OF d [symmetric] refl this st e2(1,3)]
    have "res_bind (dump_escaped_loop handler ensure_ascii e (c # s)) (serialize_end handler ensure_ascii) =
        res_bind (escape_spec handler ensure_ascii 0 codep [] (if 0 < es_undumped e then c # s else s))
          (\<lambda>t. Inr ((es_out e2 @ accepted') @ t))"
      using d st e2(1,2) ih by (subst dump_escaped_loop.simps) (simp add: Let_def)
    also have "\<dots> = res_bind (escape_spec handler ensure_ascii (es_state e) (es_codep e) pend (c # s))
        (\<lambda>t. Inr (es_out e @ accepted @ t))"
      using d st undumped unfolding e2(4)
      by (subst escape_spec.simps(2)) (simp add: res_bind_assoc)
    finally show ?thesis .
  next
    case st: 4
    from serialize_incomplete [OF "2.prems" d st] obtain e2 where
      e2: "(if ensure_ascii then Inr ?e1 else put_bytes 1 [c] ?e1) = Inr e2" "es_out e2 = es_out e"
        "es_state e2 = state" "es_codep e2 = codep"
        "escaper_ok ensure_ascii accepted (pend @ [c]) (e2\<lparr>es_undumped := es_undumped e2 + 1\<rparr>)" by blast
    from "2.IH"(3) [OF d [symmetric] refl st e2(1,5)] e2 d st
    show ?thesis
      by (subst dump_escaped_loop.simps, subst escape_spec.simps) (simp add: Let_def)
  qed
qed

lemma serialize_string_eq: "serialize_string handler ensure_ascii s = escape_spec handler ensure_ascii 0 0 [] s"
proof -
  let ?e = "\<lparr>es_out = [], es_buffer = [], es_last_accept = 0, es_undumped = 0, es_state = 0, es_codep = 0\<rparr>"
  have "escaper_ok ensure_ascii [] [] ?e" by (simp add: escaper_ok_def)
  from dump_escaped_loop_spec [OF this] show ?thesis
    by (simp add: serialize_string_def)
qed

section \<open>What is written\<close>

lemma escape_text_plain: "snd (escape_text False cp c) = escape_codepoint cp c"
  by (simp add: escape_text_def escape_codepoint_def u_escape_def)

text \<open>Strict and without escapes it is the serializer of \<open>Json_Dump\<close>.\<close>

lemma escape_spec_strict:
  "st = 0 \<longrightarrow> pend = [] \<Longrightarrow>
   escape_spec Strict False st cp pend s = res_bind (dump_escaped_from st cp s) (\<lambda>t. Inr (pend @ t))"
proof (induction s arbitrary: st cp pend)
  case Nil
  then show ?case by (simp add: escape_spec.simps)
next
  case (Cons c s)
  obtain st' cp' where d: "utf8_decode st cp (byte c) = (st', cp')" by (cases "utf8_decode st cp (byte c)")
  consider "st' = 0" | "st' = 1" | "st' \<noteq> 0" "st' \<noteq> 1" by blast
  then show ?case
    using d Cons.IH [of 0 "[]" cp'] Cons.IH [of st' "pend @ [c]" cp']
    by cases (simp_all add: escape_spec.simps(2) escape_text_plain res_bind_assoc)
qed

text \<open>With the other handlers nothing fails: the output is that of some well-formed string.\<close>

lemma escape_spec_repairs:
  assumes "handler \<noteq> Strict"
    and "\<forall>r. dump_escaped_from 0 0 (pend @ r) = res_bind (dump_escaped_from st cp r) (\<lambda>t. Inr (pend @ t))"
    and "st = 0 \<longrightarrow> pend = []"
  shows "\<exists>u t. escape_spec handler False st cp pend s = Inr t \<and> dump_escaped_from 0 0 u = Inr t"
  using assms
proof (induction handler False st cp pend s rule: escape_spec.induct)
  case (1 handler st cp pend)
  have "dump_escaped_from 0 0 [CHR 0xEF, CHR 0xBF, CHR 0xBD] = Inr [CHR 0xEF, CHR 0xBF, CHR 0xBD]"
    by (simp add: utf8_decode_def utf8_rows_def utf8_class_values escape_codepoint_def)
  moreover have "dump_escaped_from 0 0 [] = Inr []" by simp
  ultimately show ?case
    using "1.prems"(1) by (cases handler) (auto simp: escape_spec.simps(1) replacement_def simp del: dump_escaped_from.simps)
next
  case (2 handler st cp pend c s)
  obtain st' cp' where d: "utf8_decode st cp (byte c) = (st', cp')" by (cases "utf8_decode st cp (byte c)")
  consider "st' = 0" | "st' = 1" | "st' \<noteq> 0" "st' \<noteq> 1" by blast
  then show ?case
  proof cases
    case 1
    obtain u t where ut: "escape_spec handler False 0 cp' [] s = Inr t" "dump_escaped_from 0 0 u = Inr t"
      using "2.hyps"(1) [OF d [symmetric] 1 "2.prems"(1)] by (auto simp: dump_escaped_state0 [of cp'] intro: res_bind_Inr [symmetric])
    from "2.prems"(2) [rule_format, of "c # u"] d 1 ut(2)
    have "dump_escaped_from 0 0 (pend @ c # u) = Inr (pend @ escape_codepoint cp' c @ t)"
      by (simp add: dump_escaped_state0 [of cp'])
    with ut(1) d 1 show ?thesis by (auto simp: escape_spec.simps(2) escape_text_plain)
  next
    case 2
    obtain u t where ut: "escape_spec handler False 0 cp' [] (if pend = [] then s else c # s) = Inr t"
      "dump_escaped_from 0 0 u = Inr t"
      using "2.hyps"(2) [OF d [symmetric] _ 2 "2.prems"(1,1)] 2 by (auto simp: dump_escaped_state0 [of cp'])
    have "dump_escaped_from 0 0 (CHR 0xEF # CHR 0xBF # CHR 0xBD # u) = Inr (CHR 0xEF # CHR 0xBF # CHR 0xBD # t)"
      using ut(2) dump_escaped_state0 [of 65533 u]
      by (simp add: utf8_decode_def utf8_rows_def utf8_class_values escape_codepoint_def)
    with ut d 2 "2.prems"(1) show ?thesis
      by (cases "handler = Replace") (auto simp: escape_spec.simps(2) replacement_def simp del: dump_escaped_from.simps)
  next
    case 3
    have "\<forall>r. dump_escaped_from 0 0 ((pend @ [c]) @ r) =
        res_bind (dump_escaped_from st' cp' r) (\<lambda>t. Inr ((pend @ [c]) @ t))"
      using "2.prems"(2) [rule_format, of "c # _"] d 3 by (simp add: res_bind_assoc)
    from "2.hyps"(3) [OF d [symmetric] 3 "2.prems"(1) this] d 3 show ?thesis
      by (auto simp: escape_spec.simps(2))
  qed
qed

text \<open>A string that strict handling takes is written the same way by all handlers.\<close>

lemma escape_spec_valid:
  "escape_spec Strict ensure_ascii st cp pend s = Inr t \<Longrightarrow> escape_spec handler ensure_ascii st cp pend s = Inr t"
proof (induction s arbitrary: st cp pend t)
  case Nil
  then show ?case by (simp add: escape_spec.simps split: if_splits)
next
  case (Cons c s)
  obtain st' cp' where "utf8_decode st cp (byte c) = (st', cp')" by (cases "utf8_decode st cp (byte c)")
  with Cons show ?case by (fastforce simp: escape_spec.simps(2) split: if_splits)
qed

lemma serialize_string_strict: "serialize_string Strict False s = dump_escaped s"
  by (simp add: serialize_string_eq escape_spec_strict dump_escaped_def)

lemma serialize_string_repairs:
  assumes "handler \<noteq> Strict"
  shows "\<exists>u t. serialize_string handler False s = Inr t \<and> dump_escaped u = Inr t"
  using escape_spec_repairs [OF assms, of "[]" 0 0 s] by (simp add: serialize_string_eq dump_escaped_def)

lemma serialize_string_valid:
  "is_ok (dump_escaped s) \<Longrightarrow> serialize_string handler False s = dump_escaped s"
  using escape_spec_valid [of False 0 0 "[]" s _ handler] unfolding serialize_string_strict [symmetric]
  by (auto simp: is_ok_iff serialize_string_eq simp del: escape_spec.simps)



section \<open>Everything in ASCII\<close>

lemma utf8_step_lead:
  "byte c = b \<Longrightarrow> b < 128 \<Longrightarrow> utf8_decode 0 cp (byte c) = (0, b)"
  "byte c = b \<Longrightarrow> 194 \<le> b \<Longrightarrow> b < 224 \<Longrightarrow> utf8_decode 0 cp (byte c) = (2, b - 192)"
  "byte c = b \<Longrightarrow> 224 \<le> b \<Longrightarrow> b < 240 \<Longrightarrow>
     utf8_decode 0 cp (byte c) = (if b = 224 then 4 else if b = 237 then 5 else 3, b - 224)"
  "byte c = b \<Longrightarrow> 240 \<le> b \<Longrightarrow> b < 245 \<Longrightarrow>
     utf8_decode 0 cp (byte c) = (if b = 240 then 6 else if b = 244 then 8 else 7, b - 240)"
proof -
  assume b: "byte c = b"
  have "b < 256" using b [symmetric] by simp
  then show "b < 128 \<Longrightarrow> utf8_decode 0 cp (byte c) = (0, b)"
    "194 \<le> b \<Longrightarrow> b < 224 \<Longrightarrow> utf8_decode 0 cp (byte c) = (2, b - 192)"
    "224 \<le> b \<Longrightarrow> b < 240 \<Longrightarrow>
      utf8_decode 0 cp (byte c) = (if b = 224 then 4 else if b = 237 then 5 else 3, b - 224)"
    "240 \<le> b \<Longrightarrow> b < 245 \<Longrightarrow>
      utf8_decode 0 cp (byte c) = (if b = 240 then 6 else if b = 244 then 8 else 7, b - 240)"
    unfolding b
    by (cases rule: utf8_class_cases;
        auto simp: utf8_decode_def utf8_rows_def intro!: mod_nat_eqI)+
qed

lemma utf8_step_cont:
  assumes "byte c = 128 + x" and "x < 64" and "cp < 2 ^ 16" and "st \<noteq> 0"
  shows "snd (utf8_decode st cp (byte c)) = cp * 64 + x"
proof -
  have "byte c mod 64 = x" using assms(1,2) cont_byte_mod [of "byte c"] by simp
  moreover have "cp * 64 mod 2 ^ 32 = cp * 64" using assms(3) by (intro mod_less) simp
  ultimately show ?thesis using utf8_decode_cont [OF assms(4)] by simp
qed

lemma utf8_step_conts:
  assumes "byte c = 128 + x" and "x < 64" and "cp < 2 ^ 16"
  shows "utf8_decode 2 cp (byte c) = (0, cp * 64 + x)"
    and "utf8_decode 3 cp (byte c) = (2, cp * 64 + x)"
    and "32 \<le> x \<Longrightarrow> utf8_decode 4 cp (byte c) = (2, cp * 64 + x)"
    and "x < 32 \<Longrightarrow> utf8_decode 5 cp (byte c) = (2, cp * 64 + x)"
    and "16 \<le> x \<Longrightarrow> utf8_decode 6 cp (byte c) = (3, cp * 64 + x)"
    and "utf8_decode 7 cp (byte c) = (3, cp * 64 + x)"
    and "x < 16 \<Longrightarrow> utf8_decode 8 cp (byte c) = (3, cp * 64 + x)"
proof -
  have "byte c < 256" using assms(1,2) by simp
  note nxt = utf8_next_cont [OF this, of cp]
  note snd = utf8_step_cont [OF assms]
  show "utf8_decode 2 cp (byte c) = (0, cp * 64 + x)" "utf8_decode 3 cp (byte c) = (2, cp * 64 + x)"
    "32 \<le> x \<Longrightarrow> utf8_decode 4 cp (byte c) = (2, cp * 64 + x)"
    "x < 32 \<Longrightarrow> utf8_decode 5 cp (byte c) = (2, cp * 64 + x)"
    "16 \<le> x \<Longrightarrow> utf8_decode 6 cp (byte c) = (3, cp * 64 + x)"
    "utf8_decode 7 cp (byte c) = (3, cp * 64 + x)"
    "x < 16 \<Longrightarrow> utf8_decode 8 cp (byte c) = (3, cp * 64 + x)"
    using nxt snd assms(1,2) by (auto simp: prod_eq_iff)
qed

definition escape_ascii :: "nat \<Rightarrow> string" where
  "escape_ascii cp = snd (escape_text True cp (char_of cp))"

lemma escape_spec_state0: "escape_spec handler ensure_ascii 0 cp [] s = escape_spec handler ensure_ascii 0 0 [] s"
  by (cases s) (simp_all add: escape_spec.simps utf8_decode_def)

lemma escape_text_ascii: "128 \<le> cp \<Longrightarrow> snd (escape_text True cp c) = escape_ascii cp"
  by (simp add: escape_ascii_def escape_text_def)

lemma escape_spec_encode:
  assumes "unicode_scalar cp"
  shows "escape_spec handler True 0 0 [] (utf8_encode cp @ s) =
    res_bind (escape_spec handler True 0 0 [] s) (\<lambda>t. Inr (escape_ascii cp @ t))"
proof -
  obtain q r where q: "cp = q * 64 + r" "r < 64" "cp div 64 = q" "cp mod 64 = r"
    by (metis div_mult_mod_eq mod_less_divisor zero_less_numeral)
  obtain p r1 where p: "q = p * 64 + r1" "r1 < 64" "q div 64 = p" "q mod 64 = r1"
    by (metis div_mult_mod_eq mod_less_divisor zero_less_numeral)
  obtain o' r2 where o': "p = o' * 64 + r2" "r2 < 64" "p div 64 = o'" "p mod 64 = r2"
    by (metis div_mult_mod_eq mod_less_divisor zero_less_numeral)
  have divs: "cp div 4096 = p" "cp div 262144 = o'"
    using div_mult2_eq [of cp 64 64] div_mult2_eq [of cp 4096 64] q(3) p(3) o'(3) by simp_all
  have bytes: "byte (char_of n :: char) = n" if "n < 256" for n :: nat using that by simp
  note step = escape_spec.simps(2) escape_spec_state0 [of _ _ cp]
  consider "cp < 128" | "128 \<le> cp" "cp < 2048" | "2048 \<le> cp" "cp < 65536" | "65536 \<le> cp" "cp < 1114112"
  proof -
    have "cp < 1114112" using assms by (auto simp: unicode_scalar_def)
    then have "cp < 128 \<or> 128 \<le> cp \<and> cp < 2048 \<or> 2048 \<le> cp \<and> cp < 65536 \<or> 65536 \<le> cp \<and> cp < 1114112"
      by linarith
    then show thesis using that by blast
  qed
  then show ?thesis
  proof cases
    case 1
    then have "utf8_encode cp = [char_of cp]" "utf8_decode 0 0 (byte (char_of cp)) = (0, cp)"
      using utf8_step_lead(1) [of "char_of cp" cp 0] by (simp_all add: utf8_encode_def)
    then show ?thesis by (simp add: step escape_ascii_def)
  next
    case 2
    then have b: "2 \<le> q" "q < 32" using q(1,2) by linarith+
    have "utf8_decode 0 0 (byte (char_of (192 + q))) = (2, q)"
      using utf8_step_lead(2) [of "char_of (192 + q)" "192 + q" 0] b by simp
    moreover have "utf8_decode 2 q (byte (char_of (128 + r))) = (0, cp)"
      using utf8_step_conts(1) [of "char_of (128 + r)" r q] b q(1,2) by simp
    moreover have "utf8_encode cp = [char_of (192 + q), char_of (128 + r)]"
      using 2 q(3,4) by (simp add: utf8_encode_def)
    ultimately show ?thesis using 2 by (simp add: step escape_text_ascii)
  next
    case 3
    then have b: "p < 16" "p = 0 \<longrightarrow> 32 \<le> r1" "p = 13 \<longrightarrow> r1 < 32"
      using q(1,2) p(1,2) assms by (auto simp: unicode_scalar_def)
    define st where "st = (if p = 0 then 4 else if p = 13 then 5 else 3 :: nat)"
    have "utf8_decode 0 0 (byte (char_of (224 + p))) = (st, p)"
      using utf8_step_lead(3) [of "char_of (224 + p)" "224 + p" 0] b by (simp add: st_def)
    moreover have "utf8_decode st p (byte (char_of (128 + r1))) = (2, q)"
      using utf8_step_conts [of "char_of (128 + r1)" r1 p] b p(1,2)
      by (cases "p = 0"; cases "p = 13") (simp_all add: st_def)
    moreover have "utf8_decode 2 q (byte (char_of (128 + r))) = (0, cp)"
      using utf8_step_conts(1) [of "char_of (128 + r)" r q] b q(1,2) p(1,2) by simp
    moreover have "utf8_encode cp = [char_of (224 + p), char_of (128 + r1), char_of (128 + r)]"
      using 3 q(3,4) p(3,4) divs by (simp add: utf8_encode_def)
    moreover have "st \<noteq> 0" "st \<noteq> 1" by (simp_all add: st_def)
    ultimately show ?thesis using 3 by (simp add: step escape_text_ascii)
  next
    case 4
    then have b: "o' < 5" "o' = 0 \<longrightarrow> 16 \<le> r2" "o' = 4 \<longrightarrow> r2 < 16"
      using q(1,2) p(1,2) o'(1,2) by auto
    define st where "st = (if o' = 0 then 6 else if o' = 4 then 8 else 7 :: nat)"
    have "utf8_decode 0 0 (byte (char_of (240 + o'))) = (st, o')"
      using utf8_step_lead(4) [of "char_of (240 + o')" "240 + o'" 0] b by (simp add: st_def)
    moreover have "utf8_decode st o' (byte (char_of (128 + r2))) = (3, p)"
      using utf8_step_conts [of "char_of (128 + r2)" r2 o'] b o'(1,2)
      by (cases "o' = 0"; cases "o' = 4") (simp_all add: st_def)
    moreover have "utf8_decode 3 p (byte (char_of (128 + r1))) = (2, q)"
      using utf8_step_conts(2) [of "char_of (128 + r1)" r1 p] b p(1,2) o'(1,2) by simp
    moreover have "utf8_decode 2 q (byte (char_of (128 + r))) = (0, cp)"
      using utf8_step_conts(1) [of "char_of (128 + r)" r q] b q(1,2) p(1,2) o'(1,2) by simp
    moreover have "utf8_encode cp = [char_of (240 + o'), char_of (128 + r2), char_of (128 + r1), char_of (128 + r)]"
      using 4 q(3,4) p(3,4) o'(3,4) divs by (simp add: utf8_encode_def)
    moreover have "st \<noteq> 0" "st \<noteq> 1" by (simp_all add: st_def)
    ultimately show ?thesis using 4 by (simp add: step escape_text_ascii)
  qed
qed

text \<open>The lexer reads an escape back as the bytes of the code point.\<close>

lemma scan_string_u_escape:
  assumes "scan_unicode_escape (t @ r) = Some (b, r)"
  shows "scan_string (backslash_char # CHR ''u'' # t @ r) = map_option (\<lambda>(t, r'). (b @ t, r')) (scan_string r)"
  using assms by (simp add: scan_string.simps(2))

lemma scan_string_ascii:
  assumes "unicode_scalar cp"
  shows "scan_string (escape_ascii cp @ r) = map_option (\<lambda>(t, r'). (utf8_encode cp @ t, r')) (scan_string r)"
proof -
  consider "cp < 127" | "127 \<le> cp" "cp < 65536" | "65536 \<le> cp" by linarith
  then show ?thesis
  proof cases
    case 1
    then have "escape_ascii cp = escape_codepoint (byte (char_of cp :: char)) (char_of cp)"
      by (simp add: escape_ascii_def escape_text_def escape_codepoint_def u_escape_def)
    with 1 scan_string_escape [of "char_of cp" r] show ?thesis by (simp add: utf8_encode_def)
  next
    case 2
    then have "escape_ascii cp = backslash_char # CHR ''u'' # hex4 cp"
      by (simp add: escape_ascii_def escape_text_def u_escape_def)
    moreover have "scan_unicode_escape (hex4 cp @ r) = Some (utf8_encode cp, r)"
    proof -
      have "\<not> (55296 \<le> cp \<and> cp \<le> 56319)" "\<not> (56320 \<le> cp \<and> cp \<le> 57343)"
        using assms by (auto simp: unicode_scalar_def)
      with 2 show ?thesis by (simp only: scan_unicode_escape_def get_codepoint_hex4 option.case prod.case if_False)
    qed
    ultimately show ?thesis using scan_string_u_escape [of "hex4 cp" r] by simp
  next
    case 3
    define hi where "hi = 55232 + cp div 1024"
    define lo where "lo = 56320 + cp mod 1024"
    have cp: "cp < 1114112" using assms by (auto simp: unicode_scalar_def)
    have hi: "55296 \<le> hi" "hi \<le> 56319" using 3 cp by (auto simp: hi_def)
    have lo: "56320 \<le> lo" "lo \<le> 57343" by (auto simp: lo_def)
    have "hi * 1024 + lo = cp + 56613888" by (simp add: hi_def lo_def)
    then have pair: "hi * 1024 + lo - 56613888 = cp" by simp
    have "escape_ascii cp = backslash_char # CHR ''u'' # hex4 hi @ backslash_char # CHR ''u'' # hex4 lo"
      using 3 by (simp add: escape_ascii_def escape_text_def u_escape_def hi_def lo_def)
    moreover have "scan_unicode_escape ((hex4 hi @ backslash_char # CHR ''u'' # hex4 lo) @ r) =
        Some (utf8_encode cp, r)"
      using hi lo pair by (simp add: scan_unicode_escape_def get_codepoint_hex4)
    ultimately show ?thesis
      using scan_string_u_escape [of "hex4 hi @ backslash_char # CHR ''u'' # hex4 lo" r] by simp
  qed
qed

lemma escape_ascii_ascii: "list_all (\<lambda>c. 32 \<le> byte c \<and> byte c < 127) (escape_ascii cp)"
proof -
  have "32 \<le> byte (hex_digit n) \<and> byte (hex_digit n) < 127" if "n < 16" for n
    using that by (simp add: hex_digit_def)
  then show ?thesis by (auto simp: escape_ascii_def escape_text_def u_escape_def hex4_def)
qed

text \<open>
  With \<open>ensure_ascii\<close> every well-formed string is written in printable ASCII, whatever the error
  handler, and the lexer reads it back: code points above FFFF as pairs of surrogates.
\<close>

lemma ensure_ascii_roundtrip:
  assumes "is_ok (dump_escaped s)"
  shows "\<exists>t. serialize_string handler True s = Inr t \<and> list_all (\<lambda>c. 32 \<le> byte c \<and> byte c < 127) t \<and>
    scan_string (t @ quote_char # r) = Some (s, r)"
proof -
  obtain cps where "list_all unicode_scalar cps" and s: "s = concat (map utf8_encode cps)"
    using assms utf8_accepted [of s] by blast
  from this(1) have "escape_spec handler True 0 0 [] (concat (map utf8_encode cps)) = Inr (concat (map escape_ascii cps)) \<and>
      list_all (\<lambda>c. 32 \<le> byte c \<and> byte c < 127) (concat (map escape_ascii cps)) \<and>
      scan_string (concat (map escape_ascii cps) @ quote_char # r) = Some (concat (map utf8_encode cps), r)"
    by (induction cps) (simp_all add: escape_spec.simps(1) escape_spec_encode scan_string_ascii escape_ascii_ascii
        scan_string.simps(2) [of quote_char])
  with s show ?thesis by (simp add: serialize_string_eq)
qed

end
