(* ===== verification/Json_Number_Buffer.thy ===== *)
theory Json_Number_Buffer
  imports Json_Utf8 "HOL-Library.Word"
begin

text \<open>
  \<open>serializer::dump_integer\<close> as it is written: the digits are counted, then a buffer of 64 bytes is filled from
  the back, two digits at a time. It writes what \<open>dump_integer\<close> of \<open>Json_Dump\<close> is defined to be.
\<close>

section \<open>The number buffer\<close>

text \<open>\<open>number_unsigned_t\<close> is a 64-bit word; \<open>unat\<close> reads it.\<close>

function count_digits :: "64 word \<Rightarrow> nat \<Rightarrow> nat" where
  "count_digits x n_digits =
     (if x < 10 then n_digits
      else if x < 100 then n_digits + 1
      else if x < 1000 then n_digits + 2
      else if x < 10000 then n_digits + 3
      else count_digits (x div 10000) (n_digits + 4))"
  by pat_completeness auto
termination
  by (relation "measure (\<lambda>(x, n). unat x)") (auto simp: unat_div word_less_nat_alt word_le_nat_alt not_less)

declare count_digits.simps [simp del]

definition number_buffer_size :: nat where
  "number_buffer_size = 64"

text \<open>The loop that fills the buffer backwards from \<open>buffer_ptr\<close>.\<close>

definition put_two_digits :: "string \<Rightarrow> int \<Rightarrow> nat \<Rightarrow> string res" where
  "put_two_digits buf buffer_ptr digits_index =
     res_bind (vec_set buf (buffer_ptr - 1) (digits_to_99 digits_index ! 1)) (\<lambda>buf.
       vec_set buf (buffer_ptr - 2) (digits_to_99 digits_index ! 0))"

function fill_number :: "string \<Rightarrow> int \<Rightarrow> 64 word \<Rightarrow> string res" where
  "fill_number buf buffer_ptr abs_value =
     (if 100 \<le> abs_value then
        res_bind (put_two_digits buf buffer_ptr (unat (abs_value mod 100))) (\<lambda>buf.
          fill_number buf (buffer_ptr - 2) (abs_value div 100))
      else if 10 \<le> abs_value then put_two_digits buf buffer_ptr (unat abs_value)
      else vec_set buf (buffer_ptr - 1) (digit_char (unat abs_value)))"
  by pat_completeness auto
termination
  by (relation "measure (\<lambda>(buf, p, a). unat a)") (auto simp: unat_div word_le_nat_alt)

declare fill_number.simps [simp del]

text \<open>\<open>remove_sign\<close>: minus \<open>x + 1\<close> as a signed number, plus one as an unsigned one.\<close>

definition remove_sign :: "64 word \<Rightarrow> 64 word" where
  "remove_sign x = word_of_int (- (sint x + 1)) + 1"

text \<open>The number is a word with its signedness; \<open>buf\<close> is what the buffer holds before.\<close>

definition dump_number :: "bool \<Rightarrow> 64 word \<Rightarrow> string \<Rightarrow> string res" where
  "dump_number is_signed x buf =
     (if x = 0 then Inr ''0''
      else
        let is_negative = is_signed \<and> sint x < 0 in
        res_bind (if is_negative then vec_set buf 0 CHR ''-'' else Inr buf) (\<lambda>buf.
          let abs_value = (if is_negative then remove_sign x else x);
              n_chars = (if is_negative then 1 + count_digits abs_value 1 else count_digits abs_value 1)
          in if \<not> n_chars < number_buffer_size - 1 then Inl Assertion_Failed
             else res_bind (fill_number buf (int n_chars) abs_value) (\<lambda>buf. Inr (take n_chars buf))))"

lemma dump_abs_div: "10000 \<le> m \<Longrightarrow> length (dump_abs m) = length (dump_abs (m div 10000)) + 4"
proof -
  assume m: "10000 \<le> m"
  then have "100 \<le> m div 100" by (simp add: less_eq_div_iff_mult_less_eq)
  with m show ?thesis
    by (simp add: dump_abs.simps [of m] dump_abs.simps [of "m div 100"] digits_to_99_def flip: div_mult2_eq)
qed

lemma count_digits_eq: "count_digits x n + 1 = n + length (dump_abs (unat x))"
proof (induction x n rule: count_digits.induct)
  case (1 x n)
  show ?case
  proof (cases "x < 10000")
    case True
    then have "unat x < 10000" by (simp add: word_less_nat_alt)
    moreover from this have "10 \<le> unat x div 100 \<longleftrightarrow> 1000 \<le> unat x" "unat x div 100 < 100"
      by (simp_all add: less_eq_div_iff_mult_less_eq div_less_iff_less_mult)
    ultimately have "length (dump_abs (unat x)) =
        (if unat x < 10 then 1 else if unat x < 100 then 2 else if unat x < 1000 then 3 else 4)"
      by (simp add: dump_abs.simps [of "unat x"] dump_abs.simps [of "unat x div 100"] digits_to_99_def)
    then show ?thesis using True by (simp add: count_digits.simps [of x] word_less_nat_alt)
  next
    case False
    then have "\<not> x < 10" "\<not> x < 100" "\<not> x < 1000" by (simp_all add: word_less_nat_alt)
    with False 1 show ?thesis
      by (simp add: count_digits.simps [of x] dump_abs_div word_less_nat_alt unat_div)
  qed
qed

lemma put_two_digits_eq:
  assumes "2 \<le> k" and "k \<le> length buf"
  shows "put_two_digits buf (int k) d = Inr (take (k - 2) buf @ digits_to_99 d @ drop k buf)"
proof -
  obtain us x y vs where "buf = us @ x # y # vs" "k = length us + 2"
  proof
    show "buf = take (k - 2) buf @ buf ! (k - 2) # buf ! (k - 1) # drop k buf"
      using assms Cons_nth_drop_Suc [of "k - 2" buf] Cons_nth_drop_Suc [of "k - 1" buf] id_take_nth_drop [of "k - 2" buf]
      by (auto simp: Suc_diff_Suc numeral_2_eq_2)
    show "k = length (take (k - 2) buf) + 2" using assms by simp
  qed
  then show ?thesis by (simp add: put_two_digits_def vec_set_def digits_to_99_def nat_add_distrib list_update_append)
qed

lemma fill_number_eq:
  "length (dump_abs (unat a)) \<le> k \<Longrightarrow> k \<le> length buf \<Longrightarrow>
   fill_number buf (int k) a = Inr (take (k - length (dump_abs (unat a))) buf @ dump_abs (unat a) @ drop k buf)"
proof (induction buf "int k" a arbitrary: k rule: fill_number.induct)
  case (1 buf a)
  consider "100 \<le> unat a" | "10 \<le> unat a" "unat a < 100" | "unat a < 10" by linarith
  then show ?case
  proof cases
    case 1
    then have a: "100 \<le> a" by (simp add: word_le_nat_alt)
    let ?k = "k - 2"
    let ?d = "digits_to_99 (unat a mod 100)"
    have len: "length (dump_abs (unat a)) = length (dump_abs (unat a div 100)) + 2"
      using 1 by (simp add: dump_abs.simps [of "unat a"] digits_to_99_def)
    with "1.prems" have k: "2 \<le> k" "k \<le> length buf" "int k - 2 = int ?k"
      "length (dump_abs (unat (a div 100))) \<le> ?k" by (simp_all add: unat_div)
    let ?buf = "take ?k buf @ ?d @ drop k buf"
    have "?k \<le> length ?buf" using k by simp
    note put = put_two_digits_eq [OF k(1,2), of "unat (a mod 100)"]
    have d: "digits_to_99 (unat (a mod 100)) = ?d" by (simp add: unat_mod)
    have "fill_number buf (int k) a = fill_number ?buf (int ?k) (a div 100)"
      unfolding fill_number.simps [of buf] put unfolding d using a by (simp only: k(3) res_bind_simps if_True)
    also have "\<dots> = Inr (take (?k - length (dump_abs (unat (a div 100)))) ?buf @
        dump_abs (unat (a div 100)) @ drop ?k ?buf)"
      by (rule "1.hyps" [OF a put [unfolded d] k(3,4)]) (use k in simp)
    also have "take (?k - length (dump_abs (unat (a div 100)))) ?buf = take (k - length (dump_abs (unat a))) buf"
      using k(2) len by (simp add: unat_div)
    also have "dump_abs (unat (a div 100)) @ drop ?k ?buf = dump_abs (unat a) @ drop k buf"
      using k(1,2) 1 by (simp add: unat_div dump_abs.simps [of "unat a"])
    finally show ?thesis .
  next
    case 2
    then have "length (dump_abs (unat a)) = 2" "dump_abs (unat a) = digits_to_99 (unat a)"
      by (simp_all add: dump_abs.simps [of "unat a"] digits_to_99_def)
    with 2 "1.prems" put_two_digits_eq [of k buf "unat a"] show ?thesis
      by (simp add: fill_number.simps [of _ _ a] word_le_nat_alt)
  next
    case 3
    then have "dump_abs (unat a) = [digit_char (unat a)]" by (simp add: dump_abs.simps)
    moreover from this "1.prems" obtain j where "k = Suc j" "j < length buf" by (cases k) auto
    ultimately show ?thesis using 3
      by (simp add: fill_number.simps [of _ _ a] word_le_nat_alt vec_set_def upd_conv_take_nth_drop)
  qed
qed

lemma sint_64_range: "- (2 ^ 63) \<le> sint (x :: 64 word)" "sint (x :: 64 word) < 2 ^ 63"
  using sint_ge [of x] sint_lt [of x] by simp_all

lemma remove_sign_eq:
  assumes "sint x < 0"
  shows "uint (remove_sign x) = - sint x"
proof -
  have "remove_sign x = word_of_int (- sint x)" by (simp add: remove_sign_def)
  then have "uint (remove_sign x) = (- sint x) mod 2 ^ 64" by (simp only: uint_word_of_int) simp
  also have "\<dots> = - sint x" using assms sint_64_range(1) [of x] by (intro mod_pos_pos_trivial) simp_all
  finally show ?thesis .
qed

lemma count_digits_bound: "count_digits x 1 \<le> 20"
proof -
  have "unat x < 2 ^ 64" using unsigned_less [of x] by simp
  then have "length (dump_abs (unat x)) \<le> 20" by (intro dump_abs_length) simp_all
  with count_digits_eq [of x 1] show ?thesis by simp
qed

text \<open>
  The 64 bytes of the number buffer are enough for every 64-bit integer, signed or not, and what is
  written from it are the decimal digits that \<open>Json_Dump\<close> writes, whatever the buffer held before; the
  number of characters counted in advance is exactly the number written, also for the least signed number.
\<close>

lemma dump_number_correct:
  assumes "length buf = number_buffer_size"
  shows "dump_number is_signed x buf = Inr (dump_integer (if is_signed then sint x else uint x))"
proof (cases "x = 0")
  case True
  then show ?thesis by (simp add: dump_number_def dump_integer_def)
next
  case False
  have len: "count_digits a (Suc 0) = length (dump_abs (unat a))" for a using count_digits_eq [of a 1] by simp
  have bound: "length (dump_abs (unat a)) \<le> 20" for a :: "64 word"
    using count_digits_bound [of a] len [of a] by simp
  show ?thesis
  proof (cases "is_signed \<and> sint x < 0")
    case True
    let ?a = "remove_sign x"
    let ?n = "1 + length (dump_abs (unat ?a))"
    have "unat ?a = nat (- sint x)" using remove_sign_eq [of x] True by (simp add: nat_uint_eq [symmetric])
    moreover have "fill_number (buf[0 := CHR ''-'']) (int ?n) ?a =
        Inr (take 1 (buf[0 := CHR ''-'']) @ dump_abs (unat ?a) @ drop ?n (buf[0 := CHR ''-'']))"
      using fill_number_eq [of ?a ?n "buf[0 := CHR ''-'']"] bound [of ?a] assms by (simp add: number_buffer_size_def)
    moreover have "take 1 (buf[0 := CHR ''-'']) = ''-''" using assms by (cases buf) (auto simp: number_buffer_size_def)
    ultimately show ?thesis
      using True False assms bound [of ?a]
      by (simp add: dump_number_def len Let_def number_buffer_size_def dump_integer_def)
  next
    case nonneg: False
    let ?n = "length (dump_abs (unat x))"
    have "fill_number buf (int ?n) x = Inr (dump_abs (unat x) @ drop ?n buf)"
      using fill_number_eq [of x ?n buf] bound [of x] assms by (simp add: number_buffer_size_def)
    moreover have "uint x = sint x" if "0 \<le> sint x"
      unfolding uint_sint using that sint_64_range(2) [of x] by (intro take_bit_int_eq_self) simp_all
    then have "(if is_signed then sint x else uint x) = int (unat x)" and pos: "unat x \<noteq> 0"
      using nonneg False by (auto simp: unat_eq_zero)
    then have "dump_integer (if is_signed then sint x else uint x) = dump_abs (unat x)"
      by (simp add: dump_integer_def del: of_nat_unat)
    moreover have neg: "(is_signed \<and> sint x < 0) = False" using nonneg by simp
    ultimately show ?thesis
      using False assms bound [of x] unfolding dump_number_def neg Let_def if_False
      by (simp add: len number_buffer_size_def del: of_nat_unat)
  qed
qed

end
