(* ===== verification/Json_Pointer.thy ===== *)
theory Json_Pointer
  imports Json_Roundtrip
begin

text \<open>
  The class \<open>json_pointer\<close> of \<open>extern/json/json.hpp\<close>: reference tokens, their escapes, and the ways a pointer
  is followed into a value. A call that returns a reference is given what is done with the reference as a
  function, and returns the changed value.
\<close>

section \<open>Escapes\<close>

text \<open>\<open>replace_substring\<close>: all occurrences from the left; what was put in is not searched again.\<close>

function replace_substring :: "string \<Rightarrow> string \<Rightarrow> string \<Rightarrow> string" where
  "replace_substring f t [] = []"
| "replace_substring f t (c # s) =
     (if f \<noteq> [] \<and> take (length f) (c # s) = f then t @ replace_substring f t (drop (length f) (c # s))
      else c # replace_substring f t s)"
  by pat_completeness auto
termination
  by (relation "measure (\<lambda>(f, t, s). length s)") auto

abbreviation tilde :: char where
  "tilde \<equiv> CHR ''~''"

abbreviation slash :: char where
  "slash \<equiv> CHR ''/''"

definition pointer_escape :: "string \<Rightarrow> string" where
  "pointer_escape s = replace_substring [slash] [tilde, CHR ''1''] (replace_substring [tilde] [tilde, CHR ''0''] s)"

definition pointer_unescape :: "string \<Rightarrow> string" where
  "pointer_unescape s = replace_substring [tilde, CHR ''0''] [tilde] (replace_substring [tilde, CHR ''1''] [slash] s)"

section \<open>Pointers\<close>

type_synonym json_pointer = "string list"

definition pointer_to_string :: "json_pointer \<Rightarrow> string" where
  "pointer_to_string ts = foldl (\<lambda>a b. a @ [slash] @ pointer_escape b) [] ts"

text \<open>Every \<open>~\<close> has to be followed by 0 or 1.\<close>

fun tildes_escaped :: "string \<Rightarrow> bool" where
  "tildes_escaped [] \<longleftrightarrow> True"
| "tildes_escaped (c # s) \<longleftrightarrow>
     (c = tilde \<longrightarrow> s \<noteq> [] \<and> (hd s = CHR ''0'' \<or> hd s = CHR ''1'')) \<and> tildes_escaped s"

text \<open>The loop over the parts between slashes; its argument begins after a slash.\<close>

function split_tokens :: "string \<Rightarrow> json_pointer res" where
  "split_tokens s =
     (let token = takeWhile (\<lambda>c. c \<noteq> slash) s; rest = dropWhile (\<lambda>c. c \<noteq> slash) s in
      if \<not> tildes_escaped token then Inl Json_Parse_Error
      else if rest = [] then Inr [pointer_unescape token]
      else res_bind (split_tokens (tl rest)) (\<lambda>ts. Inr (pointer_unescape token # ts)))"
  by pat_completeness auto
termination
proof (relation "measure length")
  fix s :: string and token rest
  assume rest: "rest = dropWhile (\<lambda>c. c \<noteq> slash) s" "rest \<noteq> []"
  then have "length rest \<le> length s" by (simp add: length_dropWhile_le)
  moreover from rest(2) have "length (tl rest) < length rest" by (cases rest) simp_all
  ultimately show "(tl rest, s) \<in> measure length" by simp
qed simp

declare split_tokens.simps [simp del]

definition pointer_split :: "string \<Rightarrow> json_pointer res" where
  "pointer_split reference_string =
     (if reference_string = [] then Inr []
      else if hd reference_string \<noteq> slash then Inl Json_Parse_Error
      else split_tokens (tl reference_string))"

text \<open>\<open>array_index\<close>; \<open>std::stoull\<close> reads white space, a sign and digits, and \<open>size_t\<close> has 64 bits.\<close>

definition stoull :: "string \<Rightarrow> (nat \<times> nat) res" where
  "stoull s =
     (let t = dropWhile (\<lambda>c. c = CHR '' '' \<or> 9 \<le> byte c \<and> byte c \<le> 13) s;
          neg = (t \<noteq> [] \<and> hd t = CHR ''-'');
          u = (if t \<noteq> [] \<and> (hd t = CHR ''-'' \<or> hd t = CHR ''+'') then tl t else t);
          ds = takeWhile is_digit u
      in if ds = [] then Inl Stoi_Invalid_Argument
         else if 2 ^ 64 \<le> digits_value ds then Inl Stoi_Out_Of_Range
         else Inr (if neg then (2 ^ 64 - digits_value ds) mod 2 ^ 64 else digits_value ds,
                   length s - length u + length ds))"

definition array_index :: "string \<Rightarrow> nat res" where
  "array_index s =
     (if 1 < length s \<and> hd s = CHR ''0'' then Inl Json_Parse_Error
      else if 1 < length s \<and> \<not> (CHR ''1'' \<le> hd s \<and> hd s \<le> CHR ''9'') then Inl Json_Parse_Error
      else
        (case stoull s of
           Inl e \<Rightarrow> Inl (if e = Stoi_Out_Of_Range then Json_Out_Of_Range else e)
         | Inr (n, processed_chars) \<Rightarrow>
             if processed_chars \<noteq> length s then Inl Json_Out_Of_Range
             else if 2 ^ 64 - 1 \<le> n then Inl Json_Out_Of_Range
             else Inr n))"

section \<open>Following a pointer\<close>

text \<open>\<open>get_checked\<close>: reading, and changing what the reference is to.\<close>

fun get_checked :: "json_pointer \<Rightarrow> json \<Rightarrow> json res" where
  "get_checked [] j = Inr j"
| "get_checked (t # ts) j =
     (case j of
        JObject xs \<Rightarrow> (case map_of xs t of None \<Rightarrow> Inl Json_Missing_Key | Some v \<Rightarrow> get_checked ts v)
      | JArray xs \<Rightarrow>
          if t = ''-'' then Inl Json_Out_Of_Range
          else res_bind (array_index t) (\<lambda>i. if i < length xs then get_checked ts (xs ! i) else Inl Json_Out_Of_Range)
      | _ \<Rightarrow> Inl Json_Out_Of_Range)"

fun modify_checked :: "json_pointer \<Rightarrow> (json \<Rightarrow> json res) \<Rightarrow> json \<Rightarrow> json res" where
  "modify_checked [] f j = f j"
| "modify_checked (t # ts) f j =
     (case j of
        JObject xs \<Rightarrow>
          (case map_of xs t of
             None \<Rightarrow> Inl Json_Missing_Key
           | Some v \<Rightarrow> res_bind (modify_checked ts f v) (\<lambda>v'. Inr (JObject (obj_assign t v' xs))))
      | JArray xs \<Rightarrow>
          if t = ''-'' then Inl Json_Out_Of_Range
          else
            res_bind (array_index t) (\<lambda>i.
              if i < length xs then res_bind (modify_checked ts f (xs ! i)) (\<lambda>v'. Inr (JArray (xs[i := v'])))
              else Inl Json_Out_Of_Range)
      | _ \<Rightarrow> Inl Json_Out_Of_Range)"

text \<open>\<open>operator[]\<close> on an array fills it up with nulls.\<close>

definition array_fill :: "nat \<Rightarrow> json list \<Rightarrow> json list" where
  "array_fill i xs = (if i < length xs then xs else xs @ replicate (i + 1 - length xs) JNull)"

text \<open>\<open>get_unchecked\<close> makes what is not there: a null becomes an array if the token is a number or \<open>-\<close>.\<close>

fun modify_unchecked :: "json_pointer \<Rightarrow> (json \<Rightarrow> json res) \<Rightarrow> json \<Rightarrow> json res" where
  "modify_unchecked [] f j = f j"
| "modify_unchecked (t # ts) f j =
     (case (if j = JNull then if list_all is_digit t \<or> t = ''-'' then JArray [] else JObject [] else j) of
        JObject xs \<Rightarrow>
          res_bind (modify_unchecked ts f (case map_of xs t of None \<Rightarrow> JNull | Some v \<Rightarrow> v)) (\<lambda>v'.
            Inr (JObject (obj_assign t v' xs)))
      | JArray xs \<Rightarrow>
          res_bind (if t = ''-'' then Inr (length xs) else array_index t) (\<lambda>i.
          res_bind (modify_unchecked ts f (array_fill i xs ! i)) (\<lambda>v'. Inr (JArray ((array_fill i xs)[i := v']))))
      | _ \<Rightarrow> Inl Json_Out_Of_Range)"

text \<open>\<open>contains\<close>.\<close>

fun pointer_contains :: "json_pointer \<Rightarrow> json \<Rightarrow> bool res" where
  "pointer_contains [] j = Inr True"
| "pointer_contains (t # ts) j =
     (case j of
        JObject xs \<Rightarrow> (case map_of xs t of None \<Rightarrow> Inr False | Some v \<Rightarrow> pointer_contains ts v)
      | JArray xs \<Rightarrow>
          if t = ''-'' then Inr False
          else if length t = 1 \<and> \<not> is_digit (hd t) then Inr False
          else if 1 < length t \<and> (\<not> (CHR ''1'' \<le> hd t \<and> hd t \<le> CHR ''9'') \<or> \<not> list_all is_digit (tl t)) then Inr False
          else
            res_bind (array_index t) (\<lambda>i.
              if length xs \<le> i then Inr False else pointer_contains ts (xs ! i))
      | _ \<Rightarrow> Inr False)"

section \<open>Round trips\<close>

lemma replace_substring_char: "replace_substring [f] t s = concat (map (\<lambda>c. if c = f then t else [c]) s)"
  by (induction s) auto

text \<open>A token as it is written.\<close>

definition escaped_char :: "char \<Rightarrow> string" where
  "escaped_char c = (if c = tilde then [tilde, CHR ''0''] else if c = slash then [tilde, CHR ''1''] else [c])"

lemma pointer_escape_eq: "pointer_escape s = concat (map escaped_char s)"
  by (induction s) (auto simp: pointer_escape_def replace_substring_char escaped_char_def)

lemma unescape_slashes:
  "replace_substring [tilde, CHR ''1''] [slash] (concat (map escaped_char s)) =
     concat (map (\<lambda>c. if c = tilde then [tilde, CHR ''0''] else [c]) s)"
  by (induction s) (auto simp: escaped_char_def)

lemma unescape_tildes:
  "replace_substring [tilde, CHR ''0''] [tilde] (concat (map (\<lambda>c. if c = tilde then [tilde, CHR ''0''] else [c]) s)) = s"
  by (induction s) auto

lemma unescape_escape [simp]: "pointer_unescape (pointer_escape s) = s"
  by (simp add: pointer_unescape_def pointer_escape_eq unescape_slashes unescape_tildes)

lemma tildes_escaped_escape [simp]: "tildes_escaped (pointer_escape s)"
  by (induction s) (auto simp: pointer_escape_eq escaped_char_def)

lemma slash_not_in_escape [simp]: "slash \<notin> set (pointer_escape s)"
  by (induction s) (auto simp: pointer_escape_eq escaped_char_def)

lemma pointer_to_string_Nil [simp]: "pointer_to_string [] = []"
  by (simp add: pointer_to_string_def)

lemma pointer_to_string_snoc: "pointer_to_string (ts @ [t]) = pointer_to_string ts @ slash # pointer_escape t"
  by (simp add: pointer_to_string_def)

lemma pointer_to_string_concat: "pointer_to_string ts = concat (map (\<lambda>t. slash # pointer_escape t) ts)"
  by (induction ts rule: rev_induct) (simp_all add: pointer_to_string_snoc)

lemma split_tokens_escaped:
  "split_tokens (pointer_escape t @ concat (map (\<lambda>t. slash # pointer_escape t) ts)) = Inr (t # ts)"
proof (induction ts arbitrary: t)
  case Nil
  have "\<forall>c \<in> set (pointer_escape t). c \<noteq> slash" using slash_not_in_escape by metis
  then have "takeWhile (\<lambda>c. c \<noteq> slash) (pointer_escape t) = pointer_escape t"
    "dropWhile (\<lambda>c. c \<noteq> slash) (pointer_escape t) = []"
    by (simp_all only: takeWhile_eq_all_conv dropWhile_eq_Nil_conv)
  then show ?case by (simp add: split_tokens.simps [of "pointer_escape t"] Let_def del: takeWhile_eq_all_conv dropWhile_eq_Nil_conv)
next
  case (Cons u us)
  let ?rest = "slash # pointer_escape u @ concat (map (\<lambda>t. slash # pointer_escape t) us)"
  have "\<And>c. c \<in> set (pointer_escape t) \<Longrightarrow> c \<noteq> slash" using slash_not_in_escape by metis
  then have "takeWhile (\<lambda>c. c \<noteq> slash) (pointer_escape t @ ?rest) = pointer_escape t"
    "dropWhile (\<lambda>c. c \<noteq> slash) (pointer_escape t @ ?rest) = ?rest"
    by (simp_all add: takeWhile_append2 dropWhile_append2)
  with Cons.IH [of u] show ?case by (simp add: split_tokens.simps [of "pointer_escape t @ ?rest"])
qed

text \<open>
  A pointer written as a string is read back, whatever characters its tokens have.
\<close>

lemma pointer_split_to_string: "pointer_split (pointer_to_string ts) = Inr ts"
  by (cases ts) (simp_all add: pointer_split_def pointer_to_string_concat split_tokens_escaped)

lemma dump_abs_0 [simp]: "dump_abs 0 = ''0''"
  by (simp add: dump_abs.simps [of 0] byte_eq_iff [of "digit_char 0"])

lemma dump_abs_hd_digit: "48 \<le> byte (hd (dump_abs i)) \<and> byte (hd (dump_abs i)) \<le> 57"
  using dump_abs_digits [of i] by (cases "dump_abs i") (simp_all add: is_digit_def)

lemma dump_abs_hd_nonzero: "1 < length (dump_abs i) \<Longrightarrow> hd (dump_abs i) \<noteq> CHR ''0''"
  using dump_abs_hd [of i] by (cases "i = 0") simp_all

lemma char_le_byte: "c \<le> d \<longleftrightarrow> byte c \<le> byte d"
  by (simp add: less_eq_char_def)

lemma dump_abs_hd_range:
  assumes "1 < length (dump_abs i)"
  shows "CHR ''1'' \<le> hd (dump_abs i)" and "hd (dump_abs i) \<le> CHR ''9''"
  using dump_abs_hd_digit [of i] dump_abs_hd_nonzero [OF assms] byte_eq_iff [of "hd (dump_abs i)" "CHR ''0''"]
  by (auto simp: char_le_byte)

lemma stoull_dump_abs:
  assumes "i < 2 ^ 64"
  shows "stoull (dump_abs i) = Inr (i, length (dump_abs i))"
proof -
  obtain c cs where s: "dump_abs i = c # cs" by (cases "dump_abs i") simp_all
  have "takeWhile is_digit (dump_abs i) = dump_abs i"
    using dump_abs_digits [of i] by (simp only: takeWhile_eq_all_conv list_all_iff)
  moreover have "48 \<le> byte c" and "byte c \<le> 57" using dump_abs_hd_digit [of i] s by simp_all
  moreover from this have "c \<noteq> CHR ''-''" and "c \<noteq> CHR ''+''" and "c \<noteq> CHR '' ''" by auto
  ultimately show ?thesis
    using assms digits_value_dump_abs [of i] unfolding s stoull_def by (simp add: Let_def del: digits_value_dump_abs)
qed

lemma array_index_dump_abs:
  assumes "i < 2 ^ 64 - 1"
  shows "array_index (dump_abs i) = Inr i"
proof -
  from assms have "stoull (dump_abs i) = Inr (i, length (dump_abs i))" by (intro stoull_dump_abs) simp
  with assms dump_abs_hd_range [of i] dump_abs_hd_nonzero [of i] show ?thesis
    by (cases "1 < length (dump_abs i)") (simp_all add: array_index_def)
qed

lemma dump_abs_not_dash [simp]: "dump_abs i \<noteq> ''-''"
  using dump_abs_digits [of i] by (auto simp: is_digit_def)

text \<open>A token that is accepted as an index consists of digits, and \<open>contains\<close> agrees with \<open>at\<close>.\<close>

lemma takeWhile_length_all: "length (takeWhile P s) = length s \<Longrightarrow> list_all P s"
  by (metis list_all_iff set_takeWhileD takeWhile_eq_take take_all order_refl)

lemma array_index_digits:
  assumes "array_index t = Inr i"
  shows "t \<noteq> [] \<and> list_all is_digit t \<and> (1 < length t \<longrightarrow> CHR ''1'' \<le> hd t \<and> hd t \<le> CHR ''9'')"
proof -
  from assms have range: "1 < length t \<longrightarrow> CHR ''1'' \<le> hd t \<and> hd t \<le> CHR ''9''"
    by (auto simp: array_index_def split: if_splits)
  from assms have read: "stoull t = Inr (i, length t)"
    by (auto simp: array_index_def split: if_splits sum.splits)
  then have "t \<noteq> []" by (auto simp: stoull_def)
  then obtain c cs where t: "t = c # cs" by (cases t) auto
  have "is_digit c"
  proof (cases "cs = []")
    case True
    with read t show ?thesis by (auto simp: stoull_def Let_def split: if_splits)
  next
    case False
    with range t show ?thesis by (auto simp: is_digit_def char_le_byte)
  qed
  then have c: "48 \<le> byte c" "byte c \<le> 57" by (simp_all add: is_digit_def)
  then have "c \<noteq> CHR ''-''" and "c \<noteq> CHR ''+''" and "c \<noteq> CHR '' ''" by auto
  with read c t have "length (takeWhile is_digit t) = length t" by (simp add: stoull_def Let_def split: if_splits)
  with range \<open>t \<noteq> []\<close> show ?thesis by (simp add: takeWhile_length_all)
qed

lemma pointer_contains_iff: "pointer_contains ts j = Inr True \<longleftrightarrow> is_ok (get_checked ts j)"
proof (induction ts arbitrary: j)
  case Nil
  then show ?case by simp
next
  case (Cons t ts)
  show ?case
  proof (cases j)
    case (JArray xs)
    show ?thesis
    proof (cases "array_index t")
      case (Inl e)
      with JArray show ?thesis by simp
    next
      case (Inr i)
      with array_index_digits [OF Inr] JArray Cons.IH show ?thesis
        by (cases t) (auto simp: list_all_iff)
    qed
  qed (use Cons.IH in \<open>auto split: option.splits\<close>)
qed

section \<open>Replacing what a pointer finds\<close>

fun plug_at :: "json_pointer \<Rightarrow> json \<Rightarrow> json \<Rightarrow> json" where
  "plug_at [] w d = w"
| "plug_at (t # ts) w d =
     (case d of
        JObject xs \<Rightarrow> (case map_of xs t of None \<Rightarrow> d | Some v \<Rightarrow> JObject (obj_assign t (plug_at ts w v) xs))
      | JArray xs \<Rightarrow> (case array_index t of Inl e \<Rightarrow> d | Inr i \<Rightarrow> JArray (xs[i := plug_at ts w (xs ! i)]))
      | _ \<Rightarrow> d)"

lemma get_checked_step:
  assumes "get_checked (t # ts) d = Inr s"
  obtains xs v where "d = JObject xs" "map_of xs t = Some v" "get_checked ts v = Inr s"
  | xs i where "d = JArray xs" "t \<noteq> ''-''" "array_index t = Inr i" "i < length xs" "get_checked ts (xs ! i) = Inr s"
  using assms by (auto split: json.splits option.splits if_splits)

lemma modify_checked_at:
  "get_checked ts d = Inr s \<Longrightarrow> modify_checked ts f d = res_bind (f s) (\<lambda>w. Inr (plug_at ts w d))"
proof (induction ts arbitrary: d)
  case Nil
  then show ?case by simp
next
  case (Cons t ts)
  from Cons.prems show ?case by (rule get_checked_step) (auto simp: Cons.IH res_bind_assoc)
qed

lemma modify_unchecked_at:
  "get_checked ts d = Inr s \<Longrightarrow> modify_unchecked ts f d = res_bind (f s) (\<lambda>w. Inr (plug_at ts w d))"
proof (induction ts arbitrary: d)
  case Nil
  then show ?case by simp
next
  case (Cons t ts)
  from Cons.prems show ?case by (rule get_checked_step) (auto simp: Cons.IH res_bind_assoc array_fill_def)
qed

lemma get_checked_plug: "get_checked ts d = Inr s \<Longrightarrow> get_checked ts (plug_at ts w d) = Inr w"
proof (induction ts arbitrary: d)
  case Nil
  then show ?case by simp
next
  case (Cons t ts)
  from Cons.prems show ?case by (rule get_checked_step) (auto simp: Cons.IH map_of_obj_assign)
qed

lemma plug_twice: "get_checked ts d = Inr s \<Longrightarrow> plug_at ts v (plug_at ts w d) = plug_at ts v d"
proof (induction ts arbitrary: d)
  case Nil
  then show ?case by simp
next
  case (Cons t ts)
  from Cons.prems show ?case by (rule get_checked_step) (auto simp: Cons.IH map_of_obj_assign)
qed

lemma get_checked_append: "get_checked ts d = Inr s \<Longrightarrow> get_checked (ts @ us) d = get_checked us s"
proof (induction ts arbitrary: d)
  case Nil
  then show ?case by simp
next
  case (Cons t ts)
  from Cons.prems show ?case by (rule get_checked_step) (auto simp: Cons.IH)
qed

lemma plug_append: "get_checked ts d = Inr s \<Longrightarrow> plug_at (ts @ us) w d = plug_at ts (plug_at us w s) d"
proof (induction ts arbitrary: d)
  case Nil
  then show ?case by simp
next
  case (Cons t ts)
  from Cons.prems show ?case by (rule get_checked_step) (auto simp: Cons.IH)
qed

end
