(* ===== verification/Json_Patch.thy ===== *)
theory Json_Patch
  imports Json_Pointer
begin

text \<open>
  JSON patches of \<open>extern/json/json.hpp\<close>: comparison of values, \<open>diff\<close>, which makes the patch from one value
  to another, and \<open>patch\<close>, which applies one.
\<close>

section \<open>Comparison\<close>

text \<open>
  \<open>operator==\<close>. A signed and an unsigned number are compared after a cast to a signed one, which loses no more
  than a multiple of \<open>2 ^ 64\<close>; numbers one of which is a \<open>double\<close> are compared by \<open>num_eq\<close>.
\<close>

function (sequential) json_eq :: "(json \<Rightarrow> json \<Rightarrow> bool) \<Rightarrow> json \<Rightarrow> json \<Rightarrow> bool" where
  "json_eq num_eq (JArray xs) (JArray ys) \<longleftrightarrow>
     length xs = length ys \<and> list_all (\<lambda>(x, y). json_eq num_eq x y) (zip xs ys)"
| "json_eq num_eq (JObject xs) (JObject ys) \<longleftrightarrow>
     length xs = length ys \<and>
     list_all (\<lambda>((k, x), (l, y)). k = l \<and> json_eq num_eq x y) (zip xs ys)"
| "json_eq num_eq (JInt a) (JInt b) \<longleftrightarrow> a mod 2 ^ 64 = b mod 2 ^ 64"
| "json_eq num_eq (JInt a) (JFloat b) \<longleftrightarrow> num_eq (JInt a) (JFloat b)"
| "json_eq num_eq (JFloat a) (JInt b) \<longleftrightarrow> num_eq (JFloat a) (JInt b)"
| "json_eq num_eq (JFloat a) (JFloat b) \<longleftrightarrow> num_eq (JFloat a) (JFloat b)"
| "json_eq num_eq JNull JNull \<longleftrightarrow> True"
| "json_eq num_eq (JBool a) (JBool b) \<longleftrightarrow> a = b"
| "json_eq num_eq (JString a) (JString b) \<longleftrightarrow> a = b"
| "json_eq num_eq _ _ \<longleftrightarrow> False"
  by pat_completeness auto
termination
  by (relation "measure (\<lambda>(num_eq, x, y). size x)")
    (auto dest!: set_zip_leftD size_json_element size_json_member)

section \<open>Applying a patch\<close>

definition obj_erase :: "string \<Rightarrow> (string \<times> 'v) list \<Rightarrow> (string \<times> 'v) list" where
  "obj_erase k xs = filter (\<lambda>x. fst x \<noteq> k) xs"

text \<open>What \<open>operation_add\<close> does to the parent.\<close>

definition add_member :: "string \<Rightarrow> json \<Rightarrow> json \<Rightarrow> json res" where
  "add_member last_path val parent = (case parent of
     JNull \<Rightarrow> Inr (JObject [(last_path, val)])
   | JObject xs \<Rightarrow> Inr (JObject (obj_assign last_path val xs))
   | JArray xs \<Rightarrow>
       if last_path = ''-'' then Inr (JArray (xs @ [val]))
       else
         res_bind (array_index last_path) (\<lambda>idx.
           if length xs < idx then Inl Json_Out_Of_Range
           else Inr (JArray (take idx xs @ val # drop idx xs)))
   | _ \<Rightarrow> Inl Assertion_Failed)"

definition operation_add :: "json_pointer \<Rightarrow> json \<Rightarrow> json \<Rightarrow> json res" where
  "operation_add ptr val result =
     (if ptr = [] then Inr val
      else
        res_bind (if [hd ptr] \<noteq> ptr then get_checked [hd ptr] result else Inr JNull) (\<lambda>_.
          modify_unchecked (butlast ptr) (add_member (last ptr) val) result))"

text \<open>What \<open>operation_remove\<close> does to the parent; one that is neither object nor array stays.\<close>

definition remove_member :: "string \<Rightarrow> json \<Rightarrow> json res" where
  "remove_member last_path parent = (case parent of
     JObject xs \<Rightarrow>
       (case map_of xs last_path of
          None \<Rightarrow> Inl Json_Missing_Key
        | Some _ \<Rightarrow> Inr (JObject (obj_erase last_path xs)))
   | JArray xs \<Rightarrow>
       res_bind (array_index last_path) (\<lambda>idx.
         if length xs \<le> idx then Inl Json_Out_Of_Range
         else Inr (JArray (take idx xs @ drop (Suc idx) xs)))
   | _ \<Rightarrow> Inr parent)"

definition operation_remove :: "json_pointer \<Rightarrow> json \<Rightarrow> json res" where
  "operation_remove ptr result =
     (if ptr = [] then Inl Json_Out_Of_Range
      else modify_checked (butlast ptr) (remove_member (last ptr)) result)"

definition get_member :: "json \<Rightarrow> string \<Rightarrow> json res" where
  "get_member val member = (case val of
     JObject xs \<Rightarrow> (case map_of xs member of None \<Rightarrow> Inl Json_Parse_Error | Some v \<Rightarrow> Inr v)
   | _ \<Rightarrow> Inl Json_Parse_Error)"

definition get_string_member :: "json \<Rightarrow> string \<Rightarrow> string res" where
  "get_string_member val member = res_bind (get_member val member) (\<lambda>v.
     case v of JString s \<Rightarrow> Inr s | _ \<Rightarrow> Inl Json_Parse_Error)"

text \<open>The exceptions of the class \<open>out_of_range\<close>.\<close>

definition is_out_of_range :: "error \<Rightarrow> bool" where
  "is_out_of_range e \<longleftrightarrow> e \<in> {Json_Out_Of_Range, Json_Missing_Key, Json_Number_Overflow}"

text \<open>
  One operation. In \<open>test\<close> the order in which the two sides of the comparison are evaluated is not fixed by the
  language; it matters only for which exception is thrown when both fail.
\<close>

definition patch_operation :: "(json \<Rightarrow> json \<Rightarrow> bool) \<Rightarrow> json \<Rightarrow> json \<Rightarrow> json res" where
  "patch_operation num_eq val result =
     res_bind (get_string_member val ''op'') (\<lambda>op.
     res_bind (get_string_member val ''path'') (\<lambda>path.
     res_bind (pointer_split path) (\<lambda>ptr.
       if op = ''add'' then
         res_bind (get_member val ''value'') (\<lambda>v. operation_add ptr v result)
       else if op = ''remove'' then operation_remove ptr result
       else if op = ''replace'' then
         res_bind (get_member val ''value'') (\<lambda>v. modify_checked ptr (\<lambda>_. Inr v) result)
       else if op = ''move'' then
         res_bind (get_string_member val ''from'') (\<lambda>from_path.
         res_bind (pointer_split from_path) (\<lambda>from_ptr.
         res_bind (get_checked from_ptr result) (\<lambda>v.
         res_bind (operation_remove from_ptr result) (\<lambda>result. operation_add ptr v result))))
       else if op = ''copy'' then
         res_bind (get_string_member val ''from'') (\<lambda>from_path.
         res_bind (pointer_split from_path) (\<lambda>from_ptr.
         res_bind (get_checked from_ptr result) (\<lambda>v. operation_add ptr v result)))
       else if op = ''test'' then
         (case get_checked ptr result of
            Inl e \<Rightarrow> Inl (if is_out_of_range e then Json_Other_Error else e)
          | Inr w \<Rightarrow>
              res_bind (get_member val ''value'') (\<lambda>v.
                if json_eq num_eq w v then Inr result else Inl Json_Other_Error))
       else Inl Json_Parse_Error)))"

fun patch_operations :: "(json \<Rightarrow> json \<Rightarrow> bool) \<Rightarrow> json list \<Rightarrow> json \<Rightarrow> json res" where
  "patch_operations num_eq [] result = Inr result"
| "patch_operations num_eq (val # vals) result =
     res_bind (patch_operation num_eq val result) (patch_operations num_eq vals)"

definition patch :: "(json \<Rightarrow> json \<Rightarrow> bool) \<Rightarrow> json \<Rightarrow> json \<Rightarrow> json res" where
  "patch num_eq j json_patch =
     (case json_patch of JArray vals \<Rightarrow> patch_operations num_eq vals j | _ \<Rightarrow> Inl Json_Parse_Error)"

section \<open>Making a patch\<close>

definition replace_op :: "string \<Rightarrow> json \<Rightarrow> json" where
  "replace_op path v = json_object [(''op'', JString ''replace''), (''path'', JString path), (''value'', v)]"

definition add_op :: "string \<Rightarrow> json \<Rightarrow> json" where
  "add_op path v = json_object [(''op'', JString ''add''), (''path'', JString path), (''value'', v)]"

definition remove_op :: "string \<Rightarrow> json" where
  "remove_op path = json_object [(''op'', JString ''remove''), (''path'', JString path)]"

definition index_path :: "string \<Rightarrow> nat \<Rightarrow> string" where
  "index_path path i = path @ [slash] @ dump_abs i"

definition key_path :: "string \<Rightarrow> string \<Rightarrow> string" where
  "key_path path k = path @ [slash] @ pointer_escape k"

text \<open>The operations of \<open>diff\<close>; a removal of an element is put before the ones of smaller indices.\<close>

function diff_operations :: "(json \<Rightarrow> json \<Rightarrow> bool) \<Rightarrow> json \<Rightarrow> json \<Rightarrow> string \<Rightarrow> json list" where
  "diff_operations num_eq source target path =
     (if json_eq num_eq source target then []
      else case (source, target) of
        (JArray xs, JArray ys) \<Rightarrow>
          concat (map (\<lambda>i. diff_operations num_eq (xs ! i) (ys ! i) (index_path path i))
                      [0..<min (length xs) (length ys)]) @
          rev (map (\<lambda>i. remove_op (index_path path i)) [min (length xs) (length ys)..<length xs]) @
          map (\<lambda>i. add_op (path @ ''/-'') (ys ! i)) [min (length xs) (length ys)..<length ys]
      | (JObject xs, JObject ys) \<Rightarrow>
          concat (map (\<lambda>(k, v). case map_of ys k of
              Some w \<Rightarrow> diff_operations num_eq v w (key_path path k)
            | None \<Rightarrow> [remove_op (key_path path k)]) xs) @
          concat (map (\<lambda>(k, w). case map_of xs k of
              None \<Rightarrow> [add_op (key_path path k) w] | Some _ \<Rightarrow> []) ys)
      | _ \<Rightarrow> [replace_op path target])"
  by pat_completeness auto
termination
  by (relation "measure (\<lambda>(num_eq, source, target, path). size source)")
    (auto dest!: size_json_member intro!: size_json_element)

declare diff_operations.simps [simp del]

definition diff :: "(json \<Rightarrow> json \<Rightarrow> bool) \<Rightarrow> json \<Rightarrow> json \<Rightarrow> string \<Rightarrow> json" where
  "diff num_eq source target path = JArray (diff_operations num_eq source target path)"

section \<open>Operations at a place\<close>

lemma members_of_ops [simp]:
  "json_object [(''op'', JString a), (''path'', JString b), (''value'', v)] =
     JObject [(''op'', JString a), (''path'', JString b), (''value'', v)]"
  "json_object [(''op'', JString a), (''path'', JString b)] =
     JObject [(''op'', JString a), (''path'', JString b)]"
  by (simp_all add: json_object_def obj_emplace_def)

lemma pointer_escape_dash [simp]: "pointer_escape ''-'' = ''-''"
  by (simp add: pointer_escape_eq escaped_char_def)

lemma pointer_escape_digits: "list_all is_digit s \<Longrightarrow> pointer_escape s = s"
  by (induction s) (auto simp: pointer_escape_eq escaped_char_def is_digit_def)

lemma paths:
  "index_path (pointer_to_string ts) i = pointer_to_string (ts @ [dump_abs i])"
  "key_path (pointer_to_string ts) k = pointer_to_string (ts @ [k])"
  "pointer_to_string ts @ ''/-'' = pointer_to_string (ts @ [''-''])"
  by (simp_all add: index_path_def key_path_def pointer_to_string_snoc pointer_escape_digits dump_abs_digits)

lemmas op_defs = patch_operation_def get_string_member_def get_member_def

lemma patch_replace:
  assumes "get_checked ts d = Inr s"
  shows "patch_operation num_eq (replace_op (pointer_to_string ts) v) (plug_at ts j d) = Inr (plug_at ts v d)"
  using assms get_checked_plug [OF assms, of j]
  by (simp add: op_defs replace_op_def pointer_split_to_string modify_checked_at plug_twice)

lemma patch_remove:
  assumes "get_checked ts d = Inr s"
  shows "patch_operation num_eq (remove_op (pointer_to_string (ts @ [t]))) (plug_at ts j d) =
    res_bind (remove_member t j) (\<lambda>w. Inr (plug_at ts w d))"
  using assms get_checked_plug [OF assms, of j]
  by (simp add: op_defs remove_op_def pointer_split_to_string operation_remove_def modify_checked_at plug_twice)

lemma top_exists: "get_checked ts d = Inr s \<Longrightarrow> ts \<noteq> [] \<Longrightarrow> \<exists>v. get_checked [hd ts] d = Inr v"
  by (cases ts) (auto split: json.splits option.splits if_splits)

lemma patch_add:
  assumes "get_checked ts d = Inr s"
  shows "patch_operation num_eq (add_op (pointer_to_string (ts @ [t])) v) (plug_at ts j d) =
    res_bind (add_member t v j) (\<lambda>w. Inr (plug_at ts w d))"
proof -
  have at: "get_checked ts (plug_at ts j d) = Inr j" using assms by (rule get_checked_plug)
  from top_exists [OF this] have "operation_add (ts @ [t]) v (plug_at ts j d) =
    modify_unchecked ts (add_member t v) (plug_at ts j d)"
    by (cases ts) (auto simp: operation_add_def)
  also have "\<dots> = res_bind (add_member t v j) (\<lambda>w. Inr (plug_at ts w d))"
    using at assms by (simp add: modify_unchecked_at plug_twice)
  finally show ?thesis by (simp add: op_defs add_op_def pointer_split_to_string)
qed

lemma patch_operations_append:
  "patch_operations num_eq (xs @ ys) d = res_bind (patch_operations num_eq xs d) (patch_operations num_eq ys)"
proof (induction xs arbitrary: d)
  case (Cons x xs)
  then have "patch_operations num_eq (xs @ ys) =
    (\<lambda>d. res_bind (patch_operations num_eq xs d) (patch_operations num_eq ys))"
    by (intro ext)
  then show ?case by (simp add: res_bind_assoc)
qed simp

text \<open>The operations change the value \<open>s\<close> at the pointer \<open>ts\<close> to \<open>r\<close>, in every document.\<close>

definition patches :: "(json \<Rightarrow> json \<Rightarrow> bool) \<Rightarrow> json_pointer \<Rightarrow> json list \<Rightarrow> json \<Rightarrow> json \<Rightarrow> bool" where
  "patches num_eq ts ops s r \<longleftrightarrow>
     (\<forall>d s'. get_checked ts d = Inr s' \<longrightarrow> patch_operations num_eq ops (plug_at ts s d) = Inr (plug_at ts r d))"

lemma patches_Nil: "patches num_eq ts [] s s"
  by (simp add: patches_def)

lemma patches_append:
  "patches num_eq ts a s u \<Longrightarrow> patches num_eq ts b u r \<Longrightarrow> patches num_eq ts (a @ b) s r"
  by (simp add: patches_def patch_operations_append)

lemma patches_replace: "patches num_eq ts [replace_op (pointer_to_string ts) r] s r"
  by (simp add: patches_def patch_replace)

lemma patches_remove:
  "remove_member t s = Inr r \<Longrightarrow> patches num_eq ts [remove_op (pointer_to_string (ts @ [t]))] s r"
  by (simp add: patches_def patch_remove)

lemma patches_add:
  "add_member t v s = Inr r \<Longrightarrow> patches num_eq ts [add_op (pointer_to_string (ts @ [t])) v] s r"
  by (simp add: patches_def patch_add)

lemma patches_inner:
  assumes "get_checked [t] j = Inr s" and "plug_at [t] s j = j" and inner: "patches num_eq (ts @ [t]) ops s r"
  shows "patches num_eq ts ops j (plug_at [t] r j)"
  unfolding patches_def
proof (intro allI impI)
  fix d s' assume d: "get_checked ts d = Inr s'"
  then have at: "get_checked ts (plug_at ts j d) = Inr j" by (rule get_checked_plug)
  have plugs: "plug_at (ts @ [t]) w (plug_at ts j d) = plug_at ts (plug_at [t] w j) d" for w
    using plug_append [OF at] plug_twice [OF d] by simp
  from at assms(1) have "get_checked (ts @ [t]) (plug_at ts j d) = Inr s" by (simp add: get_checked_append)
  with inner have "patch_operations num_eq ops (plug_at (ts @ [t]) s (plug_at ts j d)) = Inr (plug_at (ts @ [t]) r (plug_at ts j d))"
    by (auto simp: patches_def)
  with assms(2) show "patch_operations num_eq ops (plug_at ts j d) = Inr (plug_at ts (plug_at [t] r j) d)"
    by (simp add: plugs)
qed

section \<open>Arrays\<close>

lemma patches_element:
  assumes "i < length zs" and "length zs < 2 ^ 64" and "patches num_eq (ts @ [dump_abs i]) ops (zs ! i) r"
  shows "patches num_eq ts ops (JArray zs) (JArray (zs[i := r]))"
proof -
  have i: "array_index (dump_abs i) = Inr i" using assms by (intro array_index_dump_abs) simp
  have "patches num_eq ts ops (JArray zs) (plug_at [dump_abs i] r (JArray zs))"
    by (rule patches_inner [of _ _ "zs ! i"]) (use assms i in simp_all)
  with i show ?thesis by simp
qed

lemma patches_elements:
  assumes "m \<le> length xs" and "length xs < 2 ^ 64"
    and "\<And>i. i < m \<Longrightarrow> patches num_eq (ts @ [dump_abs i]) (D i) (xs ! i) (r i)"
  shows "patches num_eq ts (concat (map D [0..<m])) (JArray xs) (JArray (map r [0..<m] @ drop m xs))"
  using assms
proof (induction m)
  case 0
  then show ?case by (simp add: patches_Nil)
next
  case (Suc m)
  let ?zs = "map r [0..<m] @ drop m xs"
  have "patches num_eq ts (D m) (JArray ?zs) (JArray (?zs[m := r m]))"
    using Suc.prems by (intro patches_element) (simp_all add: nth_append)
  moreover have "?zs[m := r m] = map r [0..<Suc m] @ drop (Suc m) xs"
    using Suc.prems(1) by (simp add: list_update_append Cons_nth_drop_Suc [symmetric])
  ultimately show ?case using Suc by (auto intro: patches_append)
qed

lemma patches_removals:
  assumes "length zs = m" and "n \<le> m" and "m < 2 ^ 64"
  shows "patches num_eq ts (rev (map (\<lambda>i. remove_op (index_path (pointer_to_string ts) i)) [n..<m]))
    (JArray zs) (JArray (take n zs))"
  using assms
proof (induction m arbitrary: zs)
  case 0
  then show ?case by (simp add: patches_Nil)
next
  case (Suc m)
  show ?case
  proof (cases "n = Suc m")
    case True
    with Suc.prems show ?thesis by (simp add: patches_Nil)
  next
    case False
    with Suc.prems have "n \<le> m" by simp
    have "patches num_eq ts [remove_op (pointer_to_string (ts @ [dump_abs m]))] (JArray zs) (JArray (take m zs))"
      using Suc.prems by (intro patches_remove) (simp add: remove_member_def array_index_dump_abs)
    moreover have "patches num_eq ts (rev (map (\<lambda>i. remove_op (index_path (pointer_to_string ts) i)) [n..<m]))
      (JArray (take m zs)) (JArray (take n zs))"
      using Suc.IH [of "take m zs"] Suc.prems \<open>n \<le> m\<close> by (simp add: min_def)
    ultimately show ?thesis using \<open>n \<le> m\<close> by (auto dest: patches_append simp: paths)
  qed
qed

lemma patches_additions:
  "n \<le> m \<Longrightarrow> patches num_eq ts (map (\<lambda>i. add_op (pointer_to_string ts @ ''/-'') (ys ! i)) [n..<m])
     (JArray zs) (JArray (zs @ map ((!) ys) [n..<m]))"
proof (induction m rule: dec_induct)
  case base
  then show ?case by (simp add: patches_Nil)
next
  case (step m)
  have "patches num_eq ts [add_op (pointer_to_string (ts @ [''-''])) (ys ! m)]
    (JArray (zs @ map ((!) ys) [n..<m])) (JArray (zs @ map ((!) ys) [n..<Suc m]))"
    using step by (intro patches_add) (simp add: add_member_def)
  with step show ?case by (auto intro: patches_append simp: paths)
qed

section \<open>Objects\<close>

lemma obj_erase_wf: "obj_wf xs \<Longrightarrow> obj_wf (obj_erase k xs)"
  by (induction xs) (auto simp: obj_erase_def obj_wf_Cons obj_wf_def sorted_wrt_filter)

lemma map_of_obj_erase: "map_of (obj_erase k xs) = (map_of xs)(k := None)"
  by (induction xs) (auto simp: obj_erase_def fun_eq_iff)

lemma obj_assign_same: "obj_wf xs \<Longrightarrow> map_of xs k = Some v \<Longrightarrow> obj_assign k v xs = xs"
proof (induction xs)
  case (Cons x xs)
  obtain l w where x: "x = (l, w)" by (cases x)
  show ?case
  proof (cases "k = l")
    case True
    with Cons.prems(2) x show ?thesis by simp
  next
    case False
    with Cons.prems(2) x have "(k, v) \<in> set xs" by (simp add: map_of_SomeD)
    with Cons.prems(1) x have "l < k" by (auto simp: obj_wf_Cons)
    with False Cons x show ?thesis by (auto simp: obj_wf_Cons)
  qed
qed simp

lemma patches_member:
  assumes "obj_wf zs" and "map_of zs k = Some v" and "patches num_eq (ts @ [k]) ops v r"
  shows "patches num_eq ts ops (JObject zs) (JObject (obj_assign k r zs))"
proof -
  have "patches num_eq ts ops (JObject zs) (plug_at [k] r (JObject zs))"
    by (rule patches_inner [of _ _ v]) (use assms in \<open>simp_all add: obj_assign_same\<close>)
  with assms show ?thesis by simp
qed

text \<open>The first pass: each member of the source becomes equal to the target's, or goes.\<close>

lemma patches_members:
  assumes "distinct (map fst us)" and "obj_wf zs" and "\<And>k v. (k, v) \<in> set us \<Longrightarrow> map_of zs k = Some v"
    and "\<And>k v w. (k, v) \<in> set us \<Longrightarrow> map_of ys k = Some w \<Longrightarrow>
      \<exists>r. json_eq num_eq r w \<and> patches num_eq (ts @ [k]) (D v w k) v r"
  shows "\<exists>zs'. obj_wf zs' \<and> (\<forall>k. k \<notin> fst ` set us \<longrightarrow> map_of zs' k = map_of zs k) \<and>
    (\<forall>k \<in> fst ` set us. rel_option (json_eq num_eq) (map_of zs' k) (map_of ys k)) \<and>
    patches num_eq ts (concat (map (\<lambda>(k, v). case map_of ys k of
       Some w \<Rightarrow> D v w k | None \<Rightarrow> [remove_op (key_path (pointer_to_string ts) k)]) us)) (JObject zs) (JObject zs')"
  using assms
proof (induction us arbitrary: zs)
  case Nil
  then show ?case by (auto intro: patches_Nil)
next
  case (Cons u us)
  obtain k v where u: "u = (k, v)" by (cases u)
  with Cons.prems have new: "k \<notin> fst ` set us" and v: "map_of zs k = Some v" by simp_all
  obtain zs1 where zs1: "obj_wf zs1" "\<And>l. l \<noteq> k \<Longrightarrow> map_of zs1 l = map_of zs l"
    "rel_option (json_eq num_eq) (map_of zs1 k) (map_of ys k)"
    "patches num_eq ts (case map_of ys k of Some w \<Rightarrow> D v w k
       | None \<Rightarrow> [remove_op (key_path (pointer_to_string ts) k)]) (JObject zs) (JObject zs1)"
  proof (cases "map_of ys k")
    case None
    have "patches num_eq ts [remove_op (pointer_to_string (ts @ [k]))] (JObject zs) (JObject (obj_erase k zs))"
      using v by (intro patches_remove) (simp add: remove_member_def)
    with None that [of "obj_erase k zs"] Cons.prems(2) show ?thesis
      by (simp add: obj_erase_wf map_of_obj_erase paths)
  next
    case (Some w)
    with Cons.prems(4) [of k v w] u obtain r where "json_eq num_eq r w" "patches num_eq (ts @ [k]) (D v w k) v r"
      by auto
    with Some that [of "obj_assign k r zs"] Cons.prems(2) v show ?thesis
      by (simp add: obj_assign_wf map_of_obj_assign patches_member)
  qed
  have "map_of zs1 l = Some x" if "(l, x) \<in> set us" for l x
    using that new zs1(2) [of l] Cons.prems(3) [of l x] by force
  with Cons.IH [of zs1] Cons.prems u zs1(1) obtain zs2 where zs2: "obj_wf zs2"
    "\<forall>l. l \<notin> fst ` set us \<longrightarrow> map_of zs2 l = map_of zs1 l"
    "\<forall>l \<in> fst ` set us. rel_option (json_eq num_eq) (map_of zs2 l) (map_of ys l)"
    "patches num_eq ts (concat (map (\<lambda>(k, v). case map_of ys k of
       Some w \<Rightarrow> D v w k | None \<Rightarrow> [remove_op (key_path (pointer_to_string ts) k)]) us)) (JObject zs1) (JObject zs2)"
    by auto
  show ?case
  proof (intro exI [of _ zs2] conjI ballI allI impI)
    show "obj_wf zs2" by fact
    show "map_of zs2 l = map_of zs l" if "l \<notin> fst ` set (u # us)" for l
      using that zs2(2) zs1(2) u by auto
    show "rel_option (json_eq num_eq) (map_of zs2 l) (map_of ys l)" if "l \<in> fst ` set (u # us)" for l
      using that zs2(2,3) zs1(3) u new by auto
  qed (use patches_append [OF zs1(4) zs2(4)] u in simp)
qed

text \<open>The second pass: what only the target has is added.\<close>

lemma patches_new_members:
  assumes "distinct (map fst us)" and "obj_wf zs" and "\<And>k v. k \<in> fst ` set us \<Longrightarrow> map_of xs k = None \<Longrightarrow> map_of zs k = None"
  shows "\<exists>zs'. obj_wf zs' \<and>
    (\<forall>k. map_of zs' k = (if map_of xs k = None \<and> k \<in> fst ` set us then map_of us k else map_of zs k)) \<and>
    patches num_eq ts (concat (map (\<lambda>(k, w). case map_of xs k of
       None \<Rightarrow> [add_op (key_path (pointer_to_string ts) k) w] | Some _ \<Rightarrow> []) us)) (JObject zs) (JObject zs')"
  using assms
proof (induction us arbitrary: zs)
  case Nil
  then show ?case by (auto intro: patches_Nil)
next
  case (Cons u us)
  obtain k w where u: "u = (k, w)" by (cases u)
  with Cons.prems have new: "k \<notin> fst ` set us" by simp
  define zs1 where "zs1 = (if map_of xs k = None then obj_assign k w zs else zs)"
  have zs1: "obj_wf zs1" "\<And>l. map_of zs1 l = (if map_of xs k = None \<and> l = k then Some w else map_of zs l)"
    using Cons.prems(2) by (simp_all add: zs1_def obj_assign_wf map_of_obj_assign)
  have first: "patches num_eq ts (case map_of xs k of None \<Rightarrow> [add_op (key_path (pointer_to_string ts) k) w] | Some _ \<Rightarrow> [])
    (JObject zs) (JObject zs1)"
  proof (cases "map_of xs k")
    case None
    have "patches num_eq ts [add_op (pointer_to_string (ts @ [k])) w] (JObject zs) (JObject zs1)"
      using None by (intro patches_add) (simp add: add_member_def zs1_def)
    with None show ?thesis by (simp add: paths)
  qed (simp add: zs1_def patches_Nil)
  have "map_of zs1 l = None" if "l \<in> fst ` set us" "map_of xs l = None" for l
    using that new zs1(2) [of l] Cons.prems(3) [of l] u by auto
  with Cons.IH [of zs1] Cons.prems u zs1(1) obtain zs2 where zs2: "obj_wf zs2"
    "\<forall>l. map_of zs2 l = (if map_of xs l = None \<and> l \<in> fst ` set us then map_of us l else map_of zs1 l)"
    "patches num_eq ts (concat (map (\<lambda>(k, w). case map_of xs k of
       None \<Rightarrow> [add_op (key_path (pointer_to_string ts) k) w] | Some _ \<Rightarrow> []) us)) (JObject zs1) (JObject zs2)"
    by auto
  show ?case
  proof (intro exI [of _ zs2] conjI allI)
    show "obj_wf zs2" by fact
    show "map_of zs2 l = (if map_of xs l = None \<and> l \<in> fst ` set (u # us) then map_of (u # us) l else map_of zs l)" for l
      using zs2(2) [rule_format, of l] zs1(2) [of l] u new by auto
  qed (use patches_append [OF first zs2(3)] u in simp)
qed

text \<open>Two objects with equal members are equal.\<close>

lemma json_eq_objects:
  assumes "obj_wf xs" and "obj_wf ys" and rel: "\<And>k. rel_option (json_eq num_eq) (map_of xs k) (map_of ys k)"
  shows "json_eq num_eq (JObject xs) (JObject ys)"
proof -
  have keys: "map fst xs = map fst ys"
  proof (rule strict_sorted_equal)
    show "sorted_wrt (<) (map fst xs)" "sorted_wrt (<) (map fst ys)" using assms(1,2) by (simp_all add: obj_wf_def)
    have "map_of xs k = None \<longleftrightarrow> map_of ys k = None" for k
      using rel [of k] by (cases "map_of xs k"; cases "map_of ys k") simp_all
    then show "set (map fst xs) = set (map fst ys)" by (auto simp: map_of_eq_None_iff)
  qed
  then have len: "length xs = length ys" by (metis length_map)
  have dist: "distinct (map fst xs)" "distinct (map fst ys)"
    using assms(1,2) strict_sorted_iff by (auto simp: obj_wf_def)
  have "fst (xs ! i) = fst (ys ! i) \<and> json_eq num_eq (snd (xs ! i)) (snd (ys ! i))" if i: "i < length xs" for i
  proof -
    have k: "fst (xs ! i) = fst (ys ! i)" using keys i len by (metis nth_map)
    have "map_of xs (fst (xs ! i)) = Some (snd (xs ! i))" using i dist(1) by (intro map_of_is_SomeI) simp_all
    moreover have "map_of ys (fst (ys ! i)) = Some (snd (ys ! i))" using i len dist(2) by (intro map_of_is_SomeI) simp_all
    ultimately show ?thesis using rel [of "fst (xs ! i)"] k by simp
  qed
  with len show ?thesis by (auto simp: list_all_length split: prod.splits) (metis fst_conv snd_conv)+
qed

section \<open>A patch made by \<open>diff\<close>\<close>

text \<open>Values a program can hold: the members of an object are in key order, an array has fewer than \<open>2 ^ 64\<close> elements.\<close>

fun json_ok :: "json \<Rightarrow> bool" where
  "json_ok (JArray xs) \<longleftrightarrow> length xs < 2 ^ 64 \<and> list_all json_ok xs"
| "json_ok (JObject xs) \<longleftrightarrow> obj_wf xs \<and> list_all (\<lambda>(k, v). json_ok v) xs"
| "json_ok _ \<longleftrightarrow> True"

lemma json_eq_refl:
  assumes "\<And>x. num_eq (JFloat x) (JFloat x)"
  shows "json_eq num_eq j j"
proof (induction j)
  case (JArray xs)
  then show ?case by (auto simp: list_all_iff zip_same)
next
  case (JObject xs)
  then show ?case by (force simp: list_all_iff zip_same)
qed (simp_all add: assms)

lemma patches_whole:
  assumes "\<And>x. num_eq (JFloat x) (JFloat x)"
    and "json_eq num_eq s t \<and> ops = [] \<or> ops = [replace_op (pointer_to_string ts) t]"
  shows "\<exists>r. json_eq num_eq r t \<and> patches num_eq ts ops s r"
  using assms(2) patches_Nil patches_replace json_eq_refl [of num_eq, OF assms(1)] by blast

lemma diff_patches:
  assumes "\<And>x. num_eq (JFloat x) (JFloat x)" and "json_ok s" and "json_ok t"
  shows "\<exists>r. json_eq num_eq r t \<and> patches num_eq ts (diff_operations num_eq s t (pointer_to_string ts)) s r"
  using assms(2,3)
proof (induction s arbitrary: t ts)
  case (JArray xs)
  show ?case
  proof (cases "\<exists>ys. t = JArray ys \<and> \<not> json_eq num_eq (JArray xs) t")
    case True
    then obtain ys where t: "t = JArray ys" "\<not> json_eq num_eq (JArray xs) (JArray ys)" by auto
    define n where "n = min (length xs) (length ys)"
    let ?D = "\<lambda>i. diff_operations num_eq (xs ! i) (ys ! i) (index_path (pointer_to_string ts) i)"
    have "\<exists>r. json_eq num_eq r (ys ! i) \<and> patches num_eq (ts @ [dump_abs i]) (?D i) (xs ! i) r" if "i < n" for i
      using JArray.IH [of "xs ! i" "ys ! i" "ts @ [dump_abs i]"] JArray.prems that t
      by (simp add: n_def list_all_length paths)
    then obtain r where r: "\<And>i. i < n \<Longrightarrow> json_eq num_eq (r i) (ys ! i)"
      "\<And>i. i < n \<Longrightarrow> patches num_eq (ts @ [dump_abs i]) (?D i) (xs ! i) (r i)" by metis
    let ?zs = "map r [0..<n] @ drop n xs"
    have len: "length xs < 2 ^ 64" using JArray.prems(1) by simp
    have "patches num_eq ts (concat (map ?D [0..<n])) (JArray xs) (JArray ?zs)"
      using r(2) len by (intro patches_elements) (simp_all add: n_def)
    moreover have "patches num_eq ts (rev (map (\<lambda>i. remove_op (index_path (pointer_to_string ts) i)) [n..<length xs]))
      (JArray ?zs) (JArray (map r [0..<n]))"
      using patches_removals [of ?zs "length xs" n num_eq ts] len by (simp add: n_def)
    moreover have "patches num_eq ts (map (\<lambda>i. add_op (pointer_to_string ts @ ''/-'') (ys ! i)) [n..<length ys])
      (JArray (map r [0..<n])) (JArray (map r [0..<n] @ map ((!) ys) [n..<length ys]))"
      by (rule patches_additions) (simp add: n_def)
    ultimately have "patches num_eq ts (diff_operations num_eq (JArray xs) t (pointer_to_string ts)) (JArray xs)
      (JArray (map r [0..<n] @ map ((!) ys) [n..<length ys]))"
      using t by (simp add: diff_operations.simps [of _ "JArray xs"] n_def [symmetric]) (blast intro: patches_append)
    moreover have "json_eq num_eq (JArray (map r [0..<n] @ map ((!) ys) [n..<length ys])) t"
      using r(1) t json_eq_refl [of num_eq] assms(1) by (auto simp: list_all_length n_def nth_append)
    ultimately show ?thesis by blast
  next
    case False
    then show ?thesis
      by (intro patches_whole assms(1)) (auto simp: diff_operations.simps [of _ "JArray xs"] split: json.splits)
  qed
next
  case (JObject xs)
  show ?case
  proof (cases "\<exists>ys. t = JObject ys \<and> \<not> json_eq num_eq (JObject xs) t")
    case True
    then obtain ys where t: "t = JObject ys" "\<not> json_eq num_eq (JObject xs) (JObject ys)" by auto
    have wf: "obj_wf xs" "obj_wf ys" using JObject.prems t by simp_all
    then have dist: "distinct (map fst xs)" "distinct (map fst ys)"
      using strict_sorted_iff by (auto simp: obj_wf_def)
    let ?D = "\<lambda>v w k. diff_operations num_eq v w (key_path (pointer_to_string ts) k)"
    have inner: "\<exists>r. json_eq num_eq r w \<and> patches num_eq (ts @ [k]) (?D v w k) v r"
      if "(k, v) \<in> set xs" "map_of ys k = Some w" for k v w
    proof -
      have "json_ok v" using JObject.prems(1) that(1) by (auto simp: list_all_iff)
      moreover have "json_ok w" using JObject.prems(2) t map_of_SomeD [OF that(2)] by (auto simp: list_all_iff)
      ultimately show ?thesis
        using JObject.IH [of "(k, v)" v w "ts @ [k]"] that(1) by (simp add: paths)
    qed
    obtain zs where zs: "obj_wf zs" "\<forall>k. k \<notin> fst ` set xs \<longrightarrow> map_of zs k = map_of xs k"
      "\<forall>k \<in> fst ` set xs. rel_option (json_eq num_eq) (map_of zs k) (map_of ys k)"
      "patches num_eq ts (concat (map (\<lambda>(k, v). case map_of ys k of
         Some w \<Rightarrow> ?D v w k | None \<Rightarrow> [remove_op (key_path (pointer_to_string ts) k)]) xs)) (JObject xs) (JObject zs)"
      using patches_members [of xs xs ys num_eq ts ?D, OF dist(1) wf(1) _ inner] dist(1) by auto
    have absent: "map_of zs k = None" if "map_of xs k = None" for k
      using zs(2) that by (metis map_of_eq_None_iff)
    obtain us where us: "obj_wf us"
      "\<forall>k. map_of us k = (if map_of xs k = None \<and> k \<in> fst ` set ys then map_of ys k else map_of zs k)"
      "patches num_eq ts (concat (map (\<lambda>(k, w). case map_of xs k of
         None \<Rightarrow> [add_op (key_path (pointer_to_string ts) k) w] | Some _ \<Rightarrow> []) ys)) (JObject zs) (JObject us)"
      using patches_new_members [of ys zs xs num_eq ts] dist(2) zs(1) absent by auto
    have "patches num_eq ts (diff_operations num_eq (JObject xs) t (pointer_to_string ts)) (JObject xs) (JObject us)"
      using t patches_append [OF zs(4) us(3)] by (auto simp: diff_operations.simps [of _ "JObject xs"])
    moreover have "rel_option (json_eq num_eq) (map_of us k) (map_of ys k)" for k
    proof (cases "map_of xs k")
      case None
      moreover have "k \<in> fst ` set ys \<longleftrightarrow> map_of ys k \<noteq> None" by (metis map_of_eq_None_iff)
      ultimately show ?thesis
        using us(2) [rule_format, of k] absent [OF None] json_eq_refl [of num_eq, OF assms(1)]
        by (cases "map_of ys k") simp_all
    next
      case (Some v)
      then have "k \<in> fst ` set xs" by (metis map_of_eq_None_iff option.distinct(1))
      with zs(3) have "rel_option (json_eq num_eq) (map_of zs k) (map_of ys k)" by blast
      with Some us(2) show ?thesis by simp
    qed
    with us(1) wf(2) t have "json_eq num_eq (JObject us) t" by (simp only: json_eq_objects)
    ultimately show ?thesis by blast
  next
    case False
    then show ?thesis
      by (intro patches_whole assms(1)) (auto simp: diff_operations.simps [of _ "JObject xs"] split: json.splits)
  qed
qed (intro patches_whole assms(1), auto simp: diff_operations.simps)+

text \<open>
  C30. The invariant the library documents for \<open>diff\<close>: applying \<open>diff(source, target)\<close> to \<open>source\<close> succeeds and
  gives a value that compares equal to \<open>target\<close>, for all values whose floating point numbers are equal to
  themselves.
\<close>

theorem patch_of_diff:
  assumes "\<And>x. num_eq (JFloat x) (JFloat x)" and "json_ok source" and "json_ok target"
  shows "\<exists>r. patch num_eq source (diff num_eq source target []) = Inr r \<and> json_eq num_eq r target"
proof -
  obtain r where "json_eq num_eq r target" "patches num_eq [] (diff_operations num_eq source target (pointer_to_string [])) source r"
    using diff_patches [of num_eq source target "[]"] assms by blast
  then show ?thesis by (auto simp: patch_def diff_def patches_def)
qed

definition before :: json where
  "before = JObject [(''a'', JArray [JInt 1, JInt 2, JInt 3]), (''b/c'', JObject [(''x'', JNull)]), (''gone'', JBool True)]"

definition after :: json where
  "after = JObject [(''a'', JArray [JInt 1, JString ''two'']), (''b/c'', JObject [(''x'', JInt 5), (''~'', JNull)])]"

theorem patch_of_diff_witness:
  "\<exists>r. patch (=) before (diff (=) before after []) = Inr r \<and> json_eq (=) r after"
proof (rule patch_of_diff)
  show "json_ok before" "json_ok after" by (simp_all add: before_def after_def obj_wf_def)
qed simp

text \<open>
  What the operations do when the parent of the last token is not a container: \<open>add\<close> runs into the assertion that
  calls this impossible, \<open>remove\<close> does nothing.
\<close>

lemma add_below_number:
  "patch num_eq (JObject [(''a'', JInt 1)]) (JArray [add_op ''/a/b'' JNull]) = Inl Assertion_Failed"
  by code_simp

lemma remove_below_number:
  "patch num_eq (JObject [(''a'', JInt 1)]) (JArray [remove_op ''/a/b'']) = Inr (JObject [(''a'', JInt 1)])"
  by code_simp

lemma one_letter_index:
  "patch num_eq (JArray [JNull]) (JArray [remove_op ''/a'']) = Inl Stoi_Invalid_Argument"
  by code_simp

end
