(* ===== verification/Json_Flatten.thy ===== *)
theory Json_Flatten
  imports Json_Patch
begin

text \<open>
  Merge patches, and the flat form of a value, of \<open>extern/json/json.hpp\<close>.
\<close>

section \<open>Objects as maps\<close>

lemma obj_ext:
  assumes "obj_wf xs" and "obj_wf ys" and eq: "map_of xs = map_of ys"
  shows "xs = ys"
proof -
  have dist: "distinct (map fst xs)" "distinct (map fst ys)"
    using assms(1,2) strict_sorted_iff by (auto simp: obj_wf_def)
  have "set xs = set ys" using map_of_inject_set [OF dist] eq by simp
  with dist assms(1,2) show ?thesis
    by (intro map_sorted_distinct_set_unique [of fst]) (auto simp: obj_wf_def strict_sorted_iff distinct_map)
qed

section \<open>Merge patches\<close>

function merge_patch :: "json \<Rightarrow> json \<Rightarrow> json" where
  "merge_patch target apply_patch =
     (case apply_patch of
        JObject ps \<Rightarrow>
          JObject (foldl (\<lambda>xs (k, v).
              if v = JNull then obj_erase k xs
              else obj_assign k (merge_patch (case map_of xs k of None \<Rightarrow> JNull | Some w \<Rightarrow> w) v) xs)
            (case target of JObject xs \<Rightarrow> xs | _ \<Rightarrow> []) ps)
      | _ \<Rightarrow> apply_patch)"
  by pat_completeness auto
termination
  by (relation "measure (\<lambda>(target, p). size p)") (auto dest!: size_json_member)

declare merge_patch.simps [simp del]

definition members :: "json \<Rightarrow> (string \<times> json) list" where
  "members j = (case j of JObject xs \<Rightarrow> xs | _ \<Rightarrow> [])"

text \<open>The members after a merge patch, as RFC 7396 has it: a null removes, any other value is merged.\<close>

definition merged_member :: "json option \<Rightarrow> json option \<Rightarrow> json option" where
  "merged_member old new = (case new of
     None \<Rightarrow> old
   | Some v \<Rightarrow> if v = JNull then None else Some (merge_patch (case old of None \<Rightarrow> JNull | Some w \<Rightarrow> w) v))"

lemma merge_members:
  assumes "distinct (map fst ps)" and "obj_wf xs"
  shows "obj_wf (members (merge_patch (JObject xs) (JObject ps))) \<and>
    (\<forall>k. map_of (members (merge_patch (JObject xs) (JObject ps))) k = merged_member (map_of xs k) (map_of ps k))"
  using assms
proof (induction ps arbitrary: xs)
  case Nil
  then show ?case by (simp add: merge_patch.simps members_def merged_member_def)
next
  case (Cons p ps)
  obtain k v where p: "p = (k, v)" by (cases p)
  define ys where "ys = (if v = JNull then obj_erase k xs
    else obj_assign k (merge_patch (case map_of xs k of None \<Rightarrow> JNull | Some w \<Rightarrow> w) v) xs)"
  have ys: "obj_wf ys" "map_of ys = (map_of xs)(k := merged_member (map_of xs k) (Some v))"
    using Cons.prems(2)
    by (auto simp: ys_def obj_erase_wf obj_assign_wf map_of_obj_erase map_of_obj_assign merged_member_def)
  have "merge_patch (JObject xs) (JObject (p # ps)) = merge_patch (JObject ys) (JObject ps)"
    by (simp add: merge_patch.simps [of _ "JObject _"] p ys_def)
  moreover have "map_of ps k = None" using Cons.prems(1) p by (auto simp: map_of_eq_None_iff)
  ultimately show ?case
    using Cons.IH [of ys] Cons.prems(1) ys p by (auto simp: merged_member_def split: option.splits)
qed

lemma merge_patch_object: "merge_patch t (JObject ps) = merge_patch (JObject (members t)) (JObject ps)"
  by (cases t) (simp_all add: merge_patch.simps members_def)

lemma merge_patch_other: "(\<And>ps. p \<noteq> JObject ps) \<Longrightarrow> merge_patch t p = p"
  by (cases p) (auto simp: merge_patch.simps)

lemma merge_patch_is_object: "\<exists>zs. merge_patch t (JObject ps) = JObject zs"
  by (simp add: merge_patch.simps)

lemma members_JObject [simp]: "members (JObject xs) = xs"
  by (simp add: members_def)

lemma obj_wf_distinct: "obj_wf xs \<Longrightarrow> distinct (map fst xs)"
  by (auto simp: obj_wf_def strict_sorted_iff)

lemma json_ok_members: "json_ok j \<Longrightarrow> obj_wf (members j)"
  by (cases j) (simp_all add: members_def)

text \<open>
  A merge patch that has been applied changes nothing when it is applied again.
\<close>

lemma merge_patch_idempotent:
  assumes "json_ok j" and "json_ok p"
  shows "merge_patch (merge_patch j p) p = merge_patch j p"
  using assms
proof (induction p arbitrary: j)
  case (JObject ps)
  have ps: "distinct (map fst ps)" using JObject.prems(2) by (simp add: obj_wf_distinct)
  obtain zs where z: "merge_patch j (JObject ps) = JObject zs" using merge_patch_is_object by blast
  obtain us where u: "merge_patch (JObject zs) (JObject ps) = JObject us" using merge_patch_is_object by blast
  have zs: "obj_wf zs" "\<And>k. map_of zs k = merged_member (map_of (members j) k) (map_of ps k)"
    using merge_members [OF ps json_ok_members [OF JObject.prems(1)]] z merge_patch_object [of j ps] by simp_all
  have us: "obj_wf us" "\<And>k. map_of us k = merged_member (map_of zs k) (map_of ps k)"
    using merge_members [OF ps zs(1)] u by simp_all
  have "merged_member (map_of zs k) (map_of ps k) = map_of zs k" for k
  proof (cases "map_of ps k")
    case None
    then show ?thesis by (simp add: merged_member_def)
  next
    case (Some v)
    define w where "w = (case map_of (members j) k of None \<Rightarrow> JNull | Some w \<Rightarrow> w)"
    have v: "(k, v) \<in> set ps" using Some by (rule map_of_SomeD)
    moreover have "json_ok v" using JObject.prems(2) v by (auto simp: list_all_iff)
    moreover have "json_ok w"
      using JObject.prems(1) by (cases j) (auto simp: w_def members_def list_all_iff split: option.splits dest: map_of_SomeD)
    ultimately have "merge_patch (merge_patch w v) v = merge_patch w v"
      using JObject.IH [of "(k, v)" v w] by simp
    with Some show ?thesis by (simp add: zs(2) merged_member_def w_def)
  qed
  with us(2) have "map_of us = map_of zs" by auto
  with us(1) zs(1) have "us = zs" by (intro obj_ext)
  with z u show ?case by simp
qed (simp_all add: merge_patch_other)

section \<open>The flat form\<close>

text \<open>\<open>json_pointer::flatten\<close>; \<open>result\<close> is an object.\<close>

function flatten_from :: "string \<Rightarrow> json \<Rightarrow> (string \<times> json) list \<Rightarrow> (string \<times> json) list" where
  "flatten_from reference_string v result =
     (case v of
        JArray xs \<Rightarrow>
          if xs = [] then obj_assign reference_string JNull result
          else foldl (\<lambda>result i. flatten_from (reference_string @ ''/'' @ dump_abs i) (xs ! i) result) result [0..<length xs]
      | JObject xs \<Rightarrow>
          if xs = [] then obj_assign reference_string JNull result
          else foldl (\<lambda>result (k, x). flatten_from (reference_string @ ''/'' @ pointer_escape k) x result) result xs
      | _ \<Rightarrow> obj_assign reference_string v result)"
  by pat_completeness auto
termination
  by (relation "measure (\<lambda>(reference_string, v, result). size v)")
    (auto dest!: size_json_member intro!: size_json_nth)

declare flatten_from.simps [simp del]

definition json_flatten :: "json \<Rightarrow> json" where
  "json_flatten j = JObject (flatten_from [] j [])"

text \<open>\<open>get_and_create\<close> and the assignment to what it returns.\<close>

fun create_at :: "json_pointer \<Rightarrow> json \<Rightarrow> json \<Rightarrow> json res" where
  "create_at [] v j = Inr v"
| "create_at (t # ts) v j =
     (case j of
        JNull \<Rightarrow>
          if t = ''0'' then res_bind (create_at ts v JNull) (\<lambda>v'. Inr (JArray [v']))
          else res_bind (create_at ts v JNull) (\<lambda>v'. Inr (JObject [(t, v')]))
      | JObject xs \<Rightarrow>
          res_bind (create_at ts v (case map_of xs t of None \<Rightarrow> JNull | Some w \<Rightarrow> w)) (\<lambda>v'.
            Inr (JObject (obj_assign t v' xs)))
      | JArray xs \<Rightarrow>
          res_bind (array_index t) (\<lambda>i.
          res_bind (create_at ts v (array_fill i xs ! i)) (\<lambda>v'. Inr (JArray ((array_fill i xs)[i := v']))))
      | _ \<Rightarrow> Inl Json_Type_Error)"

definition is_primitive :: "json \<Rightarrow> bool" where
  "is_primitive j = (case j of JArray _ \<Rightarrow> False | JObject _ \<Rightarrow> False | _ \<Rightarrow> True)"

fun unflatten_members :: "(string \<times> json) list \<Rightarrow> json \<Rightarrow> json res" where
  "unflatten_members [] result = Inr result"
| "unflatten_members ((k, v) # xs) result =
     (if \<not> is_primitive v then Inl Json_Type_Error
      else
        res_bind (pointer_split k) (\<lambda>ptr.
        res_bind (create_at ptr v result) (unflatten_members xs)))"

definition json_unflatten :: "json \<Rightarrow> json res" where
  "json_unflatten v = (case v of JObject xs \<Rightarrow> unflatten_members xs JNull | _ \<Rightarrow> Inl Json_Type_Error)"

text \<open>
  Two values that the note on \<open>unflatten\<close> says are restored: an object whose first key is \<open>0\<close> comes back as an
  array, or, when it has another key, not at all.
\<close>

lemma unflatten_key_zero:
  "json_unflatten (json_flatten (JObject [(''0'', JInt 1)])) = Inr (JArray [JInt 1])"
  "json_unflatten (json_flatten (JObject [(''0'', JInt 1), (''a'', JInt 2)])) = Inl Stoi_Invalid_Argument"
  by code_simp+

section \<open>The leaves of a value\<close>

definition children :: "json \<Rightarrow> (string \<times> json) list" where
  "children j = (case j of
     JArray xs \<Rightarrow> map (\<lambda>i. (dump_abs i, xs ! i)) [0..<length xs]
   | JObject xs \<Rightarrow> xs
   | _ \<Rightarrow> [])"

fun leaf :: "json_pointer \<Rightarrow> json \<Rightarrow> json \<Rightarrow> bool" where
  "leaf [] v j \<longleftrightarrow> is_primitive j \<and> v = j"
| "leaf (t # ts) v j \<longleftrightarrow> (\<exists>x. (t, x) \<in> set (children j) \<and> leaf ts v x)"

text \<open>Values without empty containers and without the key \<open>0\<close>.\<close>

fun flattenable :: "json \<Rightarrow> bool" where
  "flattenable (JArray xs) \<longleftrightarrow> xs \<noteq> [] \<and> list_all flattenable xs"
| "flattenable (JObject xs) \<longleftrightarrow> xs \<noteq> [] \<and> list_all (\<lambda>(k, x). k \<noteq> ''0'' \<and> flattenable x) xs"
| "flattenable _ \<longleftrightarrow> True"

lemma dump_abs_inject [simp]: "dump_abs i = dump_abs k \<longleftrightarrow> i = k"
  using digits_value_dump_abs by metis

lemma children_distinct: "json_ok j \<Longrightarrow> distinct (map fst (children j))"
proof (cases j)
  case (JArray xs)
  then show ?thesis by (simp add: children_def o_def distinct_map inj_on_def)
qed (simp_all add: children_def obj_wf_distinct)

lemma children_ok: "json_ok j \<Longrightarrow> (t, x) \<in> set (children j) \<Longrightarrow> json_ok x"
  by (cases j) (auto simp: children_def list_all_iff)

lemma children_flattenable: "flattenable j \<Longrightarrow> (t, x) \<in> set (children j) \<Longrightarrow> flattenable x"
  by (cases j) (auto simp: children_def list_all_iff)

lemma children_size: "(t, x) \<in> set (children j) \<Longrightarrow> size x < size j"
  by (cases j) (auto simp: children_def intro!: size_json_nth dest: size_json_member)

lemma children_primitive: "is_primitive j \<Longrightarrow> children j = []"
  by (cases j) (simp_all add: children_def is_primitive_def)

lemma flattenable_cases: "flattenable j \<Longrightarrow> is_primitive j \<or> children j \<noteq> []"
  by (cases j) (simp_all add: children_def is_primitive_def)

lemma leaf_unique: "json_ok j \<Longrightarrow> leaf p v j \<Longrightarrow> leaf p w j \<Longrightarrow> v = w"
proof (induction p arbitrary: j)
  case (Cons t ts)
  then obtain x y where "(t, x) \<in> set (children j)" "leaf ts v x" "(t, y) \<in> set (children j)" "leaf ts w y" by auto
  moreover from this have "x = y" using children_distinct [OF Cons.prems(1)] by (auto dest: eq_key_imp_eq_value)
  ultimately show ?case using Cons.IH children_ok [OF Cons.prems(1)] by blast
qed simp

lemma leaf_exists: "flattenable j \<Longrightarrow> \<exists>p v. leaf p v j"
proof (induction "size j" arbitrary: j rule: less_induct)
  case less
  consider "is_primitive j" | t x where "(t, x) \<in> set (children j)"
    using flattenable_cases [OF less.prems] by (cases "children j") auto
  then show ?case
  proof cases
    case 1
    then have "leaf [] j j" by simp
    then show ?thesis by blast
  next
    case 2
    with less children_size children_flattenable obtain p v where "leaf p v x" by blast
    with 2 have "leaf (t # p) v j" by auto
    then show ?thesis by blast
  qed
qed

lemma flatten_from_children:
  assumes "\<not> is_primitive v" and "flattenable v"
  shows "flatten_from r v result = foldl (\<lambda>result (k, x). flatten_from (key_path r k) x result) result (children v)"
  using assms
  by (cases v) (simp_all add: flatten_from.simps [of _ "JArray _"] flatten_from.simps [of _ "JObject _"] children_def is_primitive_def key_path_def foldl_map
      pointer_escape_digits dump_abs_digits)

text \<open>The flat form has the leaves under their pointers, and nothing else new.\<close>

definition leaf_at :: "string \<Rightarrow> json \<Rightarrow> string \<Rightarrow> json \<Rightarrow> bool" where
  "leaf_at r j s v \<longleftrightarrow> (\<exists>p. s = r @ pointer_to_string p \<and> leaf p v j)"

lemma leaf_at_children:
  assumes "\<not> is_primitive j"
  shows "leaf_at r j s v \<longleftrightarrow> (\<exists>(k, x) \<in> set (children j). leaf_at (key_path r k) x s v)" (is "?l \<longleftrightarrow> ?r")
proof
  assume ?l
  then obtain p where p: "s = r @ pointer_to_string p" "leaf p v j" by (auto simp: leaf_at_def)
  with assms obtain t ts where "p = t # ts" by (cases p) auto
  with p show ?r by (force simp: leaf_at_def key_path_def pointer_to_string_concat)
next
  assume ?r
  then obtain k x p where "(k, x) \<in> set (children j)" "s = key_path r k @ pointer_to_string p" "leaf p v x"
    by (auto simp: leaf_at_def)
  then have "s = r @ pointer_to_string (k # p) \<and> leaf (k # p) v j"
    by (auto simp: key_path_def pointer_to_string_concat)
  then show ?l unfolding leaf_at_def by blast
qed

lemma pointer_to_string_inject [simp]: "pointer_to_string p = pointer_to_string q \<longleftrightarrow> p = q"
  using pointer_split_to_string by (metis sum.inject(2))

lemma leaf_at_unique:
  "json_ok j \<Longrightarrow> leaf_at r j s v \<Longrightarrow> leaf_at r j s w \<Longrightarrow> v = w"
  by (auto simp: leaf_at_def dest: leaf_unique)

lemma flatten_foldl:
  assumes "\<And>k x result. (k, x) \<in> set us \<Longrightarrow> obj_wf result \<Longrightarrow> obj_wf (F k x result) \<and>
      (\<forall>s v. P k x s v \<longrightarrow> map_of (F k x result) s = Some v) \<and>
      (\<forall>s. (\<nexists>v. P k x s v) \<longrightarrow> map_of (F k x result) s = map_of result s)"
    and "\<And>k x l y s v w. (k, x) \<in> set us \<Longrightarrow> (l, y) \<in> set us \<Longrightarrow> P k x s v \<Longrightarrow> P l y s w \<Longrightarrow> v = w"
    and "obj_wf result"
  shows "obj_wf (foldl (\<lambda>result (k, x). F k x result) result us) \<and>
    (\<forall>s v. (\<exists>(k, x) \<in> set us. P k x s v) \<longrightarrow> map_of (foldl (\<lambda>result (k, x). F k x result) result us) s = Some v) \<and>
    (\<forall>s. (\<nexists>v. \<exists>(k, x) \<in> set us. P k x s v) \<longrightarrow>
      map_of (foldl (\<lambda>result (k, x). F k x result) result us) s = map_of result s)"
  using assms
proof (induction us arbitrary: result)
  case Nil
  then show ?case by simp
next
  case (Cons u us)
  obtain k x where u: "u = (k, x)" by (cases u)
  let ?r = "F k x result"
  have first: "obj_wf ?r" "\<And>s v. P k x s v \<Longrightarrow> map_of ?r s = Some v"
    "\<And>s. (\<nexists>v. P k x s v) \<Longrightarrow> map_of ?r s = map_of result s"
    using Cons.prems(1) [of k x result] Cons.prems(3) u by auto
  let ?f = "foldl (\<lambda>result (k, x). F k x result) ?r us"
  have "obj_wf ?f \<and> (\<forall>s v. (\<exists>(k, x) \<in> set us. P k x s v) \<longrightarrow> map_of ?f s = Some v) \<and>
    (\<forall>s. (\<nexists>v. \<exists>(k, x) \<in> set us. P k x s v) \<longrightarrow> map_of ?f s = map_of ?r s)"
    by (rule Cons.IH) (use Cons.prems(1,2) first(1) in \<open>force+\<close>)
  then have rest: "obj_wf ?f" "\<And>s v. \<exists>(k, x) \<in> set us. P k x s v \<Longrightarrow> map_of ?f s = Some v"
    "\<And>s. \<nexists>v. \<exists>(k, x) \<in> set us. P k x s v \<Longrightarrow> map_of ?f s = map_of ?r s" by blast+
  show ?case
  proof (intro conjI allI impI)
    show "obj_wf (foldl (\<lambda>result (k, x). F k x result) result (u # us))" using rest(1) u by simp
  next
    fix s v assume new: "\<exists>(k, x) \<in> set (u # us). P k x s v"
    show "map_of (foldl (\<lambda>result (k, x). F k x result) result (u # us)) s = Some v"
    proof (cases "\<exists>w. \<exists>(l, y) \<in> set us. P l y s w")
      case True
      then obtain w l y where w: "(l, y) \<in> set us" "P l y s w" by auto
      from new obtain m z where "(m, z) \<in> set (u # us)" "P m z s v" by auto
      with w Cons.prems(2) [of l y m z s w v] have "w = v" by simp
      with rest(2) w u show ?thesis by auto
    next
      case False
      with new u have "P k x s v" by auto
      with first(2) rest(3) [of s] False u show ?thesis by simp
    qed
  next
    fix s assume none: "\<nexists>v. \<exists>(k, x) \<in> set (u # us). P k x s v"
    then have "\<nexists>v. P k x s v" and "\<nexists>v. \<exists>(k, x) \<in> set us. P k x s v" using u by auto
    with first(3) [of s] rest(3) [of s] u
    show "map_of (foldl (\<lambda>result (k, x). F k x result) result (u # us)) s = map_of result s" by simp
  qed
qed

lemma flatten_from_map:
  assumes "json_ok j" and "flattenable j" and "obj_wf result"
  shows "obj_wf (flatten_from r j result) \<and>
    (\<forall>s v. leaf_at r j s v \<longrightarrow> map_of (flatten_from r j result) s = Some v) \<and>
    (\<forall>s. (\<nexists>v. leaf_at r j s v) \<longrightarrow> map_of (flatten_from r j result) s = map_of result s)"
  using assms
proof (induction "size j" arbitrary: j r result rule: less_induct)
  case less
  show ?case
  proof (cases "is_primitive j")
    case True
    then have "flatten_from r j result = obj_assign r j result"
      by (cases j) (simp_all add: flatten_from.simps is_primitive_def)
    moreover have "leaf_at r j s v \<longleftrightarrow> s = r \<and> v = j" for s v
    proof -
      have "leaf p v j \<longleftrightarrow> p = [] \<and> v = j" for p
        using True children_primitive [OF True] by (cases p) auto
      then show ?thesis by (auto simp: leaf_at_def)
    qed
    ultimately show ?thesis using less.prems by (auto simp: obj_assign_wf map_of_obj_assign)
  next
    case False
    have split: "leaf_at r j s v \<longleftrightarrow> (\<exists>(k, x) \<in> set (children j). leaf_at (key_path r k) x s v)" for s v
      using leaf_at_children [OF False] .
    have unique: "v = w" if "(k, x) \<in> set (children j)" "(l, y) \<in> set (children j)"
      "leaf_at (key_path r k) x s v" "leaf_at (key_path r l) y s w" for k x l y s v w
      using leaf_at_unique [OF less.prems(1)] split that by blast
    have inner: "obj_wf (flatten_from (key_path r k) x result) \<and>
      (\<forall>s v. leaf_at (key_path r k) x s v \<longrightarrow> map_of (flatten_from (key_path r k) x result) s = Some v) \<and>
      (\<forall>s. (\<nexists>v. leaf_at (key_path r k) x s v) \<longrightarrow> map_of (flatten_from (key_path r k) x result) s = map_of result s)"
      if "(k, x) \<in> set (children j)" "obj_wf result" for k x result
      using less.hyps [OF children_size [OF that(1)] children_ok [OF less.prems(1) that(1)]
        children_flattenable [OF less.prems(2) that(1)] that(2)] .
    show ?thesis
      unfolding split flatten_from_children [OF False less.prems(2)]
      by (rule flatten_foldl [of "children j" "\<lambda>k x. flatten_from (key_path r k) x" "\<lambda>k x. leaf_at (key_path r k) x"])
        (use inner unique less.prems(3) in blast)+
  qed
qed

section \<open>What \<open>unflatten\<close> has built so far\<close>

definition tails :: "json_pointer set \<Rightarrow> string \<Rightarrow> json_pointer set" where
  "tails S t = {ts. t # ts \<in> S}"

lemma tails_simps [simp]:
  "tails {} t = {}" "tails (insert (t # ts) S) t = insert ts (tails S t)"
  "u \<noteq> t \<Longrightarrow> tails (insert (t # ts) S) u = tails S u"
  by (auto simp: tails_def)

definition element_or_null :: "json list \<Rightarrow> nat \<Rightarrow> json" where
  "element_or_null ds i = (if i < length ds then ds ! i else JNull)"

definition member_or_null :: "(string \<times> json) list \<Rightarrow> string \<Rightarrow> json" where
  "member_or_null ds k = (case map_of ds k of None \<Rightarrow> JNull | Some w \<Rightarrow> w)"

text \<open>\<open>d\<close> is \<open>j\<close> restricted to the leaves whose pointers are in \<open>S\<close>.\<close>

function part :: "json_pointer set \<Rightarrow> json \<Rightarrow> json \<Rightarrow> bool" where
  "part S j d \<longleftrightarrow>
     (if S = {} then d = JNull
      else case j of
        JArray xs \<Rightarrow>
          (\<exists>ds. d = JArray ds \<and> length ds \<le> length xs \<and>
            (\<forall>i. i < length xs \<longrightarrow> (tails S (dump_abs i) \<noteq> {} \<longrightarrow> i < length ds) \<and>
              part (tails S (dump_abs i)) (xs ! i) (element_or_null ds i)))
      | JObject xs \<Rightarrow>
          (\<exists>ds. d = JObject ds \<and> obj_wf ds \<and> fst ` set ds \<subseteq> fst ` set xs \<and>
            (\<forall>x \<in> set xs. (tails S (fst x) \<noteq> {} \<longrightarrow> map_of ds (fst x) \<noteq> None) \<and>
              part (tails S (fst x)) (snd x) (member_or_null ds (fst x))))
      | _ \<Rightarrow> d = j)"
  by pat_completeness auto
termination
  by (relation "measure (\<lambda>(S, j, d). size j)") (auto intro!: size_json_nth dest: size_json_member)

declare part.simps [simp del]

lemma part_empty [simp]: "part {} j d \<longleftrightarrow> d = JNull"
  by (simp add: part.simps)

lemma part_array:
  "part S (JArray xs) d \<longleftrightarrow>
     (if S = {} then d = JNull
      else \<exists>ds. d = JArray ds \<and> length ds \<le> length xs \<and>
        (\<forall>i < length xs. (tails S (dump_abs i) \<noteq> {} \<longrightarrow> i < length ds) \<and>
          part (tails S (dump_abs i)) (xs ! i) (element_or_null ds i)))"
  by (simp add: part.simps [of S "JArray xs"])

lemma part_object:
  "part S (JObject xs) d \<longleftrightarrow>
     (if S = {} then d = JNull
      else \<exists>ds. d = JObject ds \<and> obj_wf ds \<and> fst ` set ds \<subseteq> fst ` set xs \<and>
        (\<forall>x \<in> set xs. (tails S (fst x) \<noteq> {} \<longrightarrow> map_of ds (fst x) \<noteq> None) \<and>
          part (tails S (fst x)) (snd x) (member_or_null ds (fst x))))"
  by (simp add: part.simps [of S "JObject xs"])

lemma part_primitive: "is_primitive j \<Longrightarrow> S \<noteq> {} \<Longrightarrow> part S j d \<longleftrightarrow> d = j"
  by (cases j) (simp_all add: part.simps is_primitive_def)

text \<open>With every leaf in \<open>S\<close> it is all of \<open>j\<close>.\<close>

lemma part_all:
  assumes "json_ok j" and "flattenable j" and "\<And>p v. leaf p v j \<Longrightarrow> p \<in> S" and "part S j d"
  shows "d = j"
  using assms
proof (induction "size j" arbitrary: j S d rule: less_induct)
  case less
  have child: "tails S t \<noteq> {} \<and> (part (tails S t) x e \<longrightarrow> e = x)" if "(t, x) \<in> set (children j)" for t x e
  proof -
    have ok: "json_ok x" "flattenable x"
      using children_ok [OF less.prems(1) that] children_flattenable [OF less.prems(2) that] .
    have leaves: "p \<in> tails S t" if "leaf p v x" for p v
      using less.prems(3) [of "t # p" v] that \<open>(t, x) \<in> set (children j)\<close> by (auto simp: tails_def)
    with leaf_exists [OF ok(2)] have "tails S t \<noteq> {}" by blast
    moreover have "e = x" if "part (tails S t) x e"
      using less.hyps [OF children_size [OF \<open>(t, x) \<in> set (children j)\<close>] ok, of "tails S t" e] leaves that by blast
    ultimately show ?thesis by blast
  qed
  have "S \<noteq> {}" using leaf_exists [OF less.prems(2)] less.prems(3) by blast
  show ?case
  proof (cases j)
    case (JArray xs)
    have elements: "(dump_abs i, xs ! i) \<in> set (children j)" if "i < length xs" for i
      using that JArray by (simp add: children_def)
    from less.prems(4) \<open>S \<noteq> {}\<close> JArray obtain ds where ds: "d = JArray ds" "length ds \<le> length xs"
      "\<And>i. i < length xs \<Longrightarrow> (tails S (dump_abs i) \<noteq> {} \<longrightarrow> i < length ds) \<and>
        part (tails S (dump_abs i)) (xs ! i) (element_or_null ds i)"
      by (auto simp: part_array)
    have "i < length ds \<and> ds ! i = xs ! i" if "i < length xs" for i
      using ds(3) [OF that] child [OF elements [OF that]] by (auto simp: element_or_null_def)
    with ds(2) have "ds = xs" by (metis less_le_not_le linorder_less_linear nth_equalityI)
    with ds(1) JArray show ?thesis by simp
  next
    case (JObject xs)
    with less.prems(4) \<open>S \<noteq> {}\<close> obtain ds where ds: "d = JObject ds" "obj_wf ds" "fst ` set ds \<subseteq> fst ` set xs"
      "\<forall>x \<in> set xs. (tails S (fst x) \<noteq> {} \<longrightarrow> map_of ds (fst x) \<noteq> None) \<and>
        part (tails S (fst x)) (snd x) (member_or_null ds (fst x))"
      by (simp add: part_object) blast
    have wf: "obj_wf xs" using less.prems(1) JObject by simp
    have "map_of ds k = map_of xs k" for k
    proof (cases "map_of xs k")
      case None
      then have "k \<notin> fst ` set ds" using ds(3) by (auto simp: map_of_eq_None_iff)
      then have "map_of ds k = None" by (simp add: map_of_eq_None_iff)
      with None show ?thesis by simp
    next
      case (Some w)
      then have "(k, w) \<in> set xs" by (rule map_of_SomeD)
      with ds(4) [rule_format, of "(k, w)"] child [of k w] JObject Some show ?thesis
        by (auto simp: children_def member_or_null_def)
    qed
    then have "ds = xs" using ds(2) wf by (intro obj_ext) auto
    with ds(1) JObject show ?thesis by simp
  qed (use less.prems(4) \<open>S \<noteq> {}\<close> in \<open>simp_all add: part_primitive is_primitive_def\<close>)
qed

text \<open>Adding a leaf when all leaves with smaller pointers are there.\<close>

lemma append_less_append [simp]: "(a @ b :: string) < a @ c \<longleftrightarrow> b < c"
  by (induction a) simp_all

lemma pointer_to_string_Cons: "pointer_to_string (t # ts) = slash # pointer_escape t @ pointer_to_string ts"
  by (simp add: pointer_to_string_concat)

lemma pointer_zero_first:
  assumes "0 < i"
  shows "pointer_to_string (''0'' # us) < pointer_to_string (dump_abs i # ts)"
proof -
  obtain c cs where s: "dump_abs i = c # cs" by (cases "dump_abs i") simp_all
  have "c \<noteq> CHR ''0''" using dump_abs_hd [of i] assms s by simp
  then have "CHR ''0'' < c"
    using dump_abs_hd_digit [of i] s byte_eq_iff [of c "CHR ''0''"] by (simp add: less_char_def)
  moreover have "pointer_escape (dump_abs i) = c # cs" using s pointer_escape_digits [OF dump_abs_digits [of i]] by simp
  moreover have "pointer_escape ''0'' = ''0''" by (simp add: pointer_escape_eq escaped_char_def)
  ultimately show ?thesis by (simp add: pointer_to_string_Cons)
qed

lemma array_fill_length: "length (array_fill i ds) = max (length ds) (Suc i)"
  by (simp add: array_fill_def max_def)

lemma array_fill_nth: "k < length (array_fill i ds) \<Longrightarrow> array_fill i ds ! k = element_or_null ds k"
  by (simp add: array_fill_def element_or_null_def nth_append split: if_splits)

lemma element_or_null_fill:
  "element_or_null ((array_fill i ds)[i := v]) k = (if k = i then v else element_or_null ds k)"
  by (auto simp: element_or_null_def array_fill_length array_fill_nth)

lemma member_or_null_assign [simp]:
  "member_or_null (obj_assign t v ds) k = (if k = t then v else member_or_null ds k)"
  by (simp add: member_or_null_def map_of_obj_assign)

lemma create_in_array:
  assumes i: "i < length xs" and "length xs < 2 ^ 64" and first: "S = {} \<Longrightarrow> i = 0" and "part S (JArray xs) d"
    and inner: "\<And>e. part (tails S (dump_abs i)) (xs ! i) e \<Longrightarrow>
      \<exists>e'. create_at ts v e = Inr e' \<and> part (insert ts (tails S (dump_abs i))) (xs ! i) e'"
  shows "\<exists>d'. create_at (dump_abs i # ts) v d = Inr d' \<and> part (insert (dump_abs i # ts) S) (JArray xs) d'"
proof -
  obtain ds where ds: "length ds \<le> length xs"
    "\<And>k. k < length xs \<Longrightarrow> (tails S (dump_abs k) \<noteq> {} \<longrightarrow> k < length ds) \<and>
       part (tails S (dump_abs k)) (xs ! k) (element_or_null ds k)"
    "create_at (dump_abs i # ts) v d =
       res_bind (create_at ts v (element_or_null ds i)) (\<lambda>v'. Inr (JArray ((array_fill i ds)[i := v'])))"
  proof (cases "S = {}")
    case True
    with assms(4) that [of "[]"] first i show ?thesis by (simp add: element_or_null_def array_fill_def)
  next
    case False
    with assms(4) obtain ds where "d = JArray ds" "length ds \<le> length xs"
      "\<forall>k < length xs. (tails S (dump_abs k) \<noteq> {} \<longrightarrow> k < length ds) \<and>
         part (tails S (dump_abs k)) (xs ! k) (element_or_null ds k)"
      by (simp add: part_array) blast
    with that [of ds] assms(2) i show ?thesis by (simp add: array_fill_nth array_fill_length array_index_dump_abs)
  qed
  from ds(2) [OF i] inner obtain e' where e': "create_at ts v (element_or_null ds i) = Inr e'"
    "part (insert ts (tails S (dump_abs i))) (xs ! i) e'" by blast
  have "part (insert (dump_abs i # ts) S) (JArray xs) (JArray ((array_fill i ds)[i := e']))"
    unfolding part_array
  proof (simp, intro conjI allI impI)
    show "length (array_fill i ds) \<le> length xs" using ds(1) i by (simp add: array_fill_length)
    fix k assume k: "k < length xs"
    show "part (tails (insert (dump_abs i # ts) S) (dump_abs k)) (xs ! k) (element_or_null ((array_fill i ds)[i := e']) k)"
      using ds(2) [OF k] e'(2) by (cases "k = i") (simp_all add: element_or_null_fill)
    assume "tails (insert (dump_abs i # ts) S) (dump_abs k) \<noteq> {}"
    then show "k < length (array_fill i ds)"
      using ds(2) [OF k] by (cases "k = i") (auto simp: array_fill_length)
  qed
  with ds(3) e'(1) show ?thesis by simp
qed

lemma create_in_object:
  assumes member: "(t, x) \<in> set xs" and "obj_wf xs" and "t \<noteq> ''0''" and "part S (JObject xs) d"
    and inner: "\<And>e. part (tails S t) x e \<Longrightarrow> \<exists>e'. create_at ts v e = Inr e' \<and> part (insert ts (tails S t)) x e'"
  shows "\<exists>d'. create_at (t # ts) v d = Inr d' \<and> part (insert (t # ts) S) (JObject xs) d'"
proof -
  obtain ds where ds: "obj_wf ds" "fst ` set ds \<subseteq> fst ` set xs"
    "\<And>y. y \<in> set xs \<Longrightarrow> (tails S (fst y) \<noteq> {} \<longrightarrow> map_of ds (fst y) \<noteq> None) \<and>
       part (tails S (fst y)) (snd y) (member_or_null ds (fst y))"
    "create_at (t # ts) v d = res_bind (create_at ts v (member_or_null ds t)) (\<lambda>v'. Inr (JObject (obj_assign t v' ds)))"
  proof (cases "S = {}")
    case True
    with assms(4) that [of "[]"] \<open>t \<noteq> ''0''\<close> show ?thesis by (simp add: member_or_null_def)
  next
    case False
    with assms(4) obtain ds where "d = JObject ds" "obj_wf ds" "fst ` set ds \<subseteq> fst ` set xs"
      "\<forall>y \<in> set xs. (tails S (fst y) \<noteq> {} \<longrightarrow> map_of ds (fst y) \<noteq> None) \<and>
         part (tails S (fst y)) (snd y) (member_or_null ds (fst y))"
      by (simp add: part_object) blast
    with that [of ds] show ?thesis by (simp add: member_or_null_def)
  qed
  from ds(3) [OF member] inner [of "member_or_null ds t"] obtain e' where
    e': "create_at ts v (member_or_null ds t) = Inr e'" "part (insert ts (tails S t)) x e'" by auto
  have members: "(tails (insert (t # ts) S) (fst y) \<noteq> {} \<longrightarrow> map_of (obj_assign t e' ds) (fst y) \<noteq> None) \<and>
      part (tails (insert (t # ts) S) (fst y)) (snd y) (member_or_null (obj_assign t e' ds) (fst y))"
    if y: "y \<in> set xs" for y
  proof (cases "fst y = t")
    case True
    with y have "snd y = x"
      using eq_key_imp_eq_value [OF obj_wf_distinct [OF assms(2)] member, of "snd y"] by (metis prod.collapse)
    with e'(2) True show ?thesis by (simp add: map_of_obj_assign)
  qed (use ds(3) [OF y] in \<open>simp add: map_of_obj_assign\<close>)
  have "fst ` set (obj_assign t e' ds) \<subseteq> fst ` set xs"
    using ds(2) member by (auto dest!: set_obj_assign intro: rev_image_eqI)
  with members obj_assign_wf [OF ds(1)]
  have "part (insert (t # ts) S) (JObject xs) (JObject (obj_assign t e' ds))"
    by (simp add: part_object del: member_or_null_assign)
  with ds(4) e'(1) show ?thesis by simp
qed

lemma create_leaf:
  assumes "json_ok j" and "flattenable j" and "leaf p v j" and "part S j d"
    and "\<And>q w. leaf q w j \<Longrightarrow> pointer_to_string q < pointer_to_string p \<Longrightarrow> q \<in> S"
  shows "\<exists>d'. create_at p v d = Inr d' \<and> part (insert p S) j d'"
  using assms
proof (induction p arbitrary: S j d)
  case Nil
  then show ?case by (simp add: part_primitive)
next
  case (Cons t ts)
  obtain x where x: "(t, x) \<in> set (children j)" "leaf ts v x" using Cons.prems(3) by auto
  note ok = children_ok [OF Cons.prems(1) x(1)] children_flattenable [OF Cons.prems(2) x(1)]
  have smaller: "q \<in> tails S t" if "leaf q w x" "pointer_to_string q < pointer_to_string ts" for q w
    using Cons.prems(5) [of "t # q" w] that x(1) by (auto simp: tails_def pointer_to_string_Cons)
  have inner: "\<exists>e'. create_at ts v e = Inr e' \<and> part (insert ts (tails S t)) x e'" if "part (tails S t) x e" for e
    using Cons.IH [OF ok x(2) that smaller] .
  show ?case
  proof (cases j)
    case (JArray xs)
    then obtain i where i: "i < length xs" "t = dump_abs i" "x = xs ! i" using x(1) by (auto simp: children_def)
    have zero: "(''0'', xs ! 0) \<in> set (children j)"
      using i(1) JArray by (auto simp: children_def intro!: image_eqI [of _ _ 0])
    then obtain q w where "leaf (''0'' # q) w j"
      using leaf_exists [OF children_flattenable [OF Cons.prems(2) zero]] by auto
    with Cons.prems(5) pointer_zero_first [of i q ts] i(2) have "i = 0" if "S = {}" using that by blast
    with i JArray Cons.prems(1,4) inner show ?thesis
      using create_in_array [of i xs S d ts v] by simp
  next
    case (JObject xs)
    then have "t \<noteq> ''0''" using x(1) Cons.prems(2) by (auto simp: children_def list_all_iff)
    with JObject x(1) Cons.prems(1,4) inner show ?thesis
      using create_in_object [of t x xs S d ts v] by (simp add: children_def)
  qed (use x(1) in \<open>simp_all add: children_def\<close>)
qed

lemma unflatten_leaves:
  assumes ok: "json_ok j" "flattenable j" and sorted: "obj_wf (done @ rest)"
    and leaves: "\<And>s v. (s, v) \<in> set (done @ rest) \<longleftrightarrow> leaf_at [] j s v"
    and "part {p. pointer_to_string p \<in> fst ` set done} j d"
  shows "\<exists>d'. unflatten_members rest d = Inr d' \<and> part {p. pointer_to_string p \<in> fst ` set (done @ rest)} j d'"
  using assms
proof (induction rest arbitrary: "done" d)
  case Nil
  then show ?case by simp
next
  case (Cons x rest)
  obtain s v where x: "x = (s, v)" by (cases x)
  with Cons.prems(4) [of s v] obtain p where p: "s = pointer_to_string p" "leaf p v j" by (auto simp: leaf_at_def)
  have "pointer_to_string q \<in> fst ` set done" if "leaf q w j" "pointer_to_string q < s" for q w
  proof -
    have "(pointer_to_string q, w) \<in> set (done @ x # rest)" using Cons.prems(4) that(1) by (auto simp: leaf_at_def)
    moreover have "\<forall>y \<in> set rest. s < fst y" using Cons.prems(3) x by (auto simp: obj_wf_def sorted_wrt_append)
    ultimately show ?thesis using that(2) x by (force intro: rev_image_eqI dest: less_asym)
  qed
  with create_leaf [OF ok p(2) Cons.prems(5)] p(1) obtain d1 where
    d1: "create_at p v d = Inr d1" "part (insert p {p. pointer_to_string p \<in> fst ` set done}) j d1" by auto
  have "insert p {p. pointer_to_string p \<in> fst ` set done} = {p. pointer_to_string p \<in> fst ` set (done @ [x])}"
    using p(1) x by auto
  with d1(2) have "part {p. pointer_to_string p \<in> fst ` set (done @ [x])} j d1" by simp
  with Cons.IH [of "done @ [x]" d1] Cons.prems obtain d2 where "unflatten_members rest d1 = Inr d2"
    "part {p. pointer_to_string p \<in> fst ` set (done @ x # rest)} j d2" by auto
  moreover have "is_primitive v" using p(2)
  proof (induction p arbitrary: j)
  qed auto
  ultimately show ?case using x p(1) d1(1) by (simp add: pointer_split_to_string)
qed

text \<open>
  C31. What \<open>flatten\<close> took apart, \<open>unflatten\<close> puts together again, in the order of the pointers: for every value
  without empty containers and without the key \<open>0\<close>.
\<close>

theorem unflatten_flatten:
  assumes "json_ok j" and "flattenable j"
  shows "json_unflatten (json_flatten j) = Inr j"
proof -
  let ?xs = "flatten_from [] j []"
  have flat: "obj_wf ?xs" "\<And>s v. leaf_at [] j s v \<Longrightarrow> map_of ?xs s = Some v"
    "\<And>s. \<nexists>v. leaf_at [] j s v \<Longrightarrow> map_of ?xs s = None"
    using flatten_from_map [OF assms, of "[]" "[]"] by simp_all
  have "(s, v) \<in> set ?xs \<longleftrightarrow> leaf_at [] j s v" for s v
    using flat(2,3) [of s] map_of_eq_Some_iff [OF obj_wf_distinct [OF flat(1)], of s v] by force
  with unflatten_leaves [OF assms, of "[]" ?xs JNull] flat(1) obtain d where
    d: "unflatten_members ?xs JNull = Inr d" "part {p. pointer_to_string p \<in> fst ` set ?xs} j d"
    by (auto simp: image_def)
  have "pointer_to_string p \<in> fst ` set ?xs" if "leaf p v j" for p v
    using flat(2) [of "pointer_to_string p" v] that by (force simp: leaf_at_def dest: map_of_SomeD intro: rev_image_eqI)
  with part_all [OF assms _ d(2)] have "d = j" by blast
  with d(1) show ?thesis by (simp add: json_unflatten_def json_flatten_def)
qed

definition flat_example :: json where
  "flat_example = JObject [(''a/b'', JArray [JInt 1, JObject [(''~'', JNull)]]), (''c'', JArray [JArray [JBool True]])]"

theorem unflatten_flatten_witness: "json_unflatten (json_flatten flat_example) = Inr flat_example"
  by (rule unflatten_flatten) (simp_all add: flat_example_def obj_wf_def)

end
