(* ===== verification/Json_Binary.thy ===== *)
theory Json_Binary
  imports Json_Sax Json_Roundtrip
begin

text \<open>
  What the binary formats of \<open>extern/json/json.hpp\<close> share: numbers in network order, the reader as a loop over
  the calls that are still to be made, and the events of a value. The locale \<open>binary_format\<close> states what a
  writer and a reader must do for a value to be read back, and for cut input to be refused.
\<close>

section \<open>Numbers and strings\<close>

text \<open>\<open>write_number\<close> of an unsigned type of \<open>k\<close> bytes, on a little endian machine.\<close>

fun write_number :: "nat \<Rightarrow> nat \<Rightarrow> string" where
  "write_number 0 n = []"
| "write_number (Suc k) n = char_of (n div 256 ^ k mod 256) # write_number k n"

text \<open>\<open>get_number\<close>; at the end of the input \<open>unexpect_eof\<close> throws.\<close>

fun get_number :: "nat \<Rightarrow> string \<Rightarrow> (nat \<times> string) res" where
  "get_number 0 s = Inr (0, s)"
| "get_number (Suc k) [] = Inl Json_Parse_Error"
| "get_number (Suc k) (c # s) = res_bind (get_number k s) (\<lambda>(n, s'). Inr (byte c * 256 ^ k + n, s'))"

text \<open>\<open>get_string\<close> and \<open>get_binary\<close> take one byte after the other until they have \<open>n\<close>.\<close>

definition get_bytes :: "nat \<Rightarrow> string \<Rightarrow> (string \<times> string) res" where
  "get_bytes n s = (if n \<le> length s then Inr (take n s, drop n s) else Inl Json_Parse_Error)"

lemma get_number_write_number: "get_number k (write_number k n @ s) = Inr (n mod 256 ^ k, s)"
proof (induction k)
  case (Suc k)
  have "n div 256 ^ k mod 256 * 256 ^ k + n mod 256 ^ k = n mod 256 ^ Suc k"
    by (metis add.commute mod_mult2_eq mult.commute power_Suc2)
  with Suc show ?case by simp
qed simp

lemma get_number_below: "n < 256 ^ k \<Longrightarrow> get_number k (write_number k n @ s) = Inr (n, s)"
  by (simp add: get_number_write_number)

text \<open>
  A reader takes a beginning of the input and returns the rest: more input behind it changes nothing.
\<close>

definition reader :: "(string \<Rightarrow> ('a \<times> string) res) \<Rightarrow> bool" where
  "reader f \<longleftrightarrow>
     (\<forall>s a s'. f s = Inr (a, s') \<longrightarrow> length s' \<le> length s \<and> (\<forall>t. f (s @ t) = Inr (a, s' @ t)))"

named_theorems reader_intros

lemma reader_length: "reader f \<Longrightarrow> f s = Inr (a, s') \<Longrightarrow> length s' \<le> length s"
  by (simp add: reader_def)

lemma reader_more: "reader f \<Longrightarrow> f s = Inr (a, s') \<Longrightarrow> f (s @ t) = Inr (a, s' @ t)"
  by (simp add: reader_def)

lemma reader_return [reader_intros]: "reader (\<lambda>s. Inr (x, s))"
  by (simp add: reader_def)

lemma reader_error [reader_intros]: "reader (\<lambda>s. Inl e)"
  by (simp add: reader_def)

lemma reader_if [reader_intros]:
  "(b \<Longrightarrow> reader f) \<Longrightarrow> (\<not> b \<Longrightarrow> reader g) \<Longrightarrow> reader (\<lambda>s. if b then f s else g s)"
  by (simp add: reader_def)

lemma reader_first [reader_intros]: "reader (\<lambda>s. case s of [] \<Rightarrow> Inl e | _ # s' \<Rightarrow> Inr (x, s'))"
  by (auto simp: reader_def split: list.splits)

lemma reader_stop [reader_intros]: "reader (\<lambda>s. res_bind (f s) (\<lambda>_. Inl e))"
  by (simp add: reader_def)

lemma reader_bind_value [reader_intros]:
  "(\<And>x. reader (g x)) \<Longrightarrow> reader (\<lambda>s. res_bind r (\<lambda>x. g x s))"
  by (cases r) (simp_all add: reader_def)

lemma reader_bind [reader_intros]:
  assumes "reader f" and "\<And>a. reader (g a)"
  shows "reader (\<lambda>s. res_bind (f s) (\<lambda>(a, s'). g a s'))"
  unfolding reader_def
proof (intro allI impI)
  fix s b s2 assume "res_bind (f s) (\<lambda>(a, s'). g a s') = Inr (b, s2)"
  then obtain a s1 where 1: "f s = Inr (a, s1)" and 2: "g a s1 = Inr (b, s2)" by auto
  from reader_length [OF assms(1) 1] reader_length [OF assms(2) 2] reader_more [OF assms(1) 1] reader_more [OF assms(2) 2]
  show "length s2 \<le> length s \<and> (\<forall>t. res_bind (f (s @ t)) (\<lambda>(a, s'). g a s') = Inr (b, s2 @ t))" by simp
qed

lemma reader_get_number [reader_intros]: "reader (get_number k)"
proof -
  have "length s' \<le> length s \<and> (\<forall>t. get_number k (s @ t) = Inr (n, s' @ t))" if "get_number k s = Inr (n, s')" for s n s'
    using that by (induction k s arbitrary: n rule: get_number.induct) fastforce+
  then show ?thesis by (simp add: reader_def)
qed

lemma write_byte [simp]: "write_number (Suc 0) n = [char_of (n mod 256)]"
  by simp

declare write_number.simps [simp del] get_number.simps [simp del]

lemma get_bytes_append_bytes [simp]: "get_bytes (length a) (a @ s) = Inr (a, s)"
  by (simp add: get_bytes_def)

lemma reader_get_bytes [reader_intros]: "reader (get_bytes n)"
  by (auto simp: reader_def get_bytes_def split: if_splits)

text \<open>\<open>write_number\<close> of a signed type of \<open>k\<close> bytes writes the two's complement.\<close>

definition write_signed :: "nat \<Rightarrow> int \<Rightarrow> string" where
  "write_signed k n = write_number k (nat (n mod 256 ^ k))"

definition signed_value :: "nat \<Rightarrow> nat \<Rightarrow> int" where
  "signed_value k n = (if 2 * n < 256 ^ k then int n else int n - 256 ^ k)"

lemma signed_value_write:
  assumes "- (256 ^ k) \<le> 2 * n" and "2 * n < 256 ^ k"
  shows "get_number k (write_signed k n @ s) = Inr (nat (n mod 256 ^ k), s)" and "signed_value k (nat (n mod 256 ^ k)) = n"
proof -
  have "nat (n mod 256 ^ k) < 256 ^ k" by (simp add: nat_less_iff)
  then show "get_number k (write_signed k n @ s) = Inr (nat (n mod 256 ^ k), s)"
    by (simp add: write_signed_def get_number_below)
  have less: "2 * m < 256 ^ k \<longleftrightarrow> 2 * int m < 256 ^ k" for m
    using of_nat_less_iff [of "2 * m" "256 ^ k", where 'a = int] by simp
  show "signed_value k (nat (n mod 256 ^ k)) = n"
  proof (cases "0 \<le> n")
    case True
    with assms(2) have "n mod 256 ^ k = n" by (intro mod_pos_pos_trivial) simp_all
    with True assms(2) show ?thesis by (simp add: signed_value_def less)
  next
    case False
    with assms(1) have "(n + 256 ^ k) mod 256 ^ k = n + 256 ^ k" by (intro mod_pos_pos_trivial) simp_all
    then have "n mod 256 ^ k = n + 256 ^ k" by simp
    with False assms(1) show ?thesis by (simp add: signed_value_def less)
  qed
qed

section \<open>The reader\<close>

text \<open>
  The recursion of the readers as a list of what is left to do: read a value, or the rest of an array or object
  whose length is known, or whose end is marked.
\<close>

datatype reader_task =
    Next_Value
  | Elements nat
  | Elements_Until_Break
  | Members nat
  | Members_Until_Break

fun task_weight :: "reader_task \<Rightarrow> nat" where
  "task_weight (Elements n) = 2 * n + 1"
| "task_weight (Members n) = 2 * n + 1"
| "task_weight _ = 1"

text \<open>The largest sizes of a \<open>std::vector\<close> and a \<open>std::map\<close>, which \<open>start_array\<close> and \<open>start_object\<close> check.\<close>

record sax_limits =
  max_array :: nat
  max_object :: nat

definition start_array :: "sax_limits \<Rightarrow> nat \<Rightarrow> (sax_event list \<times> reader_task list) res" where
  "start_array lim len =
     (if max_array lim < len then Inl Json_Out_Of_Range else Inr ([Sax_Start_Array], [Elements len]))"

definition start_object :: "sax_limits \<Rightarrow> nat \<Rightarrow> (sax_event list \<times> reader_task list) res" where
  "start_object lim len =
     (if max_object lim < len then Inl Json_Out_Of_Range else Inr ([Sax_Start_Object], [Members len]))"

text \<open>\<open>sax_parse\<close> with the handler that builds the value, and the check for the end of the input.\<close>

fun handle_events :: "(sax_event \<Rightarrow> 'h \<Rightarrow> 'h res) \<Rightarrow> sax_event list \<Rightarrow> 'h \<Rightarrow> 'h res" where
  "handle_events handle [] h = Inr h"
| "handle_events handle (e # es) h = res_bind (handle e h) (handle_events handle es)"

definition read_document :: "bool \<Rightarrow> (sax_event list \<times> string) res \<Rightarrow> json res" where
  "read_document strict r =
     res_bind r (\<lambda>(es, rest).
       if strict \<and> rest \<noteq> [] then Inl Json_Parse_Error
       else res_bind (handle_events dom_handle es dom_init) (\<lambda>d. Inr (dom_root d)))"

section \<open>The events of a value\<close>

fun value_events :: "json \<Rightarrow> sax_event list" where
  "value_events JNull = [Sax_Null]"
| "value_events (JBool b) = [Sax_Boolean b]"
| "value_events (JInt n) = [Sax_Integer n]"
| "value_events (JFloat l) = [Sax_Float l]"
| "value_events (JString s) = [Sax_String s]"
| "value_events (JArray xs) = Sax_Start_Array # concat (map value_events xs) @ [Sax_End_Array]"
| "value_events (JObject xs) =
     Sax_Start_Object # concat (map (\<lambda>(k, v). Sax_Key k # value_events v) xs) @ [Sax_End_Object]"

text \<open>Objects are in the order of their keys, as those of a \<open>std::map\<close> always are.\<close>

fun json_sorted :: "json \<Rightarrow> bool" where
  "json_sorted (JArray xs) \<longleftrightarrow> list_all json_sorted xs"
| "json_sorted (JObject xs) \<longleftrightarrow> obj_wf xs \<and> list_all (\<lambda>(k, v). json_sorted v) xs"
| "json_sorted _ \<longleftrightarrow> True"

lemma handle_events_append:
  "handle_events handle (xs @ ys) h = res_bind (handle_events handle xs h) (handle_events handle ys)"
proof (induction xs arbitrary: h)
  case (Cons x xs)
  then have "handle_events handle (xs @ ys) = (\<lambda>h. res_bind (handle_events handle xs h) (handle_events handle ys))"
    by (intro ext)
  then show ?case by (simp add: res_bind_assoc)
qed simp

context sax_handler
begin

lemma element_events:
  assumes "\<And>x st h. x \<in> set xs \<Longrightarrow> ready st h \<Longrightarrow> \<exists>h'. handle_events handle (value_events x) h = Inr h' \<and> got st x h'"
    and "xs \<noteq> []" and "ready (In_Array ys # st) h"
  shows "\<exists>h'. handle_events handle (concat (map value_events xs) @ [Sax_End_Array]) h = Inr h' \<and> got st (JArray (ys @ xs)) h'"
  using assms
proof (induction xs arbitrary: ys h)
  case (Cons x xs)
  obtain h1 where h1: "handle_events handle (value_events x) h = Inr h1" "got (In_Array ys # st) x h1"
    using Cons.prems(1) [OF _ Cons.prems(3), of x] by auto
  show ?case
  proof (cases "xs = []")
    case True
    with h1 end_array [OF h1(2)] show ?thesis by (auto simp: handle_events_append)
  next
    case False
    with Cons.IH [of "ys @ [x]" h1] Cons.prems(1) next_element [OF h1(2)] h1(1) show ?thesis
      by (auto simp: handle_events_append)
  qed
qed simp

lemma member_events:
  assumes "\<And>k x st h. (k, x) \<in> set xs \<Longrightarrow> ready st h \<Longrightarrow> \<exists>h'. handle_events handle (value_events x) h = Inr h' \<and> got st x h'"
    and "obj_wf (ms @ (l, v) # xs)" and "got (In_Object ms l # st) v h"
  shows "\<exists>h'. handle_events handle (concat (map (\<lambda>(k, v). Sax_Key k # value_events v) xs) @ [Sax_End_Object]) h = Inr h' \<and>
    got st (JObject (ms @ (l, v) # xs)) h'"
  using assms
proof (induction xs arbitrary: ms l v h)
  case Nil
  have "obj_assign l v ms = ms @ [(l, v)]"
    using Nil.prems(2) by (intro obj_assign_last) (auto simp: obj_wf_def sorted_wrt_append)
  with end_object [OF Nil.prems(3)] show ?case by simp
next
  case (Cons x xs)
  obtain k w where x: "x = (k, w)" by (cases x)
  have assign: "obj_assign l v ms = ms @ [(l, v)]"
    using Cons.prems(2) by (intro obj_assign_last) (auto simp: obj_wf_def sorted_wrt_append)
  obtain h1 where h1: "handle (Sax_Key k) h = Inr h1" "ready (In_Object (ms @ [(l, v)]) k # st) h1"
    using next_member [OF Cons.prems(3), of k] assign by auto
  obtain h2 where h2: "handle_events handle (value_events w) h1 = Inr h2" "got (In_Object (ms @ [(l, v)]) k # st) w h2"
    using Cons.prems(1) [OF _ h1(2), of k w] x by auto
  from Cons.IH [of "ms @ [(l, v)]" k w h2] Cons.prems(1,2) h2(2) x obtain h3 where
    "handle_events handle (concat (map (\<lambda>(k, v). Sax_Key k # value_events v) xs) @ [Sax_End_Object]) h2 = Inr h3"
    "got st (JObject (ms @ (l, v) # (k, w) # xs)) h3" by fastforce
  with h1 h2 x show ?case by (auto simp: handle_events_append)
qed

lemma value_events_got:
  "json_sorted j \<Longrightarrow> ready st h \<Longrightarrow> \<exists>h'. handle_events handle (value_events j) h = Inr h' \<and> got st j h'"
proof (induction j arbitrary: st h)
  case JNull
  then show ?case using scalar [of st h Literal_Null] by (auto simp: scalar_value_def)
next
  case (JBool b)
  then show ?case using scalar [of st h Literal_True] scalar [of st h Literal_False] by (cases b) (auto simp: scalar_value_def)
next
  case (JInt n)
  then show ?case using scalar [of st h "Value_Int n"] by (auto simp: scalar_value_def)
next
  case (JFloat l)
  then show ?case using scalar [of st h "Value_Float l"] by (auto simp: scalar_value_def)
next
  case (JString s)
  then show ?case using scalar [of st h "Value_String s"] by (auto simp: scalar_value_def)
next
  case (JArray xs)
  obtain h1 h2 where h1: "handle Sax_Start_Array h = Inr h1" "ready (In_Array [] # st) h1"
    "handle Sax_End_Array h1 = Inr h2" "got st (JArray []) h2"
    using start_array [OF JArray.prems(2)] by blast
  show ?case
  proof (cases "xs = []")
    case True
    with h1 show ?thesis by simp
  next
    case False
    with element_events [of xs "[]" st h1] JArray.IH JArray.prems(1) h1(1,2) show ?thesis
      by (simp add: list_all_iff)
  qed
next
  case (JObject xs)
  obtain h1 where h1: "handle Sax_Start_Object h = Inr h1"
    "\<And>k. \<exists>h''. handle (Sax_Key k) h1 = Inr h'' \<and> ready (In_Object [] k # st) h''"
    "\<exists>h''. handle Sax_End_Object h1 = Inr h'' \<and> got st (JObject []) h''"
    using start_object [OF JObject.prems(2)] by blast
  have inner: "\<exists>h'. handle_events handle (value_events x) h = Inr h' \<and> got st x h'"
    if "(k, x) \<in> set xs" "ready st h" for k x st h
    using JObject.IH [of "(k, x)" x st h] that JObject.prems(1) by (auto simp: list_all_iff)
  show ?case
  proof (cases xs)
    case Nil
    with h1 show ?thesis by auto
  next
    case (Cons x us)
    obtain k w where x: "x = (k, w)" by (cases x)
    obtain h2 where h2: "handle (Sax_Key k) h1 = Inr h2" "ready (In_Object [] k # st) h2" using h1(2) by blast
    obtain h3 where h3: "handle_events handle (value_events w) h2 = Inr h3" "got (In_Object [] k # st) w h3"
      using inner [OF _ h2(2), of k w] Cons x by auto
    have rest: "\<exists>h'. handle_events handle (value_events x) h = Inr h' \<and> got st x h'"
      if "(k, x) \<in> set us" "ready st h" for k x st h
      using inner [of k x st h] that Cons by simp
    have "\<exists>h'. handle_events handle (concat (map (\<lambda>(k, v). Sax_Key k # value_events v) us) @ [Sax_End_Object]) h3 = Inr h' \<and>
      got st (JObject ([] @ (k, w) # us)) h'"
      by (rule member_events) (use rest JObject.prems(1) h3(2) Cons x in simp_all)
    then obtain h4 where
      "handle_events handle (concat (map (\<lambda>(k, v). Sax_Key k # value_events v) us) @ [Sax_End_Object]) h3 = Inr h4"
      "got st (JObject xs) h4" using Cons x by auto
    with h1(1) h2(1) h3(1) Cons x show ?thesis by (auto simp: handle_events_append)
  qed
qed

end

lemma dom_value_events:
  assumes "json_sorted j"
  shows "res_bind (handle_events dom_handle (value_events j) dom_init) (\<lambda>d. Inr (dom_root d)) = Inr j"
proof -
  have "dom_ready [] dom_init" by (simp add: dom_init_def)
  from dom_parser.value_events_got [OF assms this] show ?thesis by (auto simp: dom_got_def)
qed

text \<open>A reader that finds the events of \<open>j\<close> in \<open>t\<close> reads \<open>j\<close>, and nothing from a beginning of \<open>t\<close>.\<close>

lemma document_events:
  assumes "f t = Inr (value_events j, [])" and "\<And>u v r s'. f u = Inr (r, s') \<Longrightarrow> f (u @ v) = Inr (r, s' @ v)"
    and "json_sorted j"
  shows "read_document strict (f t) = Inr j \<and>
    (\<forall>u v. t = u @ v \<and> v \<noteq> [] \<longrightarrow> \<not> is_ok (read_document strict (f u)))"
proof (intro conjI allI impI)
  show "read_document strict (f t) = Inr j"
    using assms(1) dom_value_events [OF assms(3)] by (simp add: read_document_def)
next
  fix u v assume cut: "t = u @ v \<and> v \<noteq> []"
  show "\<not> is_ok (read_document strict (f u))"
  proof (cases "f u")
    case (Inr x)
    with assms(1) assms(2) [of u "fst x" "snd x" v] cut show ?thesis by simp
  qed (simp add: read_document_def)
qed

section \<open>Reading what was written\<close>

text \<open>The bytes of some values behind each other.\<close>

fun append_all :: "string res list \<Rightarrow> string res" where
  "append_all [] = Inr []"
| "append_all (r # rs) = res_bind r (\<lambda>a. res_bind (append_all rs) (\<lambda>b. Inr (a @ b)))"

text \<open>Values a format can hold: no floating point numbers, and strings, arrays and objects up to some sizes.\<close>

fun binary_ok :: "nat \<Rightarrow> nat \<Rightarrow> nat \<Rightarrow> json \<Rightarrow> bool" where
  "binary_ok ms ma mo (JInt n) \<longleftrightarrow> int_fits n"
| "binary_ok ms ma mo (JFloat l) \<longleftrightarrow> False"
| "binary_ok ms ma mo (JString s) \<longleftrightarrow> length s \<le> ms"
| "binary_ok ms ma mo (JArray xs) \<longleftrightarrow> length xs \<le> ma \<and> list_all (binary_ok ms ma mo) xs"
| "binary_ok ms ma mo (JObject xs) \<longleftrightarrow>
     obj_wf xs \<and> length xs \<le> mo \<and> list_all (\<lambda>(k, v). length k \<le> ms \<and> binary_ok ms ma mo v) xs"
| "binary_ok ms ma mo _ \<longleftrightarrow> True"

lemma binary_ok_sorted: "binary_ok ms ma mo j \<Longrightarrow> json_sorted j"
proof (induction j)
  case (JArray xs)
  then show ?case by (auto simp: list_all_iff)
next
  case (JObject xs)
  then show ?case by (fastforce simp: list_all_iff)
qed simp_all

fun is_scalar :: "json \<Rightarrow> bool" where
  "is_scalar (JArray xs) \<longleftrightarrow> False"
| "is_scalar (JObject xs) \<longleftrightarrow> False"
| "is_scalar _ \<longleftrightarrow> True"

text \<open>A writer of values and a reader, and what is needed of how they write and read one value, key or size.\<close>

locale binary_format =
  fixes encode :: "json \<Rightarrow> string res"
    and write_key :: "string \<Rightarrow> string"
    and array_head :: "nat \<Rightarrow> string"
    and object_head :: "nat \<Rightarrow> string"
    and decode :: "reader_task list \<Rightarrow> string \<Rightarrow> sax_event list \<Rightarrow> (sax_event list \<times> string) res"
    and ms ma mo :: nat
  assumes write_array: "encode (JArray xs) = res_bind (append_all (map encode xs)) (\<lambda>b. Inr (array_head (length xs) @ b))"
    and write_object: "encode (JObject us) =
      res_bind (append_all (map (\<lambda>(k, v). res_bind (encode v) (\<lambda>b. Inr (write_key k @ b))) us)) (\<lambda>b.
        Inr (object_head (length us) @ b))"
    and write_scalar: "is_scalar j \<Longrightarrow> binary_ok ms ma mo j \<Longrightarrow> \<exists>t. encode j = Inr t"
    and read_scalar: "is_scalar j \<Longrightarrow> binary_ok ms ma mo j \<Longrightarrow> encode j = Inr t \<Longrightarrow>
      decode (Next_Value # k) (t @ s) es = decode k s (rev (value_events j) @ es)"
    and read_array: "n \<le> ma \<Longrightarrow>
      decode (Next_Value # k) (array_head n @ s) es = decode (Elements n # k) s (Sax_Start_Array # es)"
    and read_object: "n \<le> mo \<Longrightarrow>
      decode (Next_Value # k) (object_head n @ s) es = decode (Members n # k) s (Sax_Start_Object # es)"
    and read_no_elements: "decode (Elements 0 # k) s es = decode k s (Sax_End_Array # es)"
    and read_element: "decode (Elements (Suc n) # k) s es = decode (Next_Value # Elements n # k) s es"
    and read_no_members: "decode (Members 0 # k) s es = decode k s (Sax_End_Object # es)"
    and read_member: "length key \<le> ms \<Longrightarrow>
      decode (Members (Suc n) # k) (write_key key @ s) es = decode (Next_Value # Members n # k) s (Sax_Key key # es)"
    and read_end: "decode [] s es = Inr (rev es, s)"
    and read_more: "decode k s es = Inr (r, s') \<Longrightarrow> decode k (s @ t) es = Inr (r, s' @ t)"
begin

lemma elements_read:
  assumes "\<And>x k s es. x \<in> set xs \<Longrightarrow> \<exists>t. encode x = Inr t \<and>
      (\<forall>k s es. decode (Next_Value # k) (t @ s) es = decode k s (rev (value_events x) @ es))"
  shows "\<exists>b. append_all (map encode xs) = Inr b \<and>
    (\<forall>k s es. decode (Elements (length xs) # k) (b @ s) es =
      decode k s (Sax_End_Array # rev (concat (map value_events xs)) @ es))"
  using assms
proof (induction xs)
  case Nil
  then show ?case by (simp add: read_no_elements)
next
  case (Cons x xs)
  from Cons.prems [of x] obtain t where t: "encode x = Inr t"
    "\<And>k s es. decode (Next_Value # k) (t @ s) es = decode k s (rev (value_events x) @ es)" by auto
  from Cons.IH Cons.prems obtain b where b: "append_all (map encode xs) = Inr b"
    "\<And>k s es. decode (Elements (length xs) # k) (b @ s) es =
      decode k s (Sax_End_Array # rev (concat (map value_events xs)) @ es)" by (metis list.set_intros(2))
  from t b show ?case by (simp add: read_element)
qed

lemma members_read:
  assumes "\<And>l x. (l, x) \<in> set xs \<Longrightarrow> length l \<le> ms \<and> (\<exists>t. encode x = Inr t \<and>
      (\<forall>k s es. decode (Next_Value # k) (t @ s) es = decode k s (rev (value_events x) @ es)))"
  shows "\<exists>b. append_all (map (\<lambda>(k, v). res_bind (encode v) (\<lambda>b. Inr (write_key k @ b))) xs) = Inr b \<and>
    (\<forall>k s es. decode (Members (length xs) # k) (b @ s) es =
      decode k s (Sax_End_Object # rev (concat (map (\<lambda>(k, v). Sax_Key k # value_events v) xs)) @ es))"
  using assms
proof (induction xs)
  case Nil
  then show ?case by (simp add: read_no_members)
next
  case (Cons y xs)
  obtain l x where y: "y = (l, x)" by (cases y)
  from Cons.prems [of l x] y obtain t where t: "length l \<le> ms" "encode x = Inr t"
    "\<And>k s es. decode (Next_Value # k) (t @ s) es = decode k s (rev (value_events x) @ es)" by auto
  from Cons.IH Cons.prems obtain b where
    b: "append_all (map (\<lambda>(k, v). res_bind (encode v) (\<lambda>b. Inr (write_key k @ b))) xs) = Inr b"
    "\<And>k s es. decode (Members (length xs) # k) (b @ s) es =
      decode k s (Sax_End_Object # rev (concat (map (\<lambda>(k, v). Sax_Key k # value_events v) xs)) @ es)"
    by (metis list.set_intros(2))
  from t b y show ?case by (simp add: read_member)
qed

lemma value_read:
  "binary_ok ms ma mo j \<Longrightarrow> \<exists>t. encode j = Inr t \<and>
    (\<forall>k s es. decode (Next_Value # k) (t @ s) es = decode k s (rev (value_events j) @ es))"
proof (induction j)
  case (JArray xs)
  from JArray.prems have inner: "\<exists>t. encode x = Inr t \<and>
      (\<forall>k s es. decode (Next_Value # k) (t @ s) es = decode k s (rev (value_events x) @ es))" if "x \<in> set xs" for x
    using JArray.IH [OF that] that by (simp add: list_all_iff)
  from elements_read [of xs, OF inner] JArray.prems show ?case by (auto simp: write_array read_array)
next
  case (JObject xs)
  from JObject.prems have inner: "length l \<le> ms \<and> (\<exists>t. encode x = Inr t \<and>
      (\<forall>k s es. decode (Next_Value # k) (t @ s) es = decode k s (rev (value_events x) @ es)))" if "(l, x) \<in> set xs" for l x
    using JObject.IH [OF that, of x] that by (auto simp: list_all_iff)
  from members_read [of xs, OF inner] JObject.prems show ?case by (auto simp: write_object read_object)
qed (use write_scalar read_scalar in \<open>metis is_scalar.simps\<close>)+

text \<open>What is written is read back, and no part of it that is cut off is a value.\<close>

lemma document_read:
  assumes "binary_ok ms ma mo j"
  shows "\<exists>t. encode j = Inr t \<and> read_document strict (decode [Next_Value] t []) = Inr j \<and>
    (\<forall>u v. t = u @ v \<and> v \<noteq> [] \<longrightarrow> \<not> is_ok (read_document strict (decode [Next_Value] u [])))"
proof -
  obtain t where t: "encode j = Inr t"
    "\<And>s. decode [Next_Value] (t @ s) [] = Inr (value_events j, s)"
    using value_read [OF assms] by (auto simp: read_end)
  from document_events [of "\<lambda>t. decode [Next_Value] t []", OF _ read_more binary_ok_sorted [OF assms]] t(2) [of "[]"]
  show ?thesis using t(1) by auto
qed

end

end
