(* ===== verification/Json_Cbor.thy ===== *)
theory Json_Cbor
  imports Json_Binary
begin

text \<open>
  The format CBOR of \<open>extern/json/json.hpp\<close>: \<open>write_cbor\<close> and the reader \<open>parse_cbor_internal\<close>. A \<open>double\<close> is the
  outcome \<open>Json_Float_Conversion\<close> and a byte string the outcome \<open>Json_Binary_Value\<close>, once it has been read.
\<close>

section \<open>Writing\<close>

text \<open>A size or an absolute value, with the major type in the upper three bits of the first byte.\<close>

definition cbor_head :: "nat \<Rightarrow> nat \<Rightarrow> string" where
  "cbor_head major n =
     (if n \<le> 0x17 then write_number 1 (major + n)
      else if n \<le> 2 ^ 8 - 1 then write_number 1 (major + 0x18) @ write_number 1 n
      else if n \<le> 2 ^ 16 - 1 then write_number 1 (major + 0x19) @ write_number 2 n
      else if n \<le> 2 ^ 32 - 1 then write_number 1 (major + 0x1A) @ write_number 4 n
      else write_number 1 (major + 0x1B) @ write_number 8 n)"

definition write_cbor_integer :: "int \<Rightarrow> string" where
  "write_cbor_integer n = (if 0 \<le> n then cbor_head 0x00 (nat n) else cbor_head 0x20 (nat (- 1 - n)))"

definition write_cbor_string :: "string \<Rightarrow> string" where
  "write_cbor_string s = cbor_head 0x60 (length s) @ s"

fun write_cbor :: "json \<Rightarrow> string res" where
  "write_cbor JNull = Inr (write_number 1 0xF6)"
| "write_cbor (JBool b) = Inr (write_number 1 (if b then 0xF5 else 0xF4))"
| "write_cbor (JInt n) = Inr (write_cbor_integer n)"
| "write_cbor (JFloat l) = Inl Json_Float_Conversion"
| "write_cbor (JString s) = Inr (write_cbor_string s)"
| "write_cbor (JArray xs) = res_bind (append_all (map write_cbor xs)) (\<lambda>b. Inr (cbor_head 0x80 (length xs) @ b))"
| "write_cbor (JObject xs) =
     res_bind (append_all (map (\<lambda>(k, v). res_bind (write_cbor v) (\<lambda>b. Inr (write_cbor_string k @ b))) xs)) (\<lambda>b.
       Inr (cbor_head 0xA0 (length xs) @ b))"

section \<open>Reading\<close>

datatype cbor_tag_handler = Tag_Error | Tag_Ignore | Tag_Store

text \<open>\<open>c\<close> is the byte that has been read; a size follows in 1, 2, 4 or 8 bytes if its lower five bits are 24 to 27.\<close>

definition cbor_size :: "nat \<Rightarrow> string \<Rightarrow> (nat \<times> string) res" where
  "cbor_size c s =
     (let low = c mod 0x20 in
      if low \<le> 0x17 then Inr (low, s)
      else if low \<le> 0x1B then get_number (2 ^ (low - 0x18)) s
      else Inl Json_Parse_Error)"

definition cbor_unsigned :: "nat \<Rightarrow> string \<Rightarrow> (sax_event \<times> string) res" where
  "cbor_unsigned c s = res_bind (cbor_size c s) (\<lambda>(n, s'). Inr (Sax_Integer (int n), s'))"

definition cbor_negative :: "nat \<Rightarrow> string \<Rightarrow> (sax_event \<times> string) res" where
  "cbor_negative c s =
     res_bind (cbor_size c s) (\<lambda>(n, s').
       Inr (Sax_Integer (if c = 0x3B then - 1 - to_int64 n else - 1 - int n), s'))"

lemma reader_cbor_size [reader_intros]: "reader (cbor_size c)"
  unfolding cbor_size_def Let_def by (intro reader_intros)

lemma reader_cbor_unsigned [reader_intros]: "reader (cbor_unsigned c)"
  unfolding cbor_unsigned_def by (intro reader_intros)

lemma reader_cbor_negative [reader_intros]: "reader (cbor_negative c)"
  unfolding cbor_negative_def by (intro reader_intros)

text \<open>
  \<open>get_cbor_string\<close> (\<open>major\<close> is 0x60) and \<open>get_cbor_binary\<close> (0x40). A text of indefinite length consists of
  texts up to a break; they may be of indefinite length again, \<open>depth\<close> is how many of these are open.
\<close>

definition cbor_text :: "nat \<Rightarrow> nat \<Rightarrow> string \<Rightarrow> (string \<times> string) res" where
  "cbor_text major c s =
     (if major \<le> c \<and> c \<le> major + 0x1B then res_bind (cbor_size c s) (\<lambda>(n, s'). get_bytes n s')
      else Inl Json_Parse_Error)"

lemma reader_cbor_text [reader_intros]: "reader (cbor_text major c)"
  unfolding cbor_text_def by (intro reader_intros)

function cbor_chunks :: "nat \<Rightarrow> nat \<Rightarrow> string \<Rightarrow> string \<Rightarrow> (string \<times> string) res" where
  "cbor_chunks major 0 s result = Inr (result, s)"
| "cbor_chunks major (Suc depth) [] result = Inl Json_Parse_Error"
| "cbor_chunks major (Suc depth) (c # s) result =
     (if byte c = 0xFF then cbor_chunks major depth s result
      else if byte c = major + 0x1F then cbor_chunks major (Suc (Suc depth)) s result
      else res_bind (cbor_text major (byte c) s) (\<lambda>(a, s'). cbor_chunks major (Suc depth) s' (result @ a)))"
  by pat_completeness auto
termination
  by (relation "measure (\<lambda>(major, depth, s, result). length s)") (auto dest: reader_length [OF reader_cbor_text])

definition get_cbor_string :: "nat \<Rightarrow> nat \<Rightarrow> string \<Rightarrow> (string \<times> string) res" where
  "get_cbor_string major c s = (if c = major + 0x1F then cbor_chunks major 1 s [] else cbor_text major c s)"

text \<open>The length \<open>std::size_t(-1)\<close> stands for an indefinite one.\<close>

definition get_cbor_array :: "sax_limits \<Rightarrow> nat \<Rightarrow> (sax_event list \<times> reader_task list) res" where
  "get_cbor_array lim len =
     (if len = 2 ^ 64 - 1 then Inr ([Sax_Start_Array], [Elements_Until_Break]) else start_array lim len)"

definition get_cbor_object :: "sax_limits \<Rightarrow> nat \<Rightarrow> (sax_event list \<times> reader_task list) res" where
  "get_cbor_object lim len =
     (if len = 2 ^ 64 - 1 then Inr ([Sax_Start_Object], [Members_Until_Break]) else start_object lim len)"

text \<open>A tag is refused, or read and ignored; one with a number can also become the subtype of a byte string.\<close>

definition cbor_tag :: "cbor_tag_handler \<Rightarrow> nat \<Rightarrow> string \<Rightarrow> (reader_task list \<times> string) res" where
  "cbor_tag handler c s = (case handler of
     Tag_Error \<Rightarrow> Inl Json_Parse_Error
   | Tag_Ignore \<Rightarrow>
       if 0xD8 \<le> c then res_bind (cbor_size c s) (\<lambda>(n, s'). Inr ([Next_Value], s'))
       else Inr ([Next_Value], s)
   | Tag_Store \<Rightarrow>
       if 0xD8 \<le> c then
         res_bind (cbor_size c s) (\<lambda>(n, s').
           case s' of
             [] \<Rightarrow> Inl Json_Parse_Error
           | d # s'' \<Rightarrow> res_bind (get_cbor_string 0x40 (byte d) s'') (\<lambda>_. Inl Json_Binary_Value))
       else Inr ([Next_Value], s))"

definition cbor_item :: "cbor_tag_handler \<Rightarrow> sax_limits \<Rightarrow> nat \<Rightarrow> string \<Rightarrow>
    ((sax_event list \<times> reader_task list) \<times> string) res" where
  "cbor_item handler lim c s =
     (if c \<le> 0x1B then res_bind (cbor_unsigned c s) (\<lambda>(e, s'). Inr (([e], []), s'))
      else if 0x20 \<le> c \<and> c \<le> 0x3B then res_bind (cbor_negative c s) (\<lambda>(e, s'). Inr (([e], []), s'))
      else if 0x40 \<le> c \<and> c \<le> 0x5B \<or> c = 0x5F then
        res_bind (get_cbor_string 0x40 c s) (\<lambda>_. Inl Json_Binary_Value)
      else if 0x60 \<le> c \<and> c \<le> 0x7B \<or> c = 0x7F then
        res_bind (get_cbor_string 0x60 c s) (\<lambda>(a, s'). Inr (([Sax_String a], []), s'))
      else if 0x80 \<le> c \<and> c \<le> 0x9B then
        res_bind (cbor_size c s) (\<lambda>(n, s'). res_bind (get_cbor_array lim n) (\<lambda>r. Inr (r, s')))
      else if c = 0x9F then res_bind (get_cbor_array lim (2 ^ 64 - 1)) (\<lambda>r. Inr (r, s))
      else if 0xA0 \<le> c \<and> c \<le> 0xBB then
        res_bind (cbor_size c s) (\<lambda>(n, s'). res_bind (get_cbor_object lim n) (\<lambda>r. Inr (r, s')))
      else if c = 0xBF then res_bind (get_cbor_object lim (2 ^ 64 - 1)) (\<lambda>r. Inr (r, s))
      else if 0xC6 \<le> c \<and> c \<le> 0xD4 \<or> 0xD8 \<le> c \<and> c \<le> 0xDB then
        res_bind (cbor_tag handler c s) (\<lambda>(ts, s'). Inr (([], ts), s'))
      else if c = 0xF4 then Inr (([Sax_Boolean False], []), s)
      else if c = 0xF5 then Inr (([Sax_Boolean True], []), s)
      else if c = 0xF6 then Inr (([Sax_Null], []), s)
      else if c = 0xF9 then res_bind (get_number 2 s) (\<lambda>_. Inl Json_Float_Conversion)
      else if c = 0xFA then res_bind (get_number 4 s) (\<lambda>_. Inl Json_Float_Conversion)
      else if c = 0xFB then res_bind (get_number 8 s) (\<lambda>_. Inl Json_Float_Conversion)
      else Inl Json_Parse_Error)"

lemma reader_cbor_chunks [reader_intros]: "reader (\<lambda>s. cbor_chunks major depth s r)"
proof -
  have "length s' \<le> length s \<and> (\<forall>t. cbor_chunks major depth (s @ t) r = Inr (a, s' @ t))"
    if "cbor_chunks major depth s r = Inr (a, s')" for s a s'
    using that
  proof (induction major depth s r arbitrary: a rule: cbor_chunks.induct)
    case (3 major depth c s result)
    show ?case
    proof (cases "byte c = 0xFF \<or> byte c = major + 0x1F")
      case False
      with "3.prems" obtain b s1 where b: "cbor_text major (byte c) s = Inr (b, s1)"
        "cbor_chunks major (Suc depth) s1 (result @ b) = Inr (a, s')" by auto
      with False "3.IH"(3) [of "(b, s1)" b s1 a] reader_length [OF reader_cbor_text b(1)] reader_more [OF reader_cbor_text b(1)]
      show ?thesis by simp
    qed (use 3 in \<open>auto split: if_splits\<close>)
  qed auto
  then show ?thesis by (simp add: reader_def)
qed

lemma reader_get_cbor_string [reader_intros]: "reader (get_cbor_string major c)"
  unfolding get_cbor_string_def by (intro reader_intros)

lemma reader_cbor_tag [reader_intros]: "reader (cbor_tag handler c)"
proof (cases handler)
  case Tag_Error
  then show ?thesis by (simp add: cbor_tag_def reader_def)
next
  case Tag_Ignore
  then have "cbor_tag handler c = (\<lambda>s. if 0xD8 \<le> c then res_bind (cbor_size c s) (\<lambda>(n, s'). Inr ([Next_Value], s'))
    else Inr ([Next_Value], s))" by (simp add: cbor_tag_def fun_eq_iff)
  then show ?thesis by (simp only:) (intro reader_intros)
next
  case Tag_Store
  then show ?thesis by (auto simp: cbor_tag_def reader_def neq_Nil_conv split: list.splits if_splits)
qed

lemma reader_cbor_item: "reader (cbor_item handler lim c)"
  unfolding cbor_item_def by (intro reader_intros)

text \<open>\<open>parse_cbor_internal\<close> with the loops of \<open>get_cbor_array\<close> and \<open>get_cbor_object\<close>.\<close>

function parse_cbor :: "cbor_tag_handler \<Rightarrow> sax_limits \<Rightarrow> reader_task list \<Rightarrow> string \<Rightarrow> sax_event list \<Rightarrow>
    (sax_event list \<times> string) res" where
  "parse_cbor h lim [] s es = Inr (rev es, s)"
| "parse_cbor h lim (Next_Value # k) [] es = Inl Json_Parse_Error"
| "parse_cbor h lim (Next_Value # k) (c # s) es =
     res_bind (cbor_item h lim (byte c) s) (\<lambda>(r, s'). parse_cbor h lim (snd r @ k) s' (rev (fst r) @ es))"
| "parse_cbor h lim (Elements 0 # k) s es = parse_cbor h lim k s (Sax_End_Array # es)"
| "parse_cbor h lim (Elements (Suc n) # k) s es = parse_cbor h lim (Next_Value # Elements n # k) s es"
| "parse_cbor h lim (Elements_Until_Break # k) [] es = Inl Json_Parse_Error"
| "parse_cbor h lim (Elements_Until_Break # k) (c # s) es =
     (if byte c = 0xFF then parse_cbor h lim k s (Sax_End_Array # es)
      else
        res_bind (cbor_item h lim (byte c) s) (\<lambda>(r, s').
          parse_cbor h lim (snd r @ Elements_Until_Break # k) s' (rev (fst r) @ es)))"
| "parse_cbor h lim (Members 0 # k) s es = parse_cbor h lim k s (Sax_End_Object # es)"
| "parse_cbor h lim (Members (Suc n) # k) [] es = Inl Json_Parse_Error"
| "parse_cbor h lim (Members (Suc n) # k) (c # s) es =
     res_bind (get_cbor_string 0x60 (byte c) s) (\<lambda>(key, s').
       parse_cbor h lim (Next_Value # Members n # k) s' (Sax_Key key # es))"
| "parse_cbor h lim (Members_Until_Break # k) [] es = Inl Json_Parse_Error"
| "parse_cbor h lim (Members_Until_Break # k) (c # s) es =
     (if byte c = 0xFF then parse_cbor h lim k s (Sax_End_Object # es)
      else
        res_bind (get_cbor_string 0x60 (byte c) s) (\<lambda>(key, s').
          parse_cbor h lim (Next_Value # Members_Until_Break # k) s' (Sax_Key key # es)))"
  by pat_completeness auto
termination
  by (relation "measures [\<lambda>(h, lim, ts, s, es). length s, \<lambda>(h, lim, ts, s, es). sum_list (map task_weight ts)]")
    (auto dest!: reader_length [OF reader_cbor_item] reader_length [OF reader_get_cbor_string])

definition from_cbor :: "sax_limits \<Rightarrow> bool \<Rightarrow> cbor_tag_handler \<Rightarrow> string \<Rightarrow> json res" where
  "from_cbor lim strict handler s = read_document strict (parse_cbor handler lim [Next_Value] s [])"

lemma parse_cbor_more:
  "parse_cbor h lim k s es = Inr (r, s') \<Longrightarrow> parse_cbor h lim k (s @ t) es = Inr (r, s' @ t)"
proof (induction h lim k s es rule: parse_cbor.induct)
  case (3 h lim k c s es)
  then obtain e ts s1 where item: "cbor_item h lim (byte c) s = Inr ((e, ts), s1)" by auto
  with 3 reader_more [OF reader_cbor_item item, of t] show ?case by auto
next
  case (7 h lim k c s es)
  then show ?case
  proof (cases "byte c = 0xFF")
    case False
    with 7 obtain e ts s1 where item: "cbor_item h lim (byte c) s = Inr ((e, ts), s1)" by auto
    with 7 False reader_more [OF reader_cbor_item item, of t] show ?thesis by auto
  qed simp
next
  case (10 h lim n k c s es)
  then obtain a s1 where key: "get_cbor_string 0x60 (byte c) s = Inr (a, s1)" by auto
  with 10 reader_more [OF reader_get_cbor_string key, of t] show ?case by auto
next
  case (12 h lim k c s es)
  then show ?case
  proof (cases "byte c = 0xFF")
    case False
    with 12 obtain a s1 where key: "get_cbor_string 0x60 (byte c) s = Inr (a, s1)" by auto
    with 12 False reader_more [OF reader_get_cbor_string key, of t] show ?thesis by auto
  qed simp
qed simp_all

section \<open>Round trip\<close>

lemma byte_of_char_of [simp]: "byte (char_of (n :: nat)) = n mod 256"
  by simp

lemma cbor_head_read:
  assumes "major \<in> {0x00, 0x20, 0x60, 0x80, 0xA0}" and "n < 2 ^ 64"
  shows "\<exists>c r. cbor_head major n @ s = c # r \<and> major \<le> byte c \<and> byte c \<le> major + 0x1B \<and>
    cbor_size (byte c) r = Inr (n, s)"
proof -
  consider "n \<le> 0x17" | "0x17 < n" "n < 2 ^ 8" | "2 ^ 8 \<le> n" "n < 2 ^ 16" | "2 ^ 16 \<le> n" "n < 2 ^ 32" | "2 ^ 32 \<le> n" by linarith
  then show ?thesis
  proof cases
    case 1
    moreover have "(major + n) mod 0x20 = n"
    proof -
      from assms(1) obtain k where "major = k * 0x20" by (auto intro: that [of 0] that [of 1] that [of 3] that [of 4] that [of 5])
      with 1 show ?thesis by simp
    qed
    ultimately show ?thesis using assms(1) by (auto simp: cbor_head_def cbor_size_def Let_def)
  next
    case 2
    with assms(1) get_number_below [of n 1 s] show ?thesis by (auto simp: cbor_head_def cbor_size_def Let_def)
  next
    case 3
    with assms(1) get_number_below [of n 2 s] show ?thesis by (auto simp: cbor_head_def cbor_size_def Let_def)
  next
    case 4
    with assms(1) get_number_below [of n 4 s] show ?thesis by (auto simp: cbor_head_def cbor_size_def Let_def)
  next
    case 5
    with assms get_number_below [of n 8 s] show ?thesis by (auto simp: cbor_head_def cbor_size_def Let_def)
  qed
qed

lemma get_cbor_string_read:
  assumes "length a < 2 ^ 64"
  shows "\<exists>c r. write_cbor_string a @ s = c # r \<and> 0x60 \<le> byte c \<and> byte c \<le> 0x7B \<and>
    get_cbor_string 0x60 (byte c) r = Inr (a, s)"
proof -
  from cbor_head_read [of "0x60" "length a" "a @ s"] assms obtain c r where
    "cbor_head 0x60 (length a) @ a @ s = c # r" "0x60 \<le> byte c" "byte c \<le> 0x7B"
    "cbor_size (byte c) r = Inr (length a, a @ s)" by auto
  then show ?thesis by (intro exI [of _ c] exI [of _ r]) (simp add: write_cbor_string_def get_cbor_string_def cbor_text_def)
qed

lemma cbor_integer_read:
  assumes "int_fits n"
  shows "parse_cbor h lim (Next_Value # k) (write_cbor_integer n @ s) es = parse_cbor h lim k s (Sax_Integer n # es)"
proof (cases "0 \<le> n")
  case True
  with assms have "nat n < 2 ^ 64" by (simp add: int_fits_def)
  with cbor_head_read [of 0 "nat n" s] True obtain c r where
    "write_cbor_integer n @ s = c # r" "byte c \<le> 0x1B" "cbor_size (byte c) r = Inr (nat n, s)"
    by (auto simp: write_cbor_integer_def)
  with True show ?thesis by (simp add: cbor_item_def cbor_unsigned_def)
next
  case False
  define m where "m = nat (- 1 - n)"
  have m: "m < 2 ^ 63" "n = - 1 - int m" using assms False by (simp_all add: m_def int_fits_def)
  then have "to_int64 m = int m" by (simp add: to_int64_def)
  moreover from cbor_head_read [of "0x20" m s] m(1) False obtain c r where
    "write_cbor_integer n @ s = c # r" "0x20 \<le> byte c" "byte c \<le> 0x3B" "cbor_size (byte c) r = Inr (m, s)"
    by (auto simp: write_cbor_integer_def m_def)
  ultimately show ?thesis using m(2) by (simp add: cbor_item_def cbor_negative_def)
qed

lemma cbor_array_read:
  assumes "n \<le> max_array lim" and "n < 2 ^ 64 - 1"
  shows "parse_cbor h lim (Next_Value # k) (cbor_head 0x80 n @ s) es =
    parse_cbor h lim (Elements n # k) s (Sax_Start_Array # es)"
proof -
  from cbor_head_read [of "0x80" n s] assms(2) obtain c r where
    "cbor_head 0x80 n @ s = c # r" "0x80 \<le> byte c" "byte c \<le> 0x9B" "cbor_size (byte c) r = Inr (n, s)" by auto
  with assms show ?thesis by (simp add: cbor_item_def get_cbor_array_def start_array_def)
qed

lemma cbor_object_read:
  assumes "n \<le> max_object lim" and "n < 2 ^ 64 - 1"
  shows "parse_cbor h lim (Next_Value # k) (cbor_head 0xA0 n @ s) es =
    parse_cbor h lim (Members n # k) s (Sax_Start_Object # es)"
proof -
  from cbor_head_read [of "0xA0" n s] assms(2) obtain c r where
    "cbor_head 0xA0 n @ s = c # r" "0xA0 \<le> byte c" "byte c \<le> 0xBB" "cbor_size (byte c) r = Inr (n, s)" by auto
  with assms show ?thesis by (simp add: cbor_item_def get_cbor_object_def start_object_def)
qed

interpretation cbor: binary_format write_cbor write_cbor_string "cbor_head 0x80" "cbor_head 0xA0" "parse_cbor h lim"
  "2 ^ 64 - 1" "min (max_array lim) (2 ^ 64 - 2)" "min (max_object lim) (2 ^ 64 - 2)" for h lim
proof (unfold_locales, goal_cases)
  case (3 j)
  then show ?case by (cases j) auto
next
  case (4 j t k s es)
  then show ?case
  proof (cases j)
    case (JString a)
    with 4 get_cbor_string_read [of a s] obtain c r where "t @ s = c # r" "0x60 \<le> byte c" "byte c \<le> 0x7B"
      "get_cbor_string 0x60 (byte c) r = Inr (a, s)" by auto
    with JString show ?thesis by (simp add: cbor_item_def)
  qed (auto simp: cbor_item_def cbor_integer_read)
next
  case (10 key n k s es)
  with get_cbor_string_read [of key s] obtain c r where "write_cbor_string key @ s = c # r"
    "get_cbor_string 0x60 (byte c) r = Inr (key, s)" by auto
  then show ?case by simp
next
  case (12 k s es r s' t)
  then show ?case by (rule parse_cbor_more)
qed (simp_all add: cbor_array_read cbor_object_read)

text \<open>
  CBOR round trip: every value without floating point numbers that a program can hold is written, what is
  written is read back as that value, whatever is done with tags, and no beginning of it that misses some bytes
  is taken for a value.
\<close>

lemma cbor_roundtrip:
  assumes "binary_ok (2 ^ 64 - 1) (min (max_array lim) (2 ^ 64 - 2)) (min (max_object lim) (2 ^ 64 - 2)) j"
  shows "\<exists>t. write_cbor j = Inr t \<and> from_cbor lim strict handler t = Inr j \<and>
    (\<forall>u v. t = u @ v \<and> v \<noteq> [] \<longrightarrow> \<not> is_ok (from_cbor lim strict handler u))"
  unfolding from_cbor_def by (rule cbor.document_read) (rule assms)

text \<open>
  Two inputs that are not read as CBOR has them: the number \<open>-2 ^ 64\<close> becomes 0, and an array whose length is
  given as \<open>2 ^ 64 - 1\<close> ends at a break.
\<close>

lemma all_ones_read: "get_number 8 (write_number 8 (2 ^ 64 - 1) @ s) = Inr (2 ^ 64 - 1, s)"
  by (rule get_number_below) simp

lemmas dom_defs = read_document_def dom_handle_value_def dom_init_def dom_start_def dom_end_def

lemma cbor_big_negative:
  "from_cbor lim True handler (write_number 1 0x3B @ write_number 8 (2 ^ 64 - 1)) = Inr (JInt 0)"
  using all_ones_read [of "[]"]
  by (simp add: from_cbor_def cbor_item_def cbor_negative_def cbor_size_def to_int64_def dom_defs)

lemma cbor_long_array:
  "from_cbor lim True handler (write_number 1 0x9B @ write_number 8 (2 ^ 64 - 1) @ write_number 1 1 @ write_number 1 0xFF) =
     Inr (JArray [JInt 1])"
  using all_ones_read [of "[char_of (1 :: nat), char_of (255 :: nat)]"]
  by (simp add: from_cbor_def cbor_item_def cbor_unsigned_def cbor_size_def get_cbor_array_def dom_defs)

end
