(* ===== verification/Json_Msgpack.thy ===== *)
theory Json_Msgpack
  imports Json_Binary
begin

text \<open>
  The format MessagePack of \<open>extern/json/json.hpp\<close>: \<open>write_msgpack\<close> and the reader \<open>parse_msgpack_internal\<close>. A
  \<open>double\<close> is the outcome \<open>Json_Float_Conversion\<close> and a byte string the outcome \<open>Json_Binary_Value\<close>, once it has
  been read.
\<close>

section \<open>Writing\<close>

definition write_msgpack_integer :: "int \<Rightarrow> string" where
  "write_msgpack_integer n =
     (if 0 \<le> n then
        (if n < 128 then write_number 1 (nat n)
         else if n \<le> 2 ^ 8 - 1 then write_number 1 0xCC @ write_number 1 (nat n)
         else if n \<le> 2 ^ 16 - 1 then write_number 1 0xCD @ write_number 2 (nat n)
         else if n \<le> 2 ^ 32 - 1 then write_number 1 0xCE @ write_number 4 (nat n)
         else if n \<le> 2 ^ 64 - 1 then write_number 1 0xCF @ write_number 8 (nat n)
         else [])
      else
        (if - 32 \<le> n then write_signed 1 n
         else if - (2 ^ 7) \<le> n then write_number 1 0xD0 @ write_signed 1 n
         else if - (2 ^ 15) \<le> n then write_number 1 0xD1 @ write_signed 2 n
         else if - (2 ^ 31) \<le> n then write_number 1 0xD2 @ write_signed 4 n
         else if - (2 ^ 63) \<le> n then write_number 1 0xD3 @ write_signed 8 n
         else []))"

text \<open>A string, array or object of \<open>2 ^ 32\<close> or more bytes, elements or members gets no head at all.\<close>

definition write_msgpack_string :: "string \<Rightarrow> string" where
  "write_msgpack_string s =
     (let n = length s in
      if n \<le> 31 then write_number 1 (0xA0 + n)
      else if n \<le> 2 ^ 8 - 1 then write_number 1 0xD9 @ write_number 1 n
      else if n \<le> 2 ^ 16 - 1 then write_number 1 0xDA @ write_number 2 n
      else if n \<le> 2 ^ 32 - 1 then write_number 1 0xDB @ write_number 4 n
      else []) @ s"

definition msgpack_array_head :: "nat \<Rightarrow> string" where
  "msgpack_array_head n =
     (if n \<le> 15 then write_number 1 (0x90 + n)
      else if n \<le> 2 ^ 16 - 1 then write_number 1 0xDC @ write_number 2 n
      else if n \<le> 2 ^ 32 - 1 then write_number 1 0xDD @ write_number 4 n
      else [])"

definition msgpack_object_head :: "nat \<Rightarrow> string" where
  "msgpack_object_head n =
     (if n \<le> 15 then write_number 1 (0x80 + n)
      else if n \<le> 2 ^ 16 - 1 then write_number 1 0xDE @ write_number 2 n
      else if n \<le> 2 ^ 32 - 1 then write_number 1 0xDF @ write_number 4 n
      else [])"

fun write_msgpack :: "json \<Rightarrow> string res" where
  "write_msgpack JNull = Inr (write_number 1 0xC0)"
| "write_msgpack (JBool b) = Inr (write_number 1 (if b then 0xC3 else 0xC2))"
| "write_msgpack (JInt n) = Inr (write_msgpack_integer n)"
| "write_msgpack (JFloat l) = Inl Json_Float_Conversion"
| "write_msgpack (JString s) = Inr (write_msgpack_string s)"
| "write_msgpack (JArray xs) =
     res_bind (append_all (map write_msgpack xs)) (\<lambda>b. Inr (msgpack_array_head (length xs) @ b))"
| "write_msgpack (JObject xs) =
     res_bind (append_all (map (\<lambda>(k, v). res_bind (write_msgpack v) (\<lambda>b. Inr (write_msgpack_string k @ b))) xs)) (\<lambda>b.
       Inr (msgpack_object_head (length xs) @ b))"

section \<open>Reading\<close>

definition msgpack_unsigned :: "nat \<Rightarrow> string \<Rightarrow> (sax_event \<times> string) res" where
  "msgpack_unsigned k s = res_bind (get_number k s) (\<lambda>(n, s'). Inr (Sax_Integer (int n), s'))"

definition msgpack_signed :: "nat \<Rightarrow> string \<Rightarrow> (sax_event \<times> string) res" where
  "msgpack_signed k s = res_bind (get_number k s) (\<lambda>(n, s'). Inr (Sax_Integer (signed_value k n), s'))"

text \<open>\<open>get_msgpack_string\<close>; \<open>c\<close> is the byte that has been read.\<close>

definition get_msgpack_string :: "nat \<Rightarrow> string \<Rightarrow> (string \<times> string) res" where
  "get_msgpack_string c s =
     (if 0xA0 \<le> c \<and> c \<le> 0xBF then get_bytes (c mod 0x20) s
      else if 0xD9 \<le> c \<and> c \<le> 0xDB then
        res_bind (get_number (2 ^ (c - 0xD9)) s) (\<lambda>(n, s'). get_bytes n s')
      else Inl Json_Parse_Error)"

text \<open>\<open>get_msgpack_binary\<close>: a length unless it is fixed, and a subtype in the ext types.\<close>

definition get_msgpack_binary :: "nat \<Rightarrow> string \<Rightarrow> (string \<times> string) res" where
  "get_msgpack_binary c s =
     (if 0xC4 \<le> c \<and> c \<le> 0xC6 then
        res_bind (get_number (2 ^ (c - 0xC4)) s) (\<lambda>(n, s'). get_bytes n s')
      else if 0xC7 \<le> c \<and> c \<le> 0xC9 then
        res_bind (get_number (2 ^ (c - 0xC7)) s) (\<lambda>(n, s').
        res_bind (get_number 1 s') (\<lambda>(subtype, s''). get_bytes n s''))
      else
        res_bind (get_number 1 s) (\<lambda>(subtype, s'). get_bytes (2 ^ (c - 0xD4)) s'))"

definition msgpack_item :: "sax_limits \<Rightarrow> nat \<Rightarrow> string \<Rightarrow> ((sax_event list \<times> reader_task list) \<times> string) res" where
  "msgpack_item lim c s =
     (if c \<le> 0x7F then Inr (([Sax_Integer (int c)], []), s)
      else if c \<le> 0x8F then res_bind (start_object lim (c mod 0x10)) (\<lambda>r. Inr (r, s))
      else if c \<le> 0x9F then res_bind (start_array lim (c mod 0x10)) (\<lambda>r. Inr (r, s))
      else if c \<le> 0xBF \<or> 0xD9 \<le> c \<and> c \<le> 0xDB then
        res_bind (get_msgpack_string c s) (\<lambda>(a, s'). Inr (([Sax_String a], []), s'))
      else if c = 0xC0 then Inr (([Sax_Null], []), s)
      else if c = 0xC2 then Inr (([Sax_Boolean False], []), s)
      else if c = 0xC3 then Inr (([Sax_Boolean True], []), s)
      else if 0xC4 \<le> c \<and> c \<le> 0xC9 \<or> 0xD4 \<le> c \<and> c \<le> 0xD8 then
        res_bind (get_msgpack_binary c s) (\<lambda>_. Inl Json_Binary_Value)
      else if c = 0xCA then res_bind (get_number 4 s) (\<lambda>_. Inl Json_Float_Conversion)
      else if c = 0xCB then res_bind (get_number 8 s) (\<lambda>_. Inl Json_Float_Conversion)
      else if 0xCC \<le> c \<and> c \<le> 0xCF then
        res_bind (msgpack_unsigned (2 ^ (c - 0xCC)) s) (\<lambda>(e, s'). Inr (([e], []), s'))
      else if 0xD0 \<le> c \<and> c \<le> 0xD3 then
        res_bind (msgpack_signed (2 ^ (c - 0xD0)) s) (\<lambda>(e, s'). Inr (([e], []), s'))
      else if c = 0xDC \<or> c = 0xDD then
        res_bind (get_number (2 ^ (c - 0xDB)) s) (\<lambda>(n, s'). res_bind (start_array lim n) (\<lambda>r. Inr (r, s')))
      else if c = 0xDE \<or> c = 0xDF then
        res_bind (get_number (2 ^ (c - 0xDD)) s) (\<lambda>(n, s'). res_bind (start_object lim n) (\<lambda>r. Inr (r, s')))
      else if 0xE0 \<le> c then Inr (([Sax_Integer (signed_value 1 c)], []), s)
      else Inl Json_Parse_Error)"

lemma reader_msgpack_unsigned [reader_intros]: "reader (msgpack_unsigned k)"
  unfolding msgpack_unsigned_def by (intro reader_intros)

lemma reader_msgpack_signed [reader_intros]: "reader (msgpack_signed k)"
  unfolding msgpack_signed_def by (intro reader_intros)

lemma reader_get_msgpack_string [reader_intros]: "reader (get_msgpack_string c)"
  unfolding get_msgpack_string_def by (intro reader_intros)

lemma reader_msgpack_item: "reader (msgpack_item lim c)"
  unfolding msgpack_item_def by (intro reader_intros)

text \<open>\<open>parse_msgpack_internal\<close> with the loops of \<open>get_msgpack_array\<close> and \<open>get_msgpack_object\<close>.\<close>

function parse_msgpack :: "sax_limits \<Rightarrow> reader_task list \<Rightarrow> string \<Rightarrow> sax_event list \<Rightarrow>
    (sax_event list \<times> string) res" where
  "parse_msgpack lim [] s es = Inr (rev es, s)"
| "parse_msgpack lim (Next_Value # k) [] es = Inl Json_Parse_Error"
| "parse_msgpack lim (Next_Value # k) (c # s) es =
     res_bind (msgpack_item lim (byte c) s) (\<lambda>(r, s'). parse_msgpack lim (snd r @ k) s' (rev (fst r) @ es))"
| "parse_msgpack lim (Elements 0 # k) s es = parse_msgpack lim k s (Sax_End_Array # es)"
| "parse_msgpack lim (Elements (Suc n) # k) s es = parse_msgpack lim (Next_Value # Elements n # k) s es"
| "parse_msgpack lim (Elements_Until_Break # k) s es = Inl Json_Parse_Error"
| "parse_msgpack lim (Members 0 # k) s es = parse_msgpack lim k s (Sax_End_Object # es)"
| "parse_msgpack lim (Members (Suc n) # k) [] es = Inl Json_Parse_Error"
| "parse_msgpack lim (Members (Suc n) # k) (c # s) es =
     res_bind (get_msgpack_string (byte c) s) (\<lambda>(key, s').
       parse_msgpack lim (Next_Value # Members n # k) s' (Sax_Key key # es))"
| "parse_msgpack lim (Members_Until_Break # k) s es = Inl Json_Parse_Error"
  by pat_completeness auto
termination
  by (relation "measures [\<lambda>(lim, ts, s, es). length s, \<lambda>(lim, ts, s, es). sum_list (map task_weight ts)]")
    (auto dest!: reader_length [OF reader_msgpack_item] reader_length [OF reader_get_msgpack_string])

definition from_msgpack :: "sax_limits \<Rightarrow> bool \<Rightarrow> string \<Rightarrow> json res" where
  "from_msgpack lim strict s = read_document strict (parse_msgpack lim [Next_Value] s [])"

lemma parse_msgpack_more:
  "parse_msgpack lim k s es = Inr (r, s') \<Longrightarrow> parse_msgpack lim k (s @ t) es = Inr (r, s' @ t)"
proof (induction lim k s es rule: parse_msgpack.induct)
  case (3 lim k c s es)
  then obtain e s1 where item: "msgpack_item lim (byte c) s = Inr (e, s1)" by auto
  with 3 reader_more [OF reader_msgpack_item item, of t] show ?case by auto
next
  case (9 lim n k c s es)
  then obtain a s1 where key: "get_msgpack_string (byte c) s = Inr (a, s1)" by auto
  with 9 reader_more [OF reader_get_msgpack_string key, of t] show ?case by auto
qed simp_all

section \<open>Round trip\<close>

lemma get_number_of_int:
  assumes "0 \<le> n" and "n < 256 ^ k"
  shows "get_number k (write_number k (nat n) @ s) = Inr (nat n, s)"
  using assms by (intro get_number_below) (simp add: nat_less_iff)

lemma msgpack_fixint: "0xE0 \<le> c \<Longrightarrow> msgpack_item lim c s = Inr (([Sax_Integer (signed_value 1 c)], []), s)"
  by (simp add: msgpack_item_def)

lemma msgpack_integer_read:
  assumes "int_fits n"
  shows "parse_msgpack lim (Next_Value # k) (write_msgpack_integer n @ s) es = parse_msgpack lim k s (Sax_Integer n # es)"
proof (cases "0 \<le> n")
  case True
  consider "n < 128" | "128 \<le> n" "n < 2 ^ 8" | "2 ^ 8 \<le> n" "n < 2 ^ 16" | "2 ^ 16 \<le> n" "n < 2 ^ 32"
    | "2 ^ 32 \<le> n" "n < 2 ^ 64" using assms unfolding int_fits_def by linarith
  then show ?thesis
  proof cases
    case 1
    with True have "nat n \<le> 127" by linarith
    with 1 True show ?thesis by (simp add: write_msgpack_integer_def msgpack_item_def)
  next
    case 2
    with get_number_of_int [of n 1 s] show ?thesis
      by (simp add: write_msgpack_integer_def msgpack_item_def msgpack_unsigned_def)
  next
    case 3
    with get_number_of_int [of n 2 s] show ?thesis
      by (simp add: write_msgpack_integer_def msgpack_item_def msgpack_unsigned_def)
  next
    case 4
    with get_number_of_int [of n 4 s] show ?thesis
      by (simp add: write_msgpack_integer_def msgpack_item_def msgpack_unsigned_def)
  next
    case 5
    with get_number_of_int [of n 8 s] show ?thesis
      by (simp add: write_msgpack_integer_def msgpack_item_def msgpack_unsigned_def)
  qed
next
  case False
  consider "- 32 \<le> n" | "- (2 ^ 7) \<le> n" "n < - 32" | "- (2 ^ 15) \<le> n" "n < - (2 ^ 7)"
    | "- (2 ^ 31) \<le> n" "n < - (2 ^ 15)" | "- (2 ^ 63) \<le> n" "n < - (2 ^ 31)"
    using assms unfolding int_fits_def by linarith
  then show ?thesis
  proof cases
    case 1
    define m where "m = nat (n + 256)"
    from 1 False have m: "0xE0 \<le> m" "m < 256" "int m = n + 256" by (simp_all add: m_def)
    from 1 False have "n mod 256 = n + 256" by presburger
    with 1 False have "write_msgpack_integer n = [char_of m]"
      using m(2) by (simp add: write_msgpack_integer_def write_signed_def m_def)
    moreover from m have "signed_value 1 m = n" by (simp add: signed_value_def)
    ultimately show ?thesis using m(1,2) msgpack_fixint [of m lim s] by simp
  next
    case 2
    with signed_value_write(1) [of 1 n s] signed_value_write(2) [of 1 n] show ?thesis
      by (simp add: write_msgpack_integer_def msgpack_item_def msgpack_signed_def)
  next
    case 3
    with signed_value_write(1) [of 2 n s] signed_value_write(2) [of 2 n] show ?thesis
      by (simp add: write_msgpack_integer_def msgpack_item_def msgpack_signed_def)
  next
    case 4
    with signed_value_write(1) [of 4 n s] signed_value_write(2) [of 4 n] show ?thesis
      by (simp add: write_msgpack_integer_def msgpack_item_def msgpack_signed_def)
  next
    case 5
    with signed_value_write(1) [of 8 n s] signed_value_write(2) [of 8 n] show ?thesis
      by (simp add: write_msgpack_integer_def msgpack_item_def msgpack_signed_def)
  qed
qed

lemma mod_of_base: "m dvd b \<Longrightarrow> n < m \<Longrightarrow> (b + n) mod m = (n :: nat)"
  by (auto elim!: dvdE)

lemma get_msgpack_string_read:
  assumes "length a < 2 ^ 32"
  shows "\<exists>c r. write_msgpack_string a @ s = c # r \<and> (0xA0 \<le> byte c \<and> byte c \<le> 0xBF \<or> 0xD9 \<le> byte c \<and> byte c \<le> 0xDB) \<and>
    get_msgpack_string (byte c) r = Inr (a, s)"
proof -
  consider "length a \<le> 31" | "31 < length a" "length a < 2 ^ 8" | "2 ^ 8 \<le> length a" "length a < 2 ^ 16"
    | "2 ^ 16 \<le> length a" using assms by linarith
  then show ?thesis
  proof cases
    case 1
    then have "(160 + length a) mod 32 = length a"
      by (intro mod_of_base) simp_all
    with 1 show ?thesis by (simp add: write_msgpack_string_def get_msgpack_string_def)
  next
    case 2
    with get_number_below [of "length a" 1 "a @ s"] show ?thesis by (simp add: write_msgpack_string_def get_msgpack_string_def Let_def)
  next
    case 3
    with get_number_below [of "length a" 2 "a @ s"] show ?thesis by (simp add: write_msgpack_string_def get_msgpack_string_def Let_def)
  next
    case 4
    with assms get_number_below [of "length a" 4 "a @ s"] show ?thesis by (simp add: write_msgpack_string_def get_msgpack_string_def Let_def)
  qed
qed

lemma msgpack_array_read:
  assumes "n \<le> max_array lim" and "n < 2 ^ 32"
  shows "parse_msgpack lim (Next_Value # k) (msgpack_array_head n @ s) es =
    parse_msgpack lim (Elements n # k) s (Sax_Start_Array # es)"
proof -
  consider "n \<le> 15" | "15 < n" "n < 2 ^ 16" | "2 ^ 16 \<le> n" by linarith
  then show ?thesis
  proof cases
    case 1
    then have "(144 + n) mod 16 = n" by (intro mod_of_base) simp_all
    with 1 assms show ?thesis by (simp add: msgpack_array_head_def msgpack_item_def start_array_def)
  next
    case 2
    with assms get_number_below [of n 2 s] show ?thesis
      by (simp add: msgpack_array_head_def msgpack_item_def start_array_def)
  next
    case 3
    with assms get_number_below [of n 4 s] show ?thesis
      by (simp add: msgpack_array_head_def msgpack_item_def start_array_def)
  qed
qed

lemma msgpack_object_read:
  assumes "n \<le> max_object lim" and "n < 2 ^ 32"
  shows "parse_msgpack lim (Next_Value # k) (msgpack_object_head n @ s) es =
    parse_msgpack lim (Members n # k) s (Sax_Start_Object # es)"
proof -
  consider "n \<le> 15" | "15 < n" "n < 2 ^ 16" | "2 ^ 16 \<le> n" by linarith
  then show ?thesis
  proof cases
    case 1
    then have "(128 + n) mod 16 = n" by (intro mod_of_base) simp_all
    with 1 assms show ?thesis by (simp add: msgpack_object_head_def msgpack_item_def start_object_def)
  next
    case 2
    with assms get_number_below [of n 2 s] show ?thesis
      by (simp add: msgpack_object_head_def msgpack_item_def start_object_def)
  next
    case 3
    with assms get_number_below [of n 4 s] show ?thesis
      by (simp add: msgpack_object_head_def msgpack_item_def start_object_def)
  qed
qed

interpretation msgpack: binary_format write_msgpack write_msgpack_string msgpack_array_head msgpack_object_head
  "parse_msgpack lim" "2 ^ 32 - 1" "min (max_array lim) (2 ^ 32 - 1)" "min (max_object lim) (2 ^ 32 - 1)" for lim
proof (unfold_locales, goal_cases)
  case (3 j)
  then show ?case by (cases j) auto
next
  case (4 j t k s es)
  then show ?case
  proof (cases j)
    case (JString a)
    with 4 get_msgpack_string_read [of a s] obtain c r where "t @ s = c # r"
      "0xA0 \<le> byte c \<and> byte c \<le> 0xBF \<or> 0xD9 \<le> byte c \<and> byte c \<le> 0xDB"
      "get_msgpack_string (byte c) r = Inr (a, s)" by auto
    then have "msgpack_item lim (byte c) r = Inr (([Sax_String a], []), s)"
      by (elim conjE disjE) (simp_all add: msgpack_item_def)
    with \<open>t @ s = c # r\<close> JString show ?thesis by simp
  qed (auto simp: msgpack_item_def msgpack_integer_read)
next
  case (10 key n k s es)
  with get_msgpack_string_read [of key s] obtain c r where "write_msgpack_string key @ s = c # r"
    "get_msgpack_string (byte c) r = Inr (key, s)" by auto
  then show ?case by simp
next
  case (12 k s es r s' t)
  then show ?case by (rule parse_msgpack_more)
qed (simp_all add: msgpack_array_read msgpack_object_read)

text \<open>
  MessagePack round trip: every value without floating point numbers whose strings, arrays and objects have
  fewer than \<open>2 ^ 32\<close> bytes, elements or members is written, what is written is read back as that value, and no
  beginning of it that misses some bytes is taken for a value.
\<close>

lemma msgpack_roundtrip:
  assumes "binary_ok (2 ^ 32 - 1) (min (max_array lim) (2 ^ 32 - 1)) (min (max_object lim) (2 ^ 32 - 1)) j"
  shows "\<exists>t. write_msgpack j = Inr t \<and> from_msgpack lim strict t = Inr j \<and>
    (\<forall>u v. t = u @ v \<and> v \<noteq> [] \<longrightarrow> \<not> is_ok (from_msgpack lim strict u))"
  unfolding from_msgpack_def by (rule msgpack.document_read) (rule assms)

end
