(* ===== verification/Json_Bson.thy ===== *)
theory Json_Bson
  imports Json_Cbor Json_Msgpack
begin

text \<open>
  The format BSON of \<open>extern/json/json.hpp\<close>: the sizes that are written in front of a document, the writer
  \<open>write_bson\<close> and the reader \<open>parse_bson_internal\<close>; and the round trip. A \<open>double\<close> is the
  outcome \<open>Json_Float_Conversion\<close> and a byte string the outcome \<open>Json_Binary_Value\<close>, once it has been read.
\<close>

section \<open>Sizes\<close>

abbreviation nul :: char where
  "nul \<equiv> CHR 0x00"

definition calc_bson_entry_header_size :: "string \<Rightarrow> nat res" where
  "calc_bson_entry_header_size name =
     (if nul \<in> set name then Inl Json_Out_Of_Range else Inr (1 + length name + 1))"

definition calc_bson_integer_size :: "int \<Rightarrow> nat" where
  "calc_bson_integer_size n = (if - (2 ^ 31) \<le> n \<and> n \<le> 2 ^ 31 - 1 then 4 else 8)"

fun sum_all :: "nat res list \<Rightarrow> nat res" where
  "sum_all [] = Inr 0"
| "sum_all (r # rs) = res_bind r (\<lambda>n. res_bind (sum_all rs) (\<lambda>m. Inr (n + m)))"

function calc_bson_element_size :: "string \<Rightarrow> json \<Rightarrow> nat res" where
  "calc_bson_element_size name j =
     res_bind (calc_bson_entry_header_size name) (\<lambda>header_size.
       case j of
         JNull \<Rightarrow> Inr header_size
       | JBool b \<Rightarrow> Inr (header_size + 1)
       | JInt n \<Rightarrow> Inr (header_size + calc_bson_integer_size n)
       | JFloat l \<Rightarrow> Inr (header_size + 8)
       | JString s \<Rightarrow> Inr (header_size + (4 + length s + 1))
       | JArray xs \<Rightarrow>
           res_bind (sum_all (map (\<lambda>i. calc_bson_element_size (dump_abs i) (xs ! i)) [0..<length xs])) (\<lambda>n.
             Inr (header_size + (4 + n + 1)))
       | JObject xs \<Rightarrow>
           res_bind (sum_all (map (\<lambda>(k, v). calc_bson_element_size k v) xs)) (\<lambda>n. Inr (header_size + (4 + n + 1))))"
  by pat_completeness auto
termination
  by (relation "measure (\<lambda>(name, j). size j)") (auto intro!: size_json_nth dest: size_json_member)

declare calc_bson_element_size.simps [simp del]

definition calc_bson_array_size :: "json list \<Rightarrow> nat res" where
  "calc_bson_array_size xs =
     res_bind (sum_all (map (\<lambda>i. calc_bson_element_size (dump_abs i) (xs ! i)) [0..<length xs])) (\<lambda>n. Inr (4 + n + 1))"

definition calc_bson_object_size :: "(string \<times> json) list \<Rightarrow> nat res" where
  "calc_bson_object_size xs = res_bind (sum_all (map (\<lambda>(k, v). calc_bson_element_size k v) xs)) (\<lambda>n. Inr (4 + n + 1))"

section \<open>Writing\<close>

text \<open>\<open>write_number\<close> and \<open>get_number\<close> in little endian order.\<close>

definition write_number_le :: "nat \<Rightarrow> nat \<Rightarrow> string" where
  "write_number_le k n = rev (write_number k n)"

definition get_number_le :: "nat \<Rightarrow> string \<Rightarrow> (nat \<times> string) res" where
  "get_number_le k s =
     res_bind (get_bytes k s) (\<lambda>(a, s'). res_bind (get_number k (rev a)) (\<lambda>(n, _). Inr (n, s')))"

definition write_bson_entry_header :: "string \<Rightarrow> nat \<Rightarrow> string" where
  "write_bson_entry_header name element_type = write_number 1 element_type @ name @ [nul]"

definition write_bson_integer :: "string \<Rightarrow> int \<Rightarrow> string res" where
  "write_bson_integer name n =
     (if - (2 ^ 31) \<le> n \<and> n \<le> 2 ^ 31 - 1 then
        Inr (write_bson_entry_header name 0x10 @ write_number_le 4 (nat (n mod 2 ^ 32)))
      else if n \<le> 2 ^ 63 - 1 then
        Inr (write_bson_entry_header name 0x12 @ write_number_le 8 (nat (n mod 2 ^ 64)))
      else Inl Json_Out_Of_Range)"

text \<open>The body of a document behind its size.\<close>

definition write_bson_document :: "nat res \<Rightarrow> string res list \<Rightarrow> string res" where
  "write_bson_document document_size elements =
     res_bind document_size (\<lambda>n. res_bind (append_all elements) (\<lambda>b. Inr (write_number_le 4 n @ b @ [nul])))"

function write_bson_element :: "string \<Rightarrow> json \<Rightarrow> string res" where
  "write_bson_element name j =
     (case j of
        JNull \<Rightarrow> Inr (write_bson_entry_header name 0x0A)
      | JBool b \<Rightarrow> Inr (write_bson_entry_header name 0x08 @ write_number 1 (if b then 1 else 0))
      | JInt n \<Rightarrow> write_bson_integer name n
      | JFloat l \<Rightarrow> Inl Json_Float_Conversion
      | JString s \<Rightarrow> Inr (write_bson_entry_header name 0x02 @ write_number_le 4 (length s + 1) @ s @ [nul])
      | JArray xs \<Rightarrow>
          res_bind (write_bson_document (calc_bson_array_size xs)
            (map (\<lambda>i. write_bson_element (dump_abs i) (xs ! i)) [0..<length xs])) (\<lambda>b.
            Inr (write_bson_entry_header name 0x04 @ b))
      | JObject xs \<Rightarrow>
          res_bind (write_bson_document (calc_bson_object_size xs) (map (\<lambda>(k, v). write_bson_element k v) xs)) (\<lambda>b.
            Inr (write_bson_entry_header name 0x03 @ b)))"
  by pat_completeness auto
termination
  by (relation "measure (\<lambda>(name, j). size j)") (auto intro!: size_json_nth dest: size_json_member)

declare write_bson_element.simps [simp del]

definition write_bson_object :: "(string \<times> json) list \<Rightarrow> string res" where
  "write_bson_object xs = write_bson_document (calc_bson_object_size xs) (map (\<lambda>(k, v). write_bson_element k v) xs)"

definition write_bson :: "json \<Rightarrow> string res" where
  "write_bson j = (case j of JObject xs \<Rightarrow> write_bson_object xs | _ \<Rightarrow> Inl Json_Type_Error)"

section \<open>Reading\<close>

fun get_bson_cstr :: "string \<Rightarrow> (string \<times> string) res" where
  "get_bson_cstr [] = Inl Json_Parse_Error"
| "get_bson_cstr (c # s) =
     (if c = nul then Inr ([], s) else res_bind (get_bson_cstr s) (\<lambda>(a, s'). Inr (c # a, s')))"

text \<open>When only the terminator is missing there is no exception.\<close>

definition get_bson_string :: "int \<Rightarrow> string \<Rightarrow> (string \<times> string) res" where
  "get_bson_string len s =
     (if len < 1 then Inl Json_Parse_Error
      else
        res_bind (get_bytes (nat (len - 1)) s) (\<lambda>(a, s').
          case s' of [] \<Rightarrow> Inl Json_Discarded | _ # s'' \<Rightarrow> Inr (a, s'')))"

definition get_bson_binary :: "int \<Rightarrow> string \<Rightarrow> (string \<times> string) res" where
  "get_bson_binary len s =
     (if len < 0 then Inl Json_Parse_Error
      else res_bind (get_number 1 s) (\<lambda>(subtype, s'). get_bytes (nat len) s'))"

text \<open>\<open>parse_bson_element_internal\<close>; a boolean is true at the end of the input.\<close>

definition bson_element :: "nat \<Rightarrow> string \<Rightarrow> ((sax_event list \<times> reader_task list) \<times> string) res" where
  "bson_element element_type s =
     (if element_type = 0x01 then res_bind (get_number_le 8 s) (\<lambda>_. Inl Json_Float_Conversion)
      else if element_type = 0x02 then
        res_bind (get_number_le 4 s) (\<lambda>(len, s').
        res_bind (get_bson_string (signed_value 4 len) s') (\<lambda>(a, s''). Inr (([Sax_String a], []), s'')))
      else if element_type = 0x03 then
        res_bind (get_number_le 4 s) (\<lambda>(document_size, s'). Inr (([Sax_Start_Object], [Members_Until_Break]), s'))
      else if element_type = 0x04 then
        res_bind (get_number_le 4 s) (\<lambda>(document_size, s'). Inr (([Sax_Start_Array], [Elements_Until_Break]), s'))
      else if element_type = 0x05 then
        res_bind (get_number_le 4 s) (\<lambda>(len, s').
        res_bind (get_bson_binary (signed_value 4 len) s') (\<lambda>_. Inl Json_Binary_Value))
      else if element_type = 0x08 then Inr (([Sax_Boolean (s = [] \<or> hd s \<noteq> nul)], []), tl s)
      else if element_type = 0x0A then Inr (([Sax_Null], []), s)
      else if element_type = 0x10 then
        res_bind (get_number_le 4 s) (\<lambda>(n, s'). Inr (([Sax_Integer (signed_value 4 n)], []), s'))
      else if element_type = 0x12 then
        res_bind (get_number_le 8 s) (\<lambda>(n, s'). Inr (([Sax_Integer (signed_value 8 n)], []), s'))
      else Inl Json_Parse_Error)"

lemma reader_get_number_le [reader_intros]: "reader (get_number_le k)"
  unfolding get_number_le_def by (intro reader_intros) (auto simp: reader_def)

lemma get_number_le_shorter: "get_number_le k s = Inr (n, s') \<Longrightarrow> 0 < k \<Longrightarrow> length s' < length s"
  by (auto simp: get_number_le_def get_bytes_def split: if_splits)

lemma reader_get_bson_cstr [reader_intros]: "reader get_bson_cstr"
proof -
  have "length s' \<le> length s \<and> (\<forall>t. get_bson_cstr (s @ t) = Inr (a, s' @ t))" if "get_bson_cstr s = Inr (a, s')" for s a s'
    using that by (induction s arbitrary: a rule: get_bson_cstr.induct) (fastforce split: if_splits)+
  then show ?thesis by (simp add: reader_def)
qed

lemma reader_get_bson_string [reader_intros]: "reader (get_bson_string len)"
  unfolding get_bson_string_def by (intro reader_intros)

lemma reader_get_bson_binary [reader_intros]: "reader (get_bson_binary len)"
  unfolding get_bson_binary_def by (intro reader_intros)

text \<open>A boolean is the one element that is not read in the same way when more input follows.\<close>

lemma reader_bson_element: "element_type \<noteq> 8 \<Longrightarrow> reader (bson_element element_type)"
  unfolding bson_element_def by (intro reader_intros reader_get_bson_binary) simp

lemma bson_element_length: "bson_element element_type s = Inr (r, s') \<Longrightarrow> length s' \<le> length s"
  using reader_length [OF reader_bson_element, of element_type s r s']
  by (cases "element_type = 8") (auto simp: bson_element_def)

lemma bson_element_more:
  "bson_element element_type s = Inr (r, s') \<Longrightarrow> s' \<noteq> [] \<Longrightarrow> bson_element element_type (s @ t) = Inr (r, s' @ t)"
  using reader_more [OF reader_bson_element, of element_type s r s' t]
  by (cases "element_type = 8"; cases s) (auto simp: bson_element_def)

text \<open>
  \<open>parse_bson_internal\<close> and \<open>parse_bson_array\<close> with the loop of \<open>parse_bson_element_list\<close>; \<open>Next_Value\<close> is the
  document as a whole.
\<close>

function parse_bson :: "reader_task list \<Rightarrow> string \<Rightarrow> sax_event list \<Rightarrow> (sax_event list \<times> string) res" where
  "parse_bson [] s es = Inr (rev es, s)"
| "parse_bson (Next_Value # k) s es =
     res_bind (get_number_le 4 s) (\<lambda>(document_size, s'). parse_bson (Members_Until_Break # k) s' (Sax_Start_Object # es))"
| "parse_bson (Elements_Until_Break # k) [] es = Inl Json_Parse_Error"
| "parse_bson (Elements_Until_Break # k) (c # s) es =
     (if c = nul then parse_bson k s (Sax_End_Array # es)
      else
        res_bind (get_bson_cstr s) (\<lambda>(key, s').
        res_bind (bson_element (byte c) s') (\<lambda>(r, s'').
          parse_bson (snd r @ Elements_Until_Break # k) s'' (rev (fst r) @ es))))"
| "parse_bson (Members_Until_Break # k) [] es = Inl Json_Parse_Error"
| "parse_bson (Members_Until_Break # k) (c # s) es =
     (if c = nul then parse_bson k s (Sax_End_Object # es)
      else
        res_bind (get_bson_cstr s) (\<lambda>(key, s').
        res_bind (bson_element (byte c) s') (\<lambda>(r, s'').
          parse_bson (snd r @ Members_Until_Break # k) s'' (rev (fst r) @ Sax_Key key # es))))"
| "parse_bson (Elements n # k) s es = Inl Json_Parse_Error"
| "parse_bson (Members n # k) s es = Inl Json_Parse_Error"
  by pat_completeness auto
termination
  by (relation "measures [\<lambda>(ts, s, es). length s, \<lambda>(ts, s, es). sum_list (map task_weight ts)]")
    (auto dest!: get_number_le_shorter reader_length [OF reader_get_bson_cstr] bson_element_length)

definition from_bson :: "bool \<Rightarrow> string \<Rightarrow> json res" where
  "from_bson strict s = read_document strict (parse_bson [Next_Value] s [])"

lemma bson_element_tasks:
  "bson_element element_type s = Inr (r, s') \<Longrightarrow> snd r \<in> {[], [Members_Until_Break], [Elements_Until_Break]}"
  by (auto simp: bson_element_def split: if_splits)

lemma bson_element_not_last:
  assumes "bson_element element_type s = Inr (r, s')" and "parse_bson (snd r @ t # k) s' es = Inr x"
    and "t \<in> {Members_Until_Break, Elements_Until_Break}"
  shows "s' \<noteq> []"
  using bson_element_tasks [OF assms(1)] assms(2,3) by auto

lemma parse_bson_more:
  "parse_bson k s es = Inr (r, s') \<Longrightarrow> parse_bson k (s @ t) es = Inr (r, s' @ t)"
proof (induction k s es rule: parse_bson.induct)
  case (2 k s es)
  then obtain n s1 where size: "get_number_le 4 s = Inr (n, s1)" by auto
  with 2 reader_more [OF reader_get_number_le size, of t] show ?case by auto
next
  case (4 k c s es)
  show ?case
  proof (cases "c = nul")
    case False
    with 4 obtain key s1 e s2 where key: "get_bson_cstr s = Inr (key, s1)" and e: "bson_element (byte c) s1 = Inr (e, s2)"
      by auto
    with "4.prems" False bson_element_not_last [OF e] have "s2 \<noteq> []" by fastforce
    with 4 False key e bson_element_more [OF e, of t] reader_more [OF reader_get_bson_cstr key, of t] show ?thesis by auto
  qed (use 4 in simp)
next
  case (6 k c s es)
  show ?case
  proof (cases "c = nul")
    case False
    with 6 obtain key s1 e s2 where key: "get_bson_cstr s = Inr (key, s1)" and e: "bson_element (byte c) s1 = Inr (e, s2)"
      by auto
    with "6.prems" False bson_element_not_last [OF e] have "s2 \<noteq> []" by fastforce
    with 6 False key e bson_element_more [OF e, of t] reader_more [OF reader_get_bson_cstr key, of t] show ?thesis by auto
  qed (use 6 in simp)
qed simp_all

section \<open>Sizes are those of what is written\<close>

lemma sum_append_all:
  assumes "\<And>x t n. x \<in> set xs \<Longrightarrow> f x = Inr t \<Longrightarrow> g x = Inr n \<Longrightarrow> n = length t"
    and "append_all (map f xs) = Inr b" and "sum_all (map g xs) = Inr m"
  shows "m = length b"
  using assms by (induction xs arbitrary: b m) fastforce+

lemma length_write_number [simp]: "length (write_number k n) = k"
  by (induction k) (simp_all add: write_number.simps)

lemma length_write_number_le [simp]: "length (write_number_le k n) = k"
  by (simp add: write_number_le_def)

lemma write_bson_element_size:
  "write_bson_element name j = Inr t \<Longrightarrow> calc_bson_element_size name j = Inr n \<Longrightarrow> n = length t"
proof (induction name j arbitrary: t n rule: write_bson_element.induct)
  case (1 name j)
  show ?case
  proof (cases j)
    case (JArray xs)
    with 1(3,4) obtain m b where m: "sum_all (map (\<lambda>i. calc_bson_element_size (dump_abs i) (xs ! i)) [0..<length xs]) = Inr m"
      "append_all (map (\<lambda>i. write_bson_element (dump_abs i) (xs ! i)) [0..<length xs]) = Inr b"
      and t: "t = write_bson_entry_header name 4 @ write_number_le 4 (4 + m + 1) @ b @ [nul]"
      and n: "n = 1 + length name + 1 + (4 + m + 1)"
      by (subst (asm) write_bson_element.simps, subst (asm) calc_bson_element_size.simps)
        (auto simp: write_bson_document_def calc_bson_array_size_def calc_bson_entry_header_size_def split: if_splits)
    from sum_append_all [OF _ m(2,1)] 1(1) [OF JArray] have "m = length b" by simp
    with t n show ?thesis by (simp add: write_bson_entry_header_def)
  next
    case (JObject xs)
    with 1(3,4) obtain m b where m: "sum_all (map (\<lambda>(k, v). calc_bson_element_size k v) xs) = Inr m"
      "append_all (map (\<lambda>(k, v). write_bson_element k v) xs) = Inr b"
      and t: "t = write_bson_entry_header name 3 @ write_number_le 4 (4 + m + 1) @ b @ [nul]"
      and n: "n = 1 + length name + 1 + (4 + m + 1)"
      by (subst (asm) write_bson_element.simps, subst (asm) calc_bson_element_size.simps)
        (auto simp: write_bson_document_def calc_bson_object_size_def calc_bson_entry_header_size_def split: if_splits)
    from sum_append_all [OF _ m(2,1)] 1(2) [OF JObject] have "m = length b" by auto
    with t n show ?thesis by (simp add: write_bson_entry_header_def)
  qed (use 1(3,4) in \<open>auto simp: write_bson_element.simps [of name] calc_bson_element_size.simps [of name]
    calc_bson_entry_header_size_def write_bson_entry_header_def write_bson_integer_def calc_bson_integer_size_def
    split: if_splits\<close>)
qed

lemma write_bson_object_size:
  assumes "write_bson_object xs = Inr t"
  shows "calc_bson_object_size xs = Inr (length t)" and "take 4 t = write_number_le 4 (length t)"
proof -
  from assms obtain m b where m: "sum_all (map (\<lambda>(k, v). calc_bson_element_size k v) xs) = Inr m"
    "append_all (map (\<lambda>(k, v). write_bson_element k v) xs) = Inr b"
    and t: "t = write_number_le 4 (4 + m + 1) @ b @ [nul]"
    by (auto simp: write_bson_object_def write_bson_document_def calc_bson_object_size_def)
  from sum_append_all [OF _ m(2,1)] write_bson_element_size have "m = length b" by auto
  with m t show "calc_bson_object_size xs = Inr (length t)" and "take 4 t = write_number_le 4 (length t)"
    by (simp_all add: calc_bson_object_size_def)
qed

section \<open>Reading what was written\<close>

text \<open>What BSON can hold: keys without a zero byte, strings whose length fits an \<open>int32\<close>, integers of an \<open>int64\<close>.\<close>

fun bson_ok :: "json \<Rightarrow> bool" where
  "bson_ok (JInt n) \<longleftrightarrow> - (2 ^ 63) \<le> n \<and> n \<le> 2 ^ 63 - 1"
| "bson_ok (JFloat l) \<longleftrightarrow> False"
| "bson_ok (JString s) \<longleftrightarrow> length s + 1 < 2 ^ 31"
| "bson_ok (JArray xs) \<longleftrightarrow> list_all bson_ok xs"
| "bson_ok (JObject xs) \<longleftrightarrow> obj_wf xs \<and> list_all (\<lambda>(k, v). nul \<notin> set k \<and> bson_ok v) xs"
| "bson_ok _ \<longleftrightarrow> True"

lemma bson_ok_sorted: "bson_ok j \<Longrightarrow> json_sorted j"
proof (induction j)
  case (JArray xs)
  then show ?case by (auto simp: list_all_iff)
next
  case (JObject xs)
  then show ?case by (fastforce simp: list_all_iff)
qed simp_all

lemma nul_dump_abs [simp]: "nul \<notin> set (dump_abs i)"
  using dump_abs_digits [of i] by (auto simp: list_all_iff is_digit_def)

lemma get_number_le_write: "n < 256 ^ k \<Longrightarrow> get_number_le k (write_number_le k n @ s) = Inr (n, s)"
  using get_number_below [of n k "[]"] get_bytes_append_bytes [of "write_number_le k n" s]
  by (simp add: get_number_le_def write_number_le_def)

lemma get_number_le_any: "\<exists>m. get_number_le k (write_number_le k n @ s) = Inr (m, s)"
  using get_number_write_number [of k n "[]"] get_bytes_append_bytes [of "write_number_le k n" s]
  by (simp add: get_number_le_def write_number_le_def)

lemma signed_le_write:
  assumes "- (256 ^ k) \<le> 2 * n" and "2 * n < 256 ^ k"
  shows "get_number_le k (write_number_le k (nat (n mod 256 ^ k)) @ s) = Inr (nat (n mod 256 ^ k), s)"
    and "signed_value k (nat (n mod 256 ^ k)) = n"
  using signed_value_write(2) [OF assms] by (auto intro!: get_number_le_write simp: nat_less_iff)

lemma get_bson_cstr_name: "nul \<notin> set name \<Longrightarrow> get_bson_cstr (name @ nul # s) = Inr (name, s)"
  by (induction name) auto

text \<open>An element is its type, its name and a body that is read as the events of the value.\<close>

definition element_read :: "string \<Rightarrow> json \<Rightarrow> bool" where
  "element_read name j \<longleftrightarrow>
     (\<exists>ty body. write_bson_element name j = Inr (char_of ty # name @ nul # body) \<and> 0 < ty \<and> ty < 256 \<and>
       (\<exists>n. calc_bson_element_size name j = Inr n) \<and>
       (\<forall>s. \<exists>e s'. bson_element ty (body @ s) = Inr (e, s') \<and>
         (\<forall>k es. parse_bson (snd e @ k) s' (rev (fst e) @ es) = parse_bson k s (rev (value_events j) @ es))))"

lemma element_readI:
  assumes "write_bson_element name j = Inr (write_bson_entry_header name ty @ body)" and "0 < ty" and "ty < 256"
    and "(\<exists>n. calc_bson_element_size name j = Inr n)"
    and "\<And>s. \<exists>e s'. bson_element ty (body @ s) = Inr (e, s') \<and>
      (\<forall>k es. parse_bson (snd e @ k) s' (rev (fst e) @ es) = parse_bson k s (rev (value_events j) @ es))"
  shows "element_read name j"
  unfolding element_read_def using assms by (intro exI [of _ ty] exI [of _ body]) (simp add: write_bson_entry_header_def)

lemma char_of_zero: "char_of (0 :: nat) = nul"
  by (simp add: byte_eq_iff)

lemma type_not_nul:
  assumes "0 < (ty :: nat)" and "ty < 256"
  shows "char_of ty \<noteq> nul"
proof
  assume "char_of ty = nul"
  then have "byte (char_of ty) = 0" by simp
  with assms show False by simp
qed

lemma members_read_bson:
  assumes "\<And>l v. (l, v) \<in> set xs \<Longrightarrow> nul \<notin> set l \<and> element_read l v"
  shows "(\<exists>m. sum_all (map (\<lambda>(k, v). calc_bson_element_size k v) xs) = Inr m) \<and>
    (\<exists>b. append_all (map (\<lambda>(k, v). write_bson_element k v) xs) = Inr b \<and>
      (\<forall>k s es. parse_bson (Members_Until_Break # k) (b @ nul # s) es =
        parse_bson k s (Sax_End_Object # rev (concat (map (\<lambda>(k, v). Sax_Key k # value_events v) xs)) @ es)))"
  using assms
proof (induction xs)
  case (Cons x xs)
  obtain l v where x: "x = (l, v)" by (cases x)
  from Cons.prems x have l: "nul \<notin> set l" "element_read l v" by auto
  then obtain ty body where body: "write_bson_element l v = Inr (char_of ty # l @ nul # body)" "0 < ty" "ty < 256"
    "\<exists>n. calc_bson_element_size l v = Inr n"
    "\<And>s. \<exists>e s'. bson_element ty (body @ s) = Inr (e, s') \<and>
      (\<forall>k es. parse_bson (snd e @ k) s' (rev (fst e) @ es) = parse_bson k s (rev (value_events v) @ es))"
    by (auto simp: element_read_def)
  have "nul \<notin> set l' \<and> element_read l' v'" if "(l', v') \<in> set xs" for l' v'
    using Cons.prems [of l' v'] that by simp
  from Cons.IH [OF this] obtain b where b: "append_all (map (\<lambda>(k, v). write_bson_element k v) xs) = Inr b"
    "\<And>k s es. parse_bson (Members_Until_Break # k) (b @ nul # s) es =
      parse_bson k s (Sax_End_Object # rev (concat (map (\<lambda>(k, v). Sax_Key k # value_events v) xs)) @ es)"
    "\<exists>m. sum_all (map (\<lambda>(k, v). calc_bson_element_size k v) xs) = Inr m" by blast
  have "char_of ty \<noteq> nul" using type_not_nul body(2,3) by blast
  then have "parse_bson (Members_Until_Break # k) ((char_of ty # l @ nul # body @ b) @ nul # s) es =
      parse_bson k s (Sax_End_Object # rev (concat (map (\<lambda>(k, v). Sax_Key k # value_events v) (x # xs))) @ es)" for k s es
    using body(5) [of "b @ nul # s"] b(2) l(1) x body(3) by (auto simp: get_bson_cstr_name)
  with body(1,4) b(1,3) x show ?case by auto
qed simp

lemma elements_read_bson:
  assumes "\<And>i. i \<in> set is \<Longrightarrow> element_read (dump_abs i) (f i)"
  shows "(\<exists>m. sum_all (map (\<lambda>i. calc_bson_element_size (dump_abs i) (f i)) is) = Inr m) \<and>
    (\<exists>b. append_all (map (\<lambda>i. write_bson_element (dump_abs i) (f i)) is) = Inr b \<and>
      (\<forall>k s es. parse_bson (Elements_Until_Break # k) (b @ nul # s) es =
        parse_bson k s (Sax_End_Array # rev (concat (map (\<lambda>i. value_events (f i)) is)) @ es)))"
  using assms
proof (induction "is")
  case (Cons i "is")
  let ?l = "dump_abs i"
  from Cons.prems have "element_read ?l (f i)" by auto
  then obtain ty body where body: "write_bson_element ?l (f i) = Inr (char_of ty # ?l @ nul # body)" "0 < ty" "ty < 256"
    "\<exists>n. calc_bson_element_size ?l (f i) = Inr n"
    "\<And>s. \<exists>e s'. bson_element ty (body @ s) = Inr (e, s') \<and>
      (\<forall>k es. parse_bson (snd e @ k) s' (rev (fst e) @ es) = parse_bson k s (rev (value_events (f i)) @ es))"
    by (auto simp: element_read_def)
  have "element_read (dump_abs i') (f i')" if "i' \<in> set is" for i' using Cons.prems that by simp
  from Cons.IH [OF this] obtain b where b: "append_all (map (\<lambda>i. write_bson_element (dump_abs i) (f i)) is) = Inr b"
    "\<And>k s es. parse_bson (Elements_Until_Break # k) (b @ nul # s) es =
      parse_bson k s (Sax_End_Array # rev (concat (map (\<lambda>i. value_events (f i)) is)) @ es)"
    "\<exists>m. sum_all (map (\<lambda>i. calc_bson_element_size (dump_abs i) (f i)) is) = Inr m" by blast
  have "char_of ty \<noteq> nul" using type_not_nul body(2,3) by blast
  then have "parse_bson (Elements_Until_Break # k) ((char_of ty # ?l @ nul # body @ b) @ nul # s) es =
      parse_bson k s (Sax_End_Array # rev (concat (map (\<lambda>i. value_events (f i)) (i # is))) @ es)" for k s es
    using body(5) [of "b @ nul # s"] b(2) body(3) by (auto simp: get_bson_cstr_name)
  with body(1,4) b(1,3) show ?case by auto
qed simp

lemmas bson_scalar_defs = write_bson_element.simps calc_bson_element_size.simps calc_bson_entry_header_size_def
  bson_element_def

lemma bson_value_read: "bson_ok j \<Longrightarrow> nul \<notin> set name \<Longrightarrow> element_read name j"
proof (induction j arbitrary: name)
  case JNull
  then show ?case by (intro element_readI [where ty = 10 and body = "[]"]) (simp_all add: bson_scalar_defs)
next
  case (JBool b)
  then show ?case
    by (intro element_readI [where ty = 8 and body = "write_number 1 (if b then 1 else 0)"])
      (use type_not_nul [of 1] in \<open>simp_all add: bson_scalar_defs char_of_zero\<close>)
next
  case (JInt n)
  show ?case
  proof (cases "- (2 ^ 31) \<le> n \<and> n \<le> 2 ^ 31 - 1")
    case True
    with JInt.prems signed_le_write [of 4 n] show ?thesis
      by (intro element_readI [where ty = 16 and body = "write_number_le 4 (nat (n mod 2 ^ 32))"])
        (auto simp: bson_scalar_defs write_bson_integer_def)
  next
    case False
    with JInt.prems signed_le_write [of 8 n] show ?thesis
      by (intro element_readI [where ty = 18 and body = "write_number_le 8 (nat (n mod 2 ^ 64))"])
        (auto simp: bson_scalar_defs write_bson_integer_def)
  qed
next
  case (JFloat l)
  then show ?case by simp
next
  case (JString v)
  have "bson_element 2 ((write_number_le 4 (length v + 1) @ v @ [nul]) @ s) = Inr (([Sax_String v], []), s)" for s
    using JString.prems get_number_le_write [of "length v + 1" 4 "v @ nul # s"] get_bytes_append_bytes [of v "nul # s"]
    by (simp add: bson_element_def get_bson_string_def signed_value_def)
  with JString.prems show ?case
    by (intro element_readI [where ty = 2 and body = "write_number_le 4 (length v + 1) @ v @ [nul]"])
      (auto simp: write_bson_element.simps calc_bson_element_size.simps calc_bson_entry_header_size_def)
next
  case (JArray xs)
  have "element_read (dump_abs i) (xs ! i)" if "i \<in> set [0..<length xs]" for i
    using JArray.IH [of "xs ! i"] JArray.prems(1) that by (simp add: list_all_iff)
  from elements_read_bson [of "[0..<length xs]", OF this] obtain m b where
    m: "sum_all (map (\<lambda>i. calc_bson_element_size (dump_abs i) (xs ! i)) [0..<length xs]) = Inr m"
    and b: "append_all (map (\<lambda>i. write_bson_element (dump_abs i) (xs ! i)) [0..<length xs]) = Inr b"
      "\<And>k s es. parse_bson (Elements_Until_Break # k) (b @ nul # s) es =
        parse_bson k s (Sax_End_Array # rev (concat (map (\<lambda>i. value_events (xs ! i)) [0..<length xs])) @ es)" by blast
  have nth: "map (\<lambda>i. value_events (xs ! i)) [0..<length xs] = map value_events xs" by (rule nth_equalityI) simp_all
  have size: "calc_bson_array_size xs = Inr (4 + m + 1)" by (simp add: calc_bson_array_size_def m)
  have "\<exists>e s'. bson_element 4 ((write_number_le 4 (4 + m + 1) @ b @ [nul]) @ s) = Inr (e, s') \<and>
      (\<forall>k es. parse_bson (snd e @ k) s' (rev (fst e) @ es) = parse_bson k s (rev (value_events (JArray xs)) @ es))" for s
    using get_number_le_any [of 4 "4 + m + 1" "b @ nul # s"] b(2) nth by (auto simp: bson_element_def)
  with JArray.prems m b(1) size show ?case
    by (intro element_readI [where ty = 4 and body = "write_number_le 4 (4 + m + 1) @ b @ [nul]"])
      (simp_all add: write_bson_element.simps [of name] calc_bson_element_size.simps [of name]  write_bson_document_def calc_bson_entry_header_size_def)
next
  case (JObject xs)
  have "nul \<notin> set l \<and> element_read l v" if "(l, v) \<in> set xs" for l v
    using JObject.IH [OF that, of v l] JObject.prems(1) that by (auto simp: list_all_iff)
  from members_read_bson [of xs, OF this] obtain m b where
    m: "sum_all (map (\<lambda>(k, v). calc_bson_element_size k v) xs) = Inr m"
    and b: "append_all (map (\<lambda>(k, v). write_bson_element k v) xs) = Inr b"
      "\<And>k s es. parse_bson (Members_Until_Break # k) (b @ nul # s) es =
        parse_bson k s (Sax_End_Object # rev (concat (map (\<lambda>(k, v). Sax_Key k # value_events v) xs)) @ es)" by blast
  have size: "calc_bson_object_size xs = Inr (4 + m + 1)" by (simp add: calc_bson_object_size_def m)
  have "\<exists>e s'. bson_element 3 ((write_number_le 4 (4 + m + 1) @ b @ [nul]) @ s) = Inr (e, s') \<and>
      (\<forall>k es. parse_bson (snd e @ k) s' (rev (fst e) @ es) = parse_bson k s (rev (value_events (JObject xs)) @ es))" for s
    using get_number_le_any [of 4 "4 + m + 1" "b @ nul # s"] b(2) by (auto simp: bson_element_def)
  with JObject.prems m b(1) size show ?case
    by (intro element_readI [where ty = 3 and body = "write_number_le 4 (4 + m + 1) @ b @ [nul]"])
      (simp_all add: write_bson_element.simps [of name] calc_bson_element_size.simps [of name]  write_bson_document_def calc_bson_entry_header_size_def)
qed

text \<open>
  BSON: a document without floating point numbers, whose keys have no zero byte, whose strings are shorter than
  \<open>2 ^ 31\<close> bytes and whose integers are those of an \<open>int64\<close>, is written with the number of its bytes in front, what is
  written is read back as that document, and no beginning of it that misses some bytes is taken for a document.
\<close>

lemma bson_roundtrip:
  assumes "bson_ok (JObject xs)"
  shows "\<exists>t. write_bson (JObject xs) = Inr t \<and> take 4 t = write_number_le 4 (length t) \<and>
    from_bson strict t = Inr (JObject xs) \<and> (\<forall>u v. t = u @ v \<and> v \<noteq> [] \<longrightarrow> \<not> is_ok (from_bson strict u))"
proof -
  have "nul \<notin> set l \<and> element_read l v" if "(l, v) \<in> set xs" for l v
    using bson_value_read [of v l] assms that by (auto simp: list_all_iff)
  from members_read_bson [of xs, OF this] obtain m b where
    m: "sum_all (map (\<lambda>(k, v). calc_bson_element_size k v) xs) = Inr m"
    and b: "append_all (map (\<lambda>(k, v). write_bson_element k v) xs) = Inr b"
      "\<And>k s es. parse_bson (Members_Until_Break # k) (b @ nul # s) es =
        parse_bson k s (Sax_End_Object # rev (concat (map (\<lambda>(k, v). Sax_Key k # value_events v) xs)) @ es)" by blast
  let ?t = "write_number_le 4 (4 + m + 1) @ b @ [nul]"
  have t: "write_bson_object xs = Inr ?t"
    by (simp add: write_bson_object_def write_bson_document_def calc_bson_object_size_def m b(1))
  have "parse_bson [Next_Value] ?t [] = Inr (value_events (JObject xs), [])"
    using get_number_le_any [of 4 "4 + m + 1" "b @ [nul]"] b(2) [of "[]" "[]"] by auto
  from document_events [of "\<lambda>t. parse_bson [Next_Value] t []", OF this parse_bson_more bson_ok_sorted [OF assms]]
    write_bson_object_size(2) [OF t] t show ?thesis by (auto simp: from_bson_def write_bson_def)
qed

text \<open>A string that ends in front of its terminator is no error, but a document without a value.\<close>

lemma bson_cut_string:
  assumes "nul \<notin> set name" and "length a + 1 < 2 ^ 31"
  shows "from_bson strict (write_number_le 4 n @ CHR 0x02 # name @ nul # write_number_le 4 (length a + 1) @ a) =
    Inl Json_Discarded"
proof -
  obtain m where "get_number_le 4 (write_number_le 4 n @ CHR 0x02 # name @ nul # write_number_le 4 (length a + 1) @ a) =
      Inr (m, CHR 0x02 # name @ nul # write_number_le 4 (length a + 1) @ a)"
    using get_number_le_any by blast
  moreover have "get_number_le 4 (write_number_le 4 (length a + 1) @ a) = Inr (length a + 1, a)"
    using assms(2) by (intro get_number_le_write) simp
  ultimately show ?thesis
    using assms get_bytes_append_bytes [of a "[]"]
    by (simp add: from_bson_def read_document_def get_bson_cstr_name bson_element_def get_bson_string_def signed_value_def)
qed

end
