(* ===== verification/Json_Ubjson.thy ===== *)
theory Json_Ubjson
  imports Json_Binary
begin

text \<open>
  The format UBJSON of \<open>extern/json/json.hpp\<close>: \<open>write_ubjson\<close> with and without counts and types in front of
  arrays and objects, \<open>parse_ubjson_internal\<close> with everything it calls, and the round trip. A \<open>double\<close> is the
  outcome \<open>Json_Float_Conversion\<close>; numbers that are written as text are read by the lexer of \<open>Json_Parse\<close>.
\<close>

section \<open>Writing\<close>

text \<open>\<open>write_number_with_ubjson_prefix\<close>; only a number above the \<open>int64\<close>s is written as text.\<close>

definition ubjson_number_prefix :: "int \<Rightarrow> char" where
  "ubjson_number_prefix n =
     (if - (2 ^ 7) \<le> n \<and> n \<le> 2 ^ 7 - 1 then CHR ''i''
      else if 0 \<le> n \<and> n \<le> 2 ^ 8 - 1 then CHR ''U''
      else if - (2 ^ 15) \<le> n \<and> n \<le> 2 ^ 15 - 1 then CHR ''I''
      else if - (2 ^ 31) \<le> n \<and> n \<le> 2 ^ 31 - 1 then CHR ''l''
      else if - (2 ^ 63) \<le> n \<and> n \<le> 2 ^ 63 - 1 then CHR ''L''
      else CHR ''H'')"

definition ubjson_number_bytes :: "int \<Rightarrow> string" where
  "ubjson_number_bytes n =
     (if - (2 ^ 7) \<le> n \<and> n \<le> 2 ^ 7 - 1 then write_signed 1 n
      else if 0 \<le> n \<and> n \<le> 2 ^ 8 - 1 then write_number 1 (nat n)
      else if - (2 ^ 15) \<le> n \<and> n \<le> 2 ^ 15 - 1 then write_signed 2 n
      else if - (2 ^ 31) \<le> n \<and> n \<le> 2 ^ 31 - 1 then write_signed 4 n
      else write_signed 8 n)"

definition write_ubjson_number :: "bool \<Rightarrow> int \<Rightarrow> string" where
  "write_ubjson_number add_prefix n =
     (if add_prefix then [ubjson_number_prefix n] else []) @
     (if ubjson_number_prefix n = CHR ''H'' then
        (let number = dump_integer n; size = int (length number) in
         ubjson_number_prefix size # ubjson_number_bytes size @ number)
      else ubjson_number_bytes n)"

abbreviation write_ubjson_size :: "nat \<Rightarrow> string" where
  "write_ubjson_size n \<equiv> write_ubjson_number True (int n)"

fun ubjson_prefix :: "json \<Rightarrow> char" where
  "ubjson_prefix JNull = CHR ''Z''"
| "ubjson_prefix (JBool b) = (if b then CHR ''T'' else CHR ''F'')"
| "ubjson_prefix (JInt n) = ubjson_number_prefix n"
| "ubjson_prefix (JFloat l) = CHR ''D''"
| "ubjson_prefix (JString s) = CHR ''S''"
| "ubjson_prefix (JArray xs) = CHR ''[''"
| "ubjson_prefix (JObject xs) = CHR ''{''"

text \<open>The type of all values, when \<open>use_type\<close> is given and they have the same.\<close>

definition same_prefix :: "bool \<Rightarrow> json list \<Rightarrow> char option" where
  "same_prefix use_type xs =
     (case xs of
        [] \<Rightarrow> None
      | x # xs' \<Rightarrow> if use_type \<and> list_all (\<lambda>v. ubjson_prefix v = ubjson_prefix x) xs' then Some (ubjson_prefix x) else None)"

definition ubjson_head :: "bool \<Rightarrow> char option \<Rightarrow> nat \<Rightarrow> string" where
  "ubjson_head use_count ty n =
     (case ty of None \<Rightarrow> [] | Some c \<Rightarrow> [CHR ''$'', c]) @ (if use_count then CHR ''#'' # write_ubjson_size n else [])"

fun write_ubjson :: "bool \<Rightarrow> bool \<Rightarrow> bool \<Rightarrow> json \<Rightarrow> string res" where
  "write_ubjson use_count use_type add_prefix JNull = Inr (if add_prefix then ''Z'' else [])"
| "write_ubjson use_count use_type add_prefix (JBool b) = Inr (if add_prefix then (if b then ''T'' else ''F'') else [])"
| "write_ubjson use_count use_type add_prefix (JInt n) = Inr (write_ubjson_number add_prefix n)"
| "write_ubjson use_count use_type add_prefix (JFloat l) = Inl Json_Float_Conversion"
| "write_ubjson use_count use_type add_prefix (JString s) =
     Inr ((if add_prefix then ''S'' else []) @ write_ubjson_size (length s) @ s)"
| "write_ubjson use_count use_type add_prefix (JArray xs) =
     (if use_type \<and> xs \<noteq> [] \<and> \<not> use_count then Inl Assertion_Failed
      else
        let ty = same_prefix use_type xs in
        res_bind (append_all (map (write_ubjson use_count use_type (ty = None)) xs)) (\<lambda>b.
          Inr ((if add_prefix then ''['' else []) @ ubjson_head use_count ty (length xs) @ b @
            (if use_count then [] else '']''))))"
| "write_ubjson use_count use_type add_prefix (JObject xs) =
     (if use_type \<and> xs \<noteq> [] \<and> \<not> use_count then Inl Assertion_Failed
      else
        let ty = same_prefix use_type (map snd xs) in
        res_bind
          (append_all (map (\<lambda>(k, v). res_bind (write_ubjson use_count use_type (ty = None) v) (\<lambda>b.
            Inr (write_ubjson_size (length k) @ k @ b))) xs)) (\<lambda>b.
          Inr ((if add_prefix then ''{'' else []) @ ubjson_head use_count ty (length xs) @ b @
            (if use_count then [] else ''}''))))"

section \<open>Reading\<close>

text \<open>At the end of the input all callers of \<open>get_ignore_noop\<close> but the check for the end throw.\<close>

definition skip_noop :: "string \<Rightarrow> string" where
  "skip_noop s = dropWhile (\<lambda>c. c = CHR ''N'') s"

definition get_ignore_noop :: "string \<Rightarrow> (char \<times> string) res" where
  "get_ignore_noop s = (case skip_noop s of [] \<Rightarrow> Inl Json_Parse_Error | c # s' \<Rightarrow> Inr (c, s'))"

definition get_char :: "string \<Rightarrow> (char \<times> string) res" where
  "get_char s = (case s of [] \<Rightarrow> Inl Json_Parse_Error | c # s' \<Rightarrow> Inr (c, s'))"

definition ubjson_integer :: "char \<Rightarrow> string \<Rightarrow> (int \<times> string) res" where
  "ubjson_integer c s =
     (if c = CHR ''U'' then res_bind (get_number 1 s) (\<lambda>(n, s'). Inr (int n, s'))
      else if c = CHR ''i'' then res_bind (get_number 1 s) (\<lambda>(n, s'). Inr (signed_value 1 n, s'))
      else if c = CHR ''I'' then res_bind (get_number 2 s) (\<lambda>(n, s'). Inr (signed_value 2 n, s'))
      else if c = CHR ''l'' then res_bind (get_number 4 s) (\<lambda>(n, s'). Inr (signed_value 4 n, s'))
      else if c = CHR ''L'' then res_bind (get_number 8 s) (\<lambda>(n, s'). Inr (signed_value 8 n, s'))
      else Inl Json_Parse_Error)"

text \<open>A negative length gives the empty string.\<close>

definition get_ubjson_string :: "char \<Rightarrow> string \<Rightarrow> (string \<times> string) res" where
  "get_ubjson_string c s = res_bind (ubjson_integer c s) (\<lambda>(len, s'). get_bytes (nat len) s')"

definition get_ubjson_size_value :: "string \<Rightarrow> (nat \<times> string) res" where
  "get_ubjson_size_value s =
     res_bind (get_ignore_noop s) (\<lambda>(c, s').
     res_bind (ubjson_integer c s') (\<lambda>(n, s''). Inr (nat (n mod 2 ^ 64), s'')))"

text \<open>
  A size of \<open>2 ^ 64 - 1\<close> stands for no size; the last byte that was read is then taken for the first one of a value
  or key, and refused. A type of zero stands for no type. The byte that is neither \<open>$\<close> nor \<open>#\<close> is read again.
\<close>

definition get_ubjson_count :: "char option \<Rightarrow> string \<Rightarrow> ((nat option \<times> char option) \<times> string) res" where
  "get_ubjson_count ty s =
     res_bind (get_ubjson_size_value s) (\<lambda>(n, s').
       if n = 2 ^ 64 - 1 then Inl Json_Parse_Error else Inr ((Some n, ty), s'))"

definition get_ubjson_size_type :: "string \<Rightarrow> ((nat option \<times> char option) \<times> string) res" where
  "get_ubjson_size_type s =
     res_bind (get_ignore_noop s) (\<lambda>(c, s').
       if c = CHR ''$'' then
         res_bind (get_char s') (\<lambda>(ty, s'').
         res_bind (get_ignore_noop s'') (\<lambda>(d, s''').
           if d \<noteq> CHR ''#'' then Inl Json_Parse_Error
           else get_ubjson_count (if byte ty = 0 then None else Some ty) s'''))
       else if c = CHR ''#'' then get_ubjson_count None s'
       else Inr ((None, None), c # s'))"

definition high_precision_number :: "string \<Rightarrow> sax_event res" where
  "high_precision_number number =
     (case skip_bom number of
        None \<Rightarrow> Inl Json_Parse_Error
      | Some s \<Rightarrow>
          (case json_scan s of (t, s') \<Rightarrow>
             if fst (json_scan s') \<noteq> End_Of_Input then Inl Json_Parse_Error
             else
               (case t of
                  Value_Int n \<Rightarrow> Inr (Sax_Integer n)
                | Value_Float l \<Rightarrow> Inr (Sax_Float l)
                | _ \<Rightarrow> Inl Json_Parse_Error)))"

definition get_ubjson_high_precision_number :: "string \<Rightarrow> (sax_event \<times> string) res" where
  "get_ubjson_high_precision_number s =
     res_bind (get_ubjson_size_value s) (\<lambda>(n, s').
     res_bind (get_bytes n s') (\<lambda>(number, s'').
     res_bind (high_precision_number number) (\<lambda>e. Inr (e, s''))))"

text \<open>What is left to do, with the type of the elements or values if they have one.\<close>

datatype ubjson_task =
    Ubjson_Value
  | Ubjson_Elements "char option" nat
  | Ubjson_Elements_Until_End
  | Ubjson_Members "char option" nat
  | Ubjson_Members_Until_End

fun ubjson_weight :: "ubjson_task \<Rightarrow> nat" where
  "ubjson_weight (Ubjson_Elements ty n) = 2 * n + 2"
| "ubjson_weight (Ubjson_Members ty n) = 2 * n + 2"
| "ubjson_weight _ = 1"

text \<open>An array whose elements are all of the type \<open>N\<close> is read as an empty one.\<close>

definition get_ubjson_array :: "sax_limits \<Rightarrow> string \<Rightarrow> ((sax_event list \<times> ubjson_task list) \<times> string) res" where
  "get_ubjson_array lim s =
     res_bind (get_ubjson_size_type s) (\<lambda>(size_and_type, s').
       case fst size_and_type of
         None \<Rightarrow> Inr (([Sax_Start_Array], [Ubjson_Elements_Until_End]), s')
       | Some n \<Rightarrow>
           if max_array lim < n then Inl Json_Out_Of_Range
           else Inr (([Sax_Start_Array],
             [Ubjson_Elements (snd size_and_type) (if snd size_and_type = Some CHR ''N'' then 0 else n)]), s'))"

definition get_ubjson_object :: "sax_limits \<Rightarrow> string \<Rightarrow> ((sax_event list \<times> ubjson_task list) \<times> string) res" where
  "get_ubjson_object lim s =
     res_bind (get_ubjson_size_type s) (\<lambda>(size_and_type, s').
       case fst size_and_type of
         None \<Rightarrow> Inr (([Sax_Start_Object], [Ubjson_Members_Until_End]), s')
       | Some n \<Rightarrow>
           if max_object lim < n then Inl Json_Out_Of_Range
           else Inr (([Sax_Start_Object], [Ubjson_Members (snd size_and_type) n]), s'))"

definition get_ubjson_value :: "sax_limits \<Rightarrow> char \<Rightarrow> string \<Rightarrow> ((sax_event list \<times> ubjson_task list) \<times> string) res" where
  "get_ubjson_value lim c s =
     (if c = CHR ''T'' then Inr (([Sax_Boolean True], []), s)
      else if c = CHR ''F'' then Inr (([Sax_Boolean False], []), s)
      else if c = CHR ''Z'' then Inr (([Sax_Null], []), s)
      else if c \<in> set ''UiIlL'' then res_bind (ubjson_integer c s) (\<lambda>(n, s'). Inr (([Sax_Integer n], []), s'))
      else if c = CHR ''d'' then res_bind (get_number 4 s) (\<lambda>_. Inl Json_Float_Conversion)
      else if c = CHR ''D'' then res_bind (get_number 8 s) (\<lambda>_. Inl Json_Float_Conversion)
      else if c = CHR ''H'' then res_bind (get_ubjson_high_precision_number s) (\<lambda>(e, s'). Inr (([e], []), s'))
      else if c = CHR ''C'' then
        res_bind (get_char s) (\<lambda>(d, s'). if 127 < byte d then Inl Json_Parse_Error else Inr (([Sax_String [d]], []), s'))
      else if c = CHR ''S'' then
        res_bind (get_char s) (\<lambda>(d, s').
        res_bind (get_ubjson_string d s') (\<lambda>(a, s''). Inr (([Sax_String a], []), s'')))
      else if c = CHR ''['' then get_ubjson_array lim s
      else if c = CHR ''{'' then get_ubjson_object lim s
      else Inl Json_Parse_Error)"

section \<open>More input behind what is read\<close>

lemma get_ignore_noop_shorter: "get_ignore_noop s = Inr (c, s') \<Longrightarrow> length s' < length s"
  using length_dropWhile_le [of "\<lambda>c. c = CHR ''N''" s]
  by (auto simp: get_ignore_noop_def skip_noop_def split: list.splits)

lemma get_ignore_noop_more: "get_ignore_noop s = Inr (c, s') \<Longrightarrow> get_ignore_noop (s @ t) = Inr (c, s' @ t)"
  by (induction s) (auto simp: get_ignore_noop_def skip_noop_def)

lemma reader_get_ignore_noop [reader_intros]: "reader get_ignore_noop"
  using get_ignore_noop_shorter get_ignore_noop_more by (auto simp: reader_def less_imp_le)

lemma reader_get_char [reader_intros]: "reader get_char"
  by (auto simp: reader_def get_char_def split: list.splits)

lemma reader_ubjson_integer [reader_intros]: "reader (ubjson_integer c)"
  unfolding ubjson_integer_def by (intro reader_intros)

lemma reader_get_ubjson_string [reader_intros]: "reader (get_ubjson_string c)"
  unfolding get_ubjson_string_def by (intro reader_intros)

lemma reader_get_ubjson_size_value [reader_intros]: "reader get_ubjson_size_value"
  unfolding get_ubjson_size_value_def by (intro reader_intros)

lemma reader_get_ubjson_count [reader_intros]: "reader (get_ubjson_count ty)"
  unfolding get_ubjson_count_def by (intro reader_intros)

lemma reader_high_precision [reader_intros]: "reader get_ubjson_high_precision_number"
  unfolding get_ubjson_high_precision_number_def by (intro reader_intros)

lemma reader_read_again [reader_intros]:
  assumes "\<And>c. reader (f c)"
  shows "reader (\<lambda>s. res_bind (get_ignore_noop s) (\<lambda>(c, s'). if p c then f c s' else Inr (x, c # s')))"
  unfolding reader_def
proof (intro allI impI)
  fix s a r assume read: "res_bind (get_ignore_noop s) (\<lambda>(c, s'). if p c then f c s' else Inr (x, c # s')) = Inr (a, r)"
  then obtain c s' where c: "get_ignore_noop s = Inr (c, s')" by auto
  with read get_ignore_noop_shorter [OF c] get_ignore_noop_more [OF c] reader_length [OF assms, of c s' a r]
    reader_more [OF assms, of c s' a r]
  show "length r \<le> length s \<and>
    (\<forall>t. res_bind (get_ignore_noop (s @ t)) (\<lambda>(c, s'). if p c then f c s' else Inr (x, c # s')) = Inr (a, r @ t))"
    by (auto split: if_splits)
qed

lemma reader_get_ubjson_size_type [reader_intros]: "reader get_ubjson_size_type"
proof -
  have "get_ubjson_size_type = (\<lambda>s. res_bind (get_ignore_noop s) (\<lambda>(c, s').
      if c = CHR ''$'' \<or> c = CHR ''#'' then
        (if c = CHR ''$'' then
           res_bind (get_char s') (\<lambda>(ty, s'').
           res_bind (get_ignore_noop s'') (\<lambda>(d, s''').
             if d \<noteq> CHR ''#'' then Inl Json_Parse_Error
             else get_ubjson_count (if byte ty = 0 then None else Some ty) s'''))
         else get_ubjson_count None s')
      else Inr ((None, None), c # s')))"
    by (intro ext) (auto simp: get_ubjson_size_type_def intro!: arg_cong2 [where f = res_bind])
  moreover have "reader \<dots>" by (intro reader_read_again) (intro reader_intros)
  ultimately show ?thesis by simp
qed

lemma reader_get_ubjson_array [reader_intros]: "reader (get_ubjson_array lim)"
proof -
  have "reader (\<lambda>s'. case fst size_and_type of
         None \<Rightarrow> Inr (([Sax_Start_Array], [Ubjson_Elements_Until_End]), s')
       | Some n \<Rightarrow>
           if max_array lim < n then Inl Json_Out_Of_Range
           else Inr (([Sax_Start_Array],
             [Ubjson_Elements (snd size_and_type) (if snd size_and_type = Some CHR ''N'' then 0 else n)]), s'))" for size_and_type
    by (cases "fst size_and_type") (simp_all add: reader_def)
  then show ?thesis unfolding get_ubjson_array_def by (intro reader_intros)
qed

lemma reader_get_ubjson_object [reader_intros]: "reader (get_ubjson_object lim)"
proof -
  have "reader (\<lambda>s'. case fst size_and_type of
         None \<Rightarrow> Inr (([Sax_Start_Object], [Ubjson_Members_Until_End]), s')
       | Some n \<Rightarrow>
           if max_object lim < n then Inl Json_Out_Of_Range
           else Inr (([Sax_Start_Object], [Ubjson_Members (snd size_and_type) n]), s'))" for size_and_type
    by (cases "fst size_and_type") (simp_all add: reader_def)
  then show ?thesis unfolding get_ubjson_object_def by (intro reader_intros)
qed

lemma reader_get_ubjson_value [reader_intros]: "reader (get_ubjson_value lim c)"
  unfolding get_ubjson_value_def by (intro reader_intros)

text \<open>A container that is counted has more in front than its type.\<close>

lemma get_ubjson_size_type_shorter:
  "get_ubjson_size_type s = Inr (st, s') \<Longrightarrow> fst st \<noteq> None \<Longrightarrow> length s' < length s"
  by (auto simp: get_ubjson_size_type_def get_char_def split: if_splits list.splits
    dest!: get_ignore_noop_shorter reader_length [OF reader_get_ubjson_count])

lemma if_eqE: "(if b then x else y) = z \<Longrightarrow> (x = z \<Longrightarrow> P) \<Longrightarrow> (y = z \<Longrightarrow> P) \<Longrightarrow> P"
  by (simp split: if_splits)

lemma get_ubjson_value_tasks:
  "get_ubjson_value lim c s = Inr (r, s') \<Longrightarrow>
    snd r = [] \<or> get_ubjson_array lim s = Inr (r, s') \<or> get_ubjson_object lim s = Inr (r, s')"
  unfolding get_ubjson_value_def by (elim if_eqE) (auto split: if_splits)

lemma get_ubjson_value_shorter:
  assumes "get_ubjson_value lim c s = Inr (r, s')"
  shows "length s' < length s \<or> length s' = length s \<and> sum_list (map ubjson_weight (snd r)) \<le> 1"
proof -
  have "length s' \<le> length s" using reader_length [OF reader_get_ubjson_value assms] .
  moreover have "length s' < length s \<or> sum_list (map ubjson_weight (snd r)) \<le> 1"
    if "get_ubjson_array lim s = Inr (r, s')"
    using that get_ubjson_size_type_shorter by (fastforce simp: get_ubjson_array_def split: option.splits if_splits)
  moreover have "length s' < length s \<or> sum_list (map ubjson_weight (snd r)) \<le> 1"
    if "get_ubjson_object lim s = Inr (r, s')"
    using that get_ubjson_size_type_shorter by (fastforce simp: get_ubjson_object_def split: option.splits if_splits)
  ultimately show ?thesis using get_ubjson_value_tasks [OF assms] by fastforce
qed

section \<open>The reader\<close>

function parse_ubjson :: "sax_limits \<Rightarrow> ubjson_task list \<Rightarrow> string \<Rightarrow> sax_event list \<Rightarrow> (sax_event list \<times> string) res" where
  "parse_ubjson lim [] s es = Inr (rev es, s)"
| "parse_ubjson lim (Ubjson_Value # k) s es =
     res_bind (get_ignore_noop s) (\<lambda>(c, s').
     res_bind (get_ubjson_value lim c s') (\<lambda>(r, s'').
       parse_ubjson lim (snd r @ k) s'' (rev (fst r) @ es)))"
| "parse_ubjson lim (Ubjson_Elements ty 0 # k) s es = parse_ubjson lim k s (Sax_End_Array # es)"
| "parse_ubjson lim (Ubjson_Elements None (Suc n) # k) s es =
     parse_ubjson lim (Ubjson_Value # Ubjson_Elements None n # k) s es"
| "parse_ubjson lim (Ubjson_Elements (Some c) (Suc n) # k) s es =
     res_bind (get_ubjson_value lim c s) (\<lambda>(r, s').
       parse_ubjson lim (snd r @ Ubjson_Elements (Some c) n # k) s' (rev (fst r) @ es))"
| "parse_ubjson lim (Ubjson_Elements_Until_End # k) s es =
     res_bind (get_ignore_noop s) (\<lambda>(c, s').
       if c = CHR '']'' then parse_ubjson lim k s' (Sax_End_Array # es)
       else
         res_bind (get_ubjson_value lim c s') (\<lambda>(r, s'').
           parse_ubjson lim (snd r @ Ubjson_Elements_Until_End # k) s'' (rev (fst r) @ es)))"
| "parse_ubjson lim (Ubjson_Members ty 0 # k) s es = parse_ubjson lim k s (Sax_End_Object # es)"
| "parse_ubjson lim (Ubjson_Members None (Suc n) # k) s es =
     res_bind (get_char s) (\<lambda>(d, s').
     res_bind (get_ubjson_string d s') (\<lambda>(key, s'').
       parse_ubjson lim (Ubjson_Value # Ubjson_Members None n # k) s'' (Sax_Key key # es)))"
| "parse_ubjson lim (Ubjson_Members (Some c) (Suc n) # k) s es =
     res_bind (get_char s) (\<lambda>(d, s').
     res_bind (get_ubjson_string d s') (\<lambda>(key, s'').
     res_bind (get_ubjson_value lim c s'') (\<lambda>(r, s''').
       parse_ubjson lim (snd r @ Ubjson_Members (Some c) n # k) s''' (rev (fst r) @ Sax_Key key # es))))"
| "parse_ubjson lim (Ubjson_Members_Until_End # k) s es =
     res_bind (get_ignore_noop s) (\<lambda>(c, s').
       if c = CHR ''}'' then parse_ubjson lim k s' (Sax_End_Object # es)
       else
         res_bind (get_ubjson_string c s') (\<lambda>(key, s'').
           parse_ubjson lim (Ubjson_Value # Ubjson_Members_Until_End # k) s'' (Sax_Key key # es)))"
  by pat_completeness auto
termination
  by (relation "measures [\<lambda>(lim, ts, s, es). length s, \<lambda>(lim, ts, s, es). sum_list (map ubjson_weight ts)]")
    (auto simp: get_char_def split: list.splits dest!: get_ignore_noop_shorter get_ubjson_value_shorter
      reader_length [OF reader_get_ubjson_string])

text \<open>The check for the end passes over what \<open>get_ignore_noop\<close> ignores.\<close>

definition from_ubjson :: "sax_limits \<Rightarrow> bool \<Rightarrow> string \<Rightarrow> json res" where
  "from_ubjson lim strict s =
     read_document strict (res_bind (parse_ubjson lim [Ubjson_Value] s []) (\<lambda>(es, rest). Inr (es, skip_noop rest)))"

lemma parse_ubjson_more:
  "parse_ubjson lim k s es = Inr (r, s') \<Longrightarrow> parse_ubjson lim k (s @ t) es = Inr (r, s' @ t)"
proof (induction lim k s es rule: parse_ubjson.induct)
  case (2 lim k s es)
  from "2.prems" obtain c s1 where c: "get_ignore_noop s = Inr (c, s1)" by auto
  with "2.prems" obtain v s2 where v: "get_ubjson_value lim c s1 = Inr (v, s2)" by auto
  from 2 c v reader_more [OF reader_get_ignore_noop c] reader_more [OF reader_get_ubjson_value v] show ?case by simp
next
  case (5 lim c n k s es)
  from "5.prems" obtain v s2 where v: "get_ubjson_value lim c s = Inr (v, s2)" by auto
  from 5 v reader_more [OF reader_get_ubjson_value v] show ?case by simp
next
  case (6 lim k s es)
  from "6.prems" obtain c s1 where c: "get_ignore_noop s = Inr (c, s1)" by auto
  show ?case
  proof (cases "c = CHR '']''")
    case False
    with "6.prems" c obtain v s2 where v: "get_ubjson_value lim c s1 = Inr (v, s2)" by auto
    from 6 False c v reader_more [OF reader_get_ignore_noop c] reader_more [OF reader_get_ubjson_value v] show ?thesis by simp
  qed (use 6 c reader_more [OF reader_get_ignore_noop c] in simp)
next
  case (8 lim n k s es)
  from "8.prems" obtain d s1 where d: "get_char s = Inr (d, s1)" by auto
  with "8.prems" obtain key s2 where key: "get_ubjson_string d s1 = Inr (key, s2)" by auto
  from 8 d key reader_more [OF reader_get_char d] reader_more [OF reader_get_ubjson_string key] show ?case by simp
next
  case (9 lim c n k s es)
  from "9.prems" obtain d s1 where d: "get_char s = Inr (d, s1)" by auto
  with "9.prems" obtain key s2 where key: "get_ubjson_string d s1 = Inr (key, s2)" by auto
  with "9.prems" d obtain v s3 where v: "get_ubjson_value lim c s2 = Inr (v, s3)" by auto
  from 9 d key v reader_more [OF reader_get_char d] reader_more [OF reader_get_ubjson_string key]
    reader_more [OF reader_get_ubjson_value v] show ?case by simp
next
  case (10 lim k s es)
  from "10.prems" obtain c s1 where c: "get_ignore_noop s = Inr (c, s1)" by auto
  show ?case
  proof (cases "c = CHR ''}''")
    case False
    with "10.prems" c obtain key s2 where key: "get_ubjson_string c s1 = Inr (key, s2)" by auto
    from 10 False c key reader_more [OF reader_get_ignore_noop c] reader_more [OF reader_get_ubjson_string key]
    show ?thesis by simp
  qed (use 10 c reader_more [OF reader_get_ignore_noop c] in simp)
qed simp_all

section \<open>Numbers, sizes and keys are read back\<close>

lemma get_number_one: "0 \<le> n \<Longrightarrow> n < 256 \<Longrightarrow> get_number 1 (write_number 1 (nat n) @ s) = Inr (nat n, s)"
  by (rule get_number_below) simp

lemma ubjson_number_read:
  assumes "- (2 ^ 63) \<le> n" and "n \<le> 2 ^ 63 - 1"
  shows "ubjson_integer (ubjson_number_prefix n) (ubjson_number_bytes n @ s) = Inr (n, s)"
    and "ubjson_number_prefix n \<in> set ''UiIlL''"
proof -
  consider "- (2 ^ 7) \<le> n" "n \<le> 2 ^ 7 - 1" | "2 ^ 7 \<le> n" "n \<le> 2 ^ 8 - 1"
    | "\<not> (- (2 ^ 7) \<le> n \<and> n \<le> 2 ^ 8 - 1)" "- (2 ^ 15) \<le> n" "n \<le> 2 ^ 15 - 1"
    | "\<not> (- (2 ^ 15) \<le> n \<and> n \<le> 2 ^ 15 - 1)" "- (2 ^ 31) \<le> n" "n \<le> 2 ^ 31 - 1"
    | "\<not> (- (2 ^ 31) \<le> n \<and> n \<le> 2 ^ 31 - 1)" by linarith
  then have "ubjson_integer (ubjson_number_prefix n) (ubjson_number_bytes n @ s) = Inr (n, s) \<and>
      ubjson_number_prefix n \<in> set ''UiIlL''"
  proof cases
    case 1
    with signed_value_write [of 1 n] show ?thesis by (simp add: ubjson_number_prefix_def ubjson_number_bytes_def ubjson_integer_def)
  next
    case 2
    with get_number_one [of n s] show ?thesis by (simp add: ubjson_number_prefix_def ubjson_number_bytes_def ubjson_integer_def)
  next
    case 3
    with signed_value_write [of 2 n] show ?thesis
      by (auto simp: ubjson_number_prefix_def ubjson_number_bytes_def ubjson_integer_def)
  next
    case 4
    with signed_value_write [of 4 n] show ?thesis
      by (auto simp: ubjson_number_prefix_def ubjson_number_bytes_def ubjson_integer_def)
  next
    case 5
    with assms signed_value_write [of 8 n] show ?thesis
      by (auto simp: ubjson_number_prefix_def ubjson_number_bytes_def ubjson_integer_def)
  qed
  then show "ubjson_integer (ubjson_number_prefix n) (ubjson_number_bytes n @ s) = Inr (n, s)"
    and "ubjson_number_prefix n \<in> set ''UiIlL''" by blast+
qed

lemma write_ubjson_size_eq:
  assumes "n < 2 ^ 63"
  shows "write_ubjson_size n = ubjson_number_prefix (int n) # ubjson_number_bytes (int n)"
    and "ubjson_integer (ubjson_number_prefix (int n)) (ubjson_number_bytes (int n) @ s) = Inr (int n, s)"
    and "ubjson_number_prefix (int n) \<in> set ''UiIlL''"
proof -
  have n: "- (2 ^ 63) \<le> int n" "int n \<le> 2 ^ 63 - 1" using assms by simp_all
  show "ubjson_integer (ubjson_number_prefix (int n)) (ubjson_number_bytes (int n) @ s) = Inr (int n, s)"
    by (rule ubjson_number_read [OF n])
  show prefix: "ubjson_number_prefix (int n) \<in> set ''UiIlL''" by (rule ubjson_number_read [OF n])
  then show "write_ubjson_size n = ubjson_number_prefix (int n) # ubjson_number_bytes (int n)"
    by (auto simp: write_ubjson_number_def)
qed

lemma get_ignore_noop_Cons [simp]: "c \<noteq> CHR ''N'' \<Longrightarrow> get_ignore_noop (c # s) = Inr (c, s)"
  by (simp add: get_ignore_noop_def skip_noop_def)

lemma get_char_Cons [simp]: "get_char (c # s) = Inr (c, s)"
  by (simp add: get_char_def)

lemma get_ubjson_size_value_read:
  assumes "n < 2 ^ 63"
  shows "get_ubjson_size_value (write_ubjson_size n @ s) = Inr (n, s)"
proof -
  have "ubjson_number_prefix (int n) \<noteq> CHR ''N''" using write_ubjson_size_eq(3) [OF assms] by auto
  moreover have "int n mod 2 ^ 64 = int n" using assms by (intro mod_pos_pos_trivial) simp_all
  ultimately show ?thesis
    using write_ubjson_size_eq(1,2) [OF assms] by (simp add: get_ubjson_size_value_def)
qed

lemma get_ubjson_string_read:
  assumes "length a < 2 ^ 63"
  shows "get_ubjson_string (ubjson_number_prefix (int (length a))) (ubjson_number_bytes (int (length a)) @ a @ s) = Inr (a, s)"
  using write_ubjson_size_eq(2) [OF assms] by (simp add: get_ubjson_string_def)

lemma write_ubjson_prefix:
  "write_ubjson uc ut True j = res_bind (write_ubjson uc ut False j) (\<lambda>b. Inr (ubjson_prefix j # b))"
  by (cases j) (simp_all add: write_ubjson_number_def Let_def res_bind_assoc)

lemma ubjson_prefix_other:
  "ubjson_prefix j \<noteq> CHR ''N'' \<and> ubjson_prefix j \<noteq> CHR ''$'' \<and> ubjson_prefix j \<noteq> CHR ''#'' \<and> ubjson_prefix j \<noteq> CHR '']'' \<and>
   byte (ubjson_prefix j) \<noteq> 0"
  by (cases j) (simp_all add: ubjson_number_prefix_def)

lemma get_ubjson_size_type_read:
  assumes "n < 2 ^ 63" and "\<And>c. ty = Some c \<Longrightarrow> byte c \<noteq> 0"
  shows "get_ubjson_size_type (ubjson_head True ty n @ s) = Inr ((Some n, ty), s)"
proof -
  have "get_ubjson_count ty (write_ubjson_size n @ s) = Inr ((Some n, ty), s)"
    using assms(1) by (simp add: get_ubjson_count_def get_ubjson_size_value_read)
  with assms(2) show ?thesis by (cases ty) (auto simp: get_ubjson_size_type_def ubjson_head_def)
qed

lemma get_ubjson_size_type_none:
  "c \<notin> {CHR ''N'', CHR ''$'', CHR ''#''} \<Longrightarrow> get_ubjson_size_type (c # s) = Inr ((None, None), c # s)"
  by (simp add: get_ubjson_size_type_def)

section \<open>Values are read back\<close>

lemma length_dump_abs: "n < 100 ^ k \<Longrightarrow> 0 < k \<Longrightarrow> length (dump_abs n) \<le> 2 * k"
proof (induction k arbitrary: n)
  case (Suc k)
  show ?case
  proof (cases "100 \<le> n")
    case True
    with Suc.prems have "0 < k" by (cases k) simp_all
    with Suc True show ?thesis by (subst dump_abs.simps) (simp add: digits_to_99_def less_mult_imp_div_less mult.commute)
  qed (subst dump_abs.simps, simp add: digits_to_99_def)
qed simp

lemma high_precision_read:
  assumes "int_fits n" and "2 ^ 63 \<le> n"
  shows "write_ubjson_number False n = write_ubjson_size (length (dump_integer n)) @ dump_integer n"
    and "get_ubjson_high_precision_number (write_ubjson_number False n @ s) = Inr (Sax_Integer n, s)"
proof -
  let ?d = "dump_integer n"
  have d: "?d = dump_abs (nat n)" using assms(2) by (simp add: dump_integer_def)
  have "nat n < 100 ^ 10" using assms by (simp add: int_fits_def nat_less_iff)
  from length_dump_abs [OF this] d have length: "length ?d < 2 ^ 63" by simp
  have "ubjson_number_prefix n = CHR ''H''" using assms(2) by (simp add: ubjson_number_prefix_def)
  then show number: "write_ubjson_number False n = write_ubjson_size (length ?d) @ ?d"
    using write_ubjson_size_eq(1) [OF length] by (simp add: write_ubjson_number_def Let_def)
  obtain c r where cr: "dump_abs (nat n) = c # r" by (cases "dump_abs (nat n)") simp_all
  then have "byte c \<noteq> 239" using dump_abs_digits [of "nat n"] by (auto simp: is_digit_def)
  then have "skip_bom ?d = Some ?d" using d cr by (simp add: skip_bom_def)
  moreover have "json_scan ?d = (Value_Int n, [])" using json_scan_integer [OF assms(1), of "[]"] by simp
  moreover have "fst (json_scan []) = End_Of_Input" by (simp add: json_scan_def)
  ultimately have "high_precision_number ?d = Inr (Sax_Integer n)" by (simp add: high_precision_number_def)
  with number length show "get_ubjson_high_precision_number (write_ubjson_number False n @ s) = Inr (Sax_Integer n, s)"
    by (simp add: get_ubjson_high_precision_number_def get_ubjson_size_value_read)
qed

text \<open>A value of a known type is read as its events.\<close>

definition value_read_back :: "bool \<Rightarrow> bool \<Rightarrow> sax_limits \<Rightarrow> json \<Rightarrow> bool" where
  "value_read_back uc ut lim j \<longleftrightarrow>
     (\<exists>b. write_ubjson uc ut False j = Inr b \<and>
       (\<forall>s. \<exists>r s'. get_ubjson_value lim (ubjson_prefix j) (b @ s) = Inr (r, s') \<and>
         (\<forall>k es. parse_ubjson lim (snd r @ k) s' (rev (fst r) @ es) = parse_ubjson lim k s (rev (value_events j) @ es))))"

lemma value_read_backE:
  assumes "value_read_back uc ut lim j"
  obtains b where "write_ubjson uc ut False j = Inr b"
    and "write_ubjson uc ut True j = Inr (ubjson_prefix j # b)"
    and "\<And>s. \<exists>r s'. get_ubjson_value lim (ubjson_prefix j) (b @ s) = Inr (r, s') \<and>
      (\<forall>k es. parse_ubjson lim (snd r @ k) s' (rev (fst r) @ es) = parse_ubjson lim k s (rev (value_events j) @ es))"
    and "\<And>k s es. parse_ubjson lim (Ubjson_Value # k) (ubjson_prefix j # b @ s) es =
      parse_ubjson lim k s (rev (value_events j) @ es)"
proof -
  from assms obtain b where b: "write_ubjson uc ut False j = Inr b"
    "\<And>s. \<exists>r s'. get_ubjson_value lim (ubjson_prefix j) (b @ s) = Inr (r, s') \<and>
      (\<forall>k es. parse_ubjson lim (snd r @ k) s' (rev (fst r) @ es) = parse_ubjson lim k s (rev (value_events j) @ es))"
    by (auto simp: value_read_back_def)
  have "parse_ubjson lim (Ubjson_Value # k) (ubjson_prefix j # b @ s) es = parse_ubjson lim k s (rev (value_events j) @ es)"
    for k s es using b(2) [of s] ubjson_prefix_other [of j] by auto
  with b show ?thesis by (intro that [of b]) (simp_all add: write_ubjson_prefix)
qed

lemma typed_elements_read:
  assumes "\<And>x. x \<in> set xs \<Longrightarrow> value_read_back uc ut lim x \<and> ubjson_prefix x = c"
  shows "\<exists>b. append_all (map (write_ubjson uc ut False) xs) = Inr b \<and>
    (\<forall>k s es. parse_ubjson lim (Ubjson_Elements (Some c) (length xs) # k) (b @ s) es =
      parse_ubjson lim k s (Sax_End_Array # rev (concat (map value_events xs)) @ es))"
  using assms
proof (induction xs)
  case (Cons x xs)
  have "value_read_back uc ut lim y \<and> ubjson_prefix y = c" if "y \<in> set xs" for y using Cons.prems that by simp
  from Cons.IH [OF this] obtain b where b: "append_all (map (write_ubjson uc ut False) xs) = Inr b"
    "\<And>k s es. parse_ubjson lim (Ubjson_Elements (Some c) (length xs) # k) (b @ s) es =
      parse_ubjson lim k s (Sax_End_Array # rev (concat (map value_events xs)) @ es)" by blast
  from Cons.prems have "value_read_back uc ut lim x" "ubjson_prefix x = c" by auto
  from value_read_backE [OF this(1)] this(2) obtain a where a: "write_ubjson uc ut False x = Inr a"
    "\<And>s. \<exists>r s'. get_ubjson_value lim c (a @ s) = Inr (r, s') \<and>
      (\<forall>k es. parse_ubjson lim (snd r @ k) s' (rev (fst r) @ es) = parse_ubjson lim k s (rev (value_events x) @ es))"
    by metis
  have "parse_ubjson lim (Ubjson_Elements (Some c) (length (x # xs)) # k) ((a @ b) @ s) es =
      parse_ubjson lim k s (Sax_End_Array # rev (concat (map value_events (x # xs))) @ es)" for k s es
    using a(2) [of "b @ s"] b(2) by auto
  with a(1) b(1) show ?case by auto
qed simp

lemma elements_read_ubjson:
  assumes "\<And>x. x \<in> set xs \<Longrightarrow> value_read_back uc ut lim x"
  shows "\<exists>b. append_all (map (write_ubjson uc ut True) xs) = Inr b \<and>
    (\<exists>c r. b @ '']'' = c # r \<and> c \<notin> {CHR ''N'', CHR ''$'', CHR ''#''}) \<and>
    (\<forall>k s es. parse_ubjson lim (Ubjson_Elements None (length xs) # k) (b @ s) es =
      parse_ubjson lim k s (Sax_End_Array # rev (concat (map value_events xs)) @ es)) \<and>
    (\<forall>k s es. parse_ubjson lim (Ubjson_Elements_Until_End # k) (b @ CHR '']'' # s) es =
      parse_ubjson lim k s (Sax_End_Array # rev (concat (map value_events xs)) @ es))"
  using assms
proof (induction xs)
  case (Cons x xs)
  have "value_read_back uc ut lim y" if "y \<in> set xs" for y using Cons.prems that by simp
  from Cons.IH [OF this] obtain b where b: "append_all (map (write_ubjson uc ut True) xs) = Inr b"
    "\<And>k s es. parse_ubjson lim (Ubjson_Elements None (length xs) # k) (b @ s) es =
      parse_ubjson lim k s (Sax_End_Array # rev (concat (map value_events xs)) @ es)"
    "\<And>k s es. parse_ubjson lim (Ubjson_Elements_Until_End # k) (b @ CHR '']'' # s) es =
      parse_ubjson lim k s (Sax_End_Array # rev (concat (map value_events xs)) @ es)" by blast
  from Cons.prems have "value_read_back uc ut lim x" by simp
  from value_read_backE [OF this] obtain a where a: "write_ubjson uc ut True x = Inr (ubjson_prefix x # a)"
    "\<And>s. \<exists>r s'. get_ubjson_value lim (ubjson_prefix x) (a @ s) = Inr (r, s') \<and>
      (\<forall>k es. parse_ubjson lim (snd r @ k) s' (rev (fst r) @ es) = parse_ubjson lim k s (rev (value_events x) @ es))"
    "\<And>k s es. parse_ubjson lim (Ubjson_Value # k) (ubjson_prefix x # a @ s) es =
      parse_ubjson lim k s (rev (value_events x) @ es)" by metis
  let ?b = "ubjson_prefix x # a @ b"
  have "parse_ubjson lim (Ubjson_Elements None (length (x # xs)) # k) (?b @ s) es =
      parse_ubjson lim k s (Sax_End_Array # rev (concat (map value_events (x # xs))) @ es)" for k s es
    using a(3) [of _ "b @ s"] b(2) by simp
  moreover have "parse_ubjson lim (Ubjson_Elements_Until_End # k) (?b @ CHR '']'' # s) es =
      parse_ubjson lim k s (Sax_End_Array # rev (concat (map value_events (x # xs))) @ es)" for k s es
    using a(2) [of "b @ CHR '']'' # s"] b(3) ubjson_prefix_other [of x] by auto
  moreover have "append_all (map (write_ubjson uc ut True) (x # xs)) = Inr ?b" using a(1) b(1) by simp
  ultimately show ?case using ubjson_prefix_other [of x] by auto
qed simp

lemma get_ubjson_key_read:
  assumes "length a < 2 ^ 63"
  shows "\<exists>c r. write_ubjson_size (length a) @ a @ s = c # r \<and> c \<notin> {CHR ''N'', CHR ''$'', CHR ''#'', CHR ''}''} \<and>
    get_ubjson_string c r = Inr (a, s)"
  using write_ubjson_size_eq(1,3) [OF assms] get_ubjson_string_read [OF assms] by auto

lemma typed_members_read:
  assumes "\<And>l x. (l, x) \<in> set xs \<Longrightarrow> length l < 2 ^ 63 \<and> value_read_back uc ut lim x \<and> ubjson_prefix x = c"
  shows "\<exists>b. append_all (map (\<lambda>(k, v). res_bind (write_ubjson uc ut False v) (\<lambda>b.
      Inr (write_ubjson_size (length k) @ k @ b))) xs) = Inr b \<and>
    (\<forall>k s es. parse_ubjson lim (Ubjson_Members (Some c) (length xs) # k) (b @ s) es =
      parse_ubjson lim k s (Sax_End_Object # rev (concat (map (\<lambda>(k, v). Sax_Key k # value_events v) xs)) @ es))"
  using assms
proof (induction xs)
  case (Cons y xs)
  obtain l x where y: "y = (l, x)" by (cases y)
  have "length l' < 2 ^ 63 \<and> value_read_back uc ut lim x' \<and> ubjson_prefix x' = c" if "(l', x') \<in> set xs" for l' x'
    using Cons.prems [of l' x'] that by simp
  from Cons.IH [OF this] obtain b where b: "append_all (map (\<lambda>(k, v). res_bind (write_ubjson uc ut False v) (\<lambda>b.
      Inr (write_ubjson_size (length k) @ k @ b))) xs) = Inr b"
    "\<And>k s es. parse_ubjson lim (Ubjson_Members (Some c) (length xs) # k) (b @ s) es =
      parse_ubjson lim k s (Sax_End_Object # rev (concat (map (\<lambda>(k, v). Sax_Key k # value_events v) xs)) @ es)" by blast
  from Cons.prems [of l x] y have "length l < 2 ^ 63" "value_read_back uc ut lim x" "ubjson_prefix x = c" by auto
  note l = this(1)
  from value_read_backE [OF \<open>value_read_back uc ut lim x\<close>] \<open>ubjson_prefix x = c\<close> obtain a where
    a: "write_ubjson uc ut False x = Inr a"
    "\<And>s. \<exists>r s'. get_ubjson_value lim c (a @ s) = Inr (r, s') \<and>
      (\<forall>k es. parse_ubjson lim (snd r @ k) s' (rev (fst r) @ es) = parse_ubjson lim k s (rev (value_events x) @ es))"
    by metis
  have "parse_ubjson lim (Ubjson_Members (Some c) (length (y # xs)) # k) ((write_ubjson_size (length l) @ l @ a @ b) @ s) es =
      parse_ubjson lim k s (Sax_End_Object # rev (concat (map (\<lambda>(k, v). Sax_Key k # value_events v) (y # xs))) @ es)" for k s es
    using get_ubjson_key_read [OF l, of "a @ b @ s"] a(2) [of "b @ s"] b(2) y by auto
  with a(1) b(1) y show ?case by auto
qed simp

lemma members_read_ubjson:
  assumes "\<And>l x. (l, x) \<in> set xs \<Longrightarrow> length l < 2 ^ 63 \<and> value_read_back uc ut lim x"
  shows "\<exists>b. append_all (map (\<lambda>(k, v). res_bind (write_ubjson uc ut True v) (\<lambda>b.
      Inr (write_ubjson_size (length k) @ k @ b))) xs) = Inr b \<and>
    (\<exists>c r. b @ ''}'' = c # r \<and> c \<notin> {CHR ''N'', CHR ''$'', CHR ''#''}) \<and>
    (\<forall>k s es. parse_ubjson lim (Ubjson_Members None (length xs) # k) (b @ s) es =
      parse_ubjson lim k s (Sax_End_Object # rev (concat (map (\<lambda>(k, v). Sax_Key k # value_events v) xs)) @ es)) \<and>
    (\<forall>k s es. parse_ubjson lim (Ubjson_Members_Until_End # k) (b @ CHR ''}'' # s) es =
      parse_ubjson lim k s (Sax_End_Object # rev (concat (map (\<lambda>(k, v). Sax_Key k # value_events v) xs)) @ es))"
  using assms
proof (induction xs)
  case (Cons y xs)
  obtain l x where y: "y = (l, x)" by (cases y)
  have "length l' < 2 ^ 63 \<and> value_read_back uc ut lim x'" if "(l', x') \<in> set xs" for l' x'
    using Cons.prems [of l' x'] that by simp
  from Cons.IH [OF this] obtain b where b: "append_all (map (\<lambda>(k, v). res_bind (write_ubjson uc ut True v) (\<lambda>b.
      Inr (write_ubjson_size (length k) @ k @ b))) xs) = Inr b"
    "\<And>k s es. parse_ubjson lim (Ubjson_Members None (length xs) # k) (b @ s) es =
      parse_ubjson lim k s (Sax_End_Object # rev (concat (map (\<lambda>(k, v). Sax_Key k # value_events v) xs)) @ es)"
    "\<And>k s es. parse_ubjson lim (Ubjson_Members_Until_End # k) (b @ CHR ''}'' # s) es =
      parse_ubjson lim k s (Sax_End_Object # rev (concat (map (\<lambda>(k, v). Sax_Key k # value_events v) xs)) @ es)" by blast
  from Cons.prems [of l x] y have l: "length l < 2 ^ 63" and "value_read_back uc ut lim x" by auto
  from value_read_backE [OF this(2)] obtain a where a: "write_ubjson uc ut True x = Inr (ubjson_prefix x # a)"
    "\<And>k s es. parse_ubjson lim (Ubjson_Value # k) (ubjson_prefix x # a @ s) es =
      parse_ubjson lim k s (rev (value_events x) @ es)" by metis
  let ?b = "write_ubjson_size (length l) @ l @ ubjson_prefix x # a @ b"
  have "parse_ubjson lim (Ubjson_Members None (length (y # xs)) # k) (?b @ s) es =
      parse_ubjson lim k s (Sax_End_Object # rev (concat (map (\<lambda>(k, v). Sax_Key k # value_events v) (y # xs))) @ es)" for k s es
    using get_ubjson_key_read [OF l, of "ubjson_prefix x # a @ b @ s"] a(2) [of _ "b @ s"] b(2) y by auto
  moreover have "parse_ubjson lim (Ubjson_Members_Until_End # k) (?b @ CHR ''}'' # s) es =
      parse_ubjson lim k s (Sax_End_Object # rev (concat (map (\<lambda>(k, v). Sax_Key k # value_events v) (y # xs))) @ es)" for k s es
    using get_ubjson_key_read [OF l, of "ubjson_prefix x # a @ b @ CHR ''}'' # s"] a(2) [of _ "b @ CHR ''}'' # s"] b(3) y
    by auto
  moreover have "append_all (map (\<lambda>(k, v). res_bind (write_ubjson uc ut True v) (\<lambda>b.
      Inr (write_ubjson_size (length k) @ k @ b))) (y # xs)) = Inr ?b" using a(1) b(1) y by simp
  moreover have "\<exists>c r. ?b @ ''}'' = c # r \<and> c \<notin> {CHR ''N'', CHR ''$'', CHR ''#''}"
    using get_ubjson_key_read [OF l, of "(ubjson_prefix x # a @ b) @ ''}''"] by auto
  ultimately show ?case by blast
qed simp

lemma same_prefix_Some:
  "same_prefix ut xs = Some c \<Longrightarrow> ut \<and> xs \<noteq> [] \<and> (\<forall>x \<in> set xs. ubjson_prefix x = c)"
  by (cases xs) (auto simp: same_prefix_def list_all_iff split: if_splits)

lemma ubjson_array_read:
  assumes "\<And>x. x \<in> set xs \<Longrightarrow> value_read_back uc ut lim x" and "length xs < 2 ^ 63" and "length xs \<le> max_array lim"
    and "ut \<longrightarrow> uc"
  shows "value_read_back uc ut lim (JArray xs)"
proof (cases "same_prefix ut xs")
  case None
  from elements_read_ubjson [of xs, OF assms(1)] obtain b where b: "append_all (map (write_ubjson uc ut True) xs) = Inr b"
    "\<exists>c r. b @ '']'' = c # r \<and> c \<notin> {CHR ''N'', CHR ''$'', CHR ''#''}"
    "\<And>k s es. parse_ubjson lim (Ubjson_Elements None (length xs) # k) (b @ s) es =
      parse_ubjson lim k s (Sax_End_Array # rev (concat (map value_events xs)) @ es)"
    "\<And>k s es. parse_ubjson lim (Ubjson_Elements_Until_End # k) (b @ CHR '']'' # s) es =
      parse_ubjson lim k s (Sax_End_Array # rev (concat (map value_events xs)) @ es)" by blast
  show ?thesis
  proof (cases uc)
    case True
    with None b(1) have "write_ubjson uc ut False (JArray xs) = Inr (ubjson_head True None (length xs) @ b)" by simp
    moreover have "get_ubjson_value lim CHR ''['' ((ubjson_head True None (length xs) @ b) @ s) =
        Inr (([Sax_Start_Array], [Ubjson_Elements None (length xs)]), b @ s)" for s
      using get_ubjson_size_type_read [OF assms(2), of None "b @ s"] assms(3) by (simp add: get_ubjson_value_def get_ubjson_array_def)
    ultimately show ?thesis using b(3) by (simp add: value_read_back_def)
  next
    case False
    with None b(1) assms(4) have "write_ubjson uc ut False (JArray xs) = Inr (b @ '']'')" by (simp add: ubjson_head_def)
    moreover have "get_ubjson_value lim CHR ''['' ((b @ '']'') @ s) =
        Inr (([Sax_Start_Array], [Ubjson_Elements_Until_End]), b @ CHR '']'' # s)" for s
    proof -
      from b(2) obtain c r where "(b @ '']'') @ s = c # r @ s" "c \<notin> {CHR ''N'', CHR ''$'', CHR ''#''}" by auto
      then show ?thesis using get_ubjson_size_type_none [of c "r @ s"] by (auto simp: get_ubjson_value_def get_ubjson_array_def)
    qed
    ultimately show ?thesis using b(4) by (simp add: value_read_back_def)
  qed
next
  case (Some c)
  from same_prefix_Some [OF Some] have c: "ut" "xs \<noteq> []" "\<And>x. x \<in> set xs \<Longrightarrow> ubjson_prefix x = c" by auto
  then obtain x where "ubjson_prefix x = c" using hd_in_set by blast
  with ubjson_prefix_other [of x] have other: "byte c \<noteq> 0" "c \<noteq> CHR ''N''" by auto
  from typed_elements_read [of xs uc ut lim c] assms(1) c(3) obtain b where
    b: "append_all (map (write_ubjson uc ut False) xs) = Inr b"
    "\<And>k s es. parse_ubjson lim (Ubjson_Elements (Some c) (length xs) # k) (b @ s) es =
      parse_ubjson lim k s (Sax_End_Array # rev (concat (map value_events xs)) @ es)" by blast
  have "write_ubjson uc ut False (JArray xs) = Inr (ubjson_head True (Some c) (length xs) @ b)"
    using Some b(1) c(1) assms(4) by simp
  moreover have "get_ubjson_value lim CHR ''['' ((ubjson_head True (Some c) (length xs) @ b) @ s) =
      Inr (([Sax_Start_Array], [Ubjson_Elements (Some c) (length xs)]), b @ s)" for s
    using get_ubjson_size_type_read [OF assms(2), of "Some c" "b @ s"] other assms(3)
    by (simp add: get_ubjson_value_def get_ubjson_array_def)
  ultimately show ?thesis using b(2) by (simp add: value_read_back_def)
qed

lemma ubjson_object_read:
  assumes "\<And>l x. (l, x) \<in> set xs \<Longrightarrow> length l < 2 ^ 63 \<and> value_read_back uc ut lim x"
    and "length xs < 2 ^ 63" and "length xs \<le> max_object lim" and "ut \<longrightarrow> uc"
  shows "value_read_back uc ut lim (JObject xs)"
proof (cases "same_prefix ut (map snd xs)")
  case None
  from members_read_ubjson [of xs, OF assms(1)] obtain b where
    b: "append_all (map (\<lambda>(k, v). res_bind (write_ubjson uc ut True v) (\<lambda>b.
        Inr (write_ubjson_size (length k) @ k @ b))) xs) = Inr b"
    "\<exists>c r. b @ ''}'' = c # r \<and> c \<notin> {CHR ''N'', CHR ''$'', CHR ''#''}"
    "\<And>k s es. parse_ubjson lim (Ubjson_Members None (length xs) # k) (b @ s) es =
      parse_ubjson lim k s (Sax_End_Object # rev (concat (map (\<lambda>(k, v). Sax_Key k # value_events v) xs)) @ es)"
    "\<And>k s es. parse_ubjson lim (Ubjson_Members_Until_End # k) (b @ CHR ''}'' # s) es =
      parse_ubjson lim k s (Sax_End_Object # rev (concat (map (\<lambda>(k, v). Sax_Key k # value_events v) xs)) @ es)" by blast
  show ?thesis
  proof (cases uc)
    case True
    with None b(1) have "write_ubjson uc ut False (JObject xs) = Inr (ubjson_head True None (length xs) @ b)" by simp
    moreover have "get_ubjson_value lim CHR ''{'' ((ubjson_head True None (length xs) @ b) @ s) =
        Inr (([Sax_Start_Object], [Ubjson_Members None (length xs)]), b @ s)" for s
      using get_ubjson_size_type_read [OF assms(2), of None "b @ s"] assms(3) by (simp add: get_ubjson_value_def get_ubjson_object_def)
    ultimately show ?thesis using b(3) by (simp add: value_read_back_def)
  next
    case False
    with None b(1) assms(4) have "write_ubjson uc ut False (JObject xs) = Inr (b @ ''}'')" by (simp add: ubjson_head_def)
    moreover have "get_ubjson_value lim CHR ''{'' ((b @ ''}'') @ s) =
        Inr (([Sax_Start_Object], [Ubjson_Members_Until_End]), b @ CHR ''}'' # s)" for s
    proof -
      from b(2) obtain c r where "(b @ ''}'') @ s = c # r @ s" "c \<notin> {CHR ''N'', CHR ''$'', CHR ''#''}" by auto
      then show ?thesis using get_ubjson_size_type_none [of c "r @ s"] by (auto simp: get_ubjson_value_def get_ubjson_object_def)
    qed
    ultimately show ?thesis using b(4) by (simp add: value_read_back_def)
  qed
next
  case (Some c)
  from same_prefix_Some [OF Some] have c: "ut" "xs \<noteq> []" "\<And>x. x \<in> set (map snd xs) \<Longrightarrow> ubjson_prefix x = c" by auto
  then have "ubjson_prefix (snd (hd xs)) = c" by simp
  with ubjson_prefix_other [of "snd (hd xs)"] have other: "byte c \<noteq> 0" by auto
  have "length l < 2 ^ 63 \<and> value_read_back uc ut lim x \<and> ubjson_prefix x = c" if "(l, x) \<in> set xs" for l x
    using assms(1) [OF that] c(3) [of x] that by force
  from typed_members_read [of xs, OF this] obtain b where
    b: "append_all (map (\<lambda>(k, v). res_bind (write_ubjson uc ut False v) (\<lambda>b.
        Inr (write_ubjson_size (length k) @ k @ b))) xs) = Inr b"
    "\<And>k s es. parse_ubjson lim (Ubjson_Members (Some c) (length xs) # k) (b @ s) es =
      parse_ubjson lim k s (Sax_End_Object # rev (concat (map (\<lambda>(k, v). Sax_Key k # value_events v) xs)) @ es)" by blast
  have "write_ubjson uc ut False (JObject xs) = Inr (ubjson_head True (Some c) (length xs) @ b)"
    using Some b(1) c(1) assms(4) by simp
  moreover have "get_ubjson_value lim CHR ''{'' ((ubjson_head True (Some c) (length xs) @ b) @ s) =
      Inr (([Sax_Start_Object], [Ubjson_Members (Some c) (length xs)]), b @ s)" for s
    using get_ubjson_size_type_read [OF assms(2), of "Some c" "b @ s"] other assms(3)
    by (simp add: get_ubjson_value_def get_ubjson_object_def)
  ultimately show ?thesis using b(2) by (simp add: value_read_back_def)
qed

lemma ubjson_integer_read:
  assumes "int_fits n"
  shows "value_read_back uc ut lim (JInt n)"
proof (cases "n \<le> 2 ^ 63 - 1")
  case True
  then have n: "- (2 ^ 63) \<le> n" "n \<le> 2 ^ 63 - 1" using assms by (simp_all add: int_fits_def)
  then have "get_ubjson_value lim (ubjson_number_prefix n) (write_ubjson_number False n @ s) = Inr (([Sax_Integer n], []), s)" for s
    using ubjson_number_read [OF n] by (auto simp: get_ubjson_value_def write_ubjson_number_def)
  then show ?thesis by (simp add: value_read_back_def)
next
  case False
  then have "ubjson_number_prefix n = CHR ''H''" by (simp add: ubjson_number_prefix_def)
  with False high_precision_read(2) [OF assms]
  have "get_ubjson_value lim (ubjson_number_prefix n) (write_ubjson_number False n @ s) = Inr (([Sax_Integer n], []), s)" for s
    by (simp add: get_ubjson_value_def)
  then show ?thesis by (simp add: value_read_back_def)
qed

lemma ubjson_value_read_back:
  assumes "ut \<longrightarrow> uc"
  shows "binary_ok (2 ^ 63 - 1) (min (max_array lim) (2 ^ 63 - 1)) (min (max_object lim) (2 ^ 63 - 1)) j \<Longrightarrow>
    value_read_back uc ut lim j"
proof (induction j)
  case JNull
  then show ?case by (simp add: value_read_back_def get_ubjson_value_def)
next
  case (JBool b)
  then show ?case by (simp add: value_read_back_def get_ubjson_value_def)
next
  case (JInt n)
  then show ?case by (simp add: ubjson_integer_read)
next
  case (JFloat l)
  then show ?case by simp
next
  case (JString a)
  then have "length a < 2 ^ 63" by simp
  have "get_ubjson_value lim CHR ''S'' ((write_ubjson_size (length a) @ a) @ s) = Inr (([Sax_String a], []), s)" for s
  proof -
    from get_ubjson_key_read [OF \<open>length a < 2 ^ 63\<close>, of s] obtain c r where
      "write_ubjson_size (length a) @ a @ s = c # r" "get_ubjson_string c r = Inr (a, s)" by auto
    then show ?thesis by (simp add: get_ubjson_value_def)
  qed
  then show ?case by (simp add: value_read_back_def)
next
  case (JArray xs)
  show ?case
  proof (rule ubjson_array_read)
    show "value_read_back uc ut lim x" if "x \<in> set xs" for x
      using JArray.IH [OF that] JArray.prems that by (simp add: list_all_iff)
  qed (use JArray.prems assms in simp_all)
next
  case (JObject xs)
  show ?case
  proof (rule ubjson_object_read)
    show "length l < 2 ^ 63 \<and> value_read_back uc ut lim x" if "(l, x) \<in> set xs" for l x
      using JObject.IH [OF that, of x] JObject.prems that by (auto simp: list_all_iff)
  qed (use JObject.prems assms in simp_all)
qed

text \<open>
  C32. UBJSON: with counts, with counts and types or with neither, every value without floating point numbers that a
  program can hold is written, also integers above the \<open>int64\<close>s, which go through the lexer; what is written is
  read back as that value, and no beginning of it that misses some bytes is taken for a value.
\<close>

theorem ubjson_roundtrip:
  assumes "binary_ok (2 ^ 63 - 1) (min (max_array lim) (2 ^ 63 - 1)) (min (max_object lim) (2 ^ 63 - 1)) j"
    and "use_type \<longrightarrow> use_count"
  shows "\<exists>t. write_ubjson use_count use_type True j = Inr t \<and> from_ubjson lim strict t = Inr j \<and>
    (\<forall>u v. t = u @ v \<and> v \<noteq> [] \<longrightarrow> \<not> is_ok (from_ubjson lim strict u))"
proof -
  let ?read = "\<lambda>t. res_bind (parse_ubjson lim [Ubjson_Value] t []) (\<lambda>(es, rest). Inr (es, skip_noop rest))"
  from value_read_backE [OF ubjson_value_read_back [OF assms(2,1)]] obtain b where
    b: "write_ubjson use_count use_type True j = Inr (ubjson_prefix j # b)"
    "\<And>k s es. parse_ubjson lim (Ubjson_Value # k) (ubjson_prefix j # b @ s) es =
      parse_ubjson lim k s (rev (value_events j) @ es)" by metis
  let ?t = "ubjson_prefix j # b"
  have parsed: "parse_ubjson lim [Ubjson_Value] ?t [] = Inr (value_events j, [])" 
    using b(2) [of "[]" "[]" "[]"] by (simp del: parse_ubjson.simps(2))
  have refused: "\<not> is_ok (parse_ubjson lim [Ubjson_Value] u [])" if cut: "?t = u @ v" "v \<noteq> []" for u v
  proof
    assume "is_ok (parse_ubjson lim [Ubjson_Value] u [])"
    then obtain r s' where "parse_ubjson lim [Ubjson_Value] u [] = Inr (r, s')"
      by (cases "parse_ubjson lim [Ubjson_Value] u []") auto
    from parse_ubjson_more [OF this, of v] have "parse_ubjson lim [Ubjson_Value] ?t [] = Inr (r, s' @ v)"
      by (simp only: cut(1))
    with parsed cut(2) show False by (simp del: parse_ubjson.simps(2))
  qed
  have "\<not> is_ok (from_ubjson lim strict u)" if "?t = u @ v" "v \<noteq> []" for u v
    using refused [OF that] unfolding from_ubjson_def read_document_def
    by (cases "parse_ubjson lim [Ubjson_Value] u []") (simp_all del: parse_ubjson.simps(2))
  moreover have "from_ubjson lim strict ?t = Inr j"
    using dom_value_events [OF binary_ok_sorted [OF assms(1)]]
    by (simp add: from_ubjson_def read_document_def parsed skip_noop_def del: parse_ubjson.simps(2))
  ultimately show ?thesis using b(1) by blast
qed

definition ubjson_example :: json where
  "ubjson_example = JObject [(''a'', JArray [JInt (- 5), JInt 7, JInt 9]), (''b'', JInt (2 ^ 64 - 1))]"

definition array_limits :: sax_limits where
  "array_limits = \<lparr>max_array = 2 ^ 59, max_object = 2 ^ 56\<rparr>"

theorem ubjson_roundtrip_witness:
  "\<exists>t. write_ubjson True True True ubjson_example = Inr t \<and> from_ubjson array_limits True t = Inr ubjson_example \<and>
    (\<forall>u v. t = u @ v \<and> v \<noteq> [] \<longrightarrow> \<not> is_ok (from_ubjson array_limits True u))"
  by (rule ubjson_roundtrip) (simp_all add: ubjson_example_def array_limits_def obj_wf_def int_fits_def)

text \<open>A string of negative length is no error, and an array of any length is read from a few bytes.\<close>

lemma ubjson_negative_length: "from_ubjson lim strict (''Si'' @ write_signed 1 (- 1)) = Inr (JString [])"
proof -
  have "get_number 1 (write_signed 1 (- 1) @ []) = Inr (255, [])" using signed_value_write(1) [of 1 "- 1" "[]"] by simp
  then show ?thesis
    by (simp add: from_ubjson_def get_ubjson_value_def get_ubjson_string_def ubjson_integer_def signed_value_def
      get_bytes_def read_document_def skip_noop_def dom_handle_value_def dom_init_def)
qed

lemma parse_null_elements:
  "parse_ubjson lim (Ubjson_Elements (Some CHR ''Z'') n # k) s es =
    parse_ubjson lim k s (Sax_End_Array # replicate n Sax_Null @ es)"
  by (induction n arbitrary: es) (simp_all add: get_ubjson_value_def replicate_app_Cons_same)

lemma ubjson_nulls_from_nothing:
  assumes "n < 2 ^ 63" and "n \<le> max_array lim"
  shows "parse_ubjson lim [Ubjson_Value] (''[$Z#'' @ write_ubjson_size n) [] =
    Inr (Sax_Start_Array # replicate n Sax_Null @ [Sax_End_Array], [])"
  using get_ubjson_size_type_read [OF assms(1), of "Some CHR ''Z''" "[]"] assms(2)
  by (simp add: get_ubjson_value_def get_ubjson_array_def ubjson_head_def parse_null_elements)

end
