(* ===== verification/Json_Callback.thy ===== *)
theory Json_Callback
  imports Json_Sax
begin

text \<open>
  \<open>parse\<close> with a callback: the handler \<open>json_sax_dom_callback_parser\<close> of \<open>json.hpp\<close>, which asks a callback at
  every start and end of a container, key and value whether to keep it. The callback is a predicate; that it may
  also change what it is given is left out.
\<close>

section \<open>Values with discarded parts\<close>

datatype cb_value =
    Cb_Discarded
  | Cb_Scalar json
  | Cb_Array "cb_value list"
  | Cb_Object "(string \<times> cb_value) list"

datatype parse_event = Object_Start | Object_End | Array_Start | Array_End | Object_Key | Any_Value

type_synonym callback = "nat \<Rightarrow> parse_event \<Rightarrow> cb_value \<Rightarrow> bool"

fun cb_get :: "selector list \<Rightarrow> cb_value \<Rightarrow> cb_value" where
  "cb_get [] j = j"
| "cb_get (Element i # p) (Cb_Array xs) = cb_get p (xs ! i)"
| "cb_get (Member k # p) (Cb_Object xs) = cb_get p (the (map_of xs k))"
| "cb_get _ j = j"

fun cb_set :: "selector list \<Rightarrow> cb_value \<Rightarrow> cb_value \<Rightarrow> cb_value" where
  "cb_set [] v j = v"
| "cb_set (Element i # p) v (Cb_Array xs) = Cb_Array (xs[i := cb_set p v (xs ! i)])"
| "cb_set (Member k # p) v (Cb_Object xs) = Cb_Object (obj_assign k (cb_set p v (the (map_of xs k))) xs)"
| "cb_set _ v j = j"

text \<open>The loop in \<open>end_object\<close> that erases the first discarded value of the parent.\<close>

fun erase_first :: "('a \<Rightarrow> bool) \<Rightarrow> 'a list \<Rightarrow> 'a list" where
  "erase_first P [] = []"
| "erase_first P (x # xs) = (if P x then xs else x # erase_first P xs)"

fun erase_discarded :: "cb_value \<Rightarrow> cb_value" where
  "erase_discarded (Cb_Array xs) = Cb_Array (erase_first (\<lambda>v. v = Cb_Discarded) xs)"
| "erase_discarded (Cb_Object xs) = Cb_Object (erase_first (\<lambda>(k, v). v = Cb_Discarded) xs)"
| "erase_discarded j = j"

section \<open>The handler\<close>

text \<open>As in the other handler a pointer is a way from the root; here it can be null.\<close>

record cb_dom =
  cb_root :: cb_value
  cb_ref_stack :: "selector list option list"
  cb_keep_stack :: "bool list"
  cb_key_keep_stack :: "bool list"
  cb_object_element :: "selector list option"

definition cb_init :: cb_dom where
  "cb_init = \<lparr>cb_root = Cb_Scalar JNull, cb_ref_stack = [], cb_keep_stack = [True], cb_key_keep_stack = [],
     cb_object_element = None\<rparr>"

text \<open>The new state and the pointer; the first component of the pair that \<open>handle_value\<close> returns is never read.\<close>

definition cb_handle_value :: "callback \<Rightarrow> cb_value \<Rightarrow> bool \<Rightarrow> cb_dom \<Rightarrow> (cb_dom \<times> selector list option) res" where
  "cb_handle_value cb v skip_callback d =
     (case cb_keep_stack d of
        [] \<Rightarrow> Inl Assertion_Failed
      | keep # _ \<Rightarrow>
          if \<not> keep then Inr (d, None)
          else if \<not> (skip_callback \<or> cb (length (cb_ref_stack d)) Any_Value v) then Inr (d, None)
          else
            (case cb_ref_stack d of
               [] \<Rightarrow> Inr (d\<lparr>cb_root := v\<rparr>, Some [])
             | None # _ \<Rightarrow> Inr (d, None)
             | Some p # _ \<Rightarrow>
                 (case cb_get p (cb_root d) of
                    Cb_Array xs \<Rightarrow>
                      Inr (d\<lparr>cb_root := cb_set p (Cb_Array (xs @ [v])) (cb_root d)\<rparr>, Some (p @ [Element (length xs)]))
                  | Cb_Object xs \<Rightarrow>
                      (case cb_key_keep_stack d of
                         [] \<Rightarrow> Inl Assertion_Failed
                       | store_element # ks \<Rightarrow>
                           if \<not> store_element then Inr (d\<lparr>cb_key_keep_stack := ks\<rparr>, None)
                           else
                             (case cb_object_element d of
                                None \<Rightarrow> Inl Assertion_Failed
                              | Some q \<Rightarrow>
                                  Inr (d\<lparr>cb_key_keep_stack := ks, cb_root := cb_set q v (cb_root d)\<rparr>, Some q)))
                  | _ \<Rightarrow> Inl Assertion_Failed)))"

definition cb_start :: "callback \<Rightarrow> parse_event \<Rightarrow> cb_value \<Rightarrow> cb_dom \<Rightarrow> cb_dom res" where
  "cb_start cb event v d =
     (let keep = cb (length (cb_ref_stack d)) event Cb_Discarded in
      res_bind (cb_handle_value cb v True (d\<lparr>cb_keep_stack := keep # cb_keep_stack d\<rparr>)) (\<lambda>(d', p).
        Inr (d'\<lparr>cb_ref_stack := p # cb_ref_stack d'\<rparr>)))"

definition cb_key :: "callback \<Rightarrow> string \<Rightarrow> cb_dom \<Rightarrow> cb_dom res" where
  "cb_key cb k d =
     (let keep = cb (length (cb_ref_stack d)) Object_Key (Cb_Scalar (JString k));
          d' = d\<lparr>cb_key_keep_stack := keep # cb_key_keep_stack d\<rparr>
      in if \<not> keep then Inr d'
         else
           (case cb_ref_stack d of
              [] \<Rightarrow> Inl Undefined_Behaviour
            | None # _ \<Rightarrow> Inr d'
            | Some p # _ \<Rightarrow>
                (case cb_get p (cb_root d) of
                   Cb_Object xs \<Rightarrow>
                     Inr (d'\<lparr>cb_root := cb_set p (Cb_Object (obj_assign k Cb_Discarded xs)) (cb_root d),
                           cb_object_element := Some (p @ [Member k])\<rparr>)
                 | _ \<Rightarrow> Inl Undefined_Behaviour)))"

text \<open>What \<open>end_object\<close> and \<open>end_array\<close> begin with: whether the container is kept, and the root.\<close>

definition cb_finish :: "callback \<Rightarrow> parse_event \<Rightarrow> cb_dom \<Rightarrow> bool \<times> cb_value" where
  "cb_finish cb event d =
     (case cb_ref_stack d of
        Some p # _ \<Rightarrow>
          if cb (length (cb_ref_stack d) - 1) event (cb_get p (cb_root d)) then (True, cb_root d)
          else (False, cb_set p Cb_Discarded (cb_root d))
      | _ \<Rightarrow> (True, cb_root d))"

definition cb_end_object :: "callback \<Rightarrow> cb_dom \<Rightarrow> cb_dom res" where
  "cb_end_object cb d =
     (case (cb_ref_stack d, cb_keep_stack d) of
        (_ # rs, _ # ks) \<Rightarrow>
          let root = snd (cb_finish cb Object_End d) in
          Inr (d\<lparr>cb_ref_stack := rs, cb_keep_stack := ks,
                cb_root := (case rs of Some q # _ \<Rightarrow> cb_set q (erase_discarded (cb_get q root)) root | _ \<Rightarrow> root)\<rparr>)
      | ([], _) \<Rightarrow> Inl Undefined_Behaviour
      | (_, []) \<Rightarrow> Inl Assertion_Failed)"

definition cb_end_array :: "callback \<Rightarrow> cb_dom \<Rightarrow> cb_dom res" where
  "cb_end_array cb d =
     (case (cb_ref_stack d, cb_keep_stack d) of
        (_ # rs, _ # ks) \<Rightarrow>
          (case cb_finish cb Array_End d of (keep, root) \<Rightarrow>
             let d' = d\<lparr>cb_ref_stack := rs, cb_keep_stack := ks, cb_root := root\<rparr> in
             if keep then Inr d'
             else
               (case rs of
                  [] \<Rightarrow> Inr d'
                | None # _ \<Rightarrow> Inl Undefined_Behaviour
                | Some q # _ \<Rightarrow>
                    (case cb_get q root of
                       Cb_Array xs \<Rightarrow> Inr (d'\<lparr>cb_root := cb_set q (Cb_Array (butlast xs)) root\<rparr>)
                     | _ \<Rightarrow> Inr d')))
      | ([], _) \<Rightarrow> Inl Undefined_Behaviour
      | (_, []) \<Rightarrow> Inl Assertion_Failed)"

definition cb_scalar :: "callback \<Rightarrow> json \<Rightarrow> cb_dom \<Rightarrow> cb_dom res" where
  "cb_scalar cb j d = res_bind (cb_handle_value cb (Cb_Scalar j) False d) (\<lambda>(d', _). Inr d')"

fun cb_handle :: "callback \<Rightarrow> sax_event \<Rightarrow> cb_dom \<Rightarrow> cb_dom res" where
  "cb_handle cb Sax_Null d = cb_scalar cb JNull d"
| "cb_handle cb (Sax_Boolean b) d = cb_scalar cb (JBool b) d"
| "cb_handle cb (Sax_Integer n) d = cb_scalar cb (JInt n) d"
| "cb_handle cb (Sax_Float l) d = cb_scalar cb (JFloat l) d"
| "cb_handle cb (Sax_String s) d = cb_scalar cb (JString s) d"
| "cb_handle cb Sax_Start_Object d = cb_start cb Object_Start (Cb_Object []) d"
| "cb_handle cb (Sax_Key k) d = cb_key cb k d"
| "cb_handle cb Sax_End_Object d = cb_end_object cb d"
| "cb_handle cb Sax_Start_Array d = cb_start cb Array_Start (Cb_Array []) d"
| "cb_handle cb Sax_End_Array d = cb_end_array cb d"

text \<open>\<open>parse\<close> with a callback; a root that was discarded becomes a null.\<close>

definition parse_callback :: "callback \<Rightarrow> string \<Rightarrow> cb_value res" where
  "parse_callback cb s =
     res_bind (sax_parse (cb_handle cb) s cb_init) (\<lambda>(d, r).
       case r of
         Inl e \<Rightarrow> Inl e
       | Inr _ \<Rightarrow> Inr (if cb_root d = Cb_Discarded then Cb_Scalar JNull else cb_root d))"

section \<open>A callback that chooses keys\<close>

definition key_filter :: "(string \<Rightarrow> bool) \<Rightarrow> callback" where
  "key_filter P n event v \<longleftrightarrow> (case (event, v) of (Object_Key, Cb_Scalar (JString k)) \<Rightarrow> P k | _ \<Rightarrow> True)"

fun drop_keys :: "(string \<Rightarrow> bool) \<Rightarrow> json \<Rightarrow> json" where
  "drop_keys P (JArray xs) = JArray (map (drop_keys P) xs)"
| "drop_keys P (JObject xs) = JObject (map (\<lambda>(k, v). (k, drop_keys P v)) (filter (\<lambda>(k, v). P k) xs))"
| "drop_keys P j = j"

fun cb_of :: "json \<Rightarrow> cb_value" where
  "cb_of (JArray xs) = Cb_Array (map cb_of xs)"
| "cb_of (JObject xs) = Cb_Object (map (\<lambda>(k, v). (k, cb_of v)) xs)"
| "cb_of j = Cb_Scalar j"

definition kept :: "(string \<Rightarrow> bool) \<Rightarrow> json \<Rightarrow> cb_value" where
  "kept P j = cb_of (drop_keys P j)"

definition kept_members :: "(string \<Rightarrow> bool) \<Rightarrow> (string \<times> json) list \<Rightarrow> (string \<times> cb_value) list" where
  "kept_members P xs = map (\<lambda>(k, v). (k, kept P v)) (filter (\<lambda>(k, v). P k) xs)"

lemma kept_containers [simp]:
  "kept P (JArray xs) = Cb_Array (map (kept P) xs)" "kept P (JObject ms) = Cb_Object (kept_members P ms)"
  by (simp_all add: kept_def kept_members_def case_prod_unfold comp_def)

lemma kept_not_discarded [simp]: "kept P j \<noteq> Cb_Discarded"
  by (cases j) (simp_all add: kept_def)

lemma kept_members_Nil [simp]: "kept_members P [] = []"
  by (simp add: kept_members_def)

lemma obj_assign_first: "\<forall>x \<in> set xs. k < fst x \<Longrightarrow> obj_assign k v xs = (k, v) # xs"
  by (cases xs) auto

lemma kept_members_assign:
  assumes "obj_wf xs"
  shows "kept_members P (obj_assign k v xs) = (if P k then obj_assign k (kept P v) (kept_members P xs) else kept_members P xs)"
  using assms
proof (induction k v xs rule: obj_assign.induct)
  case (2 k v k' v' xs)
  have rest: "k' < fst x" if "x \<in> set (kept_members P xs)" for x
    using "2.prems" that by (auto simp: obj_wf_Cons kept_members_def)
  have first: "obj_assign k w (kept_members P xs) = (k, w) # kept_members P xs" if "k \<le> k'" for w
    using rest that by (intro obj_assign_first) (auto intro: le_less_trans)
  from "2.prems" have "obj_wf xs" by (simp add: obj_wf_Cons)
  with 2 first show ?case by (auto simp: kept_members_def)
qed (simp add: kept_members_def)

section \<open>The handler follows the parser\<close>

text \<open>The containers whose keys are all chosen; what is inside of others leaves no trace.\<close>

fun live :: "(string \<Rightarrow> bool) \<Rightarrow> frame list \<Rightarrow> bool" where
  "live P [] \<longleftrightarrow> True"
| "live P (In_Array xs # st) \<longleftrightarrow> live P st"
| "live P (In_Object ms k # st) \<longleftrightarrow> P k \<and> live P st"

text \<open>The root while the containers \<open>st\<close> are open and the place they leave open has the value \<open>w\<close> or none yet.\<close>

fun cb_plug :: "(string \<Rightarrow> bool) \<Rightarrow> frame list \<Rightarrow> cb_value option \<Rightarrow> cb_value" where
  "cb_plug P [] w = (case w of None \<Rightarrow> Cb_Scalar JNull | Some v \<Rightarrow> v)"
| "cb_plug P (In_Array xs # st) w = cb_plug P st (Some (Cb_Array (map (kept P) xs @ (case w of None \<Rightarrow> [] | Some v \<Rightarrow> [v]))))"
| "cb_plug P (In_Object ms k # st) w =
     cb_plug P st (Some (Cb_Object
       (if P k then obj_assign k (case w of None \<Rightarrow> Cb_Discarded | Some v \<Rightarrow> v) (kept_members P ms) else kept_members P ms)))"

definition pointer_to :: "(string \<Rightarrow> bool) \<Rightarrow> frame list \<Rightarrow> selector list option" where
  "pointer_to P st = (if live P st then Some (place st) else None)"

fun pointers :: "(string \<Rightarrow> bool) \<Rightarrow> frame list \<Rightarrow> selector list option list" where
  "pointers P [] = []"
| "pointers P (f # st) = pointer_to P st # pointers P st"

fun frames_wf :: "frame list \<Rightarrow> bool" where
  "frames_wf [] \<longleftrightarrow> True"
| "frames_wf (In_Array xs # st) \<longleftrightarrow> frames_wf st"
| "frames_wf (In_Object ms k # st) \<longleftrightarrow> obj_wf ms \<and> frames_wf st"

lemma cb_plug_not_live: "\<not> live P st \<Longrightarrow> cb_plug P st v = cb_plug P st w"
proof (induction st arbitrary: v w)
  case (Cons f st)
  then show ?case by (cases f) (auto intro: Cons.IH)
qed simp

lemma cb_get_plug: "live P st \<Longrightarrow> cb_get (place st @ p) (cb_plug P st (Some v)) = cb_get p v"
proof (induction st arbitrary: p v)
  case (Cons f st)
  then show ?case by (cases f) (simp_all add: map_of_obj_assign nth_append list_update_append)
qed simp

lemma cb_set_plug: "live P st \<Longrightarrow> cb_set (place st @ p) w (cb_plug P st (Some v)) = cb_plug P st (Some (cb_set p w v))"
proof (induction st arbitrary: p v)
  case (Cons f st)
  then show ?case by (cases f) (simp_all add: map_of_obj_assign nth_append list_update_append)
qed simp

lemmas cb_plug_place = cb_get_plug [of _ _ "[]", simplified] cb_set_plug [of _ _ "[]", simplified]

text \<open>The handler when it has been given \<open>w\<close>, or nothing yet, in the place that \<open>st\<close> leaves open.\<close>

definition cb_at :: "(string \<Rightarrow> bool) \<Rightarrow> frame list \<Rightarrow> cb_value option \<Rightarrow> cb_dom \<Rightarrow> bool" where
  "cb_at P st w d \<longleftrightarrow> cb_root d = cb_plug P st w \<and> cb_ref_stack d = pointers P st \<and> frames_wf st"

fun key_read :: "(string \<Rightarrow> bool) \<Rightarrow> frame list \<Rightarrow> cb_dom \<Rightarrow> bool" where
  "key_read P (In_Object ms k # st) d \<longleftrightarrow>
     (live P st \<longrightarrow> (\<exists>ks. cb_key_keep_stack d = P k # ks) \<and> (P k \<longrightarrow> cb_object_element d = Some (place st @ [Member k])))"
| "key_read P st d \<longleftrightarrow> True"

abbreviation keep_all :: "frame list \<Rightarrow> bool list" where
  "keep_all st \<equiv> True # replicate (length st) True"

definition cb_ready :: "(string \<Rightarrow> bool) \<Rightarrow> frame list \<Rightarrow> cb_dom \<Rightarrow> bool" where
  "cb_ready P st d \<longleftrightarrow> cb_at P st None d \<and> key_read P st d \<and> cb_keep_stack d = keep_all st"

definition cb_got :: "(string \<Rightarrow> bool) \<Rightarrow> frame list \<Rightarrow> json \<Rightarrow> cb_dom \<Rightarrow> bool" where
  "cb_got P st v d \<longleftrightarrow> cb_at P st (Some (kept P v)) d \<and> cb_keep_stack d = keep_all st"

lemma key_filter_simps [simp]:
  "key_filter P n Any_Value v" "key_filter P n Object_Start v" "key_filter P n Object_End v"
  "key_filter P n Array_Start v" "key_filter P n Array_End v"
  "key_filter P n Object_Key (Cb_Scalar (JString k)) \<longleftrightarrow> P k"
  by (simp_all add: key_filter_def)

lemma cb_handle_value_ready:
  assumes "cb_at P st None d" and "key_read P st d" and keep: "cb_keep_stack d = True # ks"
  shows "\<exists>d'. cb_handle_value (key_filter P) v skip d = Inr (d', pointer_to P st) \<and> cb_at P st (Some v) d' \<and>
    cb_keep_stack d' = True # ks"
proof (cases st)
  case Nil
  with assms show ?thesis by (simp add: cb_handle_value_def cb_at_def pointer_to_def)
next
  case (Cons f st')
  have refs: "cb_ref_stack d = pointer_to P st' # pointers P st'"
    using assms(1) Cons by (simp add: cb_at_def)
  show ?thesis
  proof (cases "live P st'")
    case False
    then have "\<not> live P st" using Cons by (cases f) simp_all
    moreover have "pointers P st = None # pointers P st'" using Cons False by (simp add: pointer_to_def)
    ultimately show ?thesis using cb_plug_not_live [of P st None "Some v"] assms(1) keep
      by (simp add: cb_handle_value_def cb_at_def pointer_to_def)
  next
    case True
    then have ref: "cb_ref_stack d = Some (place st') # pointers P st'" using refs by (simp add: pointer_to_def)
    show ?thesis
    proof (cases f)
      case (In_Array xs)
      with Cons True assms(1) keep ref show ?thesis
        by (simp add: cb_handle_value_def cb_at_def pointer_to_def cb_plug_place)
    next
      case (In_Object ms k)
      with Cons True assms keep ref show ?thesis
        by (auto simp: cb_handle_value_def cb_at_def pointer_to_def cb_plug_place cb_set_plug)
    qed
  qed
qed

lemma cb_start_ready:
  assumes "cb_ready P st d" and "event \<in> {Object_Start, Array_Start}"
  shows "\<exists>d'. cb_start (key_filter P) event v d = Inr d' \<and> cb_root d' = cb_plug P st (Some v) \<and>
    cb_ref_stack d' = pointer_to P st # pointers P st \<and> cb_keep_stack d' = True # keep_all st \<and> frames_wf st"
proof -
  let ?d = "d\<lparr>cb_keep_stack := True # cb_keep_stack d\<rparr>"
  have "key_read P st ?d" using assms(1) by (cases "(P, st, d)" rule: key_read.cases) (simp_all add: cb_ready_def)
  moreover have "cb_at P st None ?d" using assms(1) by (simp add: cb_at_def cb_ready_def)
  ultimately obtain d' where "cb_handle_value (key_filter P) v True ?d = Inr (d', pointer_to P st)"
    "cb_at P st (Some v) d'" "cb_keep_stack d' = True # cb_keep_stack d"
    using cb_handle_value_ready [of P st ?d "cb_keep_stack d" v True] by auto
  with assms show ?thesis by (auto simp: cb_start_def cb_at_def cb_ready_def)
qed

text \<open>No value that is discarded is left to be erased.\<close>

lemma erase_first_none: "list_all (\<lambda>x. \<not> Q x) xs \<Longrightarrow> erase_first Q xs = xs"
  by (induction xs) auto

lemma all_obj_assign: "list_all Q xs \<Longrightarrow> Q (k, v) \<Longrightarrow> list_all Q (obj_assign k v xs)"
  by (auto simp: list_all_iff dest!: set_obj_assign)

lemma members_not_discarded: "list_all (\<lambda>x. snd x \<noteq> Cb_Discarded) (kept_members P ms)"
  by (auto simp: kept_members_def list_all_iff)

lemma parent_not_erased:
  assumes "v \<noteq> Cb_Discarded" and "live P st"
  shows "cb_set (place st) (erase_discarded (cb_get (place st) (cb_plug P (f # st) (Some v)))) (cb_plug P (f # st) (Some v)) =
    cb_plug P (f # st) (Some v)"
proof (cases f)
  case (In_Array xs)
  have "erase_first (\<lambda>v. v = Cb_Discarded) (map (kept P) xs @ [v]) = map (kept P) xs @ [v]"
    using assms(1) by (intro erase_first_none) (auto simp: list_all_iff)
  with In_Array assms(2) show ?thesis by (simp add: cb_plug_place)
next
  case (In_Object ms k)
  let ?ms = "if P k then obj_assign k v (kept_members P ms) else kept_members P ms"
  have "list_all (\<lambda>x. snd x \<noteq> Cb_Discarded) ?ms"
    using members_not_discarded assms(1) by (auto intro!: all_obj_assign)
  then have "erase_first (\<lambda>(k, v). v = Cb_Discarded) ?ms = ?ms" by (intro erase_first_none) (simp add: case_prod_unfold)
  with In_Object assms(2) show ?thesis by (cases "P k") (simp_all add: cb_plug_place)
qed

lemma cb_end_object_at:
  assumes "cb_root d = cb_plug P st (Some v)" and "cb_ref_stack d = pointer_to P st # pointers P st"
    and "cb_keep_stack d = True # keep_all st" and "frames_wf st" and "v \<noteq> Cb_Discarded"
  shows "\<exists>d'. cb_end_object (key_filter P) d = Inr d' \<and> cb_at P st (Some v) d' \<and> cb_keep_stack d' = keep_all st"
proof -
  have root: "cb_finish (key_filter P) Object_End d = (True, cb_plug P st (Some v))"
    using assms(1,2) by (simp add: cb_finish_def split: option.split)
  show ?thesis
  proof (cases st)
    case Nil
    with assms root show ?thesis by (simp add: cb_end_object_def cb_at_def)
  next
    case (Cons f st')
    with assms root parent_not_erased [OF assms(5), of P st' f] show ?thesis
      by (cases "live P st'") (simp_all add: cb_end_object_def cb_at_def pointer_to_def)
  qed
qed

lemma cb_end_array_at:
  assumes "cb_root d = cb_plug P st (Some v)" and "cb_ref_stack d = pointer_to P st # pointers P st"
    and "cb_keep_stack d = True # keep_all st" and "frames_wf st"
  shows "\<exists>d'. cb_end_array (key_filter P) d = Inr d' \<and> cb_at P st (Some v) d' \<and> cb_keep_stack d' = keep_all st"
proof -
  have "cb_finish (key_filter P) Array_End d = (True, cb_plug P st (Some v))"
    using assms(1,2) by (simp add: cb_finish_def split: option.split)
  with assms show ?thesis by (simp add: cb_end_array_def cb_at_def)
qed

lemma cb_key_at:
  assumes "cb_root d = cb_plug P st (Some (Cb_Object (kept_members P ms)))"
    and "cb_ref_stack d = pointer_to P st # pointers P st" and "cb_keep_stack d = True # keep_all st"
    and "frames_wf st" and "obj_wf ms"
  shows "\<exists>d'. cb_key (key_filter P) k d = Inr d' \<and> cb_ready P (In_Object ms k # st) d'"
proof (cases "P k \<and> live P st")
  case True
  with assms show ?thesis
    by (simp add: cb_key_def cb_ready_def cb_at_def pointer_to_def cb_plug_place)
next
  case False
  with assms cb_plug_not_live [of P st] show ?thesis
    by (auto simp: cb_key_def cb_ready_def cb_at_def pointer_to_def)
qed

interpretation key_callback: sax_handler "cb_handle (key_filter P)" "cb_ready P" "cb_got P"
proof (unfold_locales, goal_cases)
  case (1 st h tok e v)
  then have "kept P v = Cb_Scalar v"
    by (cases tok) (auto simp: scalar_value_def kept_def)
  with 1 cb_handle_value_ready [of P st h "replicate (length st) True" "Cb_Scalar v" False] show ?case
    by (cases tok) (auto simp: scalar_value_def cb_scalar_def cb_ready_def cb_got_def)
next
  case (2 st h)
  from cb_start_ready [OF this, of Array_Start "Cb_Array []"] obtain d where
    d: "cb_start (key_filter P) Array_Start (Cb_Array []) h = Inr d" "cb_root d = cb_plug P st (Some (Cb_Array []))"
    "cb_ref_stack d = pointer_to P st # pointers P st" "cb_keep_stack d = True # keep_all st" "frames_wf st" by auto
  from cb_end_array_at [OF d(2-5)] d show ?case by (auto simp: cb_ready_def cb_at_def cb_got_def)
next
  case (3 xs st v h)
  then show ?case by (simp add: cb_got_def cb_ready_def cb_at_def)
next
  case (4 xs st v h)
  then show ?case using cb_end_array_at [of h P st "kept P (JArray (xs @ [v]))"] by (simp add: cb_got_def cb_at_def)
next
  case (5 st h)
  from cb_start_ready [OF this, of Object_Start "Cb_Object []"] obtain d where
    d: "cb_start (key_filter P) Object_Start (Cb_Object []) h = Inr d" "cb_root d = cb_plug P st (Some (Cb_Object []))"
    "cb_ref_stack d = pointer_to P st # pointers P st" "cb_keep_stack d = True # keep_all st" "frames_wf st" by auto
  from cb_end_object_at [OF d(2-5)] cb_key_at [of d P st "[]"] d show ?case by (simp add: cb_got_def)
next
  case (6 ms k st v h k')
  then have "cb_root h = cb_plug P st (Some (Cb_Object (kept_members P (obj_assign k v ms))))"
    by (auto simp: cb_got_def cb_at_def kept_members_assign)
  with 6 show ?case
    using cb_key_at [of h P st "obj_assign k v ms" k'] by (simp add: cb_got_def cb_at_def obj_assign_wf)
next
  case (7 ms k st v h)
  then have "cb_root h = cb_plug P st (Some (kept P (JObject (obj_assign k v ms))))"
    by (auto simp: cb_got_def cb_at_def kept_members_assign)
  with 7 show ?case
    using cb_end_object_at [of h P st "kept P (JObject (obj_assign k v ms))"] by (simp add: cb_got_def cb_at_def)
qed

text \<open>
  C28. A callback that chooses members by their keys makes \<open>parse\<close> return what it returns without a callback, less
  the members whose keys are not chosen, at every depth, or throw the same error; in particular a callback that
  keeps everything changes nothing. No assertion fails and no null pointer or place of another kind is followed.
\<close>

theorem parse_callback_keys:
  "parse_callback (key_filter P) s = (case json_parse s of Inl e \<Rightarrow> Inl e | Inr j \<Rightarrow> Inr (cb_of (drop_keys P j)))"
proof -
  have "cb_ready P [] cb_init" by (simp add: cb_ready_def cb_at_def cb_init_def)
  note follows = key_callback.sax_parse_follows [OF this, of s]
  show ?thesis
  proof (cases "parse_text s")
    case (Inl e)
    with follows show ?thesis by (auto simp: json_parse_eq parse_callback_def)
  next
    case (Inr j)
    with follows obtain d where "sax_parse (cb_handle (key_filter P)) s cb_init = Inr (d, Inr ())" "cb_root d = kept P j"
      by (auto simp: cb_got_def cb_at_def)
    with Inr show ?thesis by (simp add: json_parse_eq parse_callback_def kept_def [symmetric])
  qed
qed

lemma drop_no_keys: "drop_keys (\<lambda>_. True) j = j"
  by (induction j) (auto simp: case_prod_unfold intro!: map_idI)

text \<open>
  When a value is refused, its key stays with the discarded value, which only the end of another object erases: the
  events of the text \<open>{"a": 2}\<close>.
\<close>

definition refuse_number :: "int \<Rightarrow> callback" where
  "refuse_number n depth event v \<longleftrightarrow> \<not> (event = Any_Value \<and> v = Cb_Scalar (JInt n))"

lemma refused_member_stays:
  "res_bind (cb_handle (refuse_number 2) Sax_Start_Object cb_init) (\<lambda>d1.
   res_bind (cb_handle (refuse_number 2) (Sax_Key ''a'') d1) (\<lambda>d2.
   res_bind (cb_handle (refuse_number 2) (Sax_Integer 2) d2) (\<lambda>d3.
   res_bind (cb_handle (refuse_number 2) Sax_End_Object d3) (\<lambda>d4. Inr (cb_root d4))))) =
     Inr (Cb_Object [(''a'', Cb_Discarded)])"
  by (simp add: cb_init_def cb_start_def cb_handle_value_def cb_key_def cb_scalar_def cb_end_object_def cb_finish_def
    refuse_number_def Let_def)

end
