(* ===== verification/Json_Order.thy ===== *)
theory Json_Order
  imports Json_Patch
begin

text \<open>
  \<open>operator<\<close> on JSON values of \<open>json.hpp\<close>. A number that is not negative is unsigned, as the parser makes it, and is
  compared with a negative one after a conversion to \<open>int64\<close>. How a \<open>double\<close> is compared is a parameter.
\<close>

section \<open>The operators\<close>

text \<open>\<open>std::lexicographical_compare\<close>, which \<open>operator<\<close> on vectors and maps calls, and \<open>operator<\<close> on pairs.\<close>

fun lexicographical_compare :: "('a \<Rightarrow> 'a \<Rightarrow> bool) \<Rightarrow> 'a list \<Rightarrow> 'a list \<Rightarrow> bool" where
  "lexicographical_compare lt [] ys \<longleftrightarrow> ys \<noteq> []"
| "lexicographical_compare lt (x # xs) [] \<longleftrightarrow> False"
| "lexicographical_compare lt (x # xs) (y # ys) \<longleftrightarrow>
     lt x y \<or> (\<not> lt y x \<and> lexicographical_compare lt xs ys)"

definition member_less :: "('a \<Rightarrow> 'a \<Rightarrow> bool) \<Rightarrow> string \<times> 'a \<Rightarrow> string \<times> 'a \<Rightarrow> bool" where
  "member_less lt p q \<longleftrightarrow> fst p < fst q \<or> (\<not> fst q < fst p \<and> lt (snd p) (snd q))"

lemma lexicographical_compare_cong [fundef_cong]:
  assumes "xs = xs'" and "ys = ys'"
    and "\<And>x y. x \<in> set xs' \<Longrightarrow> y \<in> set ys' \<Longrightarrow> lt x y = lt' x y"
    and "\<And>x y. x \<in> set xs' \<Longrightarrow> y \<in> set ys' \<Longrightarrow> lt y x = lt' y x"
  shows "lexicographical_compare lt xs ys = lexicographical_compare lt' xs' ys'"
proof -
  have "lexicographical_compare lt xs' ys' = lexicographical_compare lt' xs' ys'" using assms(3,4)
    by (induction lt xs' ys' rule: lexicographical_compare.induct) auto
  with assms(1,2) show ?thesis by simp
qed

lemma member_less_cong [fundef_cong]:
  "p = p' \<Longrightarrow> q = q' \<Longrightarrow> lt (snd p') (snd q') = lt' (snd p') (snd q') \<Longrightarrow> member_less lt p q = member_less lt' p' q'"
  by (simp add: member_less_def)

text \<open>The order of the types.\<close>

fun type_order :: "json \<Rightarrow> nat" where
  "type_order JNull = 0"
| "type_order (JBool b) = 1"
| "type_order (JInt n) = 2"
| "type_order (JFloat l) = 2"
| "type_order (JObject xs) = 3"
| "type_order (JArray xs) = 4"
| "type_order (JString s) = 5"

definition integer_less :: "int \<Rightarrow> int \<Rightarrow> bool" where
  "integer_less a b \<longleftrightarrow>
     (if a < 0 \<and> 0 \<le> b then a < to_int64 (nat b)
      else if 0 \<le> a \<and> b < 0 then to_int64 (nat a) < b
      else a < b)"

function (sequential) json_less :: "(json \<Rightarrow> json \<Rightarrow> bool) \<Rightarrow> json \<Rightarrow> json \<Rightarrow> bool" where
  "json_less num_less (JArray xs) (JArray ys) \<longleftrightarrow> lexicographical_compare (\<lambda>x y. json_less num_less x y) xs ys"
| "json_less num_less (JObject xs) (JObject ys) \<longleftrightarrow>
     lexicographical_compare (\<lambda>p q. member_less (\<lambda>x y. json_less num_less x y) p q) xs ys"
| "json_less num_less (JString a) (JString b) \<longleftrightarrow> a < b"
| "json_less num_less (JBool a) (JBool b) \<longleftrightarrow> \<not> a \<and> b"
| "json_less num_less (JInt a) (JInt b) \<longleftrightarrow> integer_less a b"
| "json_less num_less (JFloat a) (JFloat b) \<longleftrightarrow> num_less (JFloat a) (JFloat b)"
| "json_less num_less (JInt a) (JFloat b) \<longleftrightarrow> num_less (JInt a) (JFloat b)"
| "json_less num_less (JFloat a) (JInt b) \<longleftrightarrow> num_less (JFloat a) (JInt b)"
| "json_less num_less x y \<longleftrightarrow> type_order x < type_order y"
  by pat_completeness auto
termination
proof (relation "measure (\<lambda>(n, x, y). size x + size y)", goal_cases)
qed (force dest: size_json_element size_json_member)+

definition json_less_equal :: "(json \<Rightarrow> json \<Rightarrow> bool) \<Rightarrow> json \<Rightarrow> json \<Rightarrow> bool" where
  "json_less_equal num_less x y \<longleftrightarrow> \<not> json_less num_less y x"

definition json_greater :: "(json \<Rightarrow> json \<Rightarrow> bool) \<Rightarrow> json \<Rightarrow> json \<Rightarrow> bool" where
  "json_greater num_less x y \<longleftrightarrow> \<not> json_less_equal num_less x y"

definition json_greater_equal :: "(json \<Rightarrow> json \<Rightarrow> bool) \<Rightarrow> json \<Rightarrow> json \<Rightarrow> bool" where
  "json_greater_equal num_less x y \<longleftrightarrow> \<not> json_less num_less x y"

section \<open>A linear order\<close>

definition strict_linear :: "('a \<Rightarrow> 'a \<Rightarrow> bool) \<Rightarrow> 'a set \<Rightarrow> bool" where
  "strict_linear lt A \<longleftrightarrow>
     (\<forall>x \<in> A. \<not> lt x x) \<and>
     (\<forall>x \<in> A. \<forall>y \<in> A. \<forall>z \<in> A. lt x y \<longrightarrow> lt y z \<longrightarrow> lt x z) \<and>
     (\<forall>x \<in> A. \<forall>y \<in> A. lt x y \<or> x = y \<or> lt y x)"

lemma strict_linearD:
  assumes "strict_linear lt A"
  shows "x \<in> A \<Longrightarrow> \<not> lt x x"
    and "x \<in> A \<Longrightarrow> y \<in> A \<Longrightarrow> z \<in> A \<Longrightarrow> lt x y \<Longrightarrow> lt y z \<Longrightarrow> lt x z"
    and "x \<in> A \<Longrightarrow> y \<in> A \<Longrightarrow> lt x y \<or> x = y \<or> lt y x"
    and "x \<in> A \<Longrightarrow> y \<in> A \<Longrightarrow> lt x y \<Longrightarrow> \<not> lt y x"
  using assms unfolding strict_linear_def by blast+

lemma strict_linear_lists:
  assumes "strict_linear lt A"
  shows "strict_linear (lexicographical_compare lt) (lists A)"
  unfolding strict_linear_def
proof (intro conjI ballI impI)
  show "\<not> lexicographical_compare lt xs xs" if "xs \<in> lists A" for xs
    using that strict_linearD(1) [OF assms] by (induction xs) auto
next
  show "lexicographical_compare lt xs zs"
    if "xs \<in> lists A" "ys \<in> lists A" "zs \<in> lists A" "lexicographical_compare lt xs ys"
      "lexicographical_compare lt ys zs" for xs ys zs
    using that
  proof (induction xs arbitrary: ys zs rule: list.induct)
    case Nil
    then show ?case by (cases ys; cases zs) auto
  next
    case (Cons x xs)
    from Cons.prems obtain y ys' where ys: "ys = y # ys'" by (cases ys) auto
    with Cons.prems obtain z zs' where zs: "zs = z # zs'" by (cases zs) auto
    have A: "x \<in> A" "y \<in> A" "z \<in> A" "xs \<in> lists A" "ys' \<in> lists A" "zs' \<in> lists A" using Cons.prems ys zs by auto
    consider "lt x y" | "\<not> lt x y" "\<not> lt y x" "lexicographical_compare lt xs ys'" using Cons.prems ys by auto
    then show ?case
    proof cases
      case 1
      consider "lt y z" | "y = z" using Cons.prems ys zs A strict_linearD(3) [OF assms, of y z] by auto
      then show ?thesis using 1 A zs strict_linearD(2) [OF assms, of x y z] by cases auto
    next
      case 2
      then have "x = y" using strict_linearD(3) [OF assms] A by blast
      with 2 Cons.IH [of ys' zs'] Cons.prems(5) A ys zs show ?thesis by auto
    qed
  qed
next
  show "lexicographical_compare lt xs ys \<or> xs = ys \<or> lexicographical_compare lt ys xs"
    if "xs \<in> lists A" "ys \<in> lists A" for xs ys
    using that
  proof (induction xs arbitrary: ys rule: list.induct)
    case (Cons x xs)
    then show ?case using strict_linearD(1,3) [OF assms] by (cases ys) auto
  qed auto
qed

lemma strict_linear_pairs:
  assumes "strict_linear lt A"
  shows "strict_linear (member_less lt) {p. snd p \<in> A}"
  unfolding strict_linear_def member_less_def
proof (intro conjI ballI impI, goal_cases)
  case (1 p)
  then show ?case using strict_linearD(1) [OF assms] by auto
next
  case (2 p q r)
  then show ?case using strict_linearD(2) [OF assms, of "snd p" "snd q" "snd r"] by (auto simp: not_less_iff_gr_or_eq)
next
  case (3 p q)
  then show ?case using strict_linearD(3) [OF assms, of "snd p" "snd q"] by (auto simp: prod_eq_iff not_less_iff_gr_or_eq)
qed

text \<open>Values without floating point numbers whose integers are those of an \<open>int64\<close>, and of bounded size.\<close>

fun int64_json :: "json \<Rightarrow> bool" where
  "int64_json (JInt n) \<longleftrightarrow> - (2 ^ 63) \<le> n \<and> n < 2 ^ 63"
| "int64_json (JFloat l) \<longleftrightarrow> False"
| "int64_json (JArray xs) \<longleftrightarrow> list_all int64_json xs"
| "int64_json (JObject xs) \<longleftrightarrow> list_all (\<lambda>(k, v). int64_json v) xs"
| "int64_json _ \<longleftrightarrow> True"

definition int64_below :: "nat \<Rightarrow> json set" where
  "int64_below n = {j. int64_json j \<and> size j < n}"

lemma integer_less_int64:
  assumes "- (2 ^ 63) \<le> a" and "a < 2 ^ 63" and "- (2 ^ 63) \<le> b" and "b < 2 ^ 63"
  shows "integer_less a b \<longleftrightarrow> a < b"
proof -
  have "to_int64 (nat n) = n" if "0 \<le> n" "n < 2 ^ 63" for n using that by (simp add: to_int64_def)
  with assms show ?thesis by (simp add: integer_less_def)
qed

text \<open>Values of different types are in the order of their types.\<close>

lemma json_less_types:
  "int64_json x \<Longrightarrow> int64_json y \<Longrightarrow> type_order x \<noteq> type_order y \<Longrightarrow>
    json_less f x y \<longleftrightarrow> type_order x < type_order y"
  by (cases x; cases y) simp_all

lemma same_type:
  assumes "int64_json x" and "int64_json y" and "type_order x = type_order y"
  obtains "x = JNull" "y = JNull" | a b where "x = JBool a" "y = JBool b" | a b where "x = JInt a" "y = JInt b"
  | a b where "x = JString a" "y = JString b" | xs ys where "x = JArray xs" "y = JArray ys"
  | xs ys where "x = JObject xs" "y = JObject ys"
  using assms by (cases x; cases y) simp_all

lemma array_below: "JArray xs \<in> int64_below (Suc n) \<Longrightarrow> xs \<in> lists (int64_below n)"
  by (auto simp: int64_below_def list_all_iff dest: size_json_element)

lemma object_below: "JObject xs \<in> int64_below (Suc n) \<Longrightarrow> xs \<in> lists {p. snd p \<in> int64_below n}"
  by (force simp: int64_below_def list_all_iff dest: size_json_member)

lemma json_less_linear_below: "strict_linear (json_less f) (int64_below n)"
proof (induction n)
  case 0
  then show ?case by (simp add: strict_linear_def int64_below_def)
next
  case (Suc n)
  note arrays = strict_linear_lists [OF Suc.IH] strict_linear_lists [OF strict_linear_pairs [OF Suc.IH]]
  note below = array_below [of _ n] object_below [of _ n]
  note irreflexive = strict_linearD(1) [OF arrays(1) below(1)] strict_linearD(1) [OF arrays(2) below(2)]
  note transitive = strict_linearD(2) [OF arrays(1) below(1) below(1) below(1)]
    strict_linearD(2) [OF arrays(2) below(2) below(2) below(2)]
  note total = strict_linearD(3) [OF arrays(1) below(1) below(1)] strict_linearD(3) [OF arrays(2) below(2) below(2)]
  have ok: "int64_json x" if "x \<in> int64_below (Suc n)" for x using that by (simp add: int64_below_def)
  show ?case
    unfolding strict_linear_def
  proof (intro conjI ballI impI)
    fix x assume x: "x \<in> int64_below (Suc n)"
    from x ok [OF x] irreflexive show "\<not> json_less f x x" by (cases x) (auto simp: integer_less_int64)
  next
    fix x y assume xy: "x \<in> int64_below (Suc n)" "y \<in> int64_below (Suc n)"
    show "json_less f x y \<or> x = y \<or> json_less f y x"
    proof (cases "type_order x = type_order y")
      case True
      from same_type [OF xy [THEN ok] True] show ?thesis
      proof cases
        case (3 a b)
        with xy [THEN ok] show ?thesis by (auto simp: integer_less_int64)
      next
        case (5 xs ys)
        with xy total(1) [of xs ys] show ?thesis by simp
      next
        case (6 xs ys)
        with xy total(2) [of xs ys] show ?thesis by simp
      qed auto
    next
      case False
      with json_less_types xy ok show ?thesis by (metis linorder_neqE_nat)
    qed
  next
    fix x y z assume xyz: "x \<in> int64_below (Suc n)" "y \<in> int64_below (Suc n)" "z \<in> int64_below (Suc n)"
      and lt: "json_less f x y" "json_less f y z"
    show "json_less f x z"
    proof (cases "type_order x = type_order y \<and> type_order y = type_order z")
      case True
      from same_type [OF xyz(1,2) [THEN ok] True [THEN conjunct1]] show ?thesis
      proof cases
        case (2 a b)
        with lt show ?thesis by (cases z) auto
      next
        case (3 a b)
        with True ok [OF xyz(3)] obtain c where "z = JInt c" by (cases z) auto
        with 3 lt xyz [THEN ok] show ?thesis by (auto simp: integer_less_int64)
      next
        case (4 a b)
        with True obtain c where "z = JString c" by (cases z) auto
        with 4 lt show ?thesis by auto
      next
        case (5 xs ys)
        with True obtain zs where "z = JArray zs" by (cases z) auto
        with 5 lt xyz transitive(1) [of xs ys zs] show ?thesis by simp
      next
        case (6 xs ys)
        with True obtain zs where "z = JObject zs" by (cases z) auto
        with 6 lt xyz transitive(2) [of xs ys zs] show ?thesis by simp
      qed (use lt in simp)
    next
      case False
      have le: "json_less f u v \<Longrightarrow> u \<in> int64_below (Suc n) \<Longrightarrow> v \<in> int64_below (Suc n) \<Longrightarrow> type_order u \<le> type_order v"
        for u v using json_less_types [of u v f] ok by (cases "type_order u = type_order v") auto
      from le [OF lt(1)] le [OF lt(2)] xyz False have "type_order x < type_order z" by auto
      with json_less_types [of x z f] xyz ok show ?thesis by auto
    qed
  qed
qed

section \<open>The order and equality\<close>

lemma int64_mod:
  assumes "(a :: int) mod 2 ^ 64 = b mod 2 ^ 64"
    and "- (2 ^ 63) \<le> a" and "a < 2 ^ 63" and "- (2 ^ 63) \<le> b" and "b < 2 ^ 63"
  shows "a = b"
proof -
  have "(a + 2 ^ 63) mod 2 ^ 64 = (b + 2 ^ 63) mod 2 ^ 64" using assms(1) by (metis mod_add_left_eq)
  moreover have "(a + 2 ^ 63) mod 2 ^ 64 = a + 2 ^ 63" "(b + 2 ^ 63) mod 2 ^ 64 = b + 2 ^ 63"
    using assms(2-5) by (intro mod_pos_pos_trivial; simp)+
  ultimately show ?thesis by simp
qed

lemma json_eq_int64: "int64_json x \<Longrightarrow> int64_json y \<Longrightarrow> json_eq g x y \<longleftrightarrow> x = y"
proof (induction x arbitrary: y)
  case (JInt a)
  then show ?case using int64_mod [of a] by (cases y) auto
next
  case (JArray xs)
  show ?case
  proof (cases y)
    case y: (JArray ys)
    have "json_eq g (xs ! i) (ys ! i) \<longleftrightarrow> xs ! i = ys ! i" if "i < length xs" "length xs = length ys" for i
      using JArray.IH [of "xs ! i" "ys ! i"] JArray.prems y that by (simp add: list_all_length)
    with y show ?thesis by (auto simp: list_all_length list_eq_iff_nth_eq)
  qed simp_all
next
  case (JObject xs)
  show ?case
  proof (cases y)
    case y: (JObject ys)
    have "json_eq g (snd (xs ! i)) (snd (ys ! i)) \<longleftrightarrow> snd (xs ! i) = snd (ys ! i)"
      if "i < length xs" "length xs = length ys" for i
      using JObject.IH [of "xs ! i" "snd (xs ! i)" "snd (ys ! i)"] JObject.prems y that
      by (simp add: list_all_length case_prod_unfold snds.simps)
    with y show ?thesis by (auto simp: list_all_length list_eq_iff_nth_eq case_prod_unfold prod_eq_iff)
  qed simp_all
qed (case_tac y, simp_all)+

text \<open>
  \<open>operator<\<close> and its companions order the values without floating point numbers whose integers fit an \<open>int64\<close>: it
  is transitive, and of two values one is smaller, or they are equal for \<open>operator==\<close>.
\<close>

lemma json_order_linear:
  assumes "int64_json x" and "int64_json y" and "int64_json z"
  shows "(json_less f x y \<and> json_less f y z \<longrightarrow> json_less f x z) \<and>
    (json_less f x y \<or> json_eq g x y \<or> json_less f y x) \<and>
    \<not> (json_less f x y \<and> (json_eq g x y \<or> json_less f y x)) \<and>
    (json_less_equal f x y \<longleftrightarrow> json_less f x y \<or> json_eq g x y) \<and>
    (json_greater f x y \<longleftrightarrow> json_less f y x) \<and> (json_greater_equal f x y \<longleftrightarrow> json_less_equal f y x)"
proof -
  have "strict_linear (json_less f) (int64_below (Suc (size x + size y + size z)))" by (rule json_less_linear_below)
  note linear = strict_linearD [OF this]
  have "x \<in> int64_below (Suc (size x + size y + size z))" "y \<in> int64_below (Suc (size x + size y + size z))"
    "z \<in> int64_below (Suc (size x + size y + size z))" using assms by (simp_all add: int64_below_def)
  then show ?thesis
    using linear(1) [of x] linear(2) [of x y z] linear(3) [of x y] linear(4) [of x y] json_eq_int64 [OF assms(1,2), of g]
    unfolding json_greater_def json_less_equal_def json_greater_equal_def by blast
qed

text \<open>With unsigned numbers above the \<open>int64\<close>s the operator has a cycle.\<close>

lemma json_less_cycle:
  "json_less f (JInt (2 ^ 64 - 2)) (JInt (- 1)) \<and> json_less f (JInt (- 1)) (JInt 0) \<and> json_less f (JInt 0) (JInt (2 ^ 64 - 2))"
  by (simp add: integer_less_def to_int64_def)

end
