(* ===== verification/Json_Container.thy ===== *)
theory Json_Container
  imports Json_Patch
begin

text \<open>
  Iterators over JSON values and the operations of \<open>basic_json\<close> that change containers. An iterator has the
  address of its value and a position; the other operand of an operation is the value at that address, and \<open>this\<close> is
  the address of the value itself. Objects are in the order of their keys. \<open>Json_Other_Error\<close> is the exception
  \<open>invalid_iterator\<close>.
\<close>

section \<open>Iterators\<close>

record iter =
  it_object :: nat
  it_pos :: int

text \<open>\<open>set_begin\<close> and \<open>set_end\<close>: a null is empty, any other scalar has one element.\<close>

fun json_size :: "json \<Rightarrow> nat" where
  "json_size JNull = 0"
| "json_size (JArray xs) = length xs"
| "json_size (JObject ms) = length ms"
| "json_size _ = 1"

definition json_begin :: "nat \<Rightarrow> json \<Rightarrow> iter" where
  "json_begin this j = \<lparr>it_object = this, it_pos = (case j of JNull \<Rightarrow> 1 | _ \<Rightarrow> 0)\<rparr>"

definition json_end :: "nat \<Rightarrow> json \<Rightarrow> iter" where
  "json_end this j =
     \<lparr>it_object = this, it_pos = (case j of JArray xs \<Rightarrow> int (length xs) | JObject ms \<Rightarrow> int (length ms) | _ \<Rightarrow> 1)\<rparr>"

definition at_position :: "'a list \<Rightarrow> int \<Rightarrow> 'a res" where
  "at_position xs i =
     (if i = int (length xs) then Inl Assertion_Failed
      else if 0 \<le> i \<and> i < int (length xs) then Inr (xs ! nat i)
      else Inl Undefined_Behaviour)"

definition iter_deref :: "json \<Rightarrow> iter \<Rightarrow> json res" where
  "iter_deref j it =
     (case j of
        JObject ms \<Rightarrow> res_bind (at_position ms (it_pos it)) (\<lambda>m. Inr (snd m))
      | JArray xs \<Rightarrow> at_position xs (it_pos it)
      | JNull \<Rightarrow> Inl Json_Other_Error
      | _ \<Rightarrow> if it_pos it = 0 then Inr j else Inl Json_Other_Error)"

text \<open>\<open>std::advance\<close> out of a container is undefined; the position of a scalar is a number.\<close>

definition iter_advance :: "json \<Rightarrow> int \<Rightarrow> iter \<Rightarrow> iter res" where
  "iter_advance j n it =
     (let pos = it_pos it + n; it' = it\<lparr>it_pos := pos\<rparr> in
      case j of
        JObject ms \<Rightarrow> if 0 \<le> pos \<and> pos \<le> int (length ms) then Inr it' else Inl Undefined_Behaviour
      | JArray xs \<Rightarrow> if 0 \<le> pos \<and> pos \<le> int (length xs) then Inr it' else Inl Undefined_Behaviour
      | _ \<Rightarrow> Inr it')"

definition iter_next :: "json \<Rightarrow> iter \<Rightarrow> iter res" where
  "iter_next j it = iter_advance j 1 it"

definition iter_previous :: "json \<Rightarrow> iter \<Rightarrow> iter res" where
  "iter_previous j it = iter_advance j (- 1) it"

definition iter_equal :: "iter \<Rightarrow> iter \<Rightarrow> bool res" where
  "iter_equal it other =
     (if it_object it \<noteq> it_object other then Inl Json_Other_Error else Inr (it_pos it = it_pos other))"

definition iter_less :: "json \<Rightarrow> iter \<Rightarrow> iter \<Rightarrow> bool res" where
  "iter_less j it other =
     (if it_object it \<noteq> it_object other then Inl Json_Other_Error
      else case j of JObject ms \<Rightarrow> Inl Json_Other_Error | _ \<Rightarrow> Inr (it_pos it < it_pos other))"

definition iter_less_equal :: "json \<Rightarrow> iter \<Rightarrow> iter \<Rightarrow> bool res" where
  "iter_less_equal j it other = res_bind (iter_less j other it) (\<lambda>b. Inr (\<not> b))"

definition iter_greater :: "json \<Rightarrow> iter \<Rightarrow> iter \<Rightarrow> bool res" where
  "iter_greater j it other = res_bind (iter_less_equal j it other) (\<lambda>b. Inr (\<not> b))"

definition iter_greater_equal :: "json \<Rightarrow> iter \<Rightarrow> iter \<Rightarrow> bool res" where
  "iter_greater_equal j it other = res_bind (iter_less j it other) (\<lambda>b. Inr (\<not> b))"

definition iter_add :: "json \<Rightarrow> int \<Rightarrow> iter \<Rightarrow> iter res" where
  "iter_add j n it = (case j of JObject ms \<Rightarrow> Inl Json_Other_Error | _ \<Rightarrow> iter_advance j n it)"

definition iter_difference :: "json \<Rightarrow> iter \<Rightarrow> iter \<Rightarrow> int res" where
  "iter_difference j it other =
     (case j of
        JObject ms \<Rightarrow> Inl Json_Other_Error
      | JArray xs \<Rightarrow>
          if it_object it \<noteq> it_object other then Inl Undefined_Behaviour else Inr (it_pos it - it_pos other)
      | _ \<Rightarrow> Inr (it_pos it - it_pos other))"

definition iter_at :: "json \<Rightarrow> int \<Rightarrow> iter \<Rightarrow> json res" where
  "iter_at j n it =
     (case j of
        JObject ms \<Rightarrow> Inl Json_Other_Error
      | JArray xs \<Rightarrow>
          if 0 \<le> it_pos it + n \<and> it_pos it + n < int (length xs) then Inr (xs ! nat (it_pos it + n))
          else Inl Undefined_Behaviour
      | JNull \<Rightarrow> Inl Json_Other_Error
      | _ \<Rightarrow> if it_pos it = - n then Inr j else Inl Json_Other_Error)"

definition iter_key :: "json \<Rightarrow> iter \<Rightarrow> string res" where
  "iter_key j it =
     (case j of
        JObject ms \<Rightarrow>
          if 0 \<le> it_pos it \<and> it_pos it < int (length ms) then Inr (fst (ms ! nat (it_pos it))) else Inl Undefined_Behaviour
      | _ \<Rightarrow> Inl Json_Other_Error)"

definition json_front :: "nat \<Rightarrow> json \<Rightarrow> json res" where
  "json_front this j = iter_deref j (json_begin this j)"

definition json_back :: "nat \<Rightarrow> json \<Rightarrow> json res" where
  "json_back this j = res_bind (iter_previous j (json_end this j)) (iter_deref j)"

text \<open>A loop from one iterator to another, with the values it visits; \<open>None\<close> when it takes more than \<open>n\<close> comparisons.\<close>

fun visit_values :: "nat \<Rightarrow> json \<Rightarrow> iter \<Rightarrow> iter \<Rightarrow> json list res option" where
  "visit_values 0 j it stop = None"
| "visit_values (Suc n) j it stop =
     (case iter_equal it stop of
        Inl e \<Rightarrow> Some (Inl e)
      | Inr True \<Rightarrow> Some (Inr [])
      | Inr False \<Rightarrow>
          (case res_bind (iter_deref j it) (\<lambda>v. res_bind (iter_next j it) (\<lambda>it'. Inr (v, it'))) of
             Inl e \<Rightarrow> Some (Inl e)
           | Inr (v, it') \<Rightarrow> map_option (\<lambda>r. res_bind r (\<lambda>vs. Inr (v # vs))) (visit_values n j it' stop)))"

section \<open>Capacity and lookup\<close>

fun json_empty :: "json \<Rightarrow> bool" where
  "json_empty JNull \<longleftrightarrow> True"
| "json_empty (JArray xs) \<longleftrightarrow> xs = []"
| "json_empty (JObject ms) \<longleftrightarrow> ms = []"
| "json_empty _ \<longleftrightarrow> False"

fun json_clear :: "json \<Rightarrow> json" where
  "json_clear (JInt n) = JInt 0"
| "json_clear (JFloat l) = JFloat ''0.0''"
| "json_clear (JBool b) = JBool False"
| "json_clear (JString s) = JString []"
| "json_clear (JArray xs) = JArray []"
| "json_clear (JObject ms) = JObject []"
| "json_clear JNull = JNull"

fun key_position :: "string \<Rightarrow> (string \<times> json) list \<Rightarrow> nat" where
  "key_position k [] = 0"
| "key_position k (m # ms) = (if fst m = k then 0 else Suc (key_position k ms))"

definition json_find :: "nat \<Rightarrow> string \<Rightarrow> json \<Rightarrow> iter" where
  "json_find this k j =
     (case j of
        JObject ms \<Rightarrow> (json_end this j)\<lparr>it_pos := int (key_position k ms)\<rparr>
      | _ \<Rightarrow> json_end this j)"

definition json_count :: "string \<Rightarrow> json \<Rightarrow> nat" where
  "json_count k j = (case j of JObject ms \<Rightarrow> if k \<in> fst ` set ms then 1 else 0 | _ \<Rightarrow> 0)"

definition json_contains :: "string \<Rightarrow> json \<Rightarrow> bool" where
  "json_contains k j \<longleftrightarrow> (case j of JObject ms \<Rightarrow> key_position k ms \<noteq> length ms | _ \<Rightarrow> False)"

section \<open>Erasing\<close>

text \<open>The new value and the iterator behind what was erased.\<close>

definition scalar_erased :: "nat \<Rightarrow> iter \<Rightarrow> json \<times> iter" where
  "scalar_erased this result = (JNull, result)"

definition erase_iterator :: "nat \<Rightarrow> json \<Rightarrow> iter \<Rightarrow> (json \<times> iter) res" where
  "erase_iterator this j pos =
     (if it_object pos \<noteq> this then Inl Json_Other_Error
      else
        case j of
          JNull \<Rightarrow> Inl Json_Type_Error
        | JObject ms \<Rightarrow>
            if 0 \<le> it_pos pos \<and> it_pos pos < int (length ms) then
              Inr (JObject (take (nat (it_pos pos)) ms @ drop (Suc (nat (it_pos pos))) ms), pos)
            else Inl Undefined_Behaviour
        | JArray xs \<Rightarrow>
            if 0 \<le> it_pos pos \<and> it_pos pos < int (length xs) then
              Inr (JArray (take (nat (it_pos pos)) xs @ drop (Suc (nat (it_pos pos))) xs), pos)
            else Inl Undefined_Behaviour
        | _ \<Rightarrow> if it_pos pos \<noteq> 0 then Inl Json_Other_Error else Inr (scalar_erased this (json_end this j)))"

definition valid_range :: "'a list \<Rightarrow> iter \<Rightarrow> iter \<Rightarrow> bool" where
  "valid_range xs first stop \<longleftrightarrow>
     0 \<le> it_pos first \<and> it_pos first \<le> it_pos stop \<and> it_pos stop \<le> int (length xs)"

definition erase_range :: "nat \<Rightarrow> json \<Rightarrow> iter \<Rightarrow> iter \<Rightarrow> (json \<times> iter) res" where
  "erase_range this j first stop =
     (if it_object first \<noteq> this \<or> it_object stop \<noteq> this then Inl Json_Other_Error
      else
        case j of
          JNull \<Rightarrow> Inl Json_Type_Error
        | JObject ms \<Rightarrow>
            if valid_range ms first stop then
              Inr (JObject (take (nat (it_pos first)) ms @ drop (nat (it_pos stop)) ms), first)
            else Inl Undefined_Behaviour
        | JArray xs \<Rightarrow>
            if valid_range xs first stop then
              Inr (JArray (take (nat (it_pos first)) xs @ drop (nat (it_pos stop)) xs), first)
            else Inl Undefined_Behaviour
        | _ \<Rightarrow>
            if it_pos first \<noteq> 0 \<or> it_pos stop \<noteq> 1 then Inl Json_Other_Error
            else Inr (scalar_erased this (json_end this j)))"

definition erase_key :: "string \<Rightarrow> json \<Rightarrow> (json \<times> nat) res" where
  "erase_key k j =
     (case j of
        JObject ms \<Rightarrow> Inr (JObject (obj_erase k ms), if k \<in> fst ` set ms then 1 else 0)
      | _ \<Rightarrow> Inl Json_Type_Error)"

definition erase_index :: "nat \<Rightarrow> json \<Rightarrow> json res" where
  "erase_index i j =
     (case j of
        JArray xs \<Rightarrow> if length xs \<le> i then Inl Json_Out_Of_Range else Inr (JArray (take i xs @ drop (Suc i) xs))
      | _ \<Rightarrow> Inl Json_Type_Error)"

section \<open>Adding\<close>

definition push_back :: "json \<Rightarrow> json \<Rightarrow> json res" where
  "push_back v j =
     (case j of JNull \<Rightarrow> Inr (JArray [v]) | JArray xs \<Rightarrow> Inr (JArray (xs @ [v])) | _ \<Rightarrow> Inl Json_Type_Error)"

definition push_back_member :: "string \<times> json \<Rightarrow> json \<Rightarrow> json res" where
  "push_back_member m j =
     (case j of
        JNull \<Rightarrow> Inr (JObject (obj_emplace (fst m) (snd m) []))
      | JObject ms \<Rightarrow> Inr (JObject (obj_emplace (fst m) (snd m) ms))
      | _ \<Rightarrow> Inl Json_Type_Error)"

text \<open>An initialiser list of a string and a value is a member of an object, or else one value, \<open>whole\<close>.\<close>

definition push_back_list :: "json list \<Rightarrow> json \<Rightarrow> json \<Rightarrow> json res" where
  "push_back_list init whole j =
     (case (j, init) of
        (JObject ms, [JString k, v]) \<Rightarrow> push_back_member (k, v) j
      | _ \<Rightarrow> push_back whole j)"

definition json_emplace :: "nat \<Rightarrow> string \<Rightarrow> json \<Rightarrow> json \<Rightarrow> (json \<times> iter \<times> bool) res" where
  "json_emplace this k v j =
     (case (case j of JNull \<Rightarrow> JObject [] | _ \<Rightarrow> j) of
        JObject ms \<Rightarrow>
          let ms' = obj_emplace k v ms in
          Inr (JObject ms', \<lparr>it_object = this, it_pos = int (key_position k ms')\<rparr>, k \<notin> fst ` set ms)
      | _ \<Rightarrow> Inl Json_Type_Error)"

definition insert_iterator :: "nat \<Rightarrow> json list \<Rightarrow> iter \<Rightarrow> json list \<Rightarrow> (json \<times> iter) res" where
  "insert_iterator this xs pos vs =
     (if 0 \<le> it_pos pos \<and> it_pos pos \<le> int (length xs) then
        Inr (JArray (take (nat (it_pos pos)) xs @ vs @ drop (nat (it_pos pos)) xs), \<lparr>it_object = this, it_pos = it_pos pos\<rparr>)
      else Inl Undefined_Behaviour)"

text \<open>\<open>insert\<close> of one value, of some copies of it (\<open>vs\<close>) and of an initialiser list.\<close>

definition insert_values :: "nat \<Rightarrow> json \<Rightarrow> iter \<Rightarrow> json list \<Rightarrow> (json \<times> iter) res" where
  "insert_values this j pos vs =
     (case j of
        JArray xs \<Rightarrow> if it_object pos \<noteq> this then Inl Json_Other_Error else insert_iterator this xs pos vs
      | _ \<Rightarrow> Inl Json_Type_Error)"

text \<open>The range is one of the value \<open>source\<close>, whose kind is not checked.\<close>

definition insert_range :: "nat \<Rightarrow> json \<Rightarrow> iter \<Rightarrow> json \<Rightarrow> iter \<Rightarrow> iter \<Rightarrow> (json \<times> iter) res" where
  "insert_range this j pos source first stop =
     (case j of
        JArray xs \<Rightarrow>
          if it_object pos \<noteq> this \<or> it_object first \<noteq> it_object stop \<or> it_object first = this then Inl Json_Other_Error
          else
            (case source of
               JArray ys \<Rightarrow>
                 if valid_range ys first stop then
                   insert_iterator this xs pos (take (nat (it_pos stop) - nat (it_pos first)) (drop (nat (it_pos first)) ys))
                 else Inl Undefined_Behaviour
             | _ \<Rightarrow> Inl Undefined_Behaviour)
      | _ \<Rightarrow> Inl Json_Type_Error)"

definition members_between :: "(string \<times> json) list \<Rightarrow> iter \<Rightarrow> iter \<Rightarrow> (string \<times> json) list res" where
  "members_between ms first stop =
     (if valid_range ms first stop then
        Inr (take (nat (it_pos stop) - nat (it_pos first)) (drop (nat (it_pos first)) ms))
      else Inl Undefined_Behaviour)"

definition source_members :: "json \<Rightarrow> iter \<Rightarrow> iter \<Rightarrow> (string \<times> json) list res" where
  "source_members source first stop =
     (if it_object first \<noteq> it_object stop then Inl Json_Other_Error
      else case source of JObject ns \<Rightarrow> members_between ns first stop | _ \<Rightarrow> Inl Json_Other_Error)"

definition insert_members :: "json \<Rightarrow> json \<Rightarrow> iter \<Rightarrow> iter \<Rightarrow> json res" where
  "insert_members j source first stop =
     (case j of
        JObject ms \<Rightarrow>
          res_bind (source_members source first stop) (\<lambda>ns. Inr (JObject (foldl (\<lambda>acc (k, v). obj_emplace k v acc) ms ns)))
      | _ \<Rightarrow> Inl Json_Type_Error)"

definition assign_members :: "(string \<times> json) list \<Rightarrow> (string \<times> json) list \<Rightarrow> (string \<times> json) list" where
  "assign_members ns ms = foldl (\<lambda>acc (k, v). obj_assign k v acc) ms ns"

text \<open>A null is an object from the first statement on; an exception after it says nothing of the value.\<close>

definition json_update :: "json \<Rightarrow> json \<Rightarrow> json res" where
  "json_update j source =
     (case (case j of JNull \<Rightarrow> JObject [] | _ \<Rightarrow> j) of
        JObject ms \<Rightarrow> (case source of JObject ns \<Rightarrow> Inr (JObject (assign_members ns ms)) | _ \<Rightarrow> Inl Json_Type_Error)
      | _ \<Rightarrow> Inl Json_Type_Error)"

definition update_range :: "json \<Rightarrow> json \<Rightarrow> iter \<Rightarrow> iter \<Rightarrow> json res" where
  "update_range j source first stop =
     (case (case j of JNull \<Rightarrow> JObject [] | _ \<Rightarrow> j) of
        JObject ms \<Rightarrow> res_bind (source_members source first stop) (\<lambda>ns. Inr (JObject (assign_members ns ms)))
      | _ \<Rightarrow> Inl Json_Type_Error)"

definition swap_array :: "json \<Rightarrow> json list \<Rightarrow> (json \<times> json list) res" where
  "swap_array j other = (case j of JArray xs \<Rightarrow> Inr (JArray other, xs) | _ \<Rightarrow> Inl Json_Type_Error)"

definition swap_object :: "json \<Rightarrow> (string \<times> json) list \<Rightarrow> (json \<times> (string \<times> json) list) res" where
  "swap_object j other = (case j of JObject ms \<Rightarrow> Inr (JObject other, ms) | _ \<Rightarrow> Inl Json_Type_Error)"

definition swap_string :: "json \<Rightarrow> string \<Rightarrow> (json \<times> string) res" where
  "swap_string j other = (case j of JString s \<Rightarrow> Inr (JString other, s) | _ \<Rightarrow> Inl Json_Type_Error)"

section \<open>A loop visits every element once\<close>

fun elements :: "json \<Rightarrow> json list" where
  "elements JNull = []"
| "elements (JArray xs) = xs"
| "elements (JObject ms) = map snd ms"
| "elements j = [j]"

lemma json_size_elements: "json_size j = length (elements j)"
  by (cases j) simp_all

lemma json_size_distance: "int (json_size j) = it_pos (json_end this j) - it_pos (json_begin this j)"
  by (cases j) (simp_all add: json_begin_def json_end_def)

lemma json_empty_iff: "json_empty j \<longleftrightarrow> iter_equal (json_begin this j) (json_end this j) = Inr True"
  by (cases j) (simp_all add: json_begin_def json_end_def iter_equal_def)

text \<open>The iterator at element \<open>i\<close>.\<close>

definition element_iter :: "nat \<Rightarrow> json \<Rightarrow> nat \<Rightarrow> iter" where
  "element_iter this j i = (json_begin this j)\<lparr>it_pos := it_pos (json_begin this j) + int i\<rparr>"

lemma element_iter_step:
  assumes "i < length (elements j)"
  shows "iter_equal (element_iter this j i) (json_end this j) = Inr False"
    and "iter_deref j (element_iter this j i) = Inr (elements j ! i)"
    and "iter_next j (element_iter this j i) = Inr (element_iter this j (Suc i))"
  using assms
  by (cases j; simp add: element_iter_def json_begin_def json_end_def iter_equal_def iter_deref_def at_position_def
    iter_next_def iter_advance_def Let_def)+

lemma visit_values_from:
  "i \<le> length (elements j) \<Longrightarrow> length (elements j) - i < n \<Longrightarrow>
    visit_values n j (element_iter this j i) (json_end this j) = Some (Inr (drop i (elements j)))"
proof (induction n arbitrary: i)
  case (Suc n)
  show ?case
  proof (cases "i = length (elements j)")
    case True
    then have "iter_equal (element_iter this j i) (json_end this j) = Inr True"
      by (cases j) (simp_all add: element_iter_def json_begin_def json_end_def iter_equal_def)
    with True show ?thesis by simp
  next
    case False
    with Suc.prems have "i < length (elements j)" by simp
    with element_iter_step [OF this, of this] Suc.IH [of "Suc i"] Suc.prems show ?thesis
      by (simp add: Cons_nth_drop_Suc)
  qed
qed simp

text \<open>
  A loop from \<open>begin()\<close> to \<open>end()\<close> ends after as many steps as \<open>size()\<close> says and visits every element once, in order.
\<close>

lemma loop_visits_all:
  assumes "json_size j < n"
  shows "visit_values n j (json_begin this j) (json_end this j) = Some (Inr (elements j))"
proof -
  have "element_iter this j 0 = json_begin this j" by (simp add: element_iter_def)
  with visit_values_from [of 0 j n this] assms show ?thesis by (simp add: json_size_elements)
qed

section \<open>What the operations do\<close>

lemma key_position_length: "key_position k ms \<le> length ms"
  by (induction ms) auto

lemma key_position_found: "k \<in> fst ` set ms \<Longrightarrow> key_position k ms < length ms \<and> fst (ms ! key_position k ms) = k"
  by (induction ms) auto

lemma key_position_absent: "k \<notin> fst ` set ms \<Longrightarrow> key_position k ms = length ms"
  by (induction ms) auto

text \<open>The three ways to look up a key agree, and what \<open>find\<close> points to is the member.\<close>

lemma lookups_agree:
  "(json_contains k j \<longleftrightarrow> json_count k j = 1) \<and>
   (json_contains k j \<longleftrightarrow> iter_equal (json_find this k j) (json_end this j) = Inr False) \<and>
   (json_contains k (JObject ms) \<longrightarrow>
      iter_key (JObject ms) (json_find this k (JObject ms)) = Inr k \<and>
      iter_deref (JObject ms) (json_find this k (JObject ms)) = Inr (the (map_of ms k)))"
proof -
  have contains: "json_contains k (JObject ns) \<longleftrightarrow> k \<in> fst ` set ns" for ns
    using key_position_found [of k ns] key_position_absent [of k ns]
    by (cases "k \<in> fst ` set ns") (simp_all add: json_contains_def)
  have found_value: "k \<in> fst ` set ns \<Longrightarrow> snd (ns ! key_position k ns) = the (map_of ns k)" for ns :: "(string \<times> json) list"
    by (induction ns) auto
  have "json_contains k j \<longleftrightarrow> json_count k j = 1" using contains by (cases j) (auto simp: json_contains_def json_count_def)
  moreover have "json_contains k j \<longleftrightarrow> iter_equal (json_find this k j) (json_end this j) = Inr False"
    by (cases j) (auto simp: json_contains_def iter_equal_def json_find_def json_end_def)
  moreover have "iter_key (JObject ms) (json_find this k (JObject ms)) = Inr k \<and>
      iter_deref (JObject ms) (json_find this k (JObject ms)) = Inr (the (map_of ms k))" if "json_contains k (JObject ms)"
    using that key_position_found [of k ms] found_value [of ms]
    by (auto simp: contains iter_key_def json_find_def json_end_def iter_deref_def at_position_def)
  ultimately show ?thesis by blast
qed

lemma obj_erase_position:
  "obj_wf ms \<Longrightarrow> k \<in> fst ` set ms \<Longrightarrow>
    take (key_position k ms) ms @ drop (Suc (key_position k ms)) ms = obj_erase k ms"
proof (induction ms)
  case (Cons m ms)
  obtain l v where m: "m = (l, v)" by (cases m)
  show ?case
  proof (cases "l = k")
    case True
    with Cons.prems(1) m have "\<forall>x \<in> set ms. fst x \<noteq> k" by (auto simp: obj_wf_Cons)
    with True m show ?thesis by (simp add: obj_erase_def filter_id_conv)
  next
    case False
    with Cons m show ?thesis by (auto simp: obj_wf_Cons obj_erase_def)
  qed
qed simp

text \<open>Erasing what \<open>find\<close> found is erasing the key.\<close>

lemma erase_found:
  assumes "obj_wf ms" and "k \<in> fst ` set ms"
  shows "\<exists>it. erase_iterator this (JObject ms) (json_find this k (JObject ms)) = Inr (JObject (obj_erase k ms), it)"
    and "erase_key k (JObject ms) = Inr (JObject (obj_erase k ms), 1)"
  using key_position_found [OF assms(2)] obj_erase_position [OF assms] assms(2)
  by (simp_all add: erase_iterator_def json_find_def json_end_def erase_key_def)

text \<open>What was inserted can be erased again with the iterator that \<open>insert\<close> returns.\<close>

lemma insert_erase:
  assumes "insert_values this j pos vs = Inr (j', it)"
  shows "\<exists>it'. erase_range this j' it (it\<lparr>it_pos := it_pos it + int (length vs)\<rparr>) = Inr (j, it')"
proof -
  from assms obtain xs where xs: "j = JArray xs" "insert_iterator this xs pos vs = Inr (j', it)"
    by (auto simp: insert_values_def split: json.splits if_splits)
  then have pos: "0 \<le> it_pos pos" "it_pos pos \<le> int (length xs)"
    and j': "j' = JArray (take (nat (it_pos pos)) xs @ vs @ drop (nat (it_pos pos)) xs)"
    and it: "it = \<lparr>it_object = this, it_pos = it_pos pos\<rparr>"
    by (auto simp: insert_iterator_def split: if_splits)
  define n where "n = nat (it_pos pos)"
  with pos have n: "it_pos pos = int n" "n \<le> length xs" by simp_all
  then show ?thesis
    by (simp add: xs(1) j' it erase_range_def valid_range_def nat_add_distrib)
qed

lemma map_of_assign_members: "map_of (assign_members ns ms) = map_of ms ++ map_of (rev ns)"
  by (induction ns arbitrary: ms) (auto simp: assign_members_def map_of_obj_assign case_prod_unfold)

lemma assign_members_wf: "obj_wf ms \<Longrightarrow> obj_wf (assign_members ns ms)"
  by (induction ns arbitrary: ms) (auto simp: assign_members_def obj_assign_wf case_prod_unfold)

text \<open>\<open>update\<close> takes the members of both objects, and where they share a key that of the second.\<close>

lemma update_members:
  assumes "obj_wf ms" and "obj_wf ns"
  shows "\<exists>us. json_update (JObject ms) (JObject ns) = Inr (JObject us) \<and> obj_wf us \<and> map_of us = map_of ms ++ map_of ns"
proof -
  have "distinct (map fst ns)" using assms(2) by (auto simp: obj_wf_def strict_sorted_iff)
  then have "map_of (rev ns) = map_of ns" by (subst map_of_inject_set) (simp_all add: rev_map [symmetric])
  with assms(1) show ?thesis by (simp add: json_update_def map_of_assign_members assign_members_wf)
qed

text \<open>No operation leaves an object whose members are out of order.\<close>

definition object_ok :: "json \<Rightarrow> bool" where
  "object_ok j \<longleftrightarrow> (case j of JObject ms \<Rightarrow> obj_wf ms | _ \<Rightarrow> True)"

lemma obj_wf_parts:
  assumes "obj_wf ms" and "m \<le> n"
  shows "obj_wf (take m ms @ drop n ms)"
proof -
  have "sorted_wrt (<) (map fst (take m ms @ drop m ms))" using assms(1) by (simp add: obj_wf_def)
  then have "sorted_wrt (<) (map fst (take m ms))" and cross: "\<forall>x \<in> set (take m ms). \<forall>y \<in> set (drop m ms). fst x < fst y"
    unfolding map_append sorted_wrt_append by auto
  moreover have "sorted_wrt (<) (map fst (drop n ms))"
    using assms(1) sorted_wrt_drop [of "(<)" "map fst ms" n] by (simp add: obj_wf_def drop_map)
  moreover have "set (drop n ms) \<subseteq> set (drop m ms)" using assms(2) by (rule set_drop_subset_set_drop)
  ultimately show ?thesis unfolding obj_wf_def map_append sorted_wrt_append by auto
qed

lemma emplace_members_wf: "obj_wf ms \<Longrightarrow> obj_wf (foldl (\<lambda>acc (k, v). obj_emplace k v acc) ms ns)"
  by (induction ns arbitrary: ms) (auto simp: obj_emplace_wf case_prod_unfold)

lemma operations_keep_order:
  assumes "object_ok j"
  shows "erase_iterator this j pos = Inr (j', it) \<Longrightarrow> object_ok j'"
    and "erase_range this j first stop = Inr (j', it) \<Longrightarrow> object_ok j'"
    and "erase_key k j = Inr (j', n) \<Longrightarrow> object_ok j'"
    and "push_back v j = Inr j' \<Longrightarrow> object_ok j'"
    and "push_back_member m j = Inr j' \<Longrightarrow> object_ok j'"
    and "json_emplace this k v j = Inr (j', r) \<Longrightarrow> object_ok j'"
    and "insert_members j source first stop = Inr j' \<Longrightarrow> object_ok j'"
    and "json_update j source = Inr j' \<Longrightarrow> object_ok j'"
    and "update_range j source first stop = Inr j' \<Longrightarrow> object_ok j'"
  using assms
  by (auto simp: object_ok_def erase_iterator_def scalar_erased_def erase_range_def valid_range_def erase_key_def
      push_back_def push_back_member_def json_emplace_def Let_def insert_members_def json_update_def update_range_def
      obj_wf_parts obj_erase_wf obj_emplace_wf emplace_members_wf assign_members_wf nat_mono
    split: json.splits if_splits)

end
