(* ===== verification/Json_Comments.thy ===== *)
theory Json_Comments
  imports Json_Parse "HOL-Library.Sublist"
begin

text \<open>
  The lexer with the option \<open>ignore_comments\<close>: \<open>scan_comment\<close> and the loop of \<open>scan\<close> that skips comments in front of
  a token. As in \<open>Json_Parse\<close>, an error leaves no input.
\<close>

section \<open>Scanning a comment\<close>

definition nul_char :: char where
  "nul_char = CHR 0x00"

text \<open>The character that ends a line comment is consumed; a null character ends it as well.\<close>

fun scan_line_comment :: "string \<Rightarrow> string" where
  "scan_line_comment [] = []"
| "scan_line_comment (c # s) =
     (if c = CHR 0x0A \<or> c = CHR 0x0D \<or> c = nul_char then s else scan_line_comment s)"

fun scan_block_comment :: "string \<Rightarrow> string option" where
  "scan_block_comment [] = None"
| "scan_block_comment (c # s) =
     (if c = nul_char then None
      else if c = CHR ''*'' \<and> take 1 s = ''/'' then Some (drop 1 s)
      else scan_block_comment s)"

text \<open>Behind the slash; \<open>None\<close> is the error with the message of the lexer.\<close>

definition scan_comment :: "string \<Rightarrow> string option" where
  "scan_comment s =
     (case s of
        [] \<Rightarrow> None
      | c # r \<Rightarrow>
          if c = CHR ''/'' then Some (scan_line_comment r)
          else if c = CHR ''*'' then scan_block_comment r
          else None)"

lemma scan_line_comment_length: "length (scan_line_comment s) \<le> length s"
  by (induction s) auto

lemma scan_block_comment_length: "scan_block_comment s = Some r \<Longrightarrow> length r \<le> length s"
  by (induction s) (auto split: if_splits)

lemma scan_comment_length: "scan_comment s = Some r \<Longrightarrow> length r \<le> length s"
  using scan_line_comment_length scan_block_comment_length
  by (fastforce simp: scan_comment_def le_SucI split: list.splits if_splits)

section \<open>Skipping comments\<close>

function scan_ignoring :: "bool \<Rightarrow> string \<Rightarrow> token \<times> string" where
  "scan_ignoring ignore_comments s =
     (case dropWhile is_space s of
        [] \<Rightarrow> (End_Of_Input, [])
      | c # r \<Rightarrow>
          if ignore_comments \<and> c = CHR ''/'' then
            (case scan_comment r of
               None \<Rightarrow> (Parse_Error, [])
             | Some r' \<Rightarrow> scan_ignoring ignore_comments r')
          else scan_token c r)"
  by pat_completeness auto

termination
proof (relation "measure (\<lambda>(_, s). length s)")
  fix ignore_comments s c r r'
  assume "dropWhile is_space s = c # r" and "scan_comment r = Some r'"
  with length_dropWhile_le [of is_space s] scan_comment_length [of r r']
  show "((ignore_comments, r'), ignore_comments, s) \<in> measure (\<lambda>(_, s). length s)" by simp
qed simp

declare scan_ignoring.simps [simp del]

lemma scan_token_slash: "scan_token (CHR ''/'') s = (Parse_Error, [])"
  by (simp add: scan_token_def is_digit_def)

text \<open>Without the option the lexer is that of \<open>Json_Parse\<close>, and a token that it reads is read with the option, too.\<close>

lemma scan_ignoring_off: "scan_ignoring False s = json_scan s"
  by (cases "dropWhile is_space s") (simp_all add: scan_ignoring.simps [of False s] json_scan_def del: dropWhile_eq_Nil_conv)

lemma scan_ignoring_token:
  assumes "fst (json_scan s) \<noteq> Parse_Error"
  shows "scan_ignoring on s = json_scan s"
proof (cases "dropWhile is_space s")
  case Nil
  then show ?thesis by (simp add: scan_ignoring.simps [of on s] json_scan_def del: dropWhile_eq_Nil_conv)
next
  case (Cons c r)
  with assms have "c \<noteq> CHR ''/''" by (auto simp: json_scan_def scan_token_slash)
  with Cons show ?thesis by (simp add: scan_ignoring.simps [of on s] json_scan_def del: dropWhile_eq_Nil_conv)
qed

section \<open>What is a comment\<close>

text \<open>A line comment is what stands before the first end of a line, null character or end of input.\<close>

definition ends_line :: "char \<Rightarrow> bool" where
  "ends_line c \<longleftrightarrow> c = CHR 0x0A \<or> c = CHR 0x0D \<or> c = nul_char"

lemma scan_line_comment_eq: "scan_line_comment s = drop 1 (dropWhile (\<lambda>c. \<not> ends_line c) s)"
  by (induction s) (auto simp: ends_line_def)

text \<open>A block comment is what stands before the first star and slash, when there is no null character in it.\<close>

lemma scan_block_comment_iff:
  "scan_block_comment s = Some r \<longleftrightarrow>
    (\<exists>c. s = c @ ''*/'' @ r \<and> nul_char \<notin> set c \<and> \<not> sublist ''*/'' (c @ ''*''))"
proof (induction s)
  case (Cons d s)
  have split: "(\<exists>c. d # s = c @ ''*/'' @ r \<and> nul_char \<notin> set c \<and> \<not> sublist ''*/'' (c @ ''*'')) \<longleftrightarrow>
      d = CHR ''*'' \<and> s = CHR ''/'' # r \<or>
      (\<exists>c. d \<noteq> nul_char \<and> s = c @ ''*/'' @ r \<and> nul_char \<notin> set c \<and> \<not> sublist ''*/'' (d # c @ ''*''))" (is "?l \<longleftrightarrow> ?r")
  proof
    assume ?l
    then obtain c where c: "d # s = c @ ''*/'' @ r" "nul_char \<notin> set c" "\<not> sublist ''*/'' (c @ ''*'')" by blast
    then show ?r by (cases c) auto
  next
    assume ?r
    then show ?l
    proof
      assume "d = CHR ''*'' \<and> s = CHR ''/'' # r"
      then show ?l by (intro exI [of _ "[]"]) (simp add: sublist_Cons_right)
    next
      assume "\<exists>c. d \<noteq> nul_char \<and> s = c @ ''*/'' @ r \<and> nul_char \<notin> set c \<and> \<not> sublist ''*/'' (d # c @ ''*'')"
      then obtain c where "d \<noteq> nul_char" "s = c @ ''*/'' @ r" "nul_char \<notin> set c" "\<not> sublist ''*/'' (d # c @ ''*'')" by blast
      then show ?l by (intro exI [of _ "d # c"]) simp
    qed
  qed
  have starts: "prefix ''*/'' (d # c @ ''*'') \<longleftrightarrow> d = CHR ''*'' \<and> take 1 s = ''/''" if "s = c @ ''*/'' @ r" for c
    using that by (cases c) auto
  show ?case
  proof (cases "d = CHR ''*'' \<and> take 1 s = ''/''")
    case True
    then obtain s' where "s = CHR ''/'' # s'" by (cases s) auto
    moreover have "sublist ''*/'' (d # c @ ''*'')" if "s = c @ ''*/'' @ r" for c
      using starts [OF that] True by (simp add: prefix_imp_sublist)
    ultimately show ?thesis
      unfolding split using True by (auto simp: nul_char_def simp del: sublist_Cons_right)
  next
    case False
    with starts Cons.IH show ?thesis
      unfolding split by (auto simp: nul_char_def sublist_Cons_right [of _ d])
  qed
qed simp

text \<open>White space and comments in front of a token change nothing.\<close>

lemma scan_ignoring_space: "is_space c \<Longrightarrow> scan_ignoring on (c # s) = scan_ignoring on s"
  by (subst (1 2) scan_ignoring.simps) simp

lemma scan_ignoring_block:
  assumes "nul_char \<notin> set c" and "\<not> sublist ''*/'' (c @ ''*'')"
  shows "scan_ignoring True (''/*'' @ c @ ''*/'' @ s) = scan_ignoring True s"
proof -
  have "scan_block_comment (c @ ''*/'' @ s) = Some s" using assms by (auto simp: scan_block_comment_iff)
  then show ?thesis
    by (subst scan_ignoring.simps) (simp add: is_space_def scan_comment_def)
qed

lemma scan_ignoring_line:
  assumes "\<forall>d \<in> set c. \<not> ends_line d" and "ends_line d"
  shows "scan_ignoring True (''//'' @ c @ d # s) = scan_ignoring True s"
proof -
  have "scan_line_comment (c @ d # s) = s" using assms by (simp add: scan_line_comment_eq dropWhile_append2)
  then show ?thesis
    by (subst scan_ignoring.simps) (simp add: is_space_def scan_comment_def)
qed

text \<open>A comment that is not closed is an error and not an empty rest.\<close>

lemma open_comment_refused:
  assumes "\<not> sublist ''*/'' c"
  shows "scan_ignoring True (''/*'' @ c) = (Parse_Error, [])"
proof -
  have "scan_block_comment c = None"
  proof (cases "scan_block_comment c")
    case (Some r)
    then obtain a where "c = a @ ''*/'' @ r" unfolding scan_block_comment_iff by blast
    then have "sublist ''*/'' c" unfolding sublist_def by blast
    with assms show ?thesis by simp
  qed
  then show ?thesis
    by (subst scan_ignoring.simps) (simp add: is_space_def scan_comment_def)
qed

end
